(* ===== verification/Prelude.thy ===== *)
theory Prelude
  imports Main "HOL-Library.Word" "HOL-Library.Sublist"
begin

text \<open>
  The shared base of the development: how a C++ computation that can throw or run into
  undefined behaviour is written (a sum type and, where the state at the throw matters, a
  state-and-error monad), the theorem collections of the components, and the list lemmas
  several of them use.
\<close>

section \<open>Errors of the C++ program\<close>

text \<open>
  \<open>Exn\<close> is a thrown exception: a \<^verbatim>\<open>catch (const std::exception&)\<close> stops it.
  \<open>UB\<close> is a step the C++ standard leaves undefined (a null \<^verbatim>\<open>shared_ptr\<close> is
  dereferenced, \<^verbatim>\<open>front()\<close> of an empty queue, a write behind the end of a string):
  no handler stops it, and the model goes no further. \<open>Fatal\<close> is a failed \<^verbatim>\<open>RTC_CHECK\<close>, which
  ends the process. \<open>Ill_formed\<close> is an instantiation of a template that a \<^verbatim>\<open>static_assert\<close> rejects: there
  is no such program.
\<close>

datatype cpp_exn =
    OutOfRange     \<comment> \<open>\<^verbatim>\<open>std::out_of_range\<close>\<close>
  | LengthError    \<comment> \<open>\<^verbatim>\<open>std::length_error\<close>\<close>
  | ParseError     \<comment> \<open>\<^verbatim>\<open>nlohmann::json::parse_error\<close>\<close>
  | TypeError      \<comment> \<open>\<^verbatim>\<open>nlohmann::json::type_error\<close>\<close>
  | BadFunctionCall \<comment> \<open>\<^verbatim>\<open>std::bad_function_call\<close>\<close>
  | FutureError    \<comment> \<open>\<^verbatim>\<open>std::future_error\<close>\<close>
  | BadDataflow    \<comment> \<open>\<^verbatim>\<open>boost::archive::iterators::dataflow_exception\<close>\<close>
  | SystemError    \<comment> \<open>\<^verbatim>\<open>std::system_error\<close>\<close>
  | BadAlloc       \<comment> \<open>\<^verbatim>\<open>std::bad_alloc\<close>\<close>

datatype cpp_ub =
    NullDeref      \<comment> \<open>a null pointer is dereferenced\<close>
  | EmptyFront     \<comment> \<open>\<^verbatim>\<open>front()\<close> or \<^verbatim>\<open>pop()\<close> of an empty container\<close>
  | BadWrite       \<comment> \<open>a write outside an object\<close>
  | BadRead        \<comment> \<open>a read outside an object\<close>
  | IntRange       \<comment> \<open>a value outside the range of its integer type\<close>
  | BadShift       \<comment> \<open>a shift by the width of the type or more\<close>
  | DivByZero      \<comment> \<open>an integer division by zero\<close>
  | Dangling       \<comment> \<open>an object is used after its end\<close>

datatype cpp_error = Exn cpp_exn | UB cpp_ub | Fatal | Ill_formed

type_synonym 'a res = "cpp_error + 'a"

definition rbind :: "'a res \<Rightarrow> ('a \<Rightarrow> 'b res) \<Rightarrow> 'b res" where
  "rbind m f = (case m of Inl e \<Rightarrow> Inl e | Inr x \<Rightarrow> f x)"

lemma rbind_simps [simp]:
  "rbind (Inl e) f = Inl e"
  "rbind (Inr x) f = f x"
  by (simp_all add: rbind_def)

lemma rbind_Inr_iff:
  "rbind m f = Inr y \<longleftrightarrow> (\<exists>x. m = Inr x \<and> f x = Inr y)"
  by (cases m) auto

lemma rbind_Inl_iff:
  "rbind m f = Inl e \<longleftrightarrow> m = Inl e \<or> (\<exists>x. m = Inr x \<and> f x = Inl e)"
  by (cases m) auto

lemma rbind_assoc: "rbind (rbind m f) g = rbind m (\<lambda>x. rbind (f x) g)"
  by (cases m) auto

lemma rbind_cong [fundef_cong]:
  "m = m' \<Longrightarrow> (\<And>x. m' = Inr x \<Longrightarrow> f x = f' x) \<Longrightarrow> rbind m f = rbind m' f'"
  by (cases m') auto

text \<open>A loop body run for every element, stopping at the first error.\<close>

fun rmap :: "('a \<Rightarrow> 'b res) \<Rightarrow> 'a list \<Rightarrow> 'b list res" where
  "rmap f [] = Inr []"
| "rmap f (x # xs) = rbind (f x) (\<lambda>y. rbind (rmap f xs) (\<lambda>ys. Inr (y # ys)))"

lemma rmap_length: "rmap f xs = Inr ys \<Longrightarrow> length ys = length xs"
  by (induction xs arbitrary: ys) (auto simp: rbind_Inr_iff)

lemma rmap_Inr_nth:
  "rmap f xs = Inr ys \<Longrightarrow> i < length xs \<Longrightarrow> f (xs ! i) = Inr (ys ! i)"
  by (induction xs arbitrary: ys i) (auto simp: rbind_Inr_iff nth_Cons split: nat.splits)

lemma rmap_all_Inr:
  "(\<And>x. x \<in> set xs \<Longrightarrow> f x = Inr (g x)) \<Longrightarrow> rmap f xs = Inr (map g xs)"
  by (induction xs) auto

section \<open>State and errors\<close>

text \<open>
  A member function that can throw half way leaves behind what it wrote before the throw.
  Its model takes the object's state and returns the outcome together with the state.
\<close>

type_synonym ('s, 'a) stm = "'s \<Rightarrow> 'a res \<times> 's"

definition sret :: "'a \<Rightarrow> ('s, 'a) stm" where
  "sret x s = (Inr x, s)"

definition sbind :: "('s, 'a) stm \<Rightarrow> ('a \<Rightarrow> ('s, 'b) stm) \<Rightarrow> ('s, 'b) stm" where
  "sbind m f s = (case m s of (Inl e, s') \<Rightarrow> (Inl e, s') | (Inr x, s') \<Rightarrow> f x s')"

definition slift :: "'a res \<Rightarrow> ('s, 'a) stm" where
  "slift m s = (m, s)"

definition smodify :: "('s \<Rightarrow> 's) \<Rightarrow> ('s, unit) stm" where
  "smodify g s = (Inr (), g s)"

text \<open>\<^verbatim>\<open>try { m } catch (const std::exception&) { h }\<close>.\<close>

definition scatch :: "('s, 'a) stm \<Rightarrow> ('s, 'a) stm \<Rightarrow> ('s, 'a) stm" where
  "scatch m h s = (case m s of (Inl (Exn _), s') \<Rightarrow> h s' | r \<Rightarrow> r)"

lemma stm_simps [simp]:
  "sret x s = (Inr x, s)"
  "slift m s = (m, s)"
  "smodify g s = (Inr (), g s)"
  by (simp_all add: sret_def slift_def smodify_def)

lemma sbind_simps [simp]:
  "m s = (Inl e, s') \<Longrightarrow> sbind m f s = (Inl e, s')"
  "m s = (Inr x, s') \<Longrightarrow> sbind m f s = f x s'"
  by (simp_all add: sbind_def)

lemma sbind_slift [simp]:
  "sbind (slift (Inl e)) f s = (Inl e, s)"
  "sbind (slift (Inr x)) f s = f x s"
  "sbind (smodify g) h s = h () (g s)"
  "sbind (sret y) k s = k y s"
  by (simp_all add: sbind_def)

lemma sbind_cases:
  assumes "sbind m f s = (r, t)"
  obtains (err) e where "m s = (Inl e, t)" "r = Inl e"
        | (ok) x s' where "m s = (Inr x, s')" "f x s' = (r, t)"
  using assms by (cases "m s") (auto simp: sbind_def split: sum.splits)

text \<open>An invariant of the state that every part of a computation keeps.\<close>

definition skeeps :: "('s \<Rightarrow> bool) \<Rightarrow> ('s, 'a) stm \<Rightarrow> bool" where
  "skeeps I m \<longleftrightarrow> (\<forall>s. I s \<longrightarrow> I (snd (m s)))"

named_theorems keeps_intros

lemma skeepsD: "skeeps I m \<Longrightarrow> I s \<Longrightarrow> m s = (r, t) \<Longrightarrow> I t"
  by (metis skeeps_def snd_conv)

lemma skeeps_sret [keeps_intros]: "skeeps I (sret x)"
  by (simp add: skeeps_def)

lemma skeeps_slift [keeps_intros]: "skeeps I (slift m)"
  by (simp add: skeeps_def)

lemma skeeps_smodify [keeps_intros]: "(\<And>s. I s \<Longrightarrow> I (g s)) \<Longrightarrow> skeeps I (smodify g)"
  by (simp add: skeeps_def)

lemma skeeps_sbind [keeps_intros]:
  "skeeps I m \<Longrightarrow> (\<And>x. skeeps I (f x)) \<Longrightarrow> skeeps I (sbind m f)"
  by (fastforce simp: skeeps_def sbind_def split: prod.splits sum.splits)

lemma skeeps_scatch [keeps_intros]:
  "skeeps I m \<Longrightarrow> skeeps I h \<Longrightarrow> skeeps I (scatch m h)"
  by (fastforce simp: skeeps_def scatch_def split: prod.splits sum.splits cpp_error.splits)

lemma skeeps_if [keeps_intros]:
  "skeeps I m \<Longrightarrow> skeeps I n \<Longrightarrow> skeeps I (if c then m else n)"
  by simp

lemma skeeps_foldl:
  assumes "skeeps I m" "\<And>x. skeeps I (f x)"
  shows "skeeps I (foldl (\<lambda>m x. sbind m (\<lambda>_. f x)) m xs)"
  using assms(1) by (induction xs arbitrary: m) (simp_all add: assms(2) skeeps_sbind)

text \<open>Computations that throw nothing, whatever the state (they may be undefined).\<close>

definition nothrow :: "('s, 'a) stm \<Rightarrow> bool" where
  "nothrow m \<longleftrightarrow> (\<forall>s e. fst (m s) \<noteq> Inl (Exn e))"

named_theorems nothrow_intros

lemma nothrowD: "nothrow m \<Longrightarrow> m s = (Inl (Exn e), t) \<Longrightarrow> False"
  by (metis nothrow_def fst_conv)

lemma nothrow_pure [nothrow_intros]: "nothrow (sret x)" "nothrow (smodify g)"
  by (simp_all add: nothrow_def)

lemma nothrow_slift [nothrow_intros]: "(\<And>e. r \<noteq> Inl (Exn e)) \<Longrightarrow> nothrow (slift r)"
  by (simp add: nothrow_def)

lemma nothrow_sbind [nothrow_intros]:
  assumes "nothrow m" "\<And>x. nothrow (f x)"
  shows "nothrow (sbind m f)"
proof -
  have "fst (sbind m f s) \<noteq> Inl (Exn e)" for s e
  proof (cases "m s")
    case (Pair r t)
    then show ?thesis using assms nothrowD by (cases r) (auto simp: nothrow_def)
  qed
  then show ?thesis by (simp add: nothrow_def)
qed

lemma nothrow_if [nothrow_intros]: "nothrow m \<Longrightarrow> nothrow n \<Longrightarrow> nothrow (if c then m else n)"
  by simp

lemma nothrow_foldl:
  assumes "nothrow m" "\<And>x. x \<in> set xs \<Longrightarrow> nothrow (f x)"
  shows "nothrow (foldl (\<lambda>m x. sbind m (\<lambda>_. f x)) m xs)"
  using assms by (induction xs arbitrary: m) (simp_all add: nothrow_sbind)

text \<open>
  Triples: from a state with \<open>P\<close>, a normal end gives \<open>Q\<close> and an error leaves a state with \<open>E\<close>.
\<close>

definition valid :: "('s \<Rightarrow> bool) \<Rightarrow> ('s, 'a) stm \<Rightarrow> ('a \<Rightarrow> 's \<Rightarrow> bool) \<Rightarrow> ('s \<Rightarrow> bool) \<Rightarrow> bool" where
  "valid P m Q E \<longleftrightarrow> (\<forall>s. P s \<longrightarrow> (case m s of (Inr x, t) \<Rightarrow> Q x t | (Inl e, t) \<Rightarrow> E t))"

named_theorems valid_intros

lemma validI:
  "(\<And>s x t. P s \<Longrightarrow> m s = (Inr x, t) \<Longrightarrow> Q x t) \<Longrightarrow> (\<And>s e t. P s \<Longrightarrow> m s = (Inl e, t) \<Longrightarrow> E t) \<Longrightarrow> valid P m Q E"
  by (auto simp: valid_def split: prod.split sum.split)

lemma validD: "valid P m Q E \<Longrightarrow> P s \<Longrightarrow> m s = (r, t) \<Longrightarrow> (case r of Inr x \<Rightarrow> Q x t | Inl e \<Rightarrow> E t)"
  by (fastforce simp: valid_def split: sum.split)

lemma valid_sbind [valid_intros]:
  "valid P m R E \<Longrightarrow> (\<And>x. valid (R x) (f x) Q E) \<Longrightarrow> valid P (sbind m f) Q E"
  by (fastforce simp: valid_def sbind_def split: prod.splits sum.splits)

lemma valid_scatch [valid_intros]:
  assumes "valid P m Q F" "valid F h Q E" "\<And>s. F s \<Longrightarrow> E s"
  shows "valid P (scatch m h) Q E"
  using assms by (fastforce simp: valid_def scatch_def split: prod.splits sum.splits cpp_error.splits)

lemma valid_if [valid_intros]: "valid P m Q E \<Longrightarrow> valid P n Q E \<Longrightarrow> valid P (if c then m else n) Q E"
  by simp

lemma valid_skeeps: "skeeps I m \<Longrightarrow> (\<And>s. I s \<Longrightarrow> E s) \<Longrightarrow> valid I m (\<lambda>_. I) E"
  by (fastforce simp: valid_def skeeps_def split: prod.splits sum.splits)

lemma valid_state: "(\<And>s. valid P (f s) Q E) \<Longrightarrow> valid P (\<lambda>s. f s s) Q E"
  by (simp add: valid_def)

lemma valid_pre: "valid P m Q E \<Longrightarrow> (\<And>s. P' s \<Longrightarrow> P s) \<Longrightarrow> valid P' m Q E"
  by (simp add: valid_def)

section \<open>Machine integers\<close>

type_synonym uint64 = "64 word"

text \<open>Conversion of an \<^verbatim>\<open>int\<close> to \<^verbatim>\<open>int16_t\<close>: the low 16 bits, read as two's complement.\<close>

definition to_int16 :: "int \<Rightarrow> int" where
  "to_int16 x = sint (word_of_int x :: 16 word)"

lemma to_int16_id: "- 32768 \<le> x \<Longrightarrow> x \<le> 32767 \<Longrightarrow> to_int16 x = x"
  by (simp add: to_int16_def sint_sbintrunc' signed_take_bit_int_eq_self)

lemma to_int16_range: "- 32768 \<le> to_int16 x \<and> to_int16 x \<le> 32767"
  using sint_ge [of "word_of_int x :: 16 word"] sint_lt [of "word_of_int x :: 16 word"]
  by (simp add: to_int16_def)

definition int32_min :: int where "int32_min = - (2 ^ 31)"
definition int32_max :: int where "int32_max = 2 ^ 31 - 1"

section \<open>Transition systems\<close>

text \<open>
  The contract of a step relation with an invariant, which the event loops, the threads and the
  rooms of the components provide: what holds of all runs, and how a run reaches a goal
  by steps that lower a rank and keep \<open>P\<close>.
\<close>

locale transition_system =
  fixes step :: "'s \<Rightarrow> 's \<Rightarrow> bool" and invar :: "'s \<Rightarrow> bool"
  assumes invar_step: "step s t \<Longrightarrow> invar s \<Longrightarrow> invar t"
begin

lemma invar_reach: "step\<^sup>*\<^sup>* s t \<Longrightarrow> invar s \<Longrightarrow> invar t"
  by (induction rule: rtranclp_induct) (auto intro: invar_step)

lemma stable_reach:
  assumes "step\<^sup>*\<^sup>* s t" "invar s" "P s" "\<And>s t. step s t \<Longrightarrow> invar s \<Longrightarrow> P s \<Longrightarrow> P t"
  shows "P t"
  using assms(1-3) by (induction rule: rtranclp_induct) (auto intro: assms(4) invar_reach)

lemma reaches:
  assumes "invar s" "P s"
    and "\<And>s. invar s \<Longrightarrow> P s \<Longrightarrow> \<not> goal s \<Longrightarrow> \<exists>t. step s t \<and> P t \<and> rank t < (rank s :: nat)"
  shows "\<exists>t. step\<^sup>*\<^sup>* s t \<and> invar t \<and> P t \<and> goal t"
  using assms(1,2)
proof (induction "rank s" arbitrary: s rule: less_induct)
  case less
  show ?case
  proof (cases "goal s")
    case False
    with assms(3) less.prems obtain t where t: "step s t" "P t" "rank t < rank s" by blast
    with less.hyps less.prems invar_step obtain u where "step\<^sup>*\<^sup>* t u" "invar u \<and> P u \<and> goal u" by blast
    with t(1) show ?thesis by (meson converse_rtranclp_into_rtranclp)
  qed (use less.prems in blast)
qed

end

section \<open>Lists\<close>

lemma takeWhile_append_stop: "(\<forall>x \<in> set xs. P x) \<Longrightarrow> \<not> P y \<Longrightarrow> takeWhile P (xs @ y # ys) = xs"
  by (induction xs) auto

lemma dropWhile_append_stop: "(\<forall>x \<in> set xs. P x) \<Longrightarrow> \<not> P y \<Longrightarrow> dropWhile P (xs @ y # ys) = y # ys"
  by (induction xs) auto

lemma dropWhile_hd_id: "xs = [] \<or> \<not> P (hd xs) \<Longrightarrow> dropWhile P xs = xs"
  by (cases xs) auto

end
