(* ===== verification/Byte_Io.thy ===== *)
theory Byte_Io
  imports Prelude
begin

text \<open>
  \<^verbatim>\<open>third/webrtc/include/modules/rtp_rtcp/source/byte_io.h\<close>: reading and writing integers of \<open>B\<close> bytes in
  big and little endian order, the general templates and their specializations. An integer of type
  \<^verbatim>\<open>T\<close> or \<^verbatim>\<open>U\<close> is a word of its width; a signed one is read by \<^const>\<open>sint\<close>. The bytes a
  pointer points to are a list.
\<close>

unbundle bit_operations_syntax

section \<open>Memory\<close>

type_synonym byte = "8 word"

definition sizeof :: "'a :: len itself \<Rightarrow> nat" where
  "sizeof T = LENGTH('a) div 8"

definition byte_at :: "byte list \<Rightarrow> nat \<Rightarrow> byte res" where
  "byte_at data i = (if i < length data then Inr (data ! i) else Inl (UB BadRead))"

definition put_byte :: "nat \<Rightarrow> byte \<Rightarrow> byte list \<Rightarrow> byte list res" where
  "put_byte i v data = (if i < length data then Inr (data[i := v]) else Inl (UB BadWrite))"

text \<open>A function whose first statement is a \<^verbatim>\<open>static_assert\<close>.\<close>

definition static_assert :: "bool \<Rightarrow> 'b res \<Rightarrow> 'b res" where
  "static_assert c body = (if c then body else Inl Ill_formed)"

section \<open>Unsigned integers\<close>

text \<open>The bodies of the loops of the general templates, with the shift each index has.\<close>

fun read_loop :: "(nat \<Rightarrow> nat) \<Rightarrow> byte list \<Rightarrow> nat list \<Rightarrow> 'a :: len word \<Rightarrow> 'a word res" where
  "read_loop shift data [] val = Inr val"
| "read_loop shift data (i # is) val =
     rbind (byte_at data i) (\<lambda>b. read_loop shift data is (val OR push_bit (shift i) (ucast b)))"

fun write_loop :: "(nat \<Rightarrow> nat) \<Rightarrow> 'a :: len word \<Rightarrow> nat list \<Rightarrow> byte list \<Rightarrow> byte list res" where
  "write_loop shift val [] data = Inr data"
| "write_loop shift val (i # is) data = rbind (put_byte i (ucast (drop_bit (shift i) val)) data) (write_loop shift val is)"

definition InternalReadBigEndian :: "nat \<Rightarrow> byte list \<Rightarrow> 'a :: len word res" where
  "InternalReadBigEndian B data = read_loop (\<lambda>i. (B - 1 - i) * 8) data [0..<B] 0"

definition InternalReadLittleEndian :: "nat \<Rightarrow> byte list \<Rightarrow> 'a :: len word res" where
  "InternalReadLittleEndian B data = read_loop (\<lambda>i. i * 8) data [0..<B] 0"

definition WriteBigEndian_loop :: "nat \<Rightarrow> byte list \<Rightarrow> 'a :: len word \<Rightarrow> byte list res" where
  "WriteBigEndian_loop B data val =
     static_assert (B \<le> sizeof TYPE('a)) (write_loop (\<lambda>i. (B - 1 - i) * 8) val [0..<B] data)"

definition WriteLittleEndian_loop :: "nat \<Rightarrow> byte list \<Rightarrow> 'a :: len word \<Rightarrow> byte list res" where
  "WriteLittleEndian_loop B data val =
     static_assert (B \<le> sizeof TYPE('a)) (write_loop (\<lambda>i. i * 8) val [0..<B] data)"

text \<open>The specializations for one, two, four and eight bytes.\<close>

definition Read_1 :: "byte list \<Rightarrow> 'a :: len word res" where
  "Read_1 data = static_assert (sizeof TYPE('a) = 1) (rbind (byte_at data 0) (\<lambda>b. Inr (ucast b)))"

definition ReadBigEndian_2 :: "byte list \<Rightarrow> 'a :: len word res" where
  "ReadBigEndian_2 data =
     static_assert (2 \<le> sizeof TYPE('a)) (rbind (byte_at data 0) (\<lambda>b0. rbind (byte_at data 1) (\<lambda>b1.
     Inr (ucast (push_bit 8 (ucast b0) OR ucast b1 :: 32 word)))))"

definition ReadLittleEndian_2 :: "byte list \<Rightarrow> 'a :: len word res" where
  "ReadLittleEndian_2 data =
     static_assert (2 \<le> sizeof TYPE('a)) (rbind (byte_at data 0) (\<lambda>b0. rbind (byte_at data 1) (\<lambda>b1.
     Inr (ucast (ucast b0 OR push_bit 8 (ucast b1) :: 32 word)))))"

definition Get :: "byte list \<Rightarrow> nat \<Rightarrow> 'a :: len word res" where
  "Get data index = rbind (byte_at data index) (\<lambda>b. Inr (ucast b))"

definition ReadBigEndian_4 :: "byte list \<Rightarrow> 'a :: len word res" where
  "ReadBigEndian_4 data =
     static_assert (4 \<le> sizeof TYPE('a))
     (rbind (Get data 0) (\<lambda>b0. rbind (Get data 1) (\<lambda>b1. rbind (Get data 2) (\<lambda>b2. rbind (Get data 3) (\<lambda>b3.
     Inr (push_bit 24 b0 OR push_bit 16 b1 OR push_bit 8 b2 OR b3))))))"

definition ReadLittleEndian_4 :: "byte list \<Rightarrow> 'a :: len word res" where
  "ReadLittleEndian_4 data =
     static_assert (4 \<le> sizeof TYPE('a))
     (rbind (Get data 0) (\<lambda>b0. rbind (Get data 1) (\<lambda>b1. rbind (Get data 2) (\<lambda>b2. rbind (Get data 3) (\<lambda>b3.
     Inr (b0 OR push_bit 8 b1 OR push_bit 16 b2 OR push_bit 24 b3))))))"

definition ReadBigEndian_8 :: "byte list \<Rightarrow> 'a :: len word res" where
  "ReadBigEndian_8 data =
     static_assert (8 \<le> sizeof TYPE('a))
     (rbind (Get data 0) (\<lambda>b0. rbind (Get data 1) (\<lambda>b1. rbind (Get data 2) (\<lambda>b2. rbind (Get data 3) (\<lambda>b3.
     rbind (Get data 4) (\<lambda>b4. rbind (Get data 5) (\<lambda>b5. rbind (Get data 6) (\<lambda>b6. rbind (Get data 7) (\<lambda>b7.
     Inr (push_bit 56 b0 OR push_bit 48 b1 OR push_bit 40 b2 OR push_bit 32 b3 OR push_bit 24 b4 OR
       push_bit 16 b5 OR push_bit 8 b6 OR b7))))))))))"

definition ReadLittleEndian_8 :: "byte list \<Rightarrow> 'a :: len word res" where
  "ReadLittleEndian_8 data =
     static_assert (8 \<le> sizeof TYPE('a))
     (rbind (Get data 0) (\<lambda>b0. rbind (Get data 1) (\<lambda>b1. rbind (Get data 2) (\<lambda>b2. rbind (Get data 3) (\<lambda>b3.
     rbind (Get data 4) (\<lambda>b4. rbind (Get data 5) (\<lambda>b5. rbind (Get data 6) (\<lambda>b6. rbind (Get data 7) (\<lambda>b7.
     Inr (b0 OR push_bit 8 b1 OR push_bit 16 b2 OR push_bit 24 b3 OR push_bit 32 b4 OR
       push_bit 40 b5 OR push_bit 48 b6 OR push_bit 56 b7))))))))))"

text \<open>Assignments to \<^verbatim>\<open>data[0]\<close>, \<^verbatim>\<open>data[1]\<close> and so on of the value shifted right.\<close>

fun put_bytes :: "(nat \<times> nat) list \<Rightarrow> 'a :: len word \<Rightarrow> byte list \<Rightarrow> byte list res" where
  "put_bytes [] val data = Inr data"
| "put_bytes ((i, n) # is) val data = rbind (put_byte i (ucast (drop_bit n val)) data) (put_bytes is val)"

definition Write_1 :: "byte list \<Rightarrow> 'a :: len word \<Rightarrow> byte list res" where
  "Write_1 data val = static_assert (sizeof TYPE('a) = 1) (put_bytes [(0, 0)] val data)"

definition WriteBigEndian_2 :: "byte list \<Rightarrow> 'a :: len word \<Rightarrow> byte list res" where
  "WriteBigEndian_2 data val = static_assert (2 \<le> sizeof TYPE('a)) (put_bytes [(0, 8), (1, 0)] val data)"

definition WriteLittleEndian_2 :: "byte list \<Rightarrow> 'a :: len word \<Rightarrow> byte list res" where
  "WriteLittleEndian_2 data val = static_assert (2 \<le> sizeof TYPE('a)) (put_bytes [(0, 0), (1, 8)] val data)"

definition WriteBigEndian_4 :: "byte list \<Rightarrow> 'a :: len word \<Rightarrow> byte list res" where
  "WriteBigEndian_4 data val = static_assert (4 \<le> sizeof TYPE('a)) (put_bytes [(0, 24), (1, 16), (2, 8), (3, 0)] val data)"

definition WriteLittleEndian_4 :: "byte list \<Rightarrow> 'a :: len word \<Rightarrow> byte list res" where
  "WriteLittleEndian_4 data val = static_assert (4 \<le> sizeof TYPE('a)) (put_bytes [(0, 0), (1, 8), (2, 16), (3, 24)] val data)"

definition WriteBigEndian_8 :: "byte list \<Rightarrow> 'a :: len word \<Rightarrow> byte list res" where
  "WriteBigEndian_8 data val =
     static_assert (8 \<le> sizeof TYPE('a))
     (put_bytes [(0, 56), (1, 48), (2, 40), (3, 32), (4, 24), (5, 16), (6, 8), (7, 0)] val data)"

definition WriteLittleEndian_8 :: "byte list \<Rightarrow> 'a :: len word \<Rightarrow> byte list res" where
  "WriteLittleEndian_8 data val =
     static_assert (8 \<le> sizeof TYPE('a))
     (put_bytes [(0, 0), (1, 8), (2, 16), (3, 24), (4, 32), (5, 40), (6, 48), (7, 56)] val data)"

text \<open>What a use of the templates with \<open>B\<close> bytes runs.\<close>

definition ReadBigEndian :: "nat \<Rightarrow> byte list \<Rightarrow> 'a :: len word res" where
  "ReadBigEndian B data =
     (if B = 1 then Read_1 data else if B = 2 then ReadBigEndian_2 data else if B = 4 then ReadBigEndian_4 data
      else if B = 8 then ReadBigEndian_8 data else static_assert (B \<le> sizeof TYPE('a)) (InternalReadBigEndian B data))"

definition ReadLittleEndian :: "nat \<Rightarrow> byte list \<Rightarrow> 'a :: len word res" where
  "ReadLittleEndian B data =
     (if B = 1 then Read_1 data else if B = 2 then ReadLittleEndian_2 data else if B = 4 then ReadLittleEndian_4 data
      else if B = 8 then ReadLittleEndian_8 data else static_assert (B \<le> sizeof TYPE('a)) (InternalReadLittleEndian B data))"

definition WriteBigEndian :: "nat \<Rightarrow> byte list \<Rightarrow> 'a :: len word \<Rightarrow> byte list res" where
  "WriteBigEndian B data val =
     (if B = 1 then Write_1 data val else if B = 2 then WriteBigEndian_2 data val else if B = 4 then WriteBigEndian_4 data val
      else if B = 8 then WriteBigEndian_8 data val else WriteBigEndian_loop B data val)"

definition WriteLittleEndian :: "nat \<Rightarrow> byte list \<Rightarrow> 'a :: len word \<Rightarrow> byte list res" where
  "WriteLittleEndian B data val =
     (if B = 1 then Write_1 data val else if B = 2 then WriteLittleEndian_2 data val else if B = 4 then WriteLittleEndian_4 data val
      else if B = 8 then WriteLittleEndian_8 data val else WriteLittleEndian_loop B data val)"

text \<open>The numbers of bytes the \<^verbatim>\<open>static_assert\<close>s accept for a type.\<close>

definition accepted :: "nat \<Rightarrow> 'a :: len itself \<Rightarrow> bool" where
  "accepted B T \<longleftrightarrow> (if B = 1 then sizeof T = 1 else B \<le> sizeof T)"

section \<open>Signed integers\<close>

definition ReinterpretAsSigned :: "'a :: len word \<Rightarrow> 'a word" where
  "ReinterpretAsSigned unsigned_val =
     (let kUnsignedHighestBitMask = push_bit (sizeof TYPE('a) * 8 - 1) 1;
          kSignedHighestBitMask = word_of_int (- (2 ^ (LENGTH('a) - 1))) in
      if unsigned_val AND kUnsignedHighestBitMask \<noteq> 0
      then (unsigned_val AND NOT kUnsignedHighestBitMask) OR kSignedHighestBitMask
      else unsigned_val)"

text \<open>\<^verbatim>\<open>1 << n\<close>, of type \<^verbatim>\<open>int\<close>.\<close>

definition int_shl_1 :: "nat \<Rightarrow> 32 word res" where
  "int_shl_1 n = (if n < 32 then Inr (push_bit n 1) else Inl (UB BadShift))"

definition SignExtend :: "nat \<Rightarrow> 'a :: len word \<Rightarrow> 'a word res" where
  "SignExtend B val =
     (let kMsb = (ucast (drop_bit ((B - 1) * 8) val) :: byte) in
      if kMsb AND 0x80 \<noteq> 0
      then rbind (int_shl_1 ((B mod sizeof TYPE('a)) * 8)) (\<lambda>m.
           let kUsedBitsMask = scast (m - 1) in Inr (NOT kUsedBitsMask OR val))
      else Inr val)"

definition ReadBigEndian_signed :: "nat \<Rightarrow> byte list \<Rightarrow> 'a :: len word res" where
  "ReadBigEndian_signed B data =
     rbind (ReadBigEndian B data) (\<lambda>unsigned_val.
     rbind (if B < sizeof TYPE('a) then SignExtend B unsigned_val else Inr unsigned_val) (\<lambda>unsigned_val.
     Inr (ReinterpretAsSigned unsigned_val)))"

definition ReadLittleEndian_signed :: "nat \<Rightarrow> byte list \<Rightarrow> 'a :: len word res" where
  "ReadLittleEndian_signed B data =
     rbind (ReadLittleEndian B data) (\<lambda>unsigned_val.
     rbind (if B < sizeof TYPE('a) then SignExtend B unsigned_val else Inr unsigned_val) (\<lambda>unsigned_val.
     Inr (ReinterpretAsSigned unsigned_val)))"

definition ReinterpretAsUnsigned :: "'a :: len word \<Rightarrow> 'a word" where
  "ReinterpretAsUnsigned val = word_of_int (sint val)"

definition WriteBigEndian_signed :: "nat \<Rightarrow> byte list \<Rightarrow> 'a :: len word \<Rightarrow> byte list res" where
  "WriteBigEndian_signed B data val = WriteBigEndian B data (ReinterpretAsUnsigned val)"

definition WriteLittleEndian_signed :: "nat \<Rightarrow> byte list \<Rightarrow> 'a :: len word \<Rightarrow> byte list res" where
  "WriteLittleEndian_signed B data val = WriteLittleEndian B data (ReinterpretAsUnsigned val)"

section \<open>The specializations do what the loops do\<close>

lemma upts:
  "[0..<1] = [0]" "[0..<2] = [0, 1]" "[0..<4] = [0, 1, 2, 3]" "[0..<8] = [0, 1, 2, 3, 4, 5, 6, 7]"
  by code_simp+

lemma specialized_reads:
  "Read_1 data = static_assert (sizeof TYPE('a) = 1) (InternalReadBigEndian 1 data :: 'a :: len word res)"
  "Read_1 data = static_assert (sizeof TYPE('a) = 1) (InternalReadLittleEndian 1 data :: 'a word res)"
  "ReadBigEndian_4 data = static_assert (4 \<le> sizeof TYPE('a)) (InternalReadBigEndian 4 data :: 'a word res)"
  "ReadLittleEndian_4 data = static_assert (4 \<le> sizeof TYPE('a)) (InternalReadLittleEndian 4 data :: 'a word res)"
  "ReadBigEndian_8 data = static_assert (8 \<le> sizeof TYPE('a)) (InternalReadBigEndian 8 data :: 'a word res)"
  "ReadLittleEndian_8 data = static_assert (8 \<le> sizeof TYPE('a)) (InternalReadLittleEndian 8 data :: 'a word res)"
  unfolding Read_1_def InternalReadBigEndian_def InternalReadLittleEndian_def Get_def ReadBigEndian_4_def ReadLittleEndian_4_def
    ReadBigEndian_8_def ReadLittleEndian_8_def upts
  by (simp_all add: rbind_assoc or.assoc)

lemma write_loop_put: "write_loop shift val is data = put_bytes (map (\<lambda>i. (i, shift i)) is) val data"
  by (induction "is" arbitrary: data) (auto intro: rbind_cong)

lemma specialized_writes:
  "Write_1 data val = static_assert (sizeof TYPE('a) = 1) (write_loop (\<lambda>i. (1 - 1 - i) * 8) (val :: 'a :: len word) [0..<1] data)"
  "Write_1 data val = static_assert (sizeof TYPE('a) = 1) (write_loop (\<lambda>i. i * 8) (val :: 'a word) [0..<1] data)"
  "WriteBigEndian_2 data val = WriteBigEndian_loop 2 data val" "WriteLittleEndian_2 data val = WriteLittleEndian_loop 2 data val"
  "WriteBigEndian_4 data val = WriteBigEndian_loop 4 data val" "WriteLittleEndian_4 data val = WriteLittleEndian_loop 4 data val"
  "WriteBigEndian_8 data val = WriteBigEndian_loop 8 data val" "WriteLittleEndian_8 data val = WriteLittleEndian_loop 8 data val"
  unfolding Write_1_def WriteBigEndian_loop_def WriteLittleEndian_loop_def WriteBigEndian_2_def WriteLittleEndian_2_def
    WriteBigEndian_4_def WriteLittleEndian_4_def WriteBigEndian_8_def WriteLittleEndian_8_def write_loop_put upts
  by simp_all

text \<open>The one for two bytes computes in \<^verbatim>\<open>int\<close>.\<close>

lemma specialized_reads_2:
  "ReadBigEndian_2 data = static_assert (2 \<le> sizeof TYPE('a)) (InternalReadBigEndian 2 data :: 'a :: len word res)"
  "ReadLittleEndian_2 data = static_assert (2 \<le> sizeof TYPE('a)) (InternalReadLittleEndian 2 data :: 'a word res)"
proof -
  have "ucast (push_bit 8 (ucast a) OR ucast b :: 32 word) = (push_bit 8 (ucast a) OR ucast b :: 'a word)" for a b :: byte
    by (rule bit_word_eqI) (auto simp: bit_simps dest: bit_imp_le_length)
  moreover have "ucast (ucast a OR push_bit 8 (ucast b) :: 32 word) = (ucast a OR push_bit 8 (ucast b) :: 'a word)" for a b :: byte
    by (rule bit_word_eqI) (auto simp: bit_simps dest: bit_imp_le_length)
  ultimately show "ReadBigEndian_2 data = static_assert (2 \<le> sizeof TYPE('a)) (InternalReadBigEndian 2 data :: 'a word res)"
    "ReadLittleEndian_2 data = static_assert (2 \<le> sizeof TYPE('a)) (InternalReadLittleEndian 2 data :: 'a word res)"
    unfolding ReadBigEndian_2_def ReadLittleEndian_2_def InternalReadBigEndian_def InternalReadLittleEndian_def upts
    by simp_all
qed

lemma specializations:
  fixes val :: "'a :: len word"
  shows "ReadBigEndian B data = static_assert (accepted B TYPE('a)) (InternalReadBigEndian B data :: 'a word res)"
    "ReadLittleEndian B data = static_assert (accepted B TYPE('a)) (InternalReadLittleEndian B data :: 'a word res)"
    "WriteBigEndian B data val = static_assert (accepted B TYPE('a)) (write_loop (\<lambda>i. (B - 1 - i) * 8) val [0..<B] data)"
    "WriteLittleEndian B data val = static_assert (accepted B TYPE('a)) (write_loop (\<lambda>i. i * 8) val [0..<B] data)"
proof -
  consider "B = 1" | "B = 2" | "B = 4" | "B = 8" | "B \<notin> {1, 2, 4, 8}" by blast
  note which = this
  show "ReadBigEndian B data = static_assert (accepted B TYPE('a)) (InternalReadBigEndian B data :: 'a word res)"
    by (cases rule: which)
      (simp_all only: ReadBigEndian_def specialized_reads(1,3,5) specialized_reads_2(1), simp_all add: accepted_def)
  show "ReadLittleEndian B data = static_assert (accepted B TYPE('a)) (InternalReadLittleEndian B data :: 'a word res)"
    by (cases rule: which)
      (simp_all only: ReadLittleEndian_def specialized_reads(2,4,6) specialized_reads_2(2), simp_all add: accepted_def)
  show "WriteBigEndian B data val = static_assert (accepted B TYPE('a)) (write_loop (\<lambda>i. (B - 1 - i) * 8) val [0..<B] data)"
    by (cases rule: which)
      (simp_all only: WriteBigEndian_def specialized_writes(1,3,5,7), simp_all add: accepted_def WriteBigEndian_loop_def)
  show "WriteLittleEndian B data val = static_assert (accepted B TYPE('a)) (write_loop (\<lambda>i. i * 8) val [0..<B] data)"
    by (cases rule: which)
      (simp_all only: WriteLittleEndian_def specialized_writes(2,4,6,8), simp_all add: accepted_def WriteLittleEndian_loop_def)
qed

lemma accepted_run [simp]: "accepted B T \<Longrightarrow> static_assert (accepted B T) body = body"
  by (simp add: static_assert_def)

lemma accepted_bits: "accepted B TYPE('a :: len) \<Longrightarrow> B * 8 \<le> LENGTH('a)"
  by (auto simp: accepted_def sizeof_def split: if_splits)

lemma accepted_sizeof [simp]: "accepted (sizeof T) T"
  by (simp add: accepted_def)

section \<open>What is read and written\<close>

text \<open>
  A byte order gives each index of the \<open>B\<close> bytes its place in the number. What holds for both orders
  is proved for any such layout.
\<close>

locale byte_layout =
  fixes place :: "nat \<Rightarrow> nat \<Rightarrow> nat"
  assumes place_bij: "bij_betw (place B) {..<B} {..<B}"
begin

definition layout :: "nat \<Rightarrow> 'a :: len word \<Rightarrow> byte list" where
  "layout B val = map (\<lambda>i. ucast (drop_bit (place B i * 8) val)) [0..<B]"

lemma layout_length [simp]: "length (layout B val) = B"
  by (simp add: layout_def)

lemma place_less: "i < B \<Longrightarrow> place B i < B"
  using place_bij [of B] by (auto simp: bij_betw_def)

lemma place_inj: "i < B \<Longrightarrow> j < B \<Longrightarrow> place B i = place B j \<longleftrightarrow> i = j"
  using place_bij [of B] by (auto simp: bij_betw_def inj_on_def)

lemma place_at:
  assumes "n < B"
  obtains i where "i < B" "place B i = n"
proof -
  have "n \<in> place B ` {..<B}" using place_bij [of B] assms by (simp add: bij_betw_def)
  then show ?thesis using that by blast
qed

lemma bit_at_place:
  assumes "i < B"
  shows "place B i * 8 \<le> n \<and> n - place B i * 8 < 8 \<longleftrightarrow> n div 8 = place B i"
  by auto

end

lemma read_loop_ok:
  assumes "\<And>i. i \<in> set is \<Longrightarrow> i < length data"
  shows "\<exists>v :: 'a :: len word. read_loop shift data is val = Inr v \<and>
    (\<forall>n < LENGTH('a). bit v n \<longleftrightarrow> bit val n \<or> (\<exists>i \<in> set is. bit (push_bit (shift i) (ucast (data ! i)) :: 'a word) n))"
  using assms
proof (induction "is" arbitrary: val)
  case (Cons i "is")
  from Cons.IH [of "val OR push_bit (shift i) (ucast (data ! i))"] Cons.prems show ?case
    by (auto simp: byte_at_def bit_or_iff)
qed simp

lemma write_loop_ok:
  assumes "n \<le> length data"
  shows "write_loop shift val [k..<n] data =
    Inr (take k data @ map (\<lambda>i. ucast (drop_bit (shift i) val)) [k..<n] @ drop (max k n) data)"
  using assms
proof (induction "n - k" arbitrary: k data)
  case (Suc m)
  then have "k < n" by simp
  then have "write_loop shift val [k..<n] data = write_loop shift val [Suc k..<n] (data[k := ucast (drop_bit (shift k) val)])"
    using Suc.prems by (simp add: upt_conv_Cons put_byte_def)
  also have "\<dots> = Inr (take (Suc k) (data[k := ucast (drop_bit (shift k) val)]) @
      map (\<lambda>i. ucast (drop_bit (shift i) val)) [Suc k..<n] @ drop n data)"
    using Suc.hyps(1) [of "Suc k" "data[k := ucast (drop_bit (shift k) val)]"] Suc.hyps(2) Suc.prems \<open>k < n\<close>
    by (simp add: max_def Suc_leI)
  also have "\<dots> = Inr (take k data @ map (\<lambda>i. ucast (drop_bit (shift i) val)) [k..<n] @ drop (max k n) data)"
    using \<open>k < n\<close> Suc.prems by (simp add: upt_conv_Cons take_Suc_conv_app_nth max_def)
  finally show ?case .
qed simp

lemma uint_bytes:
  "uint (take_bit (B * 8) v) = (\<Sum>j<B. uint (ucast (drop_bit (j * 8) v) :: byte) * 256 ^ j)"
proof (induction B)
  case (Suc B)
  have p: "(2 :: int) ^ (n * 8) = 256 ^ n" for n by (simp add: mult.commute [of n] power_mult)
  have t: "uint (take_bit n v) = uint v mod 2 ^ n" for n by (simp add: unsigned_take_bit_eq flip: take_bit_eq_mod)
  have "uint (take_bit (Suc B * 8) v) = uint v mod (256 ^ B * 256)" by (simp only: t p power_Suc2)
  also have "\<dots> = 256 ^ B * (uint v div 256 ^ B mod 256) + uint v mod 256 ^ B" by (simp add: zmod_zmult2_eq)
  also have "uint v mod 256 ^ B = uint (take_bit (B * 8) v)" by (simp only: t p)
  also have "uint v div 256 ^ B mod 256 = uint (ucast (drop_bit (B * 8) v) :: byte)"
  proof -
    have "uint (drop_bit (B * 8) v) = drop_bit (B * 8) (uint v)" by (simp add: unsigned_drop_bit_eq take_bit_int_eq_self)
    then have "uint (drop_bit (B * 8) v) = uint v div 256 ^ B" by (simp only: drop_bit_eq_div p)
    then show ?thesis by (simp add: unsigned_ucast_eq take_bit_eq_mod)
  qed
  finally show ?case using Suc by simp
qed simp

context byte_layout
begin

lemma write_ok: "B \<le> length data \<Longrightarrow> write_loop (\<lambda>i. place B i * 8) val [0..<B] data = Inr (layout B val @ drop B data)"
  using write_loop_ok [of B data "\<lambda>i. place B i * 8" val 0] by (simp add: layout_def)

lemma read_bits:
  assumes "B \<le> length data"
  obtains v :: "'a :: len word" where "read_loop (\<lambda>i. place B i * 8) data [0..<B] 0 = Inr v"
    "\<And>i k. i < B \<Longrightarrow> k < 8 \<Longrightarrow> bit v (place B i * 8 + k) \<longleftrightarrow> place B i * 8 + k < LENGTH('a) \<and> bit (data ! i) k"
    "\<And>n. B * 8 \<le> n \<Longrightarrow> \<not> bit v n"
proof -
  have "\<And>i. i \<in> set [0..<B] \<Longrightarrow> i < length data" using assms by simp
  from read_loop_ok [of "[0..<B]", OF this, of "\<lambda>i. place B i * 8" "0 :: 'a word"]
  obtain v :: "'a word" where v: "read_loop (\<lambda>i. place B i * 8) data [0..<B] 0 = Inr v" and
    b: "\<And>n. n < LENGTH('a) \<Longrightarrow> bit v n \<longleftrightarrow> (\<exists>i<B. place B i * 8 \<le> n \<and> bit (ucast (data ! i) :: 'a word) (n - place B i * 8))"
    by (auto simp: bit_push_bit_iff Bex_def)
  have b: "bit v n \<longleftrightarrow> n < LENGTH('a) \<and> (\<exists>i<B. n div 8 = place B i \<and> bit (data ! i) (n mod 8))" for n
  proof (cases "n < LENGTH('a)")
    case True
    have "place B i * 8 \<le> n \<and> bit (ucast (data ! i) :: 'a word) (n - place B i * 8) \<longleftrightarrow>
        n div 8 = place B i \<and> bit (data ! i) (n mod 8)" if "i < B" for i
      using bit_at_place [OF that, of n] bit_imp_le_length [of "data ! i" "n - place B i * 8"] True
      by (auto simp: bit_ucast_iff minus_mult_div_eq_mod [symmetric] mult.commute)
    with b [OF True] True show ?thesis by auto
  qed (use bit_imp_le_length in blast)
  show ?thesis
  proof (rule that [OF v])
    show "bit v (place B i * 8 + k) \<longleftrightarrow> place B i * 8 + k < LENGTH('a) \<and> bit (data ! i) k" if "i < B" "k < 8" for i k
      using b [of "place B i * 8 + k"] place_inj that by auto
    show "\<not> bit v n" if "B * 8 \<le> n" for n
      using b [of n] place_less that by (metis div_le_mono nonzero_mult_div_cancel_right not_le zero_neq_numeral)
  qed
qed

lemma read_layout:
  fixes val :: "'a :: len word"
  shows "read_loop (\<lambda>i. place B i * 8) (layout B val @ rest) [0..<B] 0 = Inr (take_bit (B * 8) val)"
proof -
  obtain v :: "'a word" where v: "read_loop (\<lambda>i. place B i * 8) (layout B val @ rest) [0..<B] 0 = Inr v"
    "\<And>i k. i < B \<Longrightarrow> k < 8 \<Longrightarrow>
      bit v (place B i * 8 + k) \<longleftrightarrow> place B i * 8 + k < LENGTH('a) \<and> bit ((layout B val @ rest) ! i) k"
    "\<And>n. B * 8 \<le> n \<Longrightarrow> \<not> bit v n" by (rule read_bits [of B "layout B val @ rest", where 'a = 'a]) auto
  have "bit v n \<longleftrightarrow> bit (take_bit (B * 8) val) n" if "n < LENGTH('a)" for n
  proof (cases "n < B * 8")
    case True
    then have "n div 8 < B" by auto
    then obtain i where i: "i < B" "place B i = n div 8" by (rule place_at)
    then show ?thesis using v(2) [OF i(1), of "n mod 8"] that True
      by (auto simp: layout_def nth_append bit_simps)
  qed (use v(3) in \<open>auto simp: bit_take_bit_iff\<close>)
  then have "v = take_bit (B * 8) val" by (auto intro: bit_word_eqI)
  with v(1) show ?thesis by simp
qed

lemma layout_read:
  assumes "B \<le> length data" "B * 8 \<le> LENGTH('a)"
  obtains v :: "'a :: len word" where "read_loop (\<lambda>i. place B i * 8) data [0..<B] 0 = Inr v" "layout B v = take B data"
    "v = take_bit (B * 8) v"
proof -
  obtain v :: "'a word" where v: "read_loop (\<lambda>i. place B i * 8) data [0..<B] 0 = Inr v"
    "\<And>i k. i < B \<Longrightarrow> k < 8 \<Longrightarrow> bit v (place B i * 8 + k) \<longleftrightarrow> place B i * 8 + k < LENGTH('a) \<and> bit (data ! i) k"
    "\<And>n. B * 8 \<le> n \<Longrightarrow> \<not> bit v n" by (rule read_bits [OF assms(1), where 'a = 'a]) blast
  have "layout B v ! i = data ! i" if "i < B" for i
  proof (rule bit_word_eqI)
    fix k assume "k < LENGTH(8)"
    moreover have "place B i * 8 + 8 \<le> B * 8" using place_less [OF that] by simp
    ultimately show "bit (layout B v ! i) k \<longleftrightarrow> bit (data ! i) k"
      using v(2) [OF that, of k] assms(2) that by (simp add: layout_def bit_simps)
  qed
  then have "layout B v = take B data" using assms(1) by (auto intro!: nth_equalityI)
  moreover have "v = take_bit (B * 8) v" using v(3) by (auto intro!: bit_word_eqI simp: bit_take_bit_iff not_le [symmetric])
  ultimately show ?thesis using that v(1) by blast
qed

lemma read_value:
  assumes "B \<le> length data" "B * 8 \<le> LENGTH('a)"
  obtains v :: "'a :: len word" where "read_loop (\<lambda>i. place B i * 8) data [0..<B] 0 = Inr v"
    "uint v = (\<Sum>i<B. uint (data ! i) * 256 ^ place B i)" "layout B v = take B data"
proof (rule layout_read [OF assms])
  fix v :: "'a word"
  assume v: "read_loop (\<lambda>i. place B i * 8) data [0..<B] 0 = Inr v" "layout B v = take B data" "v = take_bit (B * 8) v"
  have "data ! i = ucast (drop_bit (place B i * 8) v)" if "i < B" for i
    using arg_cong [OF v(2), of "\<lambda>l. l ! i"] that by (simp add: layout_def)
  then have "(\<Sum>i<B. uint (data ! i) * 256 ^ place B i) =
      (\<Sum>i<B. uint (ucast (drop_bit (place B i * 8) v) :: byte) * 256 ^ place B i)" by (intro sum.cong) auto
  also have "\<dots> = (\<Sum>j<B. uint (ucast (drop_bit (j * 8) v) :: byte) * 256 ^ j)"
    by (rule sum.reindex_bij_betw [OF place_bij])
  also have "\<dots> = uint v" using uint_bytes [of B v] v(3) by simp
  finally show thesis using that v by simp
qed

end

interpretation big: byte_layout "\<lambda>B i. B - 1 - i"
proof
  show "bij_betw (\<lambda>i. B - 1 - i) {..<B} {..<B}" for B :: nat
    by (rule bij_betw_byWitness [where f' = "\<lambda>i. B - 1 - i"]) auto
qed

interpretation little: byte_layout "\<lambda>B i. i"
  by unfold_locales (simp add: bij_betw_def)

lemmas loop_defs = InternalReadBigEndian_def InternalReadLittleEndian_def

lemma write_big:
  fixes val :: "'a :: len word"
  assumes "accepted B TYPE('a)" "B \<le> length data"
  shows "WriteBigEndian B data val = Inr (big.layout B val @ drop B data)"
  by (simp only: specializations static_assert_def if_True assms big.write_ok)

lemma write_little:
  fixes val :: "'a :: len word"
  assumes "accepted B TYPE('a)" "B \<le> length data"
  shows "WriteLittleEndian B data val = Inr (little.layout B val @ drop B data)"
  by (simp only: specializations static_assert_def if_True assms little.write_ok)

lemma read_big:
  fixes val :: "'a :: len word"
  assumes "accepted B TYPE('a)"
  shows "ReadBigEndian B (big.layout B val @ rest) = Inr (take_bit (B * 8) val)"
  by (simp only: specializations static_assert_def if_True assms loop_defs big.read_layout)

lemma read_little:
  fixes val :: "'a :: len word"
  assumes "accepted B TYPE('a)"
  shows "ReadLittleEndian B (little.layout B val @ rest) = Inr (take_bit (B * 8) val)"
  by (simp only: specializations static_assert_def if_True assms loop_defs little.read_layout)

section \<open>Sign extension\<close>

lemma minus_top: "word_of_int (- (2 ^ (LENGTH('a) - 1))) = (push_bit (LENGTH('a) - 1) 1 :: 'a :: len word)"
proof -
  have "2 ^ (LENGTH('a) - 1) + 2 ^ (LENGTH('a) - 1) = (2 ^ Suc (LENGTH('a) - 1) :: 'a word)" by (simp only: power_Suc mult_2)
  also have "\<dots> = 0" by (simp only: Suc_diff_1 [OF len_gt_0] word_exp_length_eq_0)
  finally have "- (2 ^ (LENGTH('a) - 1)) = (2 ^ (LENGTH('a) - 1) :: 'a word)" by (rule minus_unique)
  then show ?thesis by (simp add: push_bit_eq_mult)
qed

lemma ReinterpretAsSigned_id:
  assumes "8 dvd LENGTH('a :: len)"
  shows "ReinterpretAsSigned v = (v :: 'a word)"
proof -
  have l: "sizeof TYPE('a) * 8 = LENGTH('a)" using assms by (simp add: sizeof_def)
  define t :: "'a word" where "t = push_bit (LENGTH('a) - 1) 1"
  have r: "ReinterpretAsSigned v = (if v AND t \<noteq> 0 then (v AND NOT t) OR t else v)"
    by (simp only: ReinterpretAsSigned_def minus_top l Let_def t_def)
  have t: "bit t n \<longleftrightarrow> n = LENGTH('a) - 1" if "n < LENGTH('a)" for n
    using that unfolding t_def bit_push_bit_iff by (auto simp: bit_1_iff)
  show ?thesis
  proof (cases "bit v (LENGTH('a) - 1)")
    case True
    then have "(v AND NOT t) OR t = v" by (intro bit_word_eqI) (auto simp: bit_simps t)
    then show ?thesis by (simp add: r)
  next
    case False
    then have "v AND t = 0" by (intro bit_word_eqI) (auto simp: bit_simps t)
    then show ?thesis by (simp add: r)
  qed
qed

lemma ReinterpretAsUnsigned_id: "ReinterpretAsUnsigned v = v"
  by (simp add: ReinterpretAsUnsigned_def)

lemma msb_set:
  fixes val :: "'a :: len word"
  assumes "0 < B" "B * 8 \<le> LENGTH('a)"
  shows "(ucast (drop_bit ((B - 1) * 8) val) :: byte) AND 0x80 \<noteq> 0 \<longleftrightarrow> bit val (B * 8 - 1)"
proof -
  have "(0x80 :: byte) = push_bit 7 1" by simp
  then have "(ucast (drop_bit ((B - 1) * 8) val) :: byte) AND 0x80 \<noteq> 0 \<longleftrightarrow> bit (ucast (drop_bit ((B - 1) * 8) val) :: byte) 7"
    by (simp only: bit_iff_and_push_bit_not_eq_0)
  also have "\<dots> \<longleftrightarrow> bit val ((B - 1) * 8 + 7)" using assms by (auto simp: bit_simps dest: bit_imp_le_length)
  also have "(B - 1) * 8 + 7 = B * 8 - 1" using assms(1) by (cases B) auto
  finally show ?thesis .
qed

lemma SignExtend_ok:
  fixes val :: "'a :: len word"
  assumes "0 < B" "B < 4" "B * 8 < LENGTH('a)" "8 dvd LENGTH('a)"
  shows "SignExtend B (take_bit (B * 8) val) = Inr (signed_take_bit (B * 8 - 1) val)"
proof -
  have "B < LENGTH('a) div 8" using assms(3,4) by (auto elim!: dvdE)
  then have m: "B mod sizeof TYPE('a) = B" by (simp add: sizeof_def)
  have "scast (mask (B * 8) :: 32 word) = (mask (B * 8) :: 'a word)"
    by (rule bit_word_eqI) (use assms(2) in \<open>auto simp: bit_simps\<close>)
  then have mask: "scast ((push_bit (B * 8) 1 :: 32 word) - 1) = (mask (B * 8) :: 'a word)"
    by (simp add: push_bit_eq_mult flip: mask_eq_exp_minus_1)
  have c: "n < B * 8 - 1 \<or> n = B * 8 - 1 \<or> B * 8 \<le> n" for n by arith
  have e: "NOT (mask (B * 8)) OR take_bit (B * 8) val = signed_take_bit (B * 8 - 1) val" if "bit val (B * 8 - 1)"
  proof (rule bit_word_eqI)
    fix n show "bit (NOT (mask (B * 8)) OR take_bit (B * 8) val) n \<longleftrightarrow> bit (signed_take_bit (B * 8 - 1) val) n" if "n < LENGTH('a)"
      using c [of n] that \<open>bit val (B * 8 - 1)\<close> assms by (auto simp: bit_simps min_def)
  qed
  have e': "take_bit (B * 8) val = signed_take_bit (B * 8 - 1) val" if "\<not> bit val (B * 8 - 1)"
  proof (rule bit_word_eqI)
    fix n show "bit (take_bit (B * 8) val) n \<longleftrightarrow> bit (signed_take_bit (B * 8 - 1) val) n" if "n < LENGTH('a)"
      using c [of n] that \<open>\<not> bit val (B * 8 - 1)\<close> assms by (auto simp: bit_simps min_def)
  qed
  have h: "(ucast (drop_bit ((B - 1) * 8) (take_bit (B * 8) val)) :: byte) AND 0x80 \<noteq> 0 \<longleftrightarrow> bit val (B * 8 - 1)"
    using msb_set [of B "take_bit (B * 8) val"] assms by (simp add: bit_take_bit_iff)
  have "B * 8 < 32" using assms(2) by simp
  then show ?thesis
    by (simp only: SignExtend_def h m int_shl_1_def Let_def if_True rbind_simps mask split: if_split) (use e e' in simp)
qed

lemma SignExtend_undefined:
  fixes val :: "64 word"
  assumes "4 \<le> B" "B < 8" "bit val (B * 8 - 1)"
  shows "SignExtend B val = Inl (UB BadShift)"
proof -
  have "(ucast (drop_bit ((B - 1) * 8) val) :: byte) AND 0x80 \<noteq> 0" using assms msb_set [of B val] by simp
  moreover have "B mod sizeof TYPE(64) = B" "\<not> B * 8 < 32" using assms by (auto simp: sizeof_def)
  ultimately show ?thesis by (simp only: SignExtend_def int_shl_1_def Let_def if_True if_False rbind_simps simp_thms)
qed

lemma signed_take_bit_fits:
  fixes v :: "'a :: len word"
  assumes "- (2 ^ k) \<le> sint v" "sint v < 2 ^ k"
  shows "signed_take_bit k v = v"
proof (rule bit_word_eqI)
  fix n assume n: "n < LENGTH('a)"
  have "signed_take_bit k (sint v) = sint v" using assms by (rule signed_take_bit_int_eq_self)
  then have "bit (sint v) n \<longleftrightarrow> bit (sint v) (min k n)" using bit_signed_take_bit_iff [of k "sint v" n] by simp
  then show "bit (signed_take_bit k v) n \<longleftrightarrow> bit v n"
    using n by (simp add: bit_signed_take_bit_iff bit_sint_iff)
qed

lemma signed_roundtrip:
  fixes val :: "'a :: len word"
  assumes "8 dvd LENGTH('a)" "0 < B" "accepted B TYPE('a)" "B * 8 < LENGTH('a) \<longrightarrow> B < 4"
    and "- (2 ^ (B * 8 - 1)) \<le> sint val" "sint val < 2 ^ (B * 8 - 1)"
  shows "ReadBigEndian_signed B (big.layout B val @ rest) = Inr val"
    "ReadLittleEndian_signed B (little.layout B val @ rest) = Inr val"
proof -
  have "rbind (if B < sizeof TYPE('a) then SignExtend B (take_bit (B * 8) val) else Inr (take_bit (B * 8) val))
      (\<lambda>v. Inr (ReinterpretAsSigned v)) = Inr val"
  proof (cases "B * 8 < LENGTH('a)")
    case True
    then have "B < sizeof TYPE('a)" using assms(1) unfolding sizeof_def by (auto elim!: dvdE)
    moreover have "SignExtend B (take_bit (B * 8) val) = Inr val"
      using SignExtend_ok [of B val] True assms by (simp add: signed_take_bit_fits)
    ultimately show ?thesis using assms(1) by (simp add: ReinterpretAsSigned_id)
  next
    case False
    then have "B * 8 = LENGTH('a)" using accepted_bits [OF assms(3)] by simp
    then have "\<not> B < sizeof TYPE('a)" "take_bit (B * 8) val = val" by (auto simp: sizeof_def)
    then show ?thesis using assms(1) by (simp add: ReinterpretAsSigned_id)
  qed
  then show "ReadBigEndian_signed B (big.layout B val @ rest) = Inr val"
    "ReadLittleEndian_signed B (little.layout B val @ rest) = Inr val"
    by (simp_all only: ReadBigEndian_signed_def ReadLittleEndian_signed_def read_big [OF assms(3)] read_little [OF assms(3)] rbind_simps)
qed

section \<open>Properties\<close>

lemma positional_value:
  assumes "accepted (length bytes) TYPE('a :: len)" "length bytes \<le> length old"
  shows "\<exists>v :: 'a :: len word. ReadBigEndian (length bytes) (bytes @ rest) = Inr v \<and>
      uint v = (\<Sum>i<length bytes. uint (bytes ! i) * 256 ^ (length bytes - 1 - i)) \<and>
      WriteBigEndian (length bytes) old v = Inr (bytes @ drop (length bytes) old)"
    "\<exists>v :: 'a :: len word. ReadLittleEndian (length bytes) (bytes @ rest) = Inr v \<and>
      uint v = (\<Sum>i<length bytes. uint (bytes ! i) * 256 ^ i) \<and>
      WriteLittleEndian (length bytes) old v = Inr (bytes @ drop (length bytes) old)"
proof -
  have l: "length bytes \<le> length (bytes @ rest)" "length bytes * 8 \<le> LENGTH('a)" using accepted_bits [OF assms(1)] by simp_all
  obtain v :: "'a word" where "read_loop (\<lambda>i. (length bytes - 1 - i) * 8) (bytes @ rest) [0..<length bytes] 0 = Inr v"
    "uint v = (\<Sum>i<length bytes. uint ((bytes @ rest) ! i) * 256 ^ (length bytes - 1 - i))"
    "big.layout (length bytes) v = take (length bytes) (bytes @ rest)" by (rule big.read_value [OF l])
  then show "\<exists>v :: 'a :: len word. ReadBigEndian (length bytes) (bytes @ rest) = Inr v \<and>
      uint v = (\<Sum>i<length bytes. uint (bytes ! i) * 256 ^ (length bytes - 1 - i)) \<and>
      WriteBigEndian (length bytes) old v = Inr (bytes @ drop (length bytes) old)"
    using write_big [OF assms, of v] unfolding specializations accepted_run [OF assms(1)] loop_defs
    by (intro exI [of _ v]) (simp add: nth_append)
  obtain v :: "'a word" where "read_loop (\<lambda>i. i * 8) (bytes @ rest) [0..<length bytes] 0 = Inr v"
    "uint v = (\<Sum>i<length bytes. uint ((bytes @ rest) ! i) * 256 ^ i)"
    "little.layout (length bytes) v = take (length bytes) (bytes @ rest)" by (rule little.read_value [OF l])
  then show "\<exists>v :: 'a :: len word. ReadLittleEndian (length bytes) (bytes @ rest) = Inr v \<and>
      uint v = (\<Sum>i<length bytes. uint (bytes ! i) * 256 ^ i) \<and>
      WriteLittleEndian (length bytes) old v = Inr (bytes @ drop (length bytes) old)"
    using write_little [OF assms, of v] unfolding specializations accepted_run [OF assms(1)] loop_defs
    by (intro exI [of _ v]) (simp add: nth_append)
qed

lemma rejected:
  fixes val :: "'a :: len word"
  assumes "\<not> accepted B TYPE('a)"
  shows "(ReadBigEndian B data :: 'a word res) = Inl Ill_formed" "(ReadLittleEndian B data :: 'a word res) = Inl Ill_formed"
    "WriteBigEndian B data val = Inl Ill_formed" "WriteLittleEndian B data val = Inl Ill_formed"
  using assms by (simp_all add: specializations static_assert_def)

text \<open>
  C35: The readers give the positional value of the bytes, in big and in little endian order, whichever specialization runs;
  the value written again gives the same bytes, and the bytes behind them are left alone. This is for every number of bytes the
  \<^verbatim>\<open>static_assert\<close>s accept for the type: one byte for a type of one byte only, every other number up to its size.
  For any other number there is no such function.
\<close>

theorem reads_positional_value:
  assumes "length bytes \<le> length old"
  shows "if accepted (length bytes) TYPE('a :: len)
    then (\<exists>v :: 'a word. ReadBigEndian (length bytes) (bytes @ rest) = Inr v \<and>
        uint v = (\<Sum>i<length bytes. uint (bytes ! i) * 256 ^ (length bytes - 1 - i)) \<and>
        WriteBigEndian (length bytes) old v = Inr (bytes @ drop (length bytes) old)) \<and>
      (\<exists>v :: 'a word. ReadLittleEndian (length bytes) (bytes @ rest) = Inr v \<and>
        uint v = (\<Sum>i<length bytes. uint (bytes ! i) * 256 ^ i) \<and>
        WriteLittleEndian (length bytes) old v = Inr (bytes @ drop (length bytes) old))
    else (\<forall>v :: 'a word. ReadBigEndian (length bytes) (bytes @ rest) = (Inl Ill_formed :: 'a word res) \<and>
      ReadLittleEndian (length bytes) (bytes @ rest) = (Inl Ill_formed :: 'a word res) \<and>
      WriteBigEndian (length bytes) old v = Inl Ill_formed \<and> WriteLittleEndian (length bytes) old v = Inl Ill_formed)"
proof (cases "accepted (length bytes) TYPE('a)")
  case True
  with positional_value [OF True assms, of rest] show ?thesis by (simp only: if_True)
next
  case False
  then show ?thesis by (simp only: if_False rejected [OF False] simp_thms)
qed

theorem reads_positional_value_witness:
  "\<exists>v :: 32 word. ReadBigEndian 3 [1, 2, 3, 9] = Inr v \<and> uint v = 0x010203 \<and> WriteBigEndian 3 [0, 0, 0, 5] v = Inr [1, 2, 3, 5]"
proof -
  have "accepted (length [1, 2, 3 :: byte]) TYPE(32)" by (simp add: accepted_def sizeof_def)
  with reads_positional_value [of "[1, 2, 3]" "[0, 0, 0, 5]" "[9]", where 'a = 32] show ?thesis
    by (auto simp: numeral_3_eq_3 [symmetric] numeral_2_eq_2 [symmetric] lessThan_nat_numeral lessThan_Suc)
qed

text \<open>
  C36: Signed integers survive the wire: a value that \<open>B\<close> bytes can hold is read as it was written, in both orders, negative
  values included, when \<open>B\<close> is the size of the type, or two or three bytes of a wider type (one byte of a wider type does
  not compile).
\<close>

theorem signed_values_survive:
  fixes val :: "'a :: len word"
  assumes "8 dvd LENGTH('a)" "B = sizeof TYPE('a) \<or> B \<in> {2, 3} \<and> B < sizeof TYPE('a)" "B \<le> length data"
    and "- (2 ^ (B * 8 - 1)) \<le> sint val" "sint val < 2 ^ (B * 8 - 1)"
  shows "rbind (WriteBigEndian_signed B data val) (ReadBigEndian_signed B) = Inr val \<and>
    rbind (WriteLittleEndian_signed B data val) (ReadLittleEndian_signed B) = Inr val"
proof -
  have "0 < sizeof TYPE('a)" using dvd_imp_le [OF assms(1) len_gt_0] by (simp add: sizeof_def div_greater_zero_iff)
  then have "0 < B" "accepted B TYPE('a)" "B * 8 < LENGTH('a) \<longrightarrow> B < 4"
    using assms(1,2) by (auto simp: accepted_def) (auto simp: sizeof_def elim!: dvdE)
  with assms signed_roundtrip [of B val] show ?thesis
    by (auto simp: WriteBigEndian_signed_def WriteLittleEndian_signed_def ReinterpretAsUnsigned_id write_big write_little)
qed

theorem signed_values_survive_witness:
  "rbind (WriteBigEndian_signed 3 [0, 0, 0] (- 2 :: 32 word)) (ReadBigEndian_signed 3) = Inr (- 2 :: 32 word)"
  using signed_values_survive [of 3 "[0, 0, 0]" "- 2 :: 32 word"] by (simp add: sizeof_def)

text \<open>
  Reading a negative \<^verbatim>\<open>int64_t\<close> from four to seven bytes is undefined: the mask of
  \<^verbatim>\<open>SignExtend\<close> is computed by shifting an \<^verbatim>\<open>int\<close> by 32 places or more.
\<close>

theorem wide_sign_extension_undefined:
  assumes "4 \<le> length bytes" "length bytes < 8" "bit (hd bytes) 7"
  shows "(ReadBigEndian_signed (length bytes) bytes :: 64 word res) = Inl (UB BadShift)"
proof -
  let ?B = "length bytes"
  have acc: "accepted ?B TYPE(64)" using assms(1,2) by (simp add: accepted_def sizeof_def)
  obtain v :: "64 word" where v: "ReadBigEndian ?B bytes = Inr v" "WriteBigEndian ?B bytes v = Inr bytes"
    using positional_value(1) [of bytes bytes "[]", where 'a = 64] acc by auto
  then have "hd bytes = hd (big.layout ?B v)" by (simp add: write_big [OF acc])
  also have "\<dots> = ucast (drop_bit ((?B - 1) * 8) v)" using order_less_le_trans [OF _ assms(1), of 0] unfolding big.layout_def
    by (simp add: hd_map)
  finally have "bit v (8 * (?B - 1) + 7)" using assms(3) by (simp add: bit_simps mult.commute)
  moreover have "8 * (?B - 1) + 7 = ?B * 8 - 1" using assms(1) by simp
  ultimately have "SignExtend ?B v = Inl (UB BadShift)" using assms by (intro SignExtend_undefined) simp_all
  then show ?thesis using v(1) assms(2) by (simp add: ReadBigEndian_signed_def sizeof_def)
qed

theorem wide_sign_extension_undefined_witness:
  "(ReadBigEndian_signed 5 [0xFF, 0, 0, 0, 1] :: 64 word res) = Inl (UB BadShift)"
proof -
  have "length [0xFF, 0, 0, 0, 1 :: byte] = 5" by simp
  then show ?thesis using wide_sign_extension_undefined [of "[0xFF, 0, 0, 0, 1]"] by (simp only:) simp
qed

end
