(* ===== verification/Cpp_String.thy ===== *)
theory Cpp_String
  imports Prelude
begin

text \<open>
  The part of \<^verbatim>\<open>std::string\<close> and of the C library's text functions that the program
  uses: \<^verbatim>\<open>find\<close>, \<^verbatim>\<open>substr\<close>, \<^verbatim>\<open>erase\<close>, \<^verbatim>\<open>tolower\<close>, \<^verbatim>\<open>std::to_string\<close>,
  \<^verbatim>\<open>atoi\<close> and the splitting that a \<^verbatim>\<open>std::sregex_token_iterator\<close> with a
  one-character expression does. Positions are \<^verbatim>\<open>size_t\<close> values: natural numbers
  with the wrap-around at \<open>2 ^ 64\<close> written out, because the parsers of the program
  compute with \<^verbatim>\<open>npos\<close>.
\<close>

section \<open>Positions\<close>

definition size_max :: nat where "size_max = 2 ^ 64"

definition npos :: nat where "npos = size_max - 1"

definition size_add :: "nat \<Rightarrow> nat \<Rightarrow> nat" where
  "size_add a b = (a + b) mod size_max"

definition size_sub :: "nat \<Rightarrow> nat \<Rightarrow> nat" where
  "size_sub a b = (a + (size_max - b)) mod size_max"

text \<open>The strings that exist: the length is below \<^verbatim>\<open>npos\<close>.\<close>

abbreviation str_ok :: "string \<Rightarrow> bool" where
  "str_ok s \<equiv> length s < npos"

lemma size_add_npos_1 [simp]: "size_add npos 1 = 0" "size_add npos (Suc 0) = 0"
  by (simp_all add: size_add_def npos_def size_max_def)

lemma size_add_small: "a + b < size_max \<Longrightarrow> size_add a b = a + b"
  by (simp add: size_add_def)

lemma size_sub_small: "b \<le> a \<Longrightarrow> a < size_max \<Longrightarrow> size_sub a b = a - b"
proof -
  assume "b \<le> a" "a < size_max"
  then have "a + (size_max - b) = (a - b) + size_max" by simp
  then have "size_sub a b = (a - b) mod size_max"
    unfolding size_sub_def by (simp only: mod_add_self2)
  then show ?thesis using \<open>a < size_max\<close> by simp
qed

lemma size_sub_wrap: "a < b \<Longrightarrow> b < size_max \<Longrightarrow> size_sub a b = size_max - (b - a)"
  by (simp add: size_sub_def)

lemma npos_less_size_max: "npos < size_max"
  by (simp add: npos_def size_max_def)

lemma less_npos_size_max: "n < npos \<Longrightarrow> Suc n < size_max"
  by (simp add: npos_def)

section \<open>Searching\<close>

fun find_idx :: "(char \<Rightarrow> bool) \<Rightarrow> string \<Rightarrow> nat option" where
  "find_idx P [] = None"
| "find_idx P (c # cs) = (if P c then Some 0 else map_option Suc (find_idx P cs))"

definition pos_of :: "nat option \<Rightarrow> nat" where
  "pos_of r = (case r of None \<Rightarrow> npos | Some i \<Rightarrow> i)"

text \<open>\<^verbatim>\<open>s.find(c)\<close> and \<^verbatim>\<open>s.find_first_of(c)\<close> for one character.\<close>

definition str_find :: "string \<Rightarrow> char \<Rightarrow> nat" where
  "str_find s c = pos_of (find_idx (\<lambda>d. d = c) s)"

text \<open>\<^verbatim>\<open>s.find_first_of(c, pos)\<close>.\<close>

definition str_find_from :: "string \<Rightarrow> char \<Rightarrow> nat \<Rightarrow> nat" where
  "str_find_from s c pos =
     (case find_idx (\<lambda>d. d = c) (drop pos s) of None \<Rightarrow> npos | Some i \<Rightarrow> pos + i)"

definition str_find_first_not_of :: "string \<Rightarrow> char \<Rightarrow> nat" where
  "str_find_first_not_of s c = pos_of (find_idx (\<lambda>d. d \<noteq> c) s)"

definition str_find_last_not_of :: "string \<Rightarrow> char \<Rightarrow> nat" where
  "str_find_last_not_of s c =
     pos_of (map_option (\<lambda>i. length s - Suc i) (find_idx (\<lambda>d. d \<noteq> c) (rev s)))"

lemma find_idx_None: "find_idx P s = None \<longleftrightarrow> (\<forall>c \<in> set s. \<not> P c)"
  by (induction s) auto

lemma find_idx_Some:
  "find_idx P s = Some i \<Longrightarrow>
     i = length (takeWhile (\<lambda>c. \<not> P c) s) \<and> i < length s \<and> P (s ! i)"
  by (induction s arbitrary: i) (auto split: if_splits)

lemma find_idx_append_stop:
  "(\<forall>c \<in> set xs. \<not> P c) \<Longrightarrow> P y \<Longrightarrow> find_idx P (xs @ y # ys) = Some (length xs)"
  by (induction xs) auto

lemma find_idx_append:
  "(\<forall>c \<in> set xs. \<not> P c) \<Longrightarrow> find_idx P (xs @ ys) = map_option (\<lambda>i. length xs + i) (find_idx P ys)"
  by (cases "find_idx P ys"; induction xs) simp_all

lemma str_find_absent: "c \<notin> set s \<Longrightarrow> str_find s c = npos"
  using find_idx_None [of "\<lambda>d. d = c" s] by (auto simp: str_find_def pos_of_def)

lemma str_find_at: "c \<notin> set xs \<Longrightarrow> str_find (xs @ c # ys) c = length xs"
proof -
  assume "c \<notin> set xs"
  then have "find_idx (\<lambda>d. d = c) (xs @ c # ys) = Some (length xs)"
    by (intro find_idx_append_stop) auto
  then show ?thesis by (simp add: str_find_def pos_of_def)
qed

lemma str_find_present:
  assumes "c \<in> set s"
  shows "str_find s c = length (takeWhile (\<lambda>d. d \<noteq> c) s)" "str_find s c < length s"
proof -
  from assms obtain i where "find_idx (\<lambda>d. d = c) s = Some i"
    using find_idx_None [of "\<lambda>d. d = c" s] by (cases "find_idx (\<lambda>d. d = c) s") auto
  then show "str_find s c = length (takeWhile (\<lambda>d. d \<noteq> c) s)" "str_find s c < length s"
    by (auto simp: str_find_def pos_of_def dest: find_idx_Some)
qed

lemma str_find_npos_iff: "str_ok s \<Longrightarrow> str_find s c = npos \<longleftrightarrow> c \<notin> set s"
  using str_find_present(2) [of c s] str_find_absent [of c s] by (cases "c \<in> set s") simp_all

section \<open>Parts of a string\<close>

text \<open>\<^verbatim>\<open>s.substr(pos, n)\<close> throws when \<^verbatim>\<open>pos > s.size()\<close>; the length is cut at the end.\<close>

definition substr :: "string \<Rightarrow> nat \<Rightarrow> nat \<Rightarrow> string res" where
  "substr s pos n =
     (if length s < pos then Inl (Exn OutOfRange) else Inr (take (min n (length s)) (drop pos s)))"

definition substr_from :: "string \<Rightarrow> nat \<Rightarrow> string res" where
  "substr_from s pos = substr s pos npos"

text \<open>\<^verbatim>\<open>s.erase(0, n)\<close> and \<^verbatim>\<open>s.erase(pos)\<close>.\<close>

definition erase_front :: "string \<Rightarrow> nat \<Rightarrow> string" where
  "erase_front s n = drop (min n (length s)) s"

definition erase_back :: "string \<Rightarrow> nat \<Rightarrow> string res" where
  "erase_back s pos = (if length s < pos then Inl (Exn OutOfRange) else Inr (take pos s))"

lemma take_min_drop: "take (min n (length s)) (drop p s) = take n (drop p s)"
  by (cases "n \<le> length s") (auto simp: min_def)

lemma substr_0: "substr s 0 n = Inr (take n s)"
  by (cases "n \<le> length s") (simp_all add: substr_def)

lemma substr_ok: "pos \<le> length s \<Longrightarrow> substr s pos n = Inr (take n (drop pos s))"
  by (simp add: substr_def take_min_drop)

lemma substr_mid: "substr (a @ s @ r) (length a) (length s) = Inr s"
  by (simp add: substr_ok)

lemma substr_from_ok: "pos \<le> length s \<Longrightarrow> str_ok s \<Longrightarrow> substr_from s pos = Inr (drop pos s)"
  by (simp add: substr_from_def substr_ok)

lemma substr_from_append: "str_ok (a @ s) \<Longrightarrow> substr_from (a @ s) (length a) = Inr s"
  by (simp add: substr_from_ok)

lemma substr_throws: "length s < pos \<Longrightarrow> substr s pos n = Inl (Exn OutOfRange)"
  by (simp add: substr_def)

lemma substr_find: "str_ok s \<Longrightarrow> substr s 0 (str_find s c) = Inr (takeWhile (\<lambda>d. d \<noteq> c) s)"
proof (cases "c \<in> set s")
  case True
  have "take (length (takeWhile (\<lambda>d. d \<noteq> c) s)) s = takeWhile (\<lambda>d. d \<noteq> c) s"
    by (rule takeWhile_eq_take [symmetric])
  then show ?thesis by (simp only: substr_0 str_find_present(1) [OF True])
next
  case False
  assume "str_ok s"
  then have "take npos s = s" by simp
  moreover from False have "takeWhile (\<lambda>d. d \<noteq> c) s = s"
    by (auto simp: takeWhile_eq_all_conv)
  ultimately show ?thesis by (simp only: substr_0 str_find_absent [OF False])
qed

lemma erase_front_find:
  "str_ok s \<Longrightarrow> erase_front s (str_find_first_not_of s c) = dropWhile (\<lambda>d. d = c) s"
proof (cases "find_idx (\<lambda>d. d \<noteq> c) s")
  case None
  assume "str_ok s"
  moreover from None have "dropWhile (\<lambda>d. d = c) s = []"
    by (simp add: find_idx_None)
  ultimately show ?thesis
    by (simp only: erase_front_def str_find_first_not_of_def pos_of_def None option.case) simp
next
  case (Some i)
  then show ?thesis
    using find_idx_Some [OF Some]
    by (simp add: erase_front_def str_find_first_not_of_def pos_of_def dropWhile_eq_drop)
qed

definition rstrip :: "char \<Rightarrow> string \<Rightarrow> string" where
  "rstrip c s = rev (dropWhile (\<lambda>d. d = c) (rev s))"

lemma erase_back_find:
  assumes "str_ok s"
  shows "erase_back s (size_add (str_find_last_not_of s c) 1) = Inr (rstrip c s)"
proof (cases "find_idx (\<lambda>d. d \<noteq> c) (rev s)")
  case None
  then have "dropWhile (\<lambda>d. d = c) (rev s) = []"
    by (simp add: find_idx_None dropWhile_eq_Nil_conv)
  with None show ?thesis
    by (simp add: erase_back_def str_find_last_not_of_def pos_of_def rstrip_def)
next
  case (Some i)
  let ?k = "length (takeWhile (\<lambda>d. d = c) (rev s))"
  from find_idx_Some [OF Some] have i: "i = ?k" "i < length s" by simp_all
  have "dropWhile (\<lambda>d. d = c) (rev s) = drop i (rev s)"
    by (simp add: i(1) dropWhile_eq_drop)
  then have r: "rstrip c s = take (length s - i) s"
    by (simp add: rstrip_def rev_drop)
  have "size_add (str_find_last_not_of s c) 1 = length s - i"
    using assms i(2) less_npos_size_max [OF assms]
    by (simp add: str_find_last_not_of_def pos_of_def Some size_add_small)
  with r show ?thesis by (simp add: erase_back_def)
qed

lemma rstrip_id: "s = [] \<or> last s \<noteq> c \<Longrightarrow> rstrip c s = s"
  by (simp add: rstrip_def dropWhile_hd_id hd_rev)

lemma length_rstrip: "length (rstrip c s) \<le> length s"
  using length_dropWhile_le [of "\<lambda>d. d = c" "rev s"] by (simp add: rstrip_def)

section \<open>Case, numbers, splitting\<close>

text \<open>\<^verbatim>\<open>tolower\<close> in the C locale.\<close>

definition tolower :: "char \<Rightarrow> char" where
  "tolower c = (if 65 \<le> (of_char c :: nat) \<and> (of_char c :: nat) \<le> 90
                then char_of ((of_char c :: nat) + 32) else c)"

definition is_digit :: "char \<Rightarrow> bool" where
  "is_digit c \<longleftrightarrow> 48 \<le> (of_char c :: nat) \<and> (of_char c :: nat) \<le> 57"

definition digit_val :: "char \<Rightarrow> nat" where
  "digit_val c = of_char c - 48"

definition digit_char :: "nat \<Rightarrow> char" where
  "digit_char d = char_of (48 + d)"

text \<open>\<^verbatim>\<open>std::to_string\<close> of an unsigned and of a signed value.\<close>

fun show_nat :: "nat \<Rightarrow> string" where
  "show_nat n = (if n < 10 then [digit_char n] else show_nat (n div 10) @ [digit_char (n mod 10)])"

declare show_nat.simps [simp del]

definition show_int :: "int \<Rightarrow> string" where
  "show_int i = (if i < 0 then CHR ''-'' # show_nat (nat (- i)) else show_nat (nat i))"

definition val_of :: "nat \<Rightarrow> string \<Rightarrow> nat" where
  "val_of a ds = foldl (\<lambda>v c. 10 * v + digit_val c) a ds"

text \<open>
  \<^verbatim>\<open>atoi\<close>: leading white space, an optional sign, then as many digits as there are;
  0 when there are none. A value that does not fit an \<^verbatim>\<open>int\<close> is undefined behaviour.
\<close>

definition is_space :: "char \<Rightarrow> bool" where
  "is_space c \<longleftrightarrow> c = CHR '' '' \<or> (9 \<le> (of_char c :: nat) \<and> (of_char c :: nat) \<le> 13)"

definition atoi :: "string \<Rightarrow> int res" where
  "atoi s =
     (let t = dropWhile is_space s;
          neg = (t \<noteq> [] \<and> hd t = CHR ''-'');
          u = (if t \<noteq> [] \<and> (hd t = CHR ''-'' \<or> hd t = CHR ''+'') then tl t else t);
          v = int (val_of 0 (takeWhile is_digit u));
          r = (if neg then - v else v)
      in if int32_min \<le> r \<and> r \<le> int32_max then Inr r else Inl (UB IntRange))"

text \<open>
  The tokens between the matches of a one-character expression. The iterator also yields
  empty tokens; every caller drops them, so only the non-empty ones are kept here.
\<close>

fun split_on :: "char \<Rightarrow> string \<Rightarrow> string list" where
  "split_on c [] = [[]]"
| "split_on c (x # xs) =
     (if x = c then [] # split_on c xs
      else (case split_on c xs of [] \<Rightarrow> [[x]] | t # ts \<Rightarrow> (x # t) # ts))"

definition tokens :: "char \<Rightarrow> string \<Rightarrow> string list" where
  "tokens c s = filter (\<lambda>t. t \<noteq> []) (split_on c s)"

lemma is_digit_digit_char: "d < 10 \<Longrightarrow> is_digit (digit_char d)"
  by (simp add: is_digit_def digit_char_def)

lemma digit_val_digit_char [simp]: "d < 10 \<Longrightarrow> digit_val (digit_char d) = d"
  by (simp add: digit_val_def digit_char_def)

lemma digit_char_simps [simp]:
  "digit_char 0 = CHR ''0''"
  "digit_char (Suc 0) = CHR ''1''"
  "digit_char 2 = CHR ''2''"
  "digit_char 3 = CHR ''3''"
  "digit_char 4 = CHR ''4''"
  "digit_char 5 = CHR ''5''"
  "digit_char 6 = CHR ''6''"
  "digit_char 7 = CHR ''7''"
  "digit_char 8 = CHR ''8''"
  "digit_char 9 = CHR ''9''"
  by (simp_all add: digit_char_def char_of_def bit_Suc_0_iff)

lemma show_nat_digits: "\<forall>c \<in> set (show_nat n). is_digit c"
proof (induction n rule: show_nat.induct)
  case (1 n)
  then show ?case
    by (subst show_nat.simps) (auto simp: is_digit_digit_char)
qed

lemma show_nat_not_Nil [simp]: "show_nat n \<noteq> []"
  by (subst show_nat.simps) simp

lemma val_of_append: "val_of a (xs @ [c]) = 10 * val_of a xs + digit_val c"
  by (simp add: val_of_def)

lemma val_of_show_nat: "val_of 0 (show_nat n) = n"
proof (induction n rule: show_nat.induct)
  case (1 n)
  show ?case
  proof (cases "n < 10")
    case True
    then show ?thesis by (subst show_nat.simps) (simp add: val_of_def)
  next
    case False
    with 1 show ?thesis by (subst show_nat.simps) (simp add: val_of_append)
  qed
qed

lemma digit_not_space: "is_digit c \<Longrightarrow> \<not> is_space c"
  by (auto simp: is_digit_def is_space_def)

lemma digit_not_sign: "is_digit c \<Longrightarrow> c \<noteq> CHR ''-'' \<and> c \<noteq> CHR ''+''"
  by (auto simp: is_digit_def)

lemma atoi_show_nat:
  assumes "int n \<le> int32_max"
  shows "atoi (show_nat n) = Inr (int n)"
proof -
  let ?s = "show_nat n"
  have h: "is_digit (hd ?s)" using show_nat_digits [of n] by (simp add: hd_in_set)
  have d: "dropWhile is_space ?s = ?s"
    using h by (simp add: dropWhile_hd_id digit_not_space)
  have t: "takeWhile is_digit ?s = ?s"
    using show_nat_digits by (simp add: takeWhile_eq_all_conv)
  have "int32_min \<le> int n" by (simp add: int32_min_def)
  then show ?thesis
    using digit_not_sign [OF h] assms
    by (simp add: atoi_def d t val_of_show_nat Let_def)
qed

lemma split_on_not_Nil [simp]: "split_on c s \<noteq> []"
  by (cases s) (auto split: list.splits)

lemma split_on_absent: "c \<notin> set s \<Longrightarrow> split_on c s = [s]"
  by (induction s) auto

lemma split_on_append: "c \<notin> set s \<Longrightarrow> split_on c (s @ c # t) = s # split_on c t"
  by (induction s) auto

lemma tokens_append:
  "c \<notin> set s \<Longrightarrow> s \<noteq> [] \<Longrightarrow> tokens c (s @ c # t) = s # tokens c t"
  by (simp add: tokens_def split_on_append)

lemma tokens_single: "c \<notin> set s \<Longrightarrow> s \<noteq> [] \<Longrightarrow> tokens c s = [s]"
  by (simp add: tokens_def split_on_absent)

lemma tokens_leading: "tokens c (c # s) = tokens c s"
  by (simp add: tokens_def)

lemma tokens_Nil [simp]: "tokens c [] = []"
  by (simp add: tokens_def)

lemma split_on_free: "t \<in> set (split_on c s) \<Longrightarrow> c \<notin> set t"
proof (induction s arbitrary: t)
  case (Cons x xs)
  then show ?case
    by (cases "split_on c xs") (auto split: if_splits)
qed simp

lemma tokens_free: "t \<in> set (tokens c s) \<Longrightarrow> c \<notin> set t \<and> t \<noteq> []"
  by (auto simp: tokens_def dest: split_on_free)

end
