(* ===== verification/Rtc_Buffer.thy ===== *)
theory Rtc_Buffer
  imports Cpp_String
begin

text \<open>
  \<^verbatim>\<open>third/webrtc/include/rtc_base/buffer.h\<close>: the growing buffer \<^verbatim>\<open>BufferT\<close>, in which WebRTC keeps the
  bytes of packets and of data channel messages. Its heap block is a list of cells; a cell that was
  never written is \<open>None\<close>, and reading it is undefined. A pointer and a size that a function
  takes are a list, the pointer not null. The build without \<^verbatim>\<open>RTC_DCHECK\<close>s is modelled.
\<close>

section \<open>Memory\<close>

text \<open>
  The template argument \<^verbatim>\<open>ZeroOnFree\<close>, the zero of the element type, and the largest
  array that \<^verbatim>\<open>new T[n]\<close> can give.
\<close>

record 'a buf_env =
  be_zero_on_free :: bool
  be_zero :: 'a
  be_limit :: nat

definition new_array :: "'a buf_env \<Rightarrow> nat \<Rightarrow> 'a option list res" where
  "new_array E n = (if n \<le> be_limit E then Inr (replicate n None) else Inl (Exn BadAlloc))"

text \<open>
  Writes \<open>xs\<close> into the block from cell \<open>i\<close> on, through a pointer; \<^verbatim>\<open>std::memcpy\<close> (and \<^verbatim>\<open>memset\<close>) with a null
  pointer is undefined even when nothing is copied.
\<close>

definition store_cells :: "nat \<Rightarrow> 'a option list \<Rightarrow> 'a option list option \<Rightarrow> 'a option list option res" where
  "store_cells i xs block =
     (case block of
        None \<Rightarrow> if xs = [] then Inr None else Inl (UB NullDeref)
      | Some d \<Rightarrow> if i + length xs \<le> length d then Inr (Some (take i d @ xs @ drop (i + length xs) d))
                  else Inl (UB BadWrite))"

definition memcpy :: "nat \<Rightarrow> 'a option list \<Rightarrow> 'a option list option \<Rightarrow> 'a option list option res" where
  "memcpy i xs block = (if block = None then Inl (UB NullDeref) else store_cells i xs block)"

section \<open>The buffer\<close>

text \<open>
  \<open>bf_freed\<close>, the blocks given back so far as they were then, and \<open>bf_copied\<close>, the number of elements
  that growing has copied, are not part of the object.
\<close>

record 'a buffer =
  bf_size :: nat
  bf_capacity :: nat
  bf_data :: "'a option list option"
  bf_freed :: "'a option list list"
  bf_copied :: nat

type_synonym ('a, 'b) bufm = "('a buffer, 'b) stm"


definition BufferT_default :: "'a buffer" where
  "BufferT_default = \<lparr>bf_size = 0, bf_capacity = 0, bf_data = None, bf_freed = [], bf_copied = 0\<rparr>"

definition BufferT_sized :: "'a buf_env \<Rightarrow> nat \<Rightarrow> nat \<Rightarrow> 'a buffer res" where
  "BufferT_sized E sz capacity =
     (let capacity = max sz capacity in
      rbind (if capacity > 0 then rbind (new_array E capacity) (\<lambda>d. Inr (Some d)) else Inr None) (\<lambda>d.
      Inr \<lparr>bf_size = sz, bf_capacity = capacity, bf_data = d, bf_freed = [], bf_copied = 0\<rparr>))"

definition BufferT_of :: "'a buf_env \<Rightarrow> 'a list \<Rightarrow> nat \<Rightarrow> 'a buffer res" where
  "BufferT_of E data capacity =
     rbind (BufferT_sized E (length data) capacity) (\<lambda>b.
     rbind (memcpy 0 (map Some data) (bf_data b)) (\<lambda>d.
     Inr (b\<lparr>bf_data := d\<rparr>)))"

definition buf_store :: "nat \<Rightarrow> 'a option list \<Rightarrow> ('a, unit) bufm" where
  "buf_store i xs b = (case store_cells i xs (bf_data b) of Inl e \<Rightarrow> (Inl e, b) | Inr d \<Rightarrow> (Inr (), b\<lparr>bf_data := d\<rparr>))"

definition buf_memcpy :: "nat \<Rightarrow> 'a option list \<Rightarrow> ('a, unit) bufm" where
  "buf_memcpy i xs b = (case memcpy i xs (bf_data b) of Inl e \<Rightarrow> (Inl e, b) | Inr d \<Rightarrow> (Inr (), b\<lparr>bf_data := d\<rparr>))"

definition MaybeZeroCompleteBuffer :: "'a buf_env \<Rightarrow> ('a, unit) bufm" where
  "MaybeZeroCompleteBuffer E b =
     (if be_zero_on_free E \<and> bf_capacity b > 0 then buf_memcpy 0 (replicate (bf_capacity b) (Some (be_zero E))) b
      else (Inr (), b))"

definition ZeroTrailingData :: "'a buf_env \<Rightarrow> nat \<Rightarrow> ('a, unit) bufm" where
  "ZeroTrailingData E count b = buf_memcpy (bf_size b) (replicate count (Some (be_zero E))) b"

text \<open>\<^verbatim>\<open>data_ = std::move(new_data)\<close>, or the end of \<^verbatim>\<open>data_\<close>.\<close>

definition buf_replace :: "'a option list option \<Rightarrow> 'a buffer \<Rightarrow> 'a buffer" where
  "buf_replace d b = b\<lparr>bf_data := d, bf_freed := bf_freed b @ (case bf_data b of None \<Rightarrow> [] | Some old \<Rightarrow> [old])\<rparr>"

definition BufferT_destroy :: "'a buf_env \<Rightarrow> ('a, unit) bufm" where
  "BufferT_destroy E = sbind (MaybeZeroCompleteBuffer E) (\<lambda>_. smodify (buf_replace None))"

definition EnsureCapacityWithHeadroom :: "'a buf_env \<Rightarrow> nat \<Rightarrow> bool \<Rightarrow> ('a, unit) bufm" where
  "EnsureCapacityWithHeadroom E capacity extra_headroom b =
     (if capacity \<le> bf_capacity b then (Inr (), b)
      else
        let new_capacity =
              (if extra_headroom then max capacity (size_add (bf_capacity b) (bf_capacity b div 2)) else capacity) in
        sbind (slift (new_array E new_capacity)) (\<lambda>new_data.
        sbind (slift (case bf_data b of
                 None \<Rightarrow> Inr (Some new_data)
               | Some d \<Rightarrow> if bf_size b \<le> length d then memcpy 0 (take (bf_size b) d) (Some new_data)
                           else Inl (UB BadRead))) (\<lambda>new_data.
        sbind (MaybeZeroCompleteBuffer E) (\<lambda>_.
        smodify (\<lambda>b. (buf_replace new_data b)\<lparr>bf_capacity := new_capacity,
          bf_copied := bf_copied b + (if bf_data b = None then 0 else bf_size b)\<rparr>)))) b)"

definition BufferT_EnsureCapacity :: "'a buf_env \<Rightarrow> nat \<Rightarrow> ('a, unit) bufm" where
  "BufferT_EnsureCapacity E capacity = EnsureCapacityWithHeadroom E capacity False"

text \<open>The common end of \<^verbatim>\<open>SetSize\<close> and the \<^verbatim>\<open>SetData\<close> functions.\<close>

definition zero_shrunk :: "'a buf_env \<Rightarrow> nat \<Rightarrow> ('a, unit) bufm" where
  "zero_shrunk E old_size b =
     (if be_zero_on_free E \<and> bf_size b < old_size then ZeroTrailingData E (old_size - bf_size b) b else (Inr (), b))"

definition BufferT_SetSize :: "'a buf_env \<Rightarrow> nat \<Rightarrow> ('a, unit) bufm" where
  "BufferT_SetSize E sz b =
     (let old_size = bf_size b in
      sbind (EnsureCapacityWithHeadroom E sz True) (\<lambda>_.
      sbind (smodify (\<lambda>b. b\<lparr>bf_size := sz\<rparr>)) (\<lambda>_.
      zero_shrunk E old_size)) b)"

definition BufferT_AppendData :: "'a buf_env \<Rightarrow> 'a list \<Rightarrow> ('a, unit) bufm" where
  "BufferT_AppendData E data b =
     (let new_size = size_add (bf_size b) (length data) in
      sbind (EnsureCapacityWithHeadroom E new_size True) (\<lambda>_.
      sbind (\<lambda>b. buf_memcpy (bf_size b) (map Some data) b) (\<lambda>_.
      smodify (\<lambda>b. b\<lparr>bf_size := new_size\<rparr>))) b)"

text \<open>
  The functions with a setter. It gets the cells of the area where it should write, and returns how many
  elements it says it has written, and the cells.
\<close>

type_synonym 'a buf_setter = "'a option list \<Rightarrow> nat \<times> 'a option list"

definition BufferT_AppendData_with :: "'a buf_env \<Rightarrow> nat \<Rightarrow> 'a buf_setter \<Rightarrow> ('a, nat) bufm" where
  "BufferT_AppendData_with E max_elements setter b =
     (let old_size = bf_size b in
      sbind (BufferT_SetSize E (size_add old_size max_elements)) (\<lambda>_ b.
      let (written_elements, cells) = setter (case bf_data b of None \<Rightarrow> [] | Some d \<Rightarrow> take max_elements (drop old_size d)) in
      sbind (buf_store old_size cells) (\<lambda>_.
      if written_elements \<le> max_elements
      then sbind (smodify (\<lambda>b. b\<lparr>bf_size := size_add old_size written_elements\<rparr>)) (\<lambda>_. sret written_elements)
      else slift (Inl Fatal)) b) b)"

definition BufferT_SetData :: "'a buf_env \<Rightarrow> 'a list \<Rightarrow> ('a, unit) bufm" where
  "BufferT_SetData E data b =
     (let old_size = bf_size b in
      sbind (smodify (\<lambda>b. b\<lparr>bf_size := 0\<rparr>)) (\<lambda>_.
      sbind (BufferT_AppendData E data) (\<lambda>_.
      zero_shrunk E old_size)) b)"

definition BufferT_SetData_with :: "'a buf_env \<Rightarrow> nat \<Rightarrow> 'a buf_setter \<Rightarrow> ('a, nat) bufm" where
  "BufferT_SetData_with E max_elements setter b =
     (let old_size = bf_size b in
      sbind (smodify (\<lambda>b. b\<lparr>bf_size := 0\<rparr>)) (\<lambda>_.
      sbind (BufferT_AppendData_with E max_elements setter) (\<lambda>written.
      sbind (zero_shrunk E old_size) (\<lambda>_. sret written))) b)"

definition BufferT_Clear :: "'a buf_env \<Rightarrow> ('a, unit) bufm" where
  "BufferT_Clear E = sbind (MaybeZeroCompleteBuffer E) (\<lambda>_. smodify (\<lambda>b. b\<lparr>bf_size := 0\<rparr>))"






definition BufferT_size :: "'a buffer \<Rightarrow> nat" where "BufferT_size b = bf_size b"
definition BufferT_capacity :: "'a buffer \<Rightarrow> nat" where "BufferT_capacity b = bf_capacity b"
definition BufferT_empty :: "'a buffer \<Rightarrow> bool" where "BufferT_empty b \<longleftrightarrow> bf_size b = 0"

definition cells_of :: "'a buffer \<Rightarrow> 'a option list" where
  "cells_of b = (case bf_data b of None \<Rightarrow> [] | Some d \<Rightarrow> d)"

text \<open>Reading and writing an element through \<^verbatim>\<open>operator[]\<close>.\<close>

definition read_cell :: "'a option list \<Rightarrow> nat \<Rightarrow> 'a res" where
  "read_cell d i =
     (if i < length d then (case d ! i of None \<Rightarrow> Inl (UB BadRead) | Some x \<Rightarrow> Inr x) else Inl (UB BadRead))"

definition BufferT_get :: "nat \<Rightarrow> 'a buffer \<Rightarrow> 'a res" where
  "BufferT_get index b = read_cell (cells_of b) index"

definition BufferT_set :: "nat \<Rightarrow> 'a \<Rightarrow> ('a, unit) bufm" where
  "BufferT_set index x = buf_store index [Some x]"

text \<open>\<^verbatim>\<open>operator==\<close>, with \<^verbatim>\<open>memcmp\<close> for an integral element type.\<close>

definition BufferT_eq :: "bool \<Rightarrow> 'a buffer \<Rightarrow> 'a buffer \<Rightarrow> bool res" where
  "BufferT_eq is_integral a b =
     (if bf_size a \<noteq> bf_size b then Inr False
      else if is_integral \<and> (bf_data a = None \<or> bf_data b = None) then Inl (UB NullDeref)
      else
        rbind (rmap (read_cell (cells_of a)) [0..<bf_size a]) (\<lambda>xs.
        rbind (rmap (read_cell (cells_of b)) [0..<bf_size b]) (\<lambda>ys.
        Inr (xs = ys))))"

section \<open>Invariant\<close>

text \<open>
  The block is as long as the capacity says, which \<^verbatim>\<open>IsConsistent\<close> cannot see. No array is longer
  than \<open>2\<^sup>63 - 1\<close> elements.
\<close>

definition buf_ok :: "'a buf_env \<Rightarrow> 'a buffer \<Rightarrow> bool" where
  "buf_ok E b \<longleftrightarrow> (bf_data b = None \<longrightarrow> bf_capacity b = 0) \<and> length (cells_of b) = bf_capacity b \<and>
     bf_size b \<le> bf_capacity b \<and> bf_capacity b \<le> be_limit E"

abbreviation real_env :: "'a buf_env \<Rightarrow> bool" where
  "real_env E \<equiv> be_limit E < 2 ^ 63"

definition contents :: "'a buffer \<Rightarrow> 'a option list" where
  "contents b = take (bf_size b) (cells_of b)"

lemma contents_length: "buf_ok E b \<Longrightarrow> length (contents b) = bf_size b"
  by (simp add: contents_def buf_ok_def)


lemma buf_memcpy_store: "bf_data b \<noteq> None \<Longrightarrow> buf_memcpy i xs b = buf_store i xs b"
  by (cases "bf_data b") (simp_all add: buf_memcpy_def memcpy_def buf_store_def)

lemma buf_store_cells:
  assumes "i + length xs \<le> length (cells_of b)"
  shows "buf_store i xs b = (Inr (), b\<lparr>bf_data := (if bf_data b = None then None
    else Some (take i (cells_of b) @ xs @ drop (i + length xs) (cells_of b)))\<rparr>)"
  using assms by (cases b) (auto simp: buf_store_def store_cells_def cells_of_def split: option.splits)

lemma buf_ok_block: "buf_ok E b \<Longrightarrow> 0 < bf_capacity b \<Longrightarrow> bf_data b \<noteq> None"
  by (auto simp: buf_ok_def)

text \<open>What becomes of a block that is given back.\<close>

definition gone :: "'a buf_env \<Rightarrow> 'a buffer \<Rightarrow> 'a option list list" where
  "gone E b = (case bf_data b of None \<Rightarrow> []
     | Some d \<Rightarrow> [if be_zero_on_free E then replicate (bf_capacity b) (Some (be_zero E)) else d])"

lemma maybe_zero:
  assumes "buf_ok E b"
  shows "MaybeZeroCompleteBuffer E b = (Inr (), b\<lparr>bf_data := (case gone E b of [] \<Rightarrow> None | d # _ \<Rightarrow> Some d)\<rparr>)"
proof (cases "bf_data b")
  case None
  with assms show ?thesis by (cases b) (simp add: MaybeZeroCompleteBuffer_def gone_def buf_ok_def)
next
  case (Some d)
  then have "length d = bf_capacity b" using assms by (simp add: buf_ok_def cells_of_def)
  with Some show ?thesis by (cases b) (auto simp: MaybeZeroCompleteBuffer_def gone_def buf_memcpy_def memcpy_def store_cells_def)
qed

definition headroom :: "nat \<Rightarrow> bool \<Rightarrow> 'a buffer \<Rightarrow> nat" where
  "headroom n extra b = (if extra then max n (bf_capacity b + bf_capacity b div 2) else n)"

lemma ensure_cases:
  assumes ok: "buf_ok E b" and env: "real_env E"
  obtains (throws) "EnsureCapacityWithHeadroom E n h b = (Inl (Exn BadAlloc), b)" "be_limit E < headroom n h b" "bf_capacity b < n"
  | (fits) "EnsureCapacityWithHeadroom E n h b = (Inr (), b)" "n \<le> bf_capacity b"
  | (grows) "EnsureCapacityWithHeadroom E n h b = (Inr (), b\<lparr>bf_capacity := headroom n h b,
       bf_data := Some (contents b @ replicate (headroom n h b - bf_size b) None), bf_freed := bf_freed b @ gone E b,
       bf_copied := bf_copied b + bf_size b\<rparr>)" "bf_capacity b < n" "headroom n h b \<le> be_limit E"
proof (cases "n \<le> bf_capacity b")
  case True
  then show ?thesis by (intro fits) (simp_all add: EnsureCapacityWithHeadroom_def)
next
  case False
  have "bf_capacity b < 2 ^ 63" using ok env by (auto simp: buf_ok_def)
  then have "bf_capacity b + bf_capacity b div 2 < size_max" by (simp add: size_max_def)
  then have new: "(if h then max n (size_add (bf_capacity b) (bf_capacity b div 2)) else n) = headroom n h b"
    by (simp add: size_add_small headroom_def)
  show ?thesis
  proof (cases "headroom n h b \<le> be_limit E")
    case False
    with \<open>\<not> n \<le> bf_capacity b\<close> show ?thesis
      by (intro throws) (simp_all add: EnsureCapacityWithHeadroom_def new new_array_def Let_def)
  next
    case True
    have sz: "bf_size b \<le> length (cells_of b)" "bf_size b \<le> headroom n h b" using ok False
      by (auto simp: buf_ok_def headroom_def)
    show ?thesis
    proof (rule grows)
      show "EnsureCapacityWithHeadroom E n h b = (Inr (), b\<lparr>bf_capacity := headroom n h b,
       bf_data := Some (contents b @ replicate (headroom n h b - bf_size b) None), bf_freed := bf_freed b @ gone E b,
       bf_copied := bf_copied b + bf_size b\<rparr>)"
        using True False sz ok unfolding EnsureCapacityWithHeadroom_def new Let_def
        by (cases "bf_data b")
          (auto simp: new_array_def memcpy_def store_cells_def cells_of_def contents_def maybe_zero [OF ok] buf_replace_def gone_def buf_ok_def)
    qed (use True False in auto)
  qed
qed

text \<open>
  \<open>clean\<close>: the unused cells hold nothing but zeros. \<open>wiped\<close>: so do the blocks that were given back.
  \<open>cheap m\<close>: growing has not copied more than a multiple of the largest size \<open>m\<close> so far.
\<close>

definition clean_from :: "'a buf_env \<Rightarrow> nat \<Rightarrow> 'a buffer \<Rightarrow> bool" where
  "clean_from E k b \<longleftrightarrow> set (drop k (cells_of b)) \<subseteq> {None, Some (be_zero E)}"

abbreviation clean :: "'a buf_env \<Rightarrow> 'a buffer \<Rightarrow> bool" where
  "clean E b \<equiv> clean_from E (bf_size b) b"

definition wiped :: "'a buf_env \<Rightarrow> 'a buffer \<Rightarrow> bool" where
  "wiped E b \<longleftrightarrow> (\<forall>d \<in> set (bf_freed b). set d \<subseteq> {Some (be_zero E)})"

definition cheap :: "nat \<Rightarrow> 'a buffer \<Rightarrow> bool" where
  "cheap m b \<longleftrightarrow> bf_copied b \<le> 3 * bf_capacity b \<and> 2 * bf_capacity b \<le> 3 * m"

lemma wiped_gone: "be_zero_on_free E \<Longrightarrow> d \<in> set (gone E b) \<Longrightarrow> set d \<subseteq> {Some (be_zero E)}"
  by (auto simp: gone_def split: option.splits)

text \<open>The buffer once its block has room for \<open>n\<close> elements.\<close>

definition grown :: "'a buf_env \<Rightarrow> nat \<Rightarrow> bool \<Rightarrow> 'a buffer \<Rightarrow> 'a buffer \<Rightarrow> bool" where
  "grown E n h b b' \<longleftrightarrow> n \<le> bf_capacity b' \<and> buf_ok E b' \<and> contents b' = contents b \<and> bf_size b' = bf_size b \<and>
     bf_capacity b \<le> bf_capacity b' \<and> (bf_data b \<noteq> None \<longrightarrow> bf_data b' \<noteq> None) \<and> (\<forall>k. bf_size b \<le> k \<longrightarrow> clean_from E k b \<longrightarrow> clean_from E k b') \<and>
     (be_zero_on_free E \<longrightarrow> wiped E b \<longrightarrow> wiped E b') \<and>
     (h \<longrightarrow> (\<forall>m. cheap m b \<longrightarrow> n \<le> m \<longrightarrow> cheap m b'))"

lemma ensure_grown:
  assumes ok: "buf_ok E b" and env: "real_env E"
  obtains (throws) "EnsureCapacityWithHeadroom E n h b = (Inl (Exn BadAlloc), b)"
  | (grows) b' where "EnsureCapacityWithHeadroom E n h b = (Inr (), b')" "grown E n h b b'"
  using ok env
proof (cases rule: ensure_cases [where n = n and h = h])
  case throws
  then show ?thesis by (intro that(1))
next
  case fits
  with ok have "grown E n h b b" unfolding grown_def by blast
  with fits(1) show ?thesis by (intro that(2))
next
  case grows
  let ?n = "headroom n h b"
  let ?b = "b\<lparr>bf_capacity := ?n, bf_data := Some (contents b @ replicate (?n - bf_size b) None),
    bf_freed := bf_freed b @ gone E b, bf_copied := bf_copied b + bf_size b\<rparr>"
  have n: "n \<le> ?n" "bf_size b \<le> bf_capacity b" using ok by (auto simp: headroom_def buf_ok_def)
  have l: "length (contents b) = bf_size b" using ok by (rule contents_length)
  have "cheap m ?b" if "h" "cheap m b" "n \<le> m" for m
  proof -
    have "bf_capacity b + bf_capacity b div 2 \<le> ?n" "?n = n \<or> ?n = bf_capacity b + bf_capacity b div 2"
      using \<open>h\<close> by (auto simp: headroom_def)
    moreover have "4 * bf_capacity b \<le> 3 * ?n" using n(1) grows(2) calculation(1) by linarith
    ultimately show ?thesis using that n grows(2) by (auto simp: cheap_def)
  qed
  then have "grown E n h b ?b"
    using n l grows(2,3) wiped_gone [of E _ b]
    by (auto simp: grown_def buf_ok_def cells_of_def contents_def clean_from_def wiped_def)
  then show ?thesis by (intro that(2) [OF grows(1)])
qed

text \<open>Writing into a block that is long enough.\<close>

lemma write_cells:
  assumes "buf_ok E b" "i + length xs \<le> bf_capacity b"
  obtains b' where "buf_store i xs b = (Inr (), b')" "cells_of b' = take i (cells_of b) @ xs @ drop (i + length xs) (cells_of b)"
    "bf_size b' = bf_size b" "bf_capacity b' = bf_capacity b" "bf_freed b' = bf_freed b" "bf_copied b' = bf_copied b"
    "bf_data b' = None \<longleftrightarrow> bf_data b = None"
proof
  let ?b = "b\<lparr>bf_data := (if bf_data b = None then None
    else Some (take i (cells_of b) @ xs @ drop (i + length xs) (cells_of b)))\<rparr>"
  show "buf_store i xs b = (Inr (), ?b)" using assms by (intro buf_store_cells) (simp add: buf_ok_def)
  show "cells_of ?b = take i (cells_of b) @ xs @ drop (i + length xs) (cells_of b)"
    using assms by (cases "bf_data b") (auto simp: cells_of_def buf_ok_def)
qed simp_all

lemma append_cases:
  assumes ok: "buf_ok E b" and env: "real_env E" and xs: "length xs < 2 ^ 63" and nn: "xs \<noteq> [] \<or> bf_data b \<noteq> None"
  obtains (throws) "BufferT_AppendData E xs b = (Inl (Exn BadAlloc), b)"
  | (appends) b' where "BufferT_AppendData E xs b = (Inr (), b')" "buf_ok E b'" "contents b' = contents b @ map Some xs"
      "bf_capacity b \<le> bf_capacity b'" "bf_size b' = bf_size b + length xs"
      "\<And>k. bf_size b \<le> k \<Longrightarrow> clean_from E k b \<Longrightarrow> clean_from E (max k (bf_size b')) b'"
      "be_zero_on_free E \<longrightarrow> wiped E b \<longrightarrow> wiped E b'" "\<And>m. cheap m b \<Longrightarrow> bf_size b + length xs \<le> m \<Longrightarrow> cheap m b'"
proof -
  have "bf_size b < 2 ^ 63" using ok env by (auto simp: buf_ok_def)
  then have n: "size_add (bf_size b) (length xs) = bf_size b + length xs" using xs by (simp add: size_add_small size_max_def)
  let ?n = "bf_size b + length xs"
  show ?thesis
    using ok env
  proof (cases rule: ensure_grown [where n = ?n and h = True])
    case throws
    then show ?thesis by (intro that(1)) (simp add: BufferT_AppendData_def n Let_def)
  next
    case (grows v)
    then have v: "buf_ok E v" "?n \<le> bf_capacity v" "bf_size v = bf_size b" "contents v = contents b" by (auto simp: grown_def)
    have "bf_data b \<noteq> None \<longrightarrow> bf_data v \<noteq> None" using grows(2) by (simp add: grown_def)
    moreover have "xs \<noteq> [] \<Longrightarrow> 0 < bf_capacity v" using v(2) by (cases xs) simp_all
    ultimately have block: "bf_data v \<noteq> None" using nn buf_ok_block [OF v(1)] by blast
    obtain u where u: "buf_store (bf_size v) (map Some xs) v = (Inr (), u)"
      "cells_of u = take (bf_size v) (cells_of v) @ map Some xs @ drop (bf_size v + length xs) (cells_of v)" "bf_size u = bf_size v"
      "bf_capacity u = bf_capacity v" "bf_freed u = bf_freed v" "bf_copied u = bf_copied v" "bf_data u = None \<longleftrightarrow> bf_data v = None"
      using write_cells [OF v(1), of "bf_size v" "map Some xs"] v(2,3) by auto
    let ?u = "u\<lparr>bf_size := ?n\<rparr>"
    have c: "cells_of ?u = cells_of u" by (simp add: cells_of_def)
    show ?thesis
    proof (rule that(2))
      show "BufferT_AppendData E xs b = (Inr (), ?u)" using grows(1) u(1) v(3) by (simp add: BufferT_AppendData_def n Let_def buf_memcpy_store [OF block])
      show "buf_ok E ?u" using v u unfolding buf_ok_def c by auto
      show "contents ?u = contents b @ map Some xs" 
        using v(3,4) u(2) contents_length [OF ok] unfolding contents_def [of ?u] contents_def [of v] c by simp
      show "clean_from E (max k (bf_size ?u)) ?u" if "bf_size b \<le> k" "clean_from E k b" for k
      proof -
        have "clean_from E k v" using that grows(2) by (simp add: grown_def)
        moreover have "drop (max k ?n) (cells_of u) = drop (max k ?n) (cells_of v)" using u(2) v(2,3) v(1) by (simp add: buf_ok_def)
        ultimately show ?thesis using set_drop_subset_set_drop [of k "max k ?n" "cells_of v"] unfolding clean_from_def c by auto
      qed
      show "bf_capacity b \<le> bf_capacity ?u" using grows(2) u(4) by (simp add: grown_def)
      show "be_zero_on_free E \<longrightarrow> wiped E b \<longrightarrow> wiped E ?u" using grows(2) u by (simp add: grown_def wiped_def)
      show "cheap m ?u" if "cheap m b" "bf_size b + length xs \<le> m" for m
        using that grows(2) u unfolding grown_def cheap_def by auto
    qed simp
  qed
qed

text \<open>The end of an operation that may have shrunk the buffer.\<close>

abbreviation no_secrets :: "'a buf_env \<Rightarrow> 'a option list \<Rightarrow> bool" where
  "no_secrets E xs \<equiv> set xs \<subseteq> {None, Some (be_zero E)}"

lemma zero_shrunk_ok:
  assumes ok: "buf_ok E b" and old: "old \<le> bf_capacity b"
  obtains b' where "zero_shrunk E old b = (Inr (), b')" "buf_ok E b'" "contents b' = contents b" "bf_size b' = bf_size b"
    "bf_freed b' = bf_freed b" "bf_copied b' = bf_copied b" "bf_capacity b' = bf_capacity b"
    "be_zero_on_free E \<Longrightarrow> no_secrets E (drop (max old (bf_size b)) (cells_of b)) \<Longrightarrow> clean E b'"
    "bf_size b \<ge> old \<Longrightarrow> b' = b"
proof (cases "be_zero_on_free E \<and> bf_size b < old")
  case True
  let ?n = "old - bf_size b"
  obtain u where u: "buf_store (bf_size b) (replicate ?n (Some (be_zero E))) b = (Inr (), u)"
    "cells_of u = take (bf_size b) (cells_of b) @ replicate ?n (Some (be_zero E)) @ drop (bf_size b + ?n) (cells_of b)"
    "bf_size u = bf_size b" "bf_capacity u = bf_capacity b" "bf_freed u = bf_freed b" "bf_copied u = bf_copied b"
    "bf_data u = None \<longleftrightarrow> bf_data b = None"
    using write_cells [OF ok, of "bf_size b" "replicate ?n (Some (be_zero E))"] True old by auto
  have "zero_shrunk E old b = (Inr (), u)" using True u(1) old buf_ok_block [OF ok] by (simp add: zero_shrunk_def ZeroTrailingData_def buf_memcpy_store)
  moreover have "buf_ok E u" using ok u True old by (auto simp: buf_ok_def)
  moreover have "contents u = contents b" using u ok by (auto simp: contents_def buf_ok_def)
  moreover have "clean E u" if "no_secrets E (drop (max old (bf_size b)) (cells_of b))"
    using that u ok True by (auto simp: clean_from_def buf_ok_def max_def)
  ultimately show ?thesis using u True by (intro that [of u]) auto
next
  case False
  then show ?thesis using ok by (intro that [of b]) (auto simp: zero_shrunk_def clean_from_def max_def split: if_splits)
qed

lemma set_size_cases:
  assumes ok: "buf_ok E b" and env: "real_env E"
  obtains (throws) "BufferT_SetSize E sz b = (Inl (Exn BadAlloc), b)"
  | (sized) b' where "BufferT_SetSize E sz b = (Inr (), b')" "buf_ok E b'" "bf_size b' = sz"
      "take (bf_size b) (contents b') = take sz (contents b)"
      "be_zero_on_free E \<Longrightarrow> clean E b \<Longrightarrow> no_secrets E (drop (min sz (bf_size b)) (cells_of b'))"
      "be_zero_on_free E \<Longrightarrow> wiped E b \<Longrightarrow> wiped E b'" "\<And>m. cheap m b \<Longrightarrow> sz \<le> m \<Longrightarrow> cheap m b'"
      "bf_capacity b \<le> bf_capacity b'" "\<And>k. bf_size b \<le> k \<Longrightarrow> bf_size b \<le> sz \<Longrightarrow> clean_from E k b \<Longrightarrow> clean_from E k b'"
  using ok env
proof (cases rule: ensure_grown [where n = sz and h = True])
  case throws
  then show ?thesis by (intro that(1)) (simp add: BufferT_SetSize_def Let_def)
next
  case (grows v)
  then have v: "buf_ok E v" "sz \<le> bf_capacity v" "bf_size v = bf_size b" "contents v = contents b" by (auto simp: grown_def)
  let ?v = "v\<lparr>bf_size := sz\<rparr>"
  have c: "cells_of ?v = cells_of v" by (simp add: cells_of_def)
  have "buf_ok E ?v" "bf_size b \<le> bf_capacity ?v" using v unfolding buf_ok_def c by auto
  then obtain u where u: "zero_shrunk E (bf_size b) ?v = (Inr (), u)" "buf_ok E u" "contents u = contents ?v" "bf_size u = sz"
    "bf_freed u = bf_freed v" "bf_copied u = bf_copied v" "bf_capacity u = bf_capacity v"
    "be_zero_on_free E \<Longrightarrow> no_secrets E (drop (max (bf_size b) sz) (cells_of v)) \<Longrightarrow> clean E u"
    "sz \<ge> bf_size b \<Longrightarrow> u = ?v" using zero_shrunk_ok [of E ?v "bf_size b"] unfolding c by auto
  show ?thesis
  proof (rule that(2))
    show "BufferT_SetSize E sz b = (Inr (), u)" using grows(1) u(1) by (simp add: BufferT_SetSize_def Let_def)
    show "take (bf_size b) (contents u) = take sz (contents b)"
      using u(3) v(3,4) unfolding contents_def [of ?v] contents_def [of v] c by (metis buffer.select_convs(1) buffer.surjective
        buffer.update_convs(1) min.commute take_take)
    show "no_secrets E (drop (min sz (bf_size b)) (cells_of u))" if z: "be_zero_on_free E" "clean E b"
    proof -
      have cv: "no_secrets E (drop (bf_size b) (cells_of v))" using z grows(2) by (simp add: grown_def clean_from_def)
      show ?thesis
      proof (cases "sz \<ge> bf_size b")
        case True
        then show ?thesis using u(9) cv c by (simp add: min_def)
      next
        case False
        then have "clean E u" using u(8) z(1) cv by (simp add: max_def)
        with False u(4) show ?thesis by (simp add: clean_from_def min_def)
      qed
    qed
    show "wiped E u" if "be_zero_on_free E" "wiped E b" using that grows(2) u(5) by (simp add: grown_def wiped_def)
    show "cheap m u" if "cheap m b" "sz \<le> m" for m using that grows(2) u(6,7) unfolding grown_def cheap_def by auto
    show "bf_capacity b \<le> bf_capacity u" using grows(2) u(7) by (simp add: grown_def)
    show "clean_from E k u" if "bf_size b \<le> k" "bf_size b \<le> sz" "clean_from E k b" for k
      using that grows(2) u(9) by (simp add: grown_def clean_from_def c)
  qed (use u in auto)
qed

text \<open>A setter keeps to its contract: it writes into its area only, and leaves what is behind its last element.\<close>

definition setter_ok :: "'a buf_setter \<Rightarrow> bool" where
  "setter_ok f \<longleftrightarrow> (\<forall>cells. length (snd (f cells)) = length cells \<and> drop (fst (f cells)) (snd (f cells)) = drop (fst (f cells)) cells)"

lemma append_with_cases:
  assumes ok: "buf_ok E b" and env: "real_env E" and n: "n < 2 ^ 63" and f: "setter_ok f"
  obtains (throws) "BufferT_AppendData_with E n f b = (Inl (Exn BadAlloc), b)"
  | (overrun) b' cells where "BufferT_AppendData_with E n f b = (Inl Fatal, b')" "length cells = n" "n < fst (f cells)"
      "be_zero_on_free E \<Longrightarrow> wiped E b \<Longrightarrow> wiped E b'" "buf_ok E b'"
  | (appends) b' cells where "BufferT_AppendData_with E n f b = (Inr (fst (f cells)), b')" "length cells = n" "fst (f cells) \<le> n"
      "buf_ok E b'" "contents b' = contents b @ take (fst (f cells)) (snd (f cells))"
      "bf_capacity b \<le> bf_capacity b'" "bf_size b' = bf_size b + fst (f cells)"
      "\<And>k. bf_size b \<le> k \<Longrightarrow> clean_from E k b \<Longrightarrow> clean_from E (max k (bf_size b')) b'"
      "be_zero_on_free E \<Longrightarrow> wiped E b \<Longrightarrow> wiped E b'" "\<And>m. cheap m b \<Longrightarrow> bf_size b + n \<le> m \<Longrightarrow> cheap m b'"
proof -
  have "bf_size b < 2 ^ 63" using ok env by (auto simp: buf_ok_def)
  then have a: "size_add (bf_size b) n = bf_size b + n" "\<And>w. w \<le> n \<Longrightarrow> size_add (bf_size b) w = bf_size b + w"
    using n by (simp_all add: size_add_small size_max_def)
  show ?thesis
    using ok env
  proof (cases rule: set_size_cases [where sz = "bf_size b + n"])
    case throws
    then show ?thesis by (intro that(1)) (simp add: BufferT_AppendData_with_def Let_def a)
  next
    case (sized v)
    define cells where "cells = take n (drop (bf_size b) (cells_of v))"
    have l: "bf_size b + n \<le> length (cells_of v)" using sized(2,3) by (simp add: buf_ok_def)
    then have lc: "length cells = n" "length (snd (f cells)) = n" using f by (simp_all add: cells_def setter_ok_def)
    have ce: "(case bf_data v of None \<Rightarrow> [] | Some d \<Rightarrow> take n (drop (bf_size b) d)) = cells"
      by (simp add: cells_def cells_of_def split: option.splits)
    obtain u where u: "buf_store (bf_size b) (snd (f cells)) v = (Inr (), u)"
      "cells_of u = take (bf_size b) (cells_of v) @ snd (f cells) @ drop (bf_size b + n) (cells_of v)" "bf_size u = bf_size v"
      "bf_capacity u = bf_capacity v" "bf_freed u = bf_freed v" "bf_copied u = bf_copied v" "bf_data u = None \<longleftrightarrow> bf_data v = None"
      using write_cells [OF sized(2), of "bf_size b" "snd (f cells)"] lc l sized(2) by (auto simp: buf_ok_def)
    have run: "BufferT_AppendData_with E n f b = (if fst (f cells) \<le> n
        then (Inr (fst (f cells)), u\<lparr>bf_size := bf_size b + fst (f cells)\<rparr>) else (Inl Fatal, u))"
      using sized(1) u(1) by (simp add: BufferT_AppendData_with_def Let_def a ce split_beta)
    have uok: "buf_ok E u" using sized(2) u lc l by (auto simp: buf_ok_def)
    have w: "wiped E u" if "be_zero_on_free E" "wiped E b" using sized(6) that u(5) by (simp add: wiped_def)
    show ?thesis
    proof (cases "fst (f cells) \<le> n")
      case False
      then show ?thesis using run lc w uok by (intro that(2)) auto
    next
      case True
      let ?u = "u\<lparr>bf_size := bf_size b + fst (f cells)\<rparr>"
      have c: "cells_of ?u = cells_of u" by (simp add: cells_of_def)
      have t: "take (bf_size b) (cells_of v) = contents b"
        using sized(3,4) contents_length [OF ok] by (simp add: contents_def [of v] min_def)
      show ?thesis
      proof (rule that(3))
        show "BufferT_AppendData_with E n f b = (Inr (fst (f cells)), ?u)" using run True by simp
        show "buf_ok E ?u" using uok True u(3) sized(3) unfolding buf_ok_def c by auto
        show "contents ?u = contents b @ take (fst (f cells)) (snd (f cells))"
          using u(2) t lc True contents_length [OF ok] unfolding contents_def [of ?u] c by simp
        show "clean_from E (max k (bf_size ?u)) ?u" if k: "bf_size b \<le> k" "clean_from E k b" for k
        proof -
          let ?w = "fst (f cells)"
          have kv: "clean_from E k v" using sized(9) k by simp
          have "drop ?w (snd (f cells)) = drop ?w cells" using f by (simp add: setter_ok_def)
          then have "drop (bf_size b + ?w) (cells_of u) = drop ?w cells @ drop n (drop (bf_size b) (cells_of v))"
            using u(2) t lc True contents_length [OF ok] by (simp add: add.commute)
          also have "\<dots> = drop ?w (drop (bf_size b) (cells_of v))"
            using lc(1) True append_take_drop_id [of n "drop (bf_size b) (cells_of v)"] unfolding cells_def
            by (metis diff_is_0_eq' drop_0 drop_append length_drop)
          finally have d: "drop (bf_size b + ?w) (cells_of u) = drop (bf_size b + ?w) (cells_of v)" by (simp add: add.commute)
          have "drop (max k (bf_size b + ?w)) (cells_of u) = drop (max k (bf_size b + ?w)) (cells_of v)"
            using arg_cong [OF d, of "drop (max k (bf_size b + ?w) - (bf_size b + ?w))"] by simp
          then show ?thesis
            using kv set_drop_subset_set_drop [of k "max k (bf_size b + ?w)" "cells_of v"] unfolding clean_from_def c by auto
        qed
        show "bf_capacity b \<le> bf_capacity ?u" using sized(8) u(4) by simp
        show "cheap m ?u" if "cheap m b" "bf_size b + n \<le> m" for m using sized(7) [OF that] u(4,6) by (simp add: cheap_def)
      qed (use True lc w in \<open>auto simp: wiped_def\<close>)
    qed
  qed
qed

text \<open>The \<^verbatim>\<open>SetData\<close> functions first forget the contents: when the memory runs out they are lost.\<close>

lemma forget_ok:
  assumes "buf_ok E b"
  shows "buf_ok E (b\<lparr>bf_size := 0\<rparr>)" "contents (b\<lparr>bf_size := 0\<rparr>) = []" "wiped E b \<Longrightarrow> wiped E (b\<lparr>bf_size := 0\<rparr>)"
    "cheap m b \<Longrightarrow> cheap m (b\<lparr>bf_size := 0\<rparr>)"
  using assms by (auto simp: buf_ok_def contents_def cells_of_def wiped_def cheap_def)

lemma set_data_cases:
  assumes ok: "buf_ok E b" and env: "real_env E" and xs: "length xs < 2 ^ 63" and nn: "xs \<noteq> [] \<or> bf_data b \<noteq> None"
  obtains (throws) "BufferT_SetData E xs b = (Inl (Exn BadAlloc), b\<lparr>bf_size := 0\<rparr>)"
  | (sets) b' where "BufferT_SetData E xs b = (Inr (), b')" "buf_ok E b'" "contents b' = map Some xs"
      "be_zero_on_free E \<Longrightarrow> clean E b \<Longrightarrow> clean E b'" "be_zero_on_free E \<Longrightarrow> wiped E b \<Longrightarrow> wiped E b'"
      "\<And>m. cheap m b \<Longrightarrow> length xs \<le> m \<Longrightarrow> cheap m b'"
proof -
  have nn': "xs \<noteq> [] \<or> bf_data (b\<lparr>bf_size := 0\<rparr>) \<noteq> None" using nn by simp
  show ?thesis using forget_ok(1) [OF ok] env xs nn'
  proof (cases rule: append_cases)
    case throws
    then show ?thesis by (intro that(1)) (simp add: BufferT_SetData_def Let_def)
  next
    case (appends v)
    have "bf_size b \<le> bf_capacity v" using appends(4) ok by (simp add: buf_ok_def)
    then obtain u where u: "zero_shrunk E (bf_size b) v = (Inr (), u)" "buf_ok E u" "contents u = contents v"
      "bf_freed u = bf_freed v" "bf_copied u = bf_copied v" "bf_capacity u = bf_capacity v"
      "be_zero_on_free E \<Longrightarrow> no_secrets E (drop (max (bf_size b) (bf_size v)) (cells_of v)) \<Longrightarrow> clean E u"
      using zero_shrunk_ok [OF appends(2)] by metis
    show ?thesis
    proof (rule that(2))
      show "BufferT_SetData E xs b = (Inr (), u)" using appends(1) u(1) by (simp add: BufferT_SetData_def Let_def)
      show "clean E u" if "be_zero_on_free E" "clean E b"
        using u(7) appends(6) [of "bf_size b"] that by (simp add: clean_from_def cells_of_def)
      show "wiped E u" if "be_zero_on_free E" "wiped E b" using appends(7) that u(4) by (simp add: wiped_def)
      show "cheap m u" if "cheap m b" "length xs \<le> m" for m
        using appends(8) [of m] that u(5,6) forget_ok(4) [OF ok] by (simp add: cheap_def)
    qed (use u appends(3) forget_ok(2) [OF ok] in auto)
  qed
qed

lemma set_data_with_cases:
  assumes ok: "buf_ok E b" and env: "real_env E" and n: "n < 2 ^ 63" and f: "setter_ok f"
  obtains (throws) "BufferT_SetData_with E n f b = (Inl (Exn BadAlloc), b\<lparr>bf_size := 0\<rparr>)"
  | (overrun) b' cells where "BufferT_SetData_with E n f b = (Inl Fatal, b')" "length cells = n" "n < fst (f cells)"
      "be_zero_on_free E \<Longrightarrow> wiped E b \<Longrightarrow> wiped E b'" "buf_ok E b'"
  | (sets) b' cells where "BufferT_SetData_with E n f b = (Inr (fst (f cells)), b')" "length cells = n" "fst (f cells) \<le> n"
      "buf_ok E b'" "contents b' = take (fst (f cells)) (snd (f cells))"
      "be_zero_on_free E \<Longrightarrow> clean E b \<Longrightarrow> clean E b'" "be_zero_on_free E \<Longrightarrow> wiped E b \<Longrightarrow> wiped E b'"
      "\<And>m. cheap m b \<Longrightarrow> n \<le> m \<Longrightarrow> cheap m b'"
  using forget_ok(1) [OF ok] env n f
proof (cases rule: append_with_cases)
  case throws
  then show ?thesis by (intro that(1)) (simp add: BufferT_SetData_with_def Let_def)
next
  case (overrun v cells)
  then show ?thesis using forget_ok(3) [OF ok] by (intro that(2)) (auto simp: BufferT_SetData_with_def Let_def)
next
  case (appends v cells)
  have "bf_size b \<le> bf_capacity v" using appends(6) ok by (simp add: buf_ok_def)
  then obtain u where u: "zero_shrunk E (bf_size b) v = (Inr (), u)" "buf_ok E u" "contents u = contents v"
    "bf_freed u = bf_freed v" "bf_copied u = bf_copied v" "bf_capacity u = bf_capacity v"
    "be_zero_on_free E \<Longrightarrow> no_secrets E (drop (max (bf_size b) (bf_size v)) (cells_of v)) \<Longrightarrow> clean E u"
    using zero_shrunk_ok [OF appends(4)] by metis
  show ?thesis
  proof (rule that(3))
    show "BufferT_SetData_with E n f b = (Inr (fst (f cells)), u)" using appends(1) u(1) by (simp add: BufferT_SetData_with_def Let_def)
    show "clean E u" if "be_zero_on_free E" "clean E b"
      using u(7) appends(8) [of "bf_size b"] that by (simp add: clean_from_def cells_of_def)
    show "wiped E u" if "be_zero_on_free E" "wiped E b" using appends(9) that u(4) by (simp add: wiped_def)
    show "cheap m u" if "cheap m b" "n \<le> m" for m
      using appends(10) [of m] that u(5,6) forget_ok(4) [OF ok] by (simp add: cheap_def)
  qed (use u appends(2,3,5) forget_ok(2) [OF ok] in auto)
qed

lemma clear_ok:
  assumes ok: "buf_ok E b"
  obtains b' where "BufferT_Clear E b = (Inr (), b')" "buf_ok E b'" "contents b' = []" "be_zero_on_free E \<Longrightarrow> clean E b'"
    "wiped E b \<Longrightarrow> wiped E b'" "\<And>m. cheap m b \<Longrightarrow> cheap m b'"
proof
  let ?b = "b\<lparr>bf_data := (case gone E b of [] \<Rightarrow> None | d # _ \<Rightarrow> Some d), bf_size := 0\<rparr>"
  show "BufferT_Clear E b = (Inr (), ?b)" using maybe_zero [OF ok] by (simp add: BufferT_Clear_def)
  show "buf_ok E ?b" using ok by (auto simp: buf_ok_def gone_def cells_of_def split: option.splits)
  show "be_zero_on_free E \<Longrightarrow> clean E ?b" by (auto simp: clean_from_def cells_of_def gone_def split: option.splits)
qed (auto simp: contents_def wiped_def cheap_def)

lemma set_cases:
  assumes ok: "buf_ok E b" and i: "i < bf_size b"
  obtains b' where "BufferT_set i x b = (Inr (), b')" "buf_ok E b'" "contents b' = (contents b)[i := Some x]" "clean E b \<Longrightarrow> clean E b'"
    "wiped E b \<Longrightarrow> wiped E b'" "\<And>m. cheap m b \<Longrightarrow> cheap m b'"
proof -
  have c: "Suc i \<le> bf_capacity b" using ok i by (simp add: buf_ok_def)
  obtain u where u: "buf_store i [Some x] b = (Inr (), u)" "cells_of u = take i (cells_of b) @ [Some x] @ drop (Suc i) (cells_of b)"
    "bf_size u = bf_size b" "bf_capacity u = bf_capacity b" "bf_freed u = bf_freed b" "bf_copied u = bf_copied b"
    "bf_data u = None \<longleftrightarrow> bf_data b = None" using write_cells [OF ok, of i "[Some x]"] c by auto
  have l: "cells_of u = (cells_of b)[i := Some x]" using u(2) c ok by (simp add: upd_conv_take_nth_drop buf_ok_def)
  show ?thesis
  proof (rule that [of u])
    show "contents u = (contents b)[i := Some x]" using l u(3) by (simp add: contents_def take_update_swap)
    show "clean E b \<Longrightarrow> clean E u" using l u(3) i by (simp add: clean_from_def)
  qed (use u(1,3-7) l ok in \<open>auto simp: BufferT_set_def buf_ok_def wiped_def cheap_def\<close>)
qed

section \<open>Programs\<close>

datatype 'a buf_op =
    OpAppend "'a list"
  | OpSet "'a list"
  | OpAppendWith nat "'a buf_setter"
  | OpSetWith nat "'a buf_setter"
  | OpSize nat
  | OpReserve nat
  | OpClear
  | OpPut nat 'a

fun buf_exec :: "'a buf_env \<Rightarrow> 'a buf_op \<Rightarrow> ('a, unit) bufm" where
  "buf_exec E (OpAppend xs) = BufferT_AppendData E xs"
| "buf_exec E (OpSet xs) = BufferT_SetData E xs"
| "buf_exec E (OpAppendWith n f) = sbind (BufferT_AppendData_with E n f) (\<lambda>_. sret ())"
| "buf_exec E (OpSetWith n f) = sbind (BufferT_SetData_with E n f) (\<lambda>_. sret ())"
| "buf_exec E (OpSize n) = BufferT_SetSize E n"
| "buf_exec E (OpReserve n) = BufferT_EnsureCapacity E n"
| "buf_exec E OpClear = BufferT_Clear E"
| "buf_exec E (OpPut i x) = BufferT_set i x"

text \<open>What a caller has to keep to, and what it gets, in terms of the list of elements.\<close>

fun buf_pre :: "'a buf_op \<Rightarrow> 'a option list \<Rightarrow> bool" where
  "buf_pre (OpAppend xs) l \<longleftrightarrow> length xs < 2 ^ 63"
| "buf_pre (OpSet xs) l \<longleftrightarrow> length xs < 2 ^ 63"
| "buf_pre (OpAppendWith n f) l \<longleftrightarrow> n < 2 ^ 63 \<and> setter_ok f"
| "buf_pre (OpSetWith n f) l \<longleftrightarrow> n < 2 ^ 63 \<and> setter_ok f"
| "buf_pre (OpPut i x) l \<longleftrightarrow> i < length l"
| "buf_pre _ l \<longleftrightarrow> True"

definition written_by :: "nat \<Rightarrow> 'a buf_setter \<Rightarrow> 'a option list \<Rightarrow> bool" where
  "written_by n f l \<longleftrightarrow> (\<exists>cells. length cells = n \<and> fst (f cells) \<le> n \<and> l = take (fst (f cells)) (snd (f cells)))"

fun buf_spec :: "'a buf_op \<Rightarrow> 'a option list \<Rightarrow> 'a option list \<Rightarrow> bool" where
  "buf_spec (OpAppend xs) l l' \<longleftrightarrow> l' = l @ map Some xs"
| "buf_spec (OpSet xs) l l' \<longleftrightarrow> l' = map Some xs"
| "buf_spec (OpAppendWith n f) l l' \<longleftrightarrow> (\<exists>w. written_by n f w \<and> l' = l @ w)"
| "buf_spec (OpSetWith n f) l l' \<longleftrightarrow> written_by n f l'"
| "buf_spec (OpSize n) l l' \<longleftrightarrow> length l' = n \<and> take (length l) l' = take n l"
| "buf_spec (OpReserve n) l l' \<longleftrightarrow> l' = l"
| "buf_spec OpClear l l' \<longleftrightarrow> l' = []"
| "buf_spec (OpPut i x) l l' \<longleftrightarrow> l' = l[i := Some x]"

text \<open>The operations that forget the contents first, and those whose setter claims more than it was given.\<close>

fun replaces :: "'a buf_op \<Rightarrow> bool" where
  "replaces (OpSet xs) = True"
| "replaces (OpSetWith n f) = True"
| "replaces _ = False"

fun overruns :: "'a buf_op \<Rightarrow> bool" where
  "overruns (OpAppendWith n f) \<longleftrightarrow> (\<exists>cells. length cells = n \<and> n < fst (f cells))"
| "overruns (OpSetWith n f) \<longleftrightarrow> (\<exists>cells. length cells = n \<and> n < fst (f cells))"
| "overruns _ \<longleftrightarrow> False"

text \<open>The operations that call \<^verbatim>\<open>memcpy\<close> with the null pointer of a buffer without a block.\<close>

fun null_copy :: "'a buf_op \<Rightarrow> 'a buffer \<Rightarrow> bool" where
  "null_copy (OpAppend xs) b \<longleftrightarrow> xs = [] \<and> bf_data b = None"
| "null_copy (OpSet xs) b \<longleftrightarrow> xs = [] \<and> bf_data b = None"
| "null_copy _ b \<longleftrightarrow> False"

text \<open>The size an operation asks for; \<^verbatim>\<open>EnsureCapacity\<close> allocates without headroom.\<close>

fun wants :: "'a buf_op \<Rightarrow> 'a buffer \<Rightarrow> nat" where
  "wants (OpAppend xs) b = bf_size b + length xs"
| "wants (OpSet xs) b = length xs"
| "wants (OpAppendWith n f) b = bf_size b + n"
| "wants (OpSetWith n f) b = n"
| "wants (OpSize n) b = n"
| "wants _ b = 0"

fun with_headroom :: "'a buf_op \<Rightarrow> bool" where
  "with_headroom (OpReserve n) = False"
| "with_headroom _ = True"

definition outcome :: "'a buf_env \<Rightarrow> 'a buf_op \<Rightarrow> 'a buffer \<Rightarrow> unit res \<Rightarrow> 'a buffer \<Rightarrow> bool" where
  "outcome E op b r b' \<longleftrightarrow> buf_ok E b' \<and> (be_zero_on_free E \<longrightarrow> wiped E b \<longrightarrow> wiped E b') \<and>
     (if null_copy op b then r = Inl (UB NullDeref)
      else r = Inr () \<and> buf_spec op (contents b) (contents b') \<and> (be_zero_on_free E \<longrightarrow> clean E b \<longrightarrow> clean E b') \<or>
        r = Inl (Exn BadAlloc) \<and> (contents b' = contents b \<or> replaces op \<and> contents b' = []) \<or>
        r = Inl Fatal \<and> overruns op) \<and>
     (with_headroom op \<longrightarrow> r \<noteq> Inl Fatal \<longrightarrow> (\<forall>m. cheap m b \<longrightarrow> wants op b \<le> m \<longrightarrow> cheap m b'))"

lemma outcome_ok:
  assumes "buf_exec E op b = (Inr (), b')" "\<not> null_copy op b" "buf_ok E b'" "buf_spec op (contents b) (contents b')"
    "be_zero_on_free E \<Longrightarrow> clean E b \<Longrightarrow> clean E b'" "be_zero_on_free E \<Longrightarrow> wiped E b \<Longrightarrow> wiped E b'"
    "\<And>m. with_headroom op \<Longrightarrow> cheap m b \<Longrightarrow> wants op b \<le> m \<Longrightarrow> cheap m b'"
  shows "\<exists>r b'. buf_exec E op b = (r, b') \<and> outcome E op b r b'"
proof -
  have "outcome E op b (Inr ()) b'" using assms unfolding outcome_def by simp
  with assms(1) show ?thesis by blast
qed

lemma outcome_throws:
  assumes "buf_exec E op b = (Inl (Exn BadAlloc), b')" "\<not> null_copy op b" "buf_ok E b" "b' = b \<or> replaces op \<and> b' = b\<lparr>bf_size := 0\<rparr>"
  shows "\<exists>r b'. buf_exec E op b = (r, b') \<and> outcome E op b r b'"
proof -
  have "outcome E op b (Inl (Exn BadAlloc)) b'" using assms(2-4) forget_ok [OF assms(3)] unfolding outcome_def by auto
  with assms(1) show ?thesis by blast
qed

lemma outcome_fatal:
  assumes "buf_exec E op b = (Inl Fatal, b')" "\<not> null_copy op b" "buf_ok E b'" "be_zero_on_free E \<Longrightarrow> wiped E b \<Longrightarrow> wiped E b'" "overruns op"
  shows "\<exists>r b'. buf_exec E op b = (r, b') \<and> outcome E op b r b'"
proof -
  have "outcome E op b (Inl Fatal) b'" using assms unfolding outcome_def by simp
  with assms(1) show ?thesis by blast
qed

lemma append_null:
  assumes "buf_ok E b" "bf_data b = None"
  shows "BufferT_AppendData E [] b = (Inl (UB NullDeref), b)"
proof -
  have "bf_size b = 0" using assms by (simp add: buf_ok_def)
  then show ?thesis using assms(2)
    by (simp add: BufferT_AppendData_def EnsureCapacityWithHeadroom_def buf_memcpy_def memcpy_def size_add_def sbind_def)
qed

lemma outcome_null:
  assumes "buf_ok E b" "null_copy op b"
  shows "\<exists>r b'. buf_exec E op b = (r, b') \<and> outcome E op b r b'"
proof -
  have "outcome E op b (Inl (UB NullDeref)) b" "outcome E op b (Inl (UB NullDeref)) (b\<lparr>bf_size := 0\<rparr>)"
    using assms forget_ok [OF assms(1)] unfolding outcome_def by auto
  moreover have "buf_exec E op b \<in> {(Inl (UB NullDeref), b), (Inl (UB NullDeref), b\<lparr>bf_size := 0\<rparr>)}"
    using assms append_null [OF forget_ok(1) [OF assms(1)]] append_null [OF assms(1)]
    by (cases op) (auto simp: BufferT_SetData_def)
  ultimately show ?thesis by blast
qed

lemma buf_exec_outcome:
  assumes ok: "buf_ok E b" and env: "real_env E" and pre: "buf_pre op (contents b)"
  shows "\<exists>r b'. buf_exec E op b = (r, b') \<and> outcome E op b r b'"
proof (cases "null_copy op b")
  case True
  with ok show ?thesis by (rule outcome_null)
next
  case nn: False
  show ?thesis
  proof (cases op)
    case (OpAppend xs)
    then have "length xs < 2 ^ 63" "xs \<noteq> [] \<or> bf_data b \<noteq> None" using pre nn by auto
    with ok env show ?thesis
    proof (cases rule: append_cases)
      case (appends b')
      then show ?thesis using nn OpAppend appends(6) [of "bf_size b"] by (intro outcome_ok [where b' = b']) (auto simp: max_def)
    qed (rule outcome_throws, use nn OpAppend ok in \<open>auto\<close>)
  next
    case (OpSet xs)
    then have "length xs < 2 ^ 63" "xs \<noteq> [] \<or> bf_data b \<noteq> None" using pre nn by auto
    with ok env show ?thesis
    proof (cases rule: set_data_cases)
      case (sets b')
      then show ?thesis using nn OpSet by (intro outcome_ok [where b' = b']) auto
    qed (rule outcome_throws, use nn OpSet ok in \<open>auto\<close>)
  next
    case (OpAppendWith n f)
    then have "n < 2 ^ 63" "setter_ok f" using pre by auto
    with ok env show ?thesis
    proof (cases rule: append_with_cases)
      case (overrun b' cells)
      then show ?thesis using nn OpAppendWith by (intro outcome_fatal [where b' = b']) auto
    next
      case (appends b' cells)
      then show ?thesis using nn OpAppendWith appends(8) [of "bf_size b"]
        by (intro outcome_ok [where b' = b']) (auto simp: max_def written_by_def)
    qed (rule outcome_throws, use nn OpAppendWith ok in \<open>auto\<close>)
  next
    case (OpSetWith n f)
    then have "n < 2 ^ 63" "setter_ok f" using pre by auto
    with ok env show ?thesis
    proof (cases rule: set_data_with_cases)
      case (overrun b' cells)
      then show ?thesis using nn OpSetWith by (intro outcome_fatal [where b' = b']) auto
    next
      case (sets b' cells)
      then show ?thesis using nn OpSetWith by (intro outcome_ok [where b' = b']) (auto simp: written_by_def)
    qed (rule outcome_throws, use nn OpSetWith ok in \<open>auto\<close>)
  next
    case (OpSize n)
    from ok env show ?thesis
    proof (cases rule: set_size_cases [where sz = n])
      case (sized b')
      have "clean E b'" if "be_zero_on_free E" "clean E b"
        using sized(3) sized(5) [OF that] set_drop_subset_set_drop [of "min n (bf_size b)" n "cells_of b'"] by (auto simp: clean_from_def)
      with sized show ?thesis using nn OpSize contents_length [OF ok] contents_length [OF sized(2)] by (intro outcome_ok [where b' = b']) auto
    qed (rule outcome_throws, use nn OpSize ok in \<open>auto\<close>)
  next
    case (OpReserve n)
    from ok env show ?thesis
    proof (cases rule: ensure_grown [where n = n and h = False])
      case (grows b')
      then show ?thesis using nn OpReserve by (intro outcome_ok [where b' = b']) (auto simp: BufferT_EnsureCapacity_def grown_def)
    qed (rule outcome_throws, use nn OpReserve ok in \<open>auto simp: BufferT_EnsureCapacity_def\<close>)
  next
    case OpClear
    obtain b' where "BufferT_Clear E b = (Inr (), b')" "buf_ok E b'" "contents b' = []" "be_zero_on_free E \<Longrightarrow> clean E b'"
      "wiped E b \<Longrightarrow> wiped E b'" "\<And>m. cheap m b \<Longrightarrow> cheap m b'" using clear_ok [OF ok] by metis
    then show ?thesis using nn OpClear by (intro outcome_ok [where b' = b']) auto
  next
    case (OpPut i x)
    then have "i < bf_size b" using pre contents_length [OF ok] by simp
    then obtain b' where "BufferT_set i x b = (Inr (), b')" "buf_ok E b'" "contents b' = (contents b)[i := Some x]" "clean E b \<Longrightarrow> clean E b'"
      "wiped E b \<Longrightarrow> wiped E b'" "\<And>m. cheap m b \<Longrightarrow> cheap m b'" using set_cases [OF ok] by metis
    then show ?thesis using nn OpPut by (intro outcome_ok [where b' = b']) auto
  qed
qed

section \<open>Construction and the end\<close>

lemma default_ok: "buf_ok E BufferT_default" "contents BufferT_default = []" "cheap 0 BufferT_default" "clean E BufferT_default"
  "wiped E BufferT_default"
  by (simp_all add: BufferT_default_def buf_ok_def contents_def cells_of_def cheap_def clean_from_def wiped_def)

lemma sized_ok:
  assumes "BufferT_sized E sz n = Inr b"
  shows "buf_ok E b" "bf_size b = sz" "bf_capacity b = max sz n" "wiped E b" "set (cells_of b) \<subseteq> {None}"
  using assms by (auto simp: BufferT_sized_def Let_def rbind_Inr_iff new_array_def buf_ok_def cells_of_def wiped_def split: if_splits)

lemma of_ok:
  assumes "BufferT_of E xs n = Inr b"
  shows "buf_ok E b" "contents b = map Some xs" "clean E b" "wiped E b"
proof -
  obtain c d where c: "BufferT_sized E (length xs) n = Inr c" "memcpy 0 (map Some xs) (bf_data c) = Inr d" "b = c\<lparr>bf_data := d\<rparr>"
    using assms by (auto simp: BufferT_of_def rbind_Inr_iff)
  note s = sized_ok [OF c(1)]
  have "cells_of b = map Some xs @ drop (length xs) (cells_of c)" "d = None \<longleftrightarrow> bf_data c = None"
    using c(2,3) s(1) by (auto simp: memcpy_def store_cells_def cells_of_def buf_ok_def split: option.splits if_splits)
  with s c(3) set_drop_subset [of "length xs" "cells_of c"] show "buf_ok E b" "contents b = map Some xs" "clean E b" "wiped E b"
    by (auto simp: buf_ok_def contents_def clean_from_def wiped_def)
qed

lemma destroy_ok:
  assumes "buf_ok E b" "be_zero_on_free E" "wiped E b"
  obtains b' where "BufferT_destroy E b = (Inr (), b')" "bf_data b' = None" "wiped E b'"
    "length (bf_freed b') = length (bf_freed b) + of_bool (bf_data b \<noteq> None)"
proof
  let ?b = "buf_replace None (b\<lparr>bf_data := (case gone E b of [] \<Rightarrow> None | d # _ \<Rightarrow> Some d)\<rparr>)"
  show "BufferT_destroy E b = (Inr (), ?b)" using maybe_zero [OF assms(1)] by (simp add: BufferT_destroy_def)
  show "wiped E ?b" "length (bf_freed ?b) = length (bf_freed b) + of_bool (bf_data b \<noteq> None)"
    using assms(2,3) by (auto simp: wiped_def buf_replace_def gone_def split: option.splits)
qed (simp add: buf_replace_def)

text \<open>
  Runs of a program on one buffer that catches what is thrown, with the largest size asked for so far. A failed
  \<^verbatim>\<open>RTC_CHECK\<close> ends the program.
\<close>

inductive buf_step :: "'a buf_env \<Rightarrow> nat \<times> 'a buffer \<Rightarrow> nat \<times> 'a buffer \<Rightarrow> bool" for E where
  exec: "buf_pre op (contents b) \<Longrightarrow> buf_exec E op b = (r, b') \<Longrightarrow> r = Inr () \<or> r = Inl (Exn BadAlloc) \<Longrightarrow>
    buf_step E (m, b) (max m (wants op b), b')"

text \<open>The same without calls of \<^verbatim>\<open>EnsureCapacity\<close>, and without exceptions.\<close>

inductive buf_step_headroom :: "'a buf_env \<Rightarrow> nat \<times> 'a buffer \<Rightarrow> nat \<times> 'a buffer \<Rightarrow> bool" for E where
  exec: "with_headroom op \<Longrightarrow> buf_pre op (contents b) \<Longrightarrow> buf_exec E op b = (r, b') \<Longrightarrow> r = Inr () \<or> r = Inl (Exn BadAlloc) \<Longrightarrow>
    buf_step_headroom E (m, b) (max m (wants op b), b')"

definition buf_inv :: "'a buf_env \<Rightarrow> nat \<times> 'a buffer \<Rightarrow> bool" where
  "buf_inv E s \<longleftrightarrow> real_env E \<and> buf_ok E (snd s) \<and> (be_zero_on_free E \<longrightarrow> wiped E (snd s))"

interpretation buf_runs: transition_system "buf_step E" "buf_inv E" for E
proof
  fix s t :: "nat \<times> 'a buffer"
  assume "buf_step E s t" "buf_inv E s"
  then show "buf_inv E t"
  proof cases
    case (exec op b r b' m)
    with \<open>buf_inv E s\<close> have "outcome E op b r b'" using buf_exec_outcome [of E b op] by (auto simp: buf_inv_def)
    then have "buf_ok E b'" "be_zero_on_free E \<Longrightarrow> wiped E b \<Longrightarrow> wiped E b'" by (auto simp: outcome_def)
    with \<open>buf_inv E s\<close> exec(1,2) show ?thesis by (auto simp: buf_inv_def)
  qed
qed

interpretation grow_runs: transition_system "buf_step_headroom E" "\<lambda>s. buf_inv E s \<and> cheap (fst s) (snd s)" for E
proof
  fix s t :: "nat \<times> 'a buffer"
  assume st: "buf_step_headroom E s t" and inv: "buf_inv E s \<and> cheap (fst s) (snd s)"
  from st show "buf_inv E t \<and> cheap (fst t) (snd t)"
  proof cases
    case (exec op b r b' m)
    have "buf_inv E t" using inv exec buf_runs.invar_step buf_step.exec [of op b E r b' m] by blast
    moreover have "outcome E op b r b'" using buf_exec_outcome [of E b op] inv exec by (auto simp: buf_inv_def)
    moreover have "cheap (max m (wants op b)) b" using inv exec(1) by (auto simp: cheap_def)
    ultimately show ?thesis using exec by (auto simp: outcome_def)
  qed
qed

section \<open>Several buffers\<close>



















section \<open>Properties\<close>


definition byte_env :: "bool \<Rightarrow> nat buf_env" where
  "byte_env z = \<lparr>be_zero_on_free = z, be_zero = 0, be_limit = 100\<rparr>"

definition seven_eight :: "nat buffer" where
  "seven_eight = \<lparr>bf_size = 2, bf_capacity = 2, bf_data = Some [Some 7, Some 8], bf_freed = [], bf_copied = 0\<rparr>"

lemma append_two: "buf_exec (byte_env z) (OpAppend [7, 8]) BufferT_default = (Inr (), seven_eight)"
  by (simp add: BufferT_AppendData_def EnsureCapacityWithHeadroom_def byte_env_def BufferT_default_def Let_def new_array_def
      buf_memcpy_def memcpy_def store_cells_def MaybeZeroCompleteBuffer_def buf_replace_def size_add_def size_max_def seven_eight_def
      sbind_def slift_def smodify_def eval_nat_numeral(3) [symmetric] del: One_nat_def)


text \<open>
  Growing is cheap: whatever is appended, set and resized in whatever order, the elements that were copied to larger blocks
  are at most four and a half times the largest size that was ever asked for.
\<close>

theorem growth_is_linear:
  assumes "real_env E" and "(buf_step_headroom E)\<^sup>*\<^sup>* (0, BufferT_default) (m, b)"
  shows "2 * bf_copied b \<le> 9 * m \<and> 2 * BufferT_capacity b \<le> 3 * m"
proof -
  have "buf_inv E (0, BufferT_default)" using assms(1) by (simp add: buf_inv_def default_ok)
  then have "cheap m b" using grow_runs.invar_reach [OF assms(2)] by (simp add: default_ok)
  then show ?thesis by (simp add: cheap_def BufferT_capacity_def)
qed

theorem growth_is_linear_witness: "2 * bf_copied seven_eight \<le> 9 * 2"
proof -
  have "buf_step_headroom (byte_env False) (0, BufferT_default) (max 0 (wants (OpAppend [7, 8 :: nat]) BufferT_default), seven_eight)"
    by (rule buf_step_headroom.exec [OF _ _ append_two]) auto
  moreover have "max 0 (wants (OpAppend [7, 8 :: nat]) BufferT_default) = 2" by (simp add: BufferT_default_def)
  ultimately have r: "(buf_step_headroom (byte_env False))\<^sup>*\<^sup>* (0, BufferT_default) (2, seven_eight)" by (metis r_into_rtranclp)
  show ?thesis using growth_is_linear [OF _ r] by (simp add: byte_env_def)
qed

text \<open>
  C23: A buffer that is to zero its memory never gives back a block with anything in it but zeros: after any of the operations on its
  contents, not when it grows, not when an exception is thrown on the way, and not when it is destroyed.
\<close>

theorem zeroed_on_free:
  assumes "real_env E" and "be_zero_on_free E" and "b0 = BufferT_default \<or> BufferT_of E xs n = Inr b0"
    and "(buf_step E)\<^sup>*\<^sup>* (0, b0) (m, b)"
  shows "\<exists>b'. BufferT_destroy E b = (Inr (), b') \<and> bf_data b' = None \<and>
    length (bf_freed b') = length (bf_freed b) + of_bool (bf_data b \<noteq> None) \<and>
    list_all (list_all (\<lambda>c. c = Some (be_zero E))) (bf_freed b')"
proof -
  have "buf_inv E (0, b0)" using assms(1,3) of_ok [of E xs n b0] by (auto simp: buf_inv_def default_ok)
  then have "buf_ok E b" "wiped E b" using buf_runs.invar_reach [OF assms(4)] assms(2) by (simp_all add: buf_inv_def)
  from destroy_ok [OF this(1) assms(2) this(2)] obtain b' where b': "BufferT_destroy E b = (Inr (), b')" "bf_data b' = None"
    "wiped E b'" "length (bf_freed b') = length (bf_freed b) + of_bool (bf_data b \<noteq> None)" by blast
  then show ?thesis by (intro exI [of _ b']) (auto simp: wiped_def list_all_iff)
qed

theorem zeroed_on_free_witness:
  "\<exists>b. BufferT_of (byte_env True) [7, 8] 2 = Inr b \<and>
    (\<exists>b'. BufferT_destroy (byte_env True) b = (Inr (), b') \<and> list_all (list_all (\<lambda>c. c = Some 0)) (bf_freed b'))"
proof -
  obtain b where b: "BufferT_of (byte_env True) [7, 8] 2 = Inr b"
    by (simp add: BufferT_of_def BufferT_sized_def new_array_def byte_env_def memcpy_def store_cells_def)
  with zeroed_on_free [of "byte_env True" b "[7, 8]" 2 0 b] show ?thesis by (auto simp: byte_env_def)
qed

end
