(* ===== verification/Byte_Writer.thy ===== *)
theory Byte_Writer
  imports Byte_Io Rtc_Buffer
begin

text \<open>
  \<^verbatim>\<open>third/webrtc/include/rtc_base/byte_order.h\<close> and the writer of \<^verbatim>\<open>rtc_base/byte_buffer.h\<close>, on top of
  the buffer of \<open>Rtc_Buffer\<close>. The byte order of the host is a parameter: what arrives on the wire does not
  depend on it. Memory is taken as aligned. The reader of \<^verbatim>\<open>byte_buffer.h\<close> has its bodies in a file that
  is not in the repository; the fields are read back by the readers of \<open>Byte_Io\<close>.
\<close>

unbundle bit_operations_syntax

section \<open>Byte order\<close>

text \<open>The bytes of an integer, the lowest first, and the integer of such bytes.\<close>

definition le_bytes :: "'a :: len word \<Rightarrow> byte list" where
  "le_bytes v = map (\<lambda>i. ucast (drop_bit (i * 8) v)) [0..<sizeof TYPE('a)]"

fun of_le :: "byte list \<Rightarrow> 'a :: len word" where
  "of_le [] = 0"
| "of_le (b # bs) = ucast b OR push_bit 8 (of_le bs)"

text \<open>An integer in the memory of a big or a little endian host.\<close>

definition object_bytes :: "bool \<Rightarrow> 'a :: len word \<Rightarrow> byte list" where
  "object_bytes big v = (if big then rev (le_bytes v) else le_bytes v)"

definition of_object :: "bool \<Rightarrow> byte list \<Rightarrow> 'a :: len word" where
  "of_object big bs = of_le (if big then rev bs else bs)"

text \<open>\<^verbatim>\<open>htobe16\<close> and its siblings of \<^verbatim>\<open><endian.h>\<close>, for every width.\<close>

definition bswap :: "'a :: len word \<Rightarrow> 'a word" where
  "bswap v = of_le (rev (le_bytes v))"

definition htobe :: "bool \<Rightarrow> 'a :: len word \<Rightarrow> 'a word" where
  "htobe big v = (if big then v else bswap v)"

definition htole :: "bool \<Rightarrow> 'a :: len word \<Rightarrow> 'a word" where
  "htole big v = (if big then bswap v else v)"

text \<open>Loads and stores through a pointer to an integer type.\<close>

definition store :: "bool \<Rightarrow> byte list \<Rightarrow> 'a :: len word \<Rightarrow> byte list res" where
  "store big memory v =
     (if sizeof TYPE('a) \<le> length memory then Inr (object_bytes big v @ drop (sizeof TYPE('a)) memory) else Inl (UB BadWrite))"

definition load :: "bool \<Rightarrow> byte list \<Rightarrow> 'a :: len word res" where
  "load big memory =
     (if sizeof TYPE('a) \<le> length memory then Inr (of_object big (take (sizeof TYPE('a)) memory)) else Inl (UB BadRead))"

definition Set8 :: "byte list \<Rightarrow> nat \<Rightarrow> byte \<Rightarrow> byte list res" where
  "Set8 memory offset v = put_byte offset v memory"

definition Get8 :: "byte list \<Rightarrow> nat \<Rightarrow> byte res" where
  "Get8 memory offset = byte_at memory offset"

definition SetBE :: "bool \<Rightarrow> byte list \<Rightarrow> 'a :: len word \<Rightarrow> byte list res" where
  "SetBE big memory v = store big memory (htobe big v)"

definition GetBE :: "bool \<Rightarrow> byte list \<Rightarrow> 'a :: len word res" where
  "GetBE big memory = rbind (load big memory) (\<lambda>v. Inr (htobe big v))"

definition SetLE :: "bool \<Rightarrow> byte list \<Rightarrow> 'a :: len word \<Rightarrow> byte list res" where
  "SetLE big memory v = store big memory (htole big v)"

definition GetLE :: "bool \<Rightarrow> byte list \<Rightarrow> 'a :: len word res" where
  "GetLE big memory = rbind (load big memory) (\<lambda>v. Inr (htole big v))"

definition HostToNetwork :: "bool \<Rightarrow> 'a :: len word \<Rightarrow> 'a word" where
  "HostToNetwork big n = htobe big n"

definition NetworkToHost :: "bool \<Rightarrow> 'a :: len word \<Rightarrow> 'a word" where
  "NetworkToHost big n = htobe big n"

section \<open>The writer\<close>

text \<open>The operations the template calls on its argument \<^verbatim>\<open>BufferClassT\<close>.\<close>

record 's buffer_class =
  bc_AppendData :: "byte list \<Rightarrow> ('s, unit) stm"
  bc_SetSize :: "nat \<Rightarrow> ('s, unit) stm"
  bc_EnsureCapacity :: "nat \<Rightarrow> ('s, unit) stm"
  bc_Clear :: "('s, unit) stm"
  bc_size :: "'s \<Rightarrow> nat"

definition kDefaultCapacity :: nat where "kDefaultCapacity = 4096"

definition Writer_Construct :: "'s buffer_class \<Rightarrow> byte list option \<Rightarrow> nat \<Rightarrow> ('s, unit) stm" where
  "Writer_Construct C bytes sz = (case bytes of Some bs \<Rightarrow> bc_AppendData C bs | None \<Rightarrow> bc_EnsureCapacity C sz)"

definition WriteBytes :: "'s buffer_class \<Rightarrow> byte list \<Rightarrow> ('s, unit) stm" where
  "WriteBytes C val = bc_AppendData C val"

definition WriteUInt8 :: "'s buffer_class \<Rightarrow> byte \<Rightarrow> ('s, unit) stm" where
  "WriteUInt8 C val = WriteBytes C [val]"

definition WriteUInt16 :: "bool \<Rightarrow> 's buffer_class \<Rightarrow> 16 word \<Rightarrow> ('s, unit) stm" where
  "WriteUInt16 big C val = (let v = HostToNetwork big val in WriteBytes C (take 2 (object_bytes big v)))"

definition WriteUInt24 :: "bool \<Rightarrow> 's buffer_class \<Rightarrow> 32 word \<Rightarrow> ('s, unit) stm" where
  "WriteUInt24 big C val = (let v = HostToNetwork big val in WriteBytes C (take 3 (drop 1 (object_bytes big v))))"

definition WriteUInt32 :: "bool \<Rightarrow> 's buffer_class \<Rightarrow> 32 word \<Rightarrow> ('s, unit) stm" where
  "WriteUInt32 big C val = (let v = HostToNetwork big val in WriteBytes C (take 4 (object_bytes big v)))"

definition WriteUInt64 :: "bool \<Rightarrow> 's buffer_class \<Rightarrow> 64 word \<Rightarrow> ('s, unit) stm" where
  "WriteUInt64 big C val = (let v = HostToNetwork big val in WriteBytes C (take 8 (object_bytes big v)))"

lemma shift_less: "0x80 \<le> val \<Longrightarrow> drop_bit 7 val < (val :: 64 word)"
proof -
  assume "0x80 \<le> val"
  then have "128 \<le> unat val" by (simp add: word_le_nat_alt)
  moreover have "unat (drop_bit 7 val) = unat val div 2 ^ 7" by (rule trans [OF unat_drop_bit_eq drop_bit_eq_div])
  ultimately have "unat (drop_bit 7 val) < unat val" by simp
  then show ?thesis by (simp add: word_less_nat_alt)
qed

function WriteUVarint :: "'s buffer_class \<Rightarrow> 64 word \<Rightarrow> ('s, unit) stm" where
  "WriteUVarint C val =
     (if 0x80 \<le> val
      then sbind (WriteBytes C [ucast val OR 0x80]) (\<lambda>_. WriteUVarint C (drop_bit 7 val))
      else WriteBytes C [ucast val])"
  by auto
termination
  by (relation "measure (\<lambda>(C, val). unat val)") (auto dest: shift_less simp: word_less_nat_alt)

definition WriteString :: "'s buffer_class \<Rightarrow> byte list \<Rightarrow> ('s, unit) stm" where
  "WriteString C val = WriteBytes C val"

text \<open>The pointer that is returned, as an offset into the data.\<close>

definition ReserveWriteBuffer :: "'s buffer_class \<Rightarrow> nat \<Rightarrow> ('s, nat) stm" where
  "ReserveWriteBuffer C len s = sbind (bc_SetSize C (size_add (bc_size C s) len)) (\<lambda>_. sret 0) s"

definition Writer_Resize :: "'s buffer_class \<Rightarrow> nat \<Rightarrow> ('s, unit) stm" where
  "Writer_Resize C sz = bc_SetSize C sz"

definition Writer_Clear :: "'s buffer_class \<Rightarrow> ('s, unit) stm" where
  "Writer_Clear C = bc_Clear C"

text \<open>\<^verbatim>\<open>BufferT<char>\<close>, with which \<^verbatim>\<open>ByteBufferWriter\<close> is instantiated.\<close>

definition char_buffer :: "byte buf_env \<Rightarrow> byte buffer buffer_class" where
  "char_buffer E = \<lparr>bc_AppendData = BufferT_AppendData E, bc_SetSize = BufferT_SetSize E,
     bc_EnsureCapacity = BufferT_EnsureCapacity E, bc_Clear = BufferT_Clear E, bc_size = BufferT_size\<rparr>"

text \<open>A program that writes fields one after the other.\<close>

datatype wire_field =
    F8 byte
  | F16 "16 word"
  | F24 "32 word"
  | F32 "32 word"
  | F64 "64 word"
  | FVar "64 word"
  | FStr "byte list"

fun write_field :: "bool \<Rightarrow> 's buffer_class \<Rightarrow> wire_field \<Rightarrow> ('s, unit) stm" where
  "write_field big C (F8 v) = WriteUInt8 C v"
| "write_field big C (F16 v) = WriteUInt16 big C v"
| "write_field big C (F24 v) = WriteUInt24 big C v"
| "write_field big C (F32 v) = WriteUInt32 big C v"
| "write_field big C (F64 v) = WriteUInt64 big C v"
| "write_field big C (FVar v) = WriteUVarint C v"
| "write_field big C (FStr v) = WriteString C v"

fun write_fields :: "bool \<Rightarrow> 's buffer_class \<Rightarrow> wire_field list \<Rightarrow> ('s, unit) stm" where
  "write_fields big C [] = sret ()"
| "write_fields big C (f # fs) = sbind (write_field big C f) (\<lambda>_. write_fields big C fs)"

section \<open>Byte order: properties\<close>

lemma bit_of_le:
  "bit (of_le bs :: 'a :: len word) n \<longleftrightarrow> n < LENGTH('a) \<and> n div 8 < length bs \<and> bit (bs ! (n div 8)) (n mod 8)"
proof (induction bs arbitrary: n)
  case (Cons b bs)
  show ?case
  proof (cases "n < 8")
    case True
    then show ?thesis by (auto simp: bit_simps)
  next
    case False
    then have "n div 8 = Suc ((n - 8) div 8)" "(n - 8) mod 8 = n mod 8" by (auto simp: le_div_geq le_mod_geq)
    moreover have "\<not> bit b n" using False bit_imp_le_length [of b n] by auto
    ultimately show ?thesis using False Cons.IH [of "n - 8"] by (auto simp: bit_simps)
  qed
qed simp

lemma le_bytes_layout: "le_bytes (v :: 'a :: len word) = little.layout (sizeof TYPE('a)) v"
  by (simp add: le_bytes_def little.layout_def)

lemma le_bytes_length [simp]: "length (le_bytes (v :: 'a :: len word)) = sizeof TYPE('a)"
  by (simp add: le_bytes_def)

lemma object_bytes_length [simp]: "length (object_bytes big (v :: 'a :: len word)) = sizeof TYPE('a)"
  by (simp add: object_bytes_def)

lemma le_bytes_of_le:
  assumes "8 dvd LENGTH('a :: len)" "length bs = sizeof TYPE('a)"
  shows "le_bytes (of_le bs :: 'a word) = bs"
proof (rule nth_equalityI)
  fix i assume i: "i < length (le_bytes (of_le bs :: 'a word))"
  then have "i * 8 + 8 \<le> LENGTH('a)" using assms(1) by (auto simp: sizeof_def elim!: dvdE)
  with i assms(2) show "le_bytes (of_le bs :: 'a word) ! i = bs ! i"
    by (intro bit_word_eqI) (auto simp: le_bytes_def bit_simps bit_of_le)
qed (simp add: assms(2))

lemma of_le_bytes:
  assumes "8 dvd LENGTH('a :: len)"
  shows "of_le (le_bytes (v :: 'a word)) = v"
proof (rule bit_word_eqI)
  fix n assume "n < LENGTH('a)"
  moreover have "n div 8 < sizeof TYPE('a)" using calculation assms by (auto simp: sizeof_def elim!: dvdE)
  ultimately show "bit (of_le (le_bytes v) :: 'a word) n \<longleftrightarrow> bit v n" by (auto simp: bit_of_le le_bytes_def bit_simps)
qed

definition be_bytes :: "nat \<Rightarrow> 'a :: len word \<Rightarrow> byte list" where
  "be_bytes B v = rev (little.layout B v)"

lemma be_bytes_length [simp]: "length (be_bytes B v) = B"
  by (simp add: be_bytes_def)

lemma big_layout: "big.layout B v = be_bytes B v"
  unfolding be_bytes_def big.layout_def little.layout_def by (rule nth_equalityI) (simp_all add: rev_nth)

lemmas write_be = write_big [unfolded big_layout]
lemmas read_be = read_big [unfolded big_layout]

lemma network_bytes:
  assumes "8 dvd LENGTH('a :: len)"
  shows "object_bytes big (htobe big (v :: 'a word)) = be_bytes (sizeof TYPE('a)) v"
    "object_bytes big (htole big (v :: 'a word)) = little.layout (sizeof TYPE('a)) v"
  using le_bytes_of_le [OF assms, of "rev (le_bytes v)"]
  by (auto simp: object_bytes_def htobe_def htole_def bswap_def le_bytes_layout be_bytes_def)

lemma get_be:
  assumes "8 dvd LENGTH('a :: len)" "length bs = sizeof TYPE('a)"
  shows "GetBE big (bs @ rest) = Inr (of_le (rev bs) :: 'a word)" "ReadBigEndian (sizeof TYPE('a)) (bs @ rest) = Inr (of_le (rev bs) :: 'a word)"
    "GetLE big (bs @ rest) = Inr (of_le bs :: 'a word)" "ReadLittleEndian (sizeof TYPE('a)) (bs @ rest) = Inr (of_le bs :: 'a word)"
proof -
  have l: "le_bytes (of_le bs :: 'a word) = bs" "le_bytes (of_le (rev bs) :: 'a word) = rev bs" using assms by (simp_all add: le_bytes_of_le)
  have sz: "take_bit (sizeof TYPE('a) * 8) v = v" for v :: "'a word" using assms(1) by (simp add: sizeof_def)
  show "GetBE big (bs @ rest) = Inr (of_le (rev bs) :: 'a word)" "GetLE big (bs @ rest) = Inr (of_le bs :: 'a word)"
    using l assms(2) by (simp_all add: GetBE_def GetLE_def load_def of_object_def htobe_def htole_def bswap_def)
  show "ReadBigEndian (sizeof TYPE('a)) (bs @ rest) = Inr (of_le (rev bs) :: 'a word)"
    using read_be [of "sizeof TYPE('a)" "of_le (rev bs) :: 'a word" rest] l(2) by (simp add: be_bytes_def sz flip: le_bytes_layout)
  show "ReadLittleEndian (sizeof TYPE('a)) (bs @ rest) = Inr (of_le bs :: 'a word)"
    using read_little [of "sizeof TYPE('a)" "of_le bs :: 'a word" rest] l(1) by (simp add: sz flip: le_bytes_layout)
qed

text \<open>
  The accessors of \<^verbatim>\<open>byte_order.h\<close> do on every host, big or little endian, what the byte by byte readers and
  writers of \<^verbatim>\<open>byte_io.h\<close> do, and converting to network order and back is the identity.
\<close>

theorem byte_order_host_independent:
  assumes "8 dvd LENGTH('a :: len)" "sizeof TYPE('a) \<le> length memory"
  shows "SetBE big memory (v :: 'a word) = WriteBigEndian (sizeof TYPE('a)) memory v \<and>
    SetLE big memory v = WriteLittleEndian (sizeof TYPE('a)) memory v \<and>
    GetBE big memory = (ReadBigEndian (sizeof TYPE('a)) memory :: 'a word res) \<and>
    GetLE big memory = (ReadLittleEndian (sizeof TYPE('a)) memory :: 'a word res) \<and>
    NetworkToHost big (HostToNetwork big v) = v"
proof -
  obtain bs rest where m: "memory = bs @ rest" "length bs = sizeof TYPE('a)"
    using assms(2) by (metis append_take_drop_id length_take min.absorb2)
  have "NetworkToHost big (HostToNetwork big v) = v"
    using assms(1) le_bytes_of_le [OF assms(1), of "rev (le_bytes v)"]
    by (simp add: NetworkToHost_def HostToNetwork_def htobe_def bswap_def of_le_bytes)
  moreover have "SetBE big memory v = WriteBigEndian (sizeof TYPE('a)) memory v" "SetLE big memory v = WriteLittleEndian (sizeof TYPE('a)) memory v"
    using assms by (simp_all add: SetBE_def SetLE_def store_def network_bytes write_be write_little)
  ultimately show ?thesis using get_be [OF assms(1) m(2)] m(1) by simp
qed

theorem byte_order_host_independent_witness:
  "SetBE False [0, 0, 9] (0x0102 :: 16 word) = WriteBigEndian 2 [0, 0, 9] (0x0102 :: 16 word)"
  using byte_order_host_independent [of "[0, 0, 9]" False "0x0102 :: 16 word"] by (simp add: sizeof_def)

section \<open>What the fields are on the wire\<close>

function wire_uvarint :: "64 word \<Rightarrow> byte list" where
  "wire_uvarint val = (if 0x80 \<le> val then (ucast val OR 0x80) # wire_uvarint (drop_bit 7 val) else [ucast val])"
  by auto
termination
  by (relation "measure unat") (auto dest: shift_less simp: word_less_nat_alt)

declare WriteUVarint.simps [simp del] wire_uvarint.simps [simp del]

fun wire :: "wire_field \<Rightarrow> byte list" where
  "wire (F8 v) = [v]"
| "wire (F16 v) = be_bytes 2 v"
| "wire (F24 v) = be_bytes 3 v"
| "wire (F32 v) = be_bytes 4 v"
| "wire (F64 v) = be_bytes 8 v"
| "wire (FVar v) = wire_uvarint v"
| "wire (FStr v) = v"

fun field_ok :: "wire_field \<Rightarrow> bool" where
  "field_ok (FStr v) \<longleftrightarrow> length v < 2 ^ 63"
| "field_ok _ \<longleftrightarrow> True"

text \<open>
  What the writer relies on: a buffer to which bytes can be appended, or which throws \<^verbatim>\<open>std::bad_alloc\<close> and is as it was.
\<close>

locale append_buffer =
  fixes C :: "'s buffer_class" and inv :: "'s \<Rightarrow> bool" and view :: "'s \<Rightarrow> byte option list"
  assumes append: "inv s \<Longrightarrow> length xs < 2 ^ 63 \<Longrightarrow> bc_AppendData C xs s = (r, t) \<Longrightarrow>
    inv t \<and> (r = Inr () \<and> view t = view s @ map Some xs \<or> r = Inl (Exn BadAlloc) \<and> view t = view s)"
begin

definition appends :: "byte list \<Rightarrow> 's \<Rightarrow> unit res \<times> 's \<Rightarrow> bool" where
  "appends xs s p \<longleftrightarrow> inv (snd p) \<and>
     (fst p = Inr () \<and> view (snd p) = view s @ map Some xs \<or>
      fst p = Inl (Exn BadAlloc) \<and> (\<exists>ys. prefix ys xs \<and> view (snd p) = view s @ map Some ys))"

lemma appends_bytes: "inv s \<Longrightarrow> length xs < 2 ^ 63 \<Longrightarrow> appends xs s (WriteBytes C xs s)"
  using append [of s xs "fst (WriteBytes C xs s)" "snd (WriteBytes C xs s)"]
  by (auto simp: appends_def WriteBytes_def intro: exI [of _ "[]"])

lemma appends_sbind:
  assumes "appends xs s (m s)" "\<And>t. inv t \<Longrightarrow> appends ys t (f () t)"
  shows "appends (xs @ ys) s (sbind m f s)"
proof (cases "m s")
  case (Pair r t)
  from assms(1) Pair consider "r = Inr ()" "inv t" "view t = view s @ map Some xs"
    | zs where "r = Inl (Exn BadAlloc)" "inv t" "prefix zs xs" "view t = view s @ map Some zs"
    by (auto simp: appends_def)
  then show ?thesis
  proof cases
    case 1
    then show ?thesis using assms(2) [of t] Pair by (auto simp: appends_def intro: exI [of _ "xs @ zs" for zs])
  next
    case 2
    then show ?thesis using Pair by (auto simp: appends_def intro: prefix_prefix)
  qed
qed

lemma appends_uvarint: "inv s \<Longrightarrow> appends (wire_uvarint v) s (WriteUVarint C v s)"
proof (induction v arbitrary: s rule: wire_uvarint.induct)
  case (1 val)
  show ?case
  proof (cases "0x80 \<le> val")
    case True
    with 1 appends_sbind [of "[ucast val OR 0x80]" s "WriteBytes C [ucast val OR 0x80]" "wire_uvarint (drop_bit 7 val)"
        "\<lambda>_. WriteUVarint C (drop_bit 7 val)"] appends_bytes [of s "[ucast val OR 0x80]"]
    show ?thesis by (simp add: WriteUVarint.simps [of C val] wire_uvarint.simps [of val])
  qed (use 1 appends_bytes [of s "[ucast val]"] in \<open>simp add: WriteUVarint.simps [of C val] wire_uvarint.simps [of val]\<close>)
qed

lemma appends_field:
  assumes "inv s" "field_ok f"
  shows "appends (wire f) s (write_field big C f s)"
proof -
  have three: "take 3 (drop 1 (be_bytes 4 v)) = be_bytes 3 v" for v :: "32 word"
    by (simp add: be_bytes_def little.layout_def upt_conv_Cons)
  have "sizeof TYPE(16) = 2" "sizeof TYPE(32) = 4" "sizeof TYPE(64) = 8" by (simp_all add: sizeof_def)
  with assms three show ?thesis
    by (cases f) (simp_all add: WriteUInt8_def WriteUInt16_def WriteUInt24_def WriteUInt32_def WriteUInt64_def WriteString_def
        HostToNetwork_def network_bytes appends_bytes appends_uvarint)
qed

lemma appends_fields: "inv s \<Longrightarrow> list_all field_ok fs \<Longrightarrow> appends (concat (map wire fs)) s (write_fields big C fs s)"
proof (induction fs arbitrary: s)
  case (Cons f fs)
  then show ?case using appends_sbind [of "wire f" s "write_field big C f"] appends_field by simp
qed (simp add: appends_def)

end

text \<open>The buffer of a writer has a block from its construction on.\<close>

interpretation char_buf: append_buffer "char_buffer E" "\<lambda>b. real_env E \<and> buf_ok E b \<and> 0 < bf_capacity b" contents for E
proof
  fix s t :: "byte buffer" and xs r
  assume inv: "real_env E \<and> buf_ok E s \<and> 0 < bf_capacity s" and xs: "length xs < 2 ^ 63" and
    run: "bc_AppendData (char_buffer E) xs s = (r, t)"
  then have "buf_ok E s" "real_env E" "xs \<noteq> [] \<or> bf_data s \<noteq> None" using buf_ok_block [of E s] by auto
  note hyps = this(1,2) xs this(3)
  from hyps show "(real_env E \<and> buf_ok E t \<and> 0 < bf_capacity t) \<and>
      (r = Inr () \<and> contents t = contents s @ map Some xs \<or> r = Inl (Exn BadAlloc) \<and> contents t = contents s)"
    by (cases rule: append_cases) (use run inv in \<open>auto simp: char_buffer_def\<close>)
qed

section \<open>Reading the fields back\<close>

text \<open>
  The reference: the fixed fields are read by \<^verbatim>\<open>ByteReader\<close>, a varint as the format that the comment of
  \<^verbatim>\<open>WriteUVarint\<close> names is defined: groups of seven bits, the lowest first, with the top bit set on all but the last.
\<close>

datatype kind = K8 | K16 | K24 | K32 | K64 | KVar | KStr nat

fun kind_of :: "wire_field \<Rightarrow> kind" where
  "kind_of (F8 v) = K8"
| "kind_of (F16 v) = K16"
| "kind_of (F24 v) = K24"
| "kind_of (F32 v) = K32"
| "kind_of (F64 v) = K64"
| "kind_of (FVar v) = KVar"
| "kind_of (FStr v) = KStr (length v)"

fun read_uvarint :: "byte list \<Rightarrow> (64 word \<times> byte list) option" where
  "read_uvarint [] = None"
| "read_uvarint (b # bs) =
     (if bit b 7 then map_option (\<lambda>(v, rest). (ucast (b AND 0x7F) OR push_bit 7 v, rest)) (read_uvarint bs)
      else Some (ucast b, bs))"

definition read_fixed :: "nat \<Rightarrow> ('a :: len word \<Rightarrow> wire_field) \<Rightarrow> byte list \<Rightarrow> (wire_field \<times> byte list) option" where
  "read_fixed n mk bs = (case ReadBigEndian n bs of Inl _ \<Rightarrow> None | Inr v \<Rightarrow> Some (mk v, drop n bs))"

fun read_field :: "kind \<Rightarrow> byte list \<Rightarrow> (wire_field \<times> byte list) option" where
  "read_field K8 bs = read_fixed 1 F8 bs"
| "read_field K16 bs = read_fixed 2 F16 bs"
| "read_field K24 bs = read_fixed 3 F24 bs"
| "read_field K32 bs = read_fixed 4 F32 bs"
| "read_field K64 bs = read_fixed 8 F64 bs"
| "read_field KVar bs = map_option (\<lambda>(v, rest). (FVar v, rest)) (read_uvarint bs)"
| "read_field (KStr n) bs = (if n \<le> length bs then Some (FStr (take n bs), drop n bs) else None)"

fun read_fields :: "kind list \<Rightarrow> byte list \<Rightarrow> (wire_field list \<times> byte list) option" where
  "read_fields [] bs = Some ([], bs)"
| "read_fields (k # ks) bs =
     (case read_field k bs of
        None \<Rightarrow> None
      | Some (f, rest) \<Rightarrow> map_option (\<lambda>(fs, rest). (f # fs, rest)) (read_fields ks rest))"

text \<open>Of a 24 bit field the low 24 bits are written.\<close>

fun on_wire :: "wire_field \<Rightarrow> wire_field" where
  "on_wire (F24 v) = F24 (take_bit 24 v)"
| "on_wire f = f"

lemma read_uvarint_wire: "read_uvarint (wire_uvarint v @ rest) = Some (v, rest)"
proof (induction v rule: wire_uvarint.induct)
  case (1 val)
  have seven: "(0x7F :: byte) = mask 7" "(0x80 :: byte) = push_bit 7 1" by (simp_all add: mask_eq_exp_minus_1)
  show ?case
  proof (cases "0x80 \<le> val")
    case True
    have "bit (ucast val OR 0x80 :: byte) 7" unfolding seven(2) bit_or_iff bit_push_bit_iff by simp
    moreover have "ucast ((ucast val OR 0x80 :: byte) AND 0x7F) OR push_bit 7 (drop_bit 7 val) = val"
    proof (rule bit_word_eqI)
      fix n :: nat assume "n < LENGTH(64)"
      then show "bit (ucast ((ucast val OR 0x80 :: byte) AND 0x7F) OR push_bit 7 (drop_bit 7 val)) n \<longleftrightarrow> bit val n"
        unfolding seven by (cases "n < 7") (auto simp: bit_simps simp del: push_bit_of_1 push_bit_numeral)
    qed
    ultimately show ?thesis using 1 True by (simp add: wire_uvarint.simps [of val])
  next
    case False
    then have "take_bit 7 val = val" by (simp add: take_bit_eq_mask less_mask_eq)
    then have b: "bit val n \<Longrightarrow> n < 7" for n by (metis bit_take_bit_iff)
    then have "\<not> bit (ucast val :: byte) 7" by (auto simp: bit_simps)
    moreover have "ucast (ucast val :: byte) = val" by (rule bit_word_eqI) (use b in \<open>force simp: bit_simps\<close>)
    ultimately show ?thesis using False by (simp add: wire_uvarint.simps [of val])
  qed
qed

lemma wire_uvarint_length: "length (wire_uvarint v) \<le> 10"
proof -
  have "unat v < 2 ^ (7 * n) \<Longrightarrow> 0 < n \<Longrightarrow> length (wire_uvarint v) \<le> n" for n and v :: "64 word"
  proof (induction n arbitrary: v)
    case (Suc n)
    show ?case
    proof (cases "0x80 \<le> v")
      case True
      then have n: "0 < n" using Suc.prems by (cases n) (auto simp: word_le_nat_alt)
      have "unat (drop_bit 7 v) = unat v div 2 ^ 7" by (rule trans [OF unat_drop_bit_eq drop_bit_eq_div])
      also have "\<dots> < 2 ^ (7 * n)" using Suc.prems(1) by (simp add: power_add less_mult_imp_div_less mult.commute)
      finally show ?thesis using Suc.IH n True by (simp add: wire_uvarint.simps [of v])
    qed (simp add: wire_uvarint.simps [of v])
  qed simp
  from this [of v 10] show ?thesis using unsigned_less [of v, where ?'a = nat] by simp
qed

lemma read_fixed_wire:
  fixes v :: "'a :: len word"
  shows "accepted n TYPE('a) \<Longrightarrow> take_bit (n * 8) v = w \<Longrightarrow> read_fixed n mk (be_bytes n v @ rest) = Some (mk w, rest)"
  by (simp add: read_fixed_def read_be)

lemma read_field_wire: "read_field (kind_of f) (wire f @ rest) = Some (on_wire f, rest)"
proof -
  have acc: "accepted 1 TYPE(8)" "accepted 2 TYPE(16)" "accepted 3 TYPE(32)" "accepted 4 TYPE(32)" "accepted 8 TYPE(64)"
    by (simp_all add: accepted_def sizeof_def)
  have one: "[v] = be_bytes 1 v" for v :: byte by (simp add: be_bytes_def little.layout_def)
  have "read_field K8 ([v] @ rest) = Some (F8 v, rest)" for v
    unfolding one by (simp add: read_fixed_wire acc take_bit_word_eq_self del: One_nat_def)
  then show ?thesis by (cases f) (auto simp: read_fixed_wire acc read_uvarint_wire take_bit_word_eq_self)
qed

lemma read_fields_wire: "read_fields (map kind_of fs) (concat (map wire fs) @ rest) = Some (map on_wire fs, rest)"
  by (induction fs) (simp_all add: read_field_wire)

section \<open>Properties\<close>

text \<open>
  C10: What a \<^verbatim>\<open>ByteBufferWriter\<close> has written can be read back, field by field and in order, whatever the byte
  order of the host: the integers in network order (the argument of \<^verbatim>\<open>WriteUInt24\<close> modulo \<open>2\<^sup>24\<close>), the varints and the strings. When the memory runs out,
  the bytes before that point are in the buffer and no others.
\<close>

theorem written_fields_read_back:
  assumes "real_env E" "list_all field_ok fs"
    and "Writer_Construct (char_buffer E) None kDefaultCapacity BufferT_default = (Inr (), b)"
  shows "\<exists>r bytes b'. write_fields big (char_buffer E) fs b = (r, b') \<and> contents b' = map Some bytes \<and>
    (r = Inr () \<and> read_fields (map kind_of fs) (bytes @ rest) = Some (map on_wire fs, rest) \<or>
     r = Inl (Exn BadAlloc) \<and> prefix bytes (concat (map wire fs)))"
proof -
  have "buf_exec E (OpReserve kDefaultCapacity) BufferT_default = (Inr (), b)"
    using assms(3) by (simp add: Writer_Construct_def char_buffer_def)
  then have run: "EnsureCapacityWithHeadroom E kDefaultCapacity False BufferT_default = (Inr (), b)"
    by (simp add: BufferT_EnsureCapacity_def)
  then have "grown E kDefaultCapacity False BufferT_default b"
    using ensure_grown [OF default_ok(1) assms(1), of kDefaultCapacity False "grown E kDefaultCapacity False BufferT_default b"] by auto
  then have b: "buf_ok E b" "contents b = []" "0 < bf_capacity b" by (auto simp: grown_def default_ok kDefaultCapacity_def)
  then show ?thesis
    using char_buf.appends_fields [of E b fs big] assms(1,2) read_fields_wire [of fs rest]
    unfolding char_buf.appends_def
    by (cases "write_fields big (char_buffer E) fs b") (auto intro: exI [of _ "concat (map wire fs)"])
qed

definition small_env :: "byte buf_env" where
  "small_env = \<lparr>be_zero_on_free = False, be_zero = 0, be_limit = 10000\<rparr>"

definition fresh_writer :: "byte buffer" where
  "fresh_writer = \<lparr>bf_size = 0, bf_capacity = 4096, bf_data = Some (replicate 4096 None), bf_freed = [], bf_copied = 0\<rparr>"

lemma fresh_writer: "Writer_Construct (char_buffer small_env) None kDefaultCapacity BufferT_default = (Inr (), fresh_writer)"
  by (simp add: Writer_Construct_def char_buffer_def BufferT_EnsureCapacity_def EnsureCapacityWithHeadroom_def kDefaultCapacity_def
      BufferT_default_def small_env_def new_array_def MaybeZeroCompleteBuffer_def buf_replace_def fresh_writer_def)

theorem written_fields_read_back_witness:
  "\<exists>r bytes b'. write_fields False (char_buffer small_env) [F16 0x0102, FVar 300] fresh_writer = (r, b') \<and>
    contents b' = map Some bytes \<and>
    (r = Inr () \<and> read_fields [K16, KVar] (bytes @ [7]) = Some ([F16 0x0102, FVar 300], [7]) \<or>
     r = Inl (Exn BadAlloc) \<and> prefix bytes (concat (map wire [F16 0x0102, FVar 300])))"
  using written_fields_read_back [of small_env "[F16 0x0102, FVar 300]", OF _ _ fresh_writer, of False "[7]"]
  by (simp add: small_env_def [unfolded atomize_eq])

text \<open>
  The pointer of \<^verbatim>\<open>ReserveWriteBuffer\<close> is the start of the data, not of the reserved bytes: writing the bytes that
  were reserved through it overwrites what the buffer already holds.
\<close>

lemma reserved_area_overlaps:
  assumes "real_env E" "buf_ok E b" "ReserveWriteBuffer (char_buffer E) (length xs) b = (Inr p, b')" "bf_size b + length xs < size_max"
  obtains b'' where "buf_store p (map Some xs) b' = (Inr (), b'')" "take (length xs) (contents b'') = map Some xs"
    "length (contents b'') = length (contents b) + length xs"
proof -
  have e: "buf_exec E (OpSize (bf_size b + length xs)) b = (Inr (), b')" and p: "p = 0"
    using assms(3,4) by (auto simp: ReserveWriteBuffer_def char_buffer_def BufferT_size_def size_add_small elim!: sbind_cases)
  from buf_exec_outcome [OF assms(2,1), of "OpSize (bf_size b + length xs)"] e
  have b': "buf_ok E b'" "length (contents b') = bf_size b + length xs" by (auto simp: outcome_def)
  then have "length xs \<le> bf_size b'" "bf_size b' \<le> bf_capacity b'" using contents_length [OF b'(1)] by (simp_all add: buf_ok_def)
  then obtain b'' where u: "buf_store 0 (map Some xs) b' = (Inr (), b'')"
    "cells_of b'' = map Some xs @ drop (length xs) (cells_of b')" "bf_size b'' = bf_size b'"
    using write_cells [OF b'(1), of 0 "map Some xs"] by auto
  show ?thesis
  proof (rule that)
    show "buf_store p (map Some xs) b' = (Inr (), b'')" using u(1) p by simp
    show "take (length xs) (contents b'') = map Some xs" "length (contents b'') = length (contents b) + length xs"
      using u(2,3) b' \<open>length xs \<le> bf_size b'\<close> assms(2) by (auto simp: contents_def buf_ok_def)
  qed
qed

end
