(* ===== verification/Sigslot.thy ===== *)
theory Sigslot
  imports Prelude
begin

text \<open>
  \<^verbatim>\<open>third/webrtc/include/rtc_base/third_party/sigslot/sigslot.h\<close>: signals, the objects with slots that are connected
  to them, and what happens when connections are made and cut and objects are destroyed while a signal is
  firing. The thread policy is the default one, \<^verbatim>\<open>single_threaded\<close>, whose locks do nothing. Signals and objects
  are named by numbers; an object that is not in the maps has been destroyed, and using it is undefined. A
  connection is a node of a \<^verbatim>\<open>std::list\<close>; an iterator is the number of a node, or \<open>None\<close> for \<^verbatim>\<open>end()\<close>.
\<close>

section \<open>Signals and slots\<close>

record opaque_connection =
  cn_node :: nat
  cn_pdest :: nat
  cn_pmethod :: nat

record signal_base =
  m_connected_slots :: "opaque_connection list"
  m_current_iterator :: "nat option"

text \<open>
  An emission that is running: the connections there were when it began and those it has called. Neither is
  stored by the code, and \<open>fr_nested\<close> says that the same signal was emitted again by one of the slots.
\<close>

record emission =
  fr_signal :: nat
  fr_init :: "nat list"
  fr_called :: "nat list"
  fr_nested :: bool
  fr_end :: "nat list"

record sig_world =
  w_signals :: "nat \<rightharpoonup> signal_base"
  w_senders :: "nat \<rightharpoonup> nat set"
  w_fresh :: nat
  w_frames :: "emission list"
  w_done :: "emission list"

definition nodes :: "signal_base \<Rightarrow> nat list" where
  "nodes g = map cn_node (m_connected_slots g)"

definition the_signal :: "nat \<Rightarrow> sig_world \<Rightarrow> signal_base res" where
  "the_signal s w = (case w_signals w s of None \<Rightarrow> Inl (UB Dangling) | Some g \<Rightarrow> Inr g)"

definition put_signal :: "nat \<Rightarrow> signal_base \<Rightarrow> sig_world \<Rightarrow> sig_world" where
  "put_signal s g w = w\<lparr>w_signals := (w_signals w)(s \<mapsto> g)\<rparr>"

fun for_each :: "('a \<Rightarrow> 'w \<Rightarrow> 'w res) \<Rightarrow> 'a list \<Rightarrow> 'w \<Rightarrow> 'w res" where
  "for_each f [] w = Inr w"
| "for_each f (x # xs) w = rbind (f x w) (for_each f xs)"

text \<open>\<^verbatim>\<open>has_slots\<close>: the set of the signals that have connections to the object.\<close>

definition do_signal_connect :: "nat \<Rightarrow> nat \<Rightarrow> sig_world \<Rightarrow> sig_world res" where
  "do_signal_connect d sender w =
     (case w_senders w d of
        None \<Rightarrow> Inl (UB Dangling)
      | Some S \<Rightarrow> Inr (w\<lparr>w_senders := (w_senders w)(d \<mapsto> insert sender S)\<rparr>))"

definition do_signal_disconnect :: "nat \<Rightarrow> nat \<Rightarrow> sig_world \<Rightarrow> sig_world res" where
  "do_signal_disconnect d sender w =
     (case w_senders w d of
        None \<Rightarrow> Inl (UB Dangling)
      | Some S \<Rightarrow> Inr (w\<lparr>w_senders := (w_senders w)(d \<mapsto> S - {sender})\<rparr>))"

text \<open>\<^verbatim>\<open>signal_with_thread_policy::connect\<close>.\<close>

definition sig_connect :: "nat \<Rightarrow> nat \<Rightarrow> nat \<Rightarrow> sig_world \<Rightarrow> sig_world res" where
  "sig_connect s d pmemfun w =
     rbind (the_signal s w) (\<lambda>g.
     do_signal_connect d s
       ((put_signal s (g\<lparr>m_connected_slots := m_connected_slots g @ [\<lparr>cn_node = w_fresh w, cn_pdest = d, cn_pmethod = pmemfun\<rparr>]\<rparr>) w)
          \<lparr>w_fresh := w_fresh w + 1\<rparr>))"

text \<open>The node behind a node, and \<^verbatim>\<open>erase\<close>, which moves an iterator that stands on the erased node to the next one.\<close>

definition next_node :: "nat \<Rightarrow> opaque_connection list \<Rightarrow> nat option" where
  "next_node n l = (case dropWhile (\<lambda>c. cn_node c \<noteq> n) l of _ # c # _ \<Rightarrow> Some (cn_node c) | _ \<Rightarrow> None)"

definition erase_conn :: "nat \<Rightarrow> signal_base \<Rightarrow> signal_base" where
  "erase_conn n g =
     \<lparr>m_connected_slots = filter (\<lambda>c. cn_node c \<noteq> n) (m_connected_slots g),
      m_current_iterator = (if m_current_iterator g = Some n then next_node n (m_connected_slots g) else m_current_iterator g)\<rparr>"

definition sig_disconnect :: "nat \<Rightarrow> nat \<Rightarrow> sig_world \<Rightarrow> sig_world res" where
  "sig_disconnect s d w =
     rbind (the_signal s w) (\<lambda>g.
     case find (\<lambda>c. cn_pdest c = d) (m_connected_slots g) of
       None \<Rightarrow> Inr w
     | Some c \<Rightarrow> do_signal_disconnect d s (put_signal s (erase_conn (cn_node c) g) w))"

definition sig_connected :: "nat \<Rightarrow> nat \<Rightarrow> sig_world \<Rightarrow> bool res" where
  "sig_connected s d w = rbind (the_signal s w) (\<lambda>g. Inr (\<exists>c \<in> set (m_connected_slots g). cn_pdest c = d))"

definition sig_is_empty :: "nat \<Rightarrow> sig_world \<Rightarrow> bool res" where
  "sig_is_empty s w = rbind (the_signal s w) (\<lambda>g. Inr (m_connected_slots g = []))"

fun erase_dest :: "nat \<Rightarrow> opaque_connection list \<Rightarrow> signal_base \<Rightarrow> signal_base" where
  "erase_dest d [] g = g"
| "erase_dest d (c # cs) g = erase_dest d cs (if cn_pdest c = d then erase_conn (cn_node c) g else g)"

definition do_slot_disconnect :: "nat \<Rightarrow> nat \<Rightarrow> sig_world \<Rightarrow> sig_world res" where
  "do_slot_disconnect d s w =
     rbind (the_signal s w) (\<lambda>g. Inr (put_signal s (erase_dest d (m_connected_slots g) g) w))"

definition do_slot_duplicate :: "nat \<Rightarrow> nat \<Rightarrow> nat \<Rightarrow> sig_world \<Rightarrow> sig_world res" where
  "do_slot_duplicate old new s w =
     rbind (the_signal s w) (\<lambda>g.
     let copies = filter (\<lambda>c. cn_pdest c = old) (m_connected_slots g) in
     Inr ((put_signal s (g\<lparr>m_connected_slots := m_connected_slots g @
             map (\<lambda>(i, c). c\<lparr>cn_node := w_fresh w + i, cn_pdest := new\<rparr>) (enumerate 0 copies)\<rparr>) w)
            \<lparr>w_fresh := w_fresh w + length copies\<rparr>))"

text \<open>\<^verbatim>\<open>_signal_base::disconnect_all\<close>, the copy constructor and the destructor of a signal.\<close>

definition sig_disconnect_all :: "nat \<Rightarrow> sig_world \<Rightarrow> sig_world res" where
  "sig_disconnect_all s w =
     rbind (the_signal s w) (\<lambda>g.
     rbind (for_each (\<lambda>c. do_signal_disconnect (cn_pdest c) s) (m_connected_slots g) w) (\<lambda>w.
     Inr (put_signal s \<lparr>m_connected_slots = [], m_current_iterator = None\<rparr> w)))"

definition sig_new :: "nat \<Rightarrow> sig_world \<Rightarrow> sig_world res" where
  "sig_new s w = Inr (put_signal s \<lparr>m_connected_slots = [], m_current_iterator = None\<rparr> w)"

definition sig_copy :: "nat \<Rightarrow> nat \<Rightarrow> sig_world \<Rightarrow> sig_world res" where
  "sig_copy old new w =
     rbind (the_signal old w) (\<lambda>g.
     rbind (sig_new new w) (\<lambda>w.
     for_each (\<lambda>c. sig_connect new (cn_pdest c) (cn_pmethod c)) (m_connected_slots g) w))"

definition sig_destroy :: "nat \<Rightarrow> sig_world \<Rightarrow> sig_world res" where
  "sig_destroy s w = rbind (sig_disconnect_all s w) (\<lambda>w. Inr (w\<lparr>w_signals := (w_signals w)(s := None)\<rparr>))"

text \<open>
  \<^verbatim>\<open>has_slots::do_disconnect_all\<close>. Its outer loop runs once, as \<^verbatim>\<open>slot_disconnect\<close> adds no sender. The signals
  are visited in the order of their numbers, which stands for that of their addresses.
\<close>

definition slots_disconnect_all :: "nat \<Rightarrow> sig_world \<Rightarrow> sig_world res" where
  "slots_disconnect_all d w =
     (case w_senders w d of
        None \<Rightarrow> Inl (UB Dangling)
      | Some S \<Rightarrow> for_each (do_slot_disconnect d) (sorted_list_of_set S) (w\<lparr>w_senders := (w_senders w)(d \<mapsto> {})\<rparr>))"

definition slots_new :: "nat \<Rightarrow> sig_world \<Rightarrow> sig_world res" where
  "slots_new d w = Inr (w\<lparr>w_senders := (w_senders w)(d \<mapsto> {})\<rparr>)"

definition slots_copy :: "nat \<Rightarrow> nat \<Rightarrow> sig_world \<Rightarrow> sig_world res" where
  "slots_copy old new w =
     (case w_senders w old of
        None \<Rightarrow> Inl (UB Dangling)
      | Some S \<Rightarrow>
          rbind (slots_new new w)
            (for_each (\<lambda>s w. rbind (do_slot_duplicate old new s w) (do_signal_connect new s)) (sorted_list_of_set S)))"

definition slots_destroy :: "nat \<Rightarrow> sig_world \<Rightarrow> sig_world res" where
  "slots_destroy d w = rbind (slots_disconnect_all d w) (\<lambda>w. Inr (w\<lparr>w_senders := (w_senders w)(d := None)\<rparr>))"

text \<open>
  One turn of the loop of \<^verbatim>\<open>emit\<close> of the innermost emission: it ends, or the next slot is called, and the world is that
  at the start of the slot.
\<close>

definition emit_turn :: "sig_world \<Rightarrow> sig_world res" where
  "emit_turn w =
     (case w_frames w of
        [] \<Rightarrow> Inr w
      | f # fs \<Rightarrow>
          rbind (the_signal (fr_signal f) w) (\<lambda>g.
          case m_current_iterator g of
            None \<Rightarrow> Inr (w\<lparr>w_frames := fs, w_done := f\<lparr>fr_end := nodes g\<rparr> # w_done w\<rparr>)
          | Some n \<Rightarrow>
              (case find (\<lambda>c. cn_node c = n) (m_connected_slots g) of
                 None \<Rightarrow> Inl (UB Dangling)
               | Some conn \<Rightarrow>
                   (if w_senders w (cn_pdest conn) = None then Inl (UB Dangling)
                    else Inr ((put_signal (fr_signal f)
                           (g\<lparr>m_current_iterator := next_node n (m_connected_slots g)\<rparr>) w)
                           \<lparr>w_frames := f\<lparr>fr_called := fr_called f @ [n]\<rparr> # fs\<rparr>)))))"

definition begin_node :: "opaque_connection list \<Rightarrow> nat option" where
  "begin_node l = (case l of [] \<Rightarrow> None | c # _ \<Rightarrow> Some (cn_node c))"

definition sig_emit :: "nat \<Rightarrow> sig_world \<Rightarrow> sig_world res" where
  "sig_emit s w =
     rbind (the_signal s w) (\<lambda>g.
     emit_turn ((put_signal s (g\<lparr>m_current_iterator := begin_node (m_connected_slots g)\<rparr>) w)
       \<lparr>w_frames := \<lparr>fr_signal = s, fr_init = nodes g, fr_called = [], fr_nested = False, fr_end = []\<rparr> #
          map (\<lambda>f. if fr_signal f = s then f\<lparr>fr_nested := True\<rparr> else f) (w_frames w)\<rparr>))"

section \<open>Programs\<close>

text \<open>What a program, and a slot that is called, may do; \<open>Return\<close> is the end of the slot that runs.\<close>

datatype action =
    Connect nat nat nat
  | Disconnect nat nat
  | DisconnectAll nat
  | NewSignal nat
  | CopySignal nat nat
  | DestroySignal nat
  | NewSlots nat
  | CopySlots nat nat
  | DropSlots nat
  | DestroySlots nat
  | Emit nat
  | Return

fun act :: "action \<Rightarrow> sig_world \<Rightarrow> sig_world res" where
  "act (Connect s d m) = sig_connect s d m"
| "act (Disconnect s d) = sig_disconnect s d"
| "act (DisconnectAll s) = sig_disconnect_all s"
| "act (NewSignal s) = sig_new s"
| "act (CopySignal s t) = sig_copy s t"
| "act (DestroySignal s) = sig_destroy s"
| "act (NewSlots d) = slots_new d"
| "act (CopySlots d e) = slots_copy d e"
| "act (DropSlots d) = slots_disconnect_all d"
| "act (DestroySlots d) = slots_destroy d"
| "act (Emit s) = sig_emit s"
| "act Return = emit_turn"

text \<open>
  What the program has to keep to: it uses objects that exist, does not destroy a signal that is firing, and cuts with
  \<^verbatim>\<open>disconnect\<close> only a connection that is the only one between the two.
\<close>

fun action_ok :: "action \<Rightarrow> sig_world \<Rightarrow> bool" where
  "action_ok (Connect s d m) w \<longleftrightarrow> w_signals w s \<noteq> None \<and> w_senders w d \<noteq> None"
| "action_ok (Disconnect s d) w \<longleftrightarrow>
     (case w_signals w s of None \<Rightarrow> False | Some g \<Rightarrow> length (filter (\<lambda>c. cn_pdest c = d) (m_connected_slots g)) \<le> 1)"
| "action_ok (DisconnectAll s) w \<longleftrightarrow> w_signals w s \<noteq> None"
| "action_ok (NewSignal s) w \<longleftrightarrow> w_signals w s = None"
| "action_ok (CopySignal s t) w \<longleftrightarrow> w_signals w s \<noteq> None \<and> w_signals w t = None"
| "action_ok (DestroySignal s) w \<longleftrightarrow> w_signals w s \<noteq> None \<and> s \<notin> fr_signal ` set (w_frames w)"
| "action_ok (NewSlots d) w \<longleftrightarrow> w_senders w d = None"
| "action_ok (CopySlots d e) w \<longleftrightarrow> w_senders w d \<noteq> None \<and> w_senders w e = None"
| "action_ok (DropSlots d) w \<longleftrightarrow> w_senders w d \<noteq> None"
| "action_ok (DestroySlots d) w \<longleftrightarrow> w_senders w d \<noteq> None"
| "action_ok (Emit s) w \<longleftrightarrow> w_signals w s \<noteq> None"
| "action_ok Return w \<longleftrightarrow> w_frames w \<noteq> []"

inductive sig_step :: "sig_world \<Rightarrow> sig_world \<Rightarrow> bool" where
  act: "action_ok a w \<Longrightarrow> act a w = Inr w' \<Longrightarrow> sig_step w w'"

definition sig_init :: sig_world where
  "sig_init = \<lparr>w_signals = Map.empty, w_senders = Map.empty, w_fresh = 0, w_frames = [], w_done = []\<rparr>"

section \<open>Invariant\<close>

definition sig_ok :: "nat \<Rightarrow> signal_base \<Rightarrow> bool" where
  "sig_ok fr g \<longleftrightarrow> sorted_wrt (<) (nodes g) \<and> (\<forall>n \<in> set (nodes g). n < fr) \<and> set_option (m_current_iterator g) \<subseteq> set (nodes g)"

text \<open>The connections a firing signal still has before it.\<close>

definition pending :: "signal_base \<Rightarrow> opaque_connection list" where
  "pending g = (case m_current_iterator g of None \<Rightarrow> [] | Some n \<Rightarrow> dropWhile (\<lambda>c. cn_node c \<noteq> n) (m_connected_slots g))"

definition emission_ok :: "nat \<Rightarrow> signal_base \<Rightarrow> emission \<Rightarrow> bool" where
  "emission_ok fr g f \<longleftrightarrow> (\<forall>i \<in> set (fr_init f) \<union> set (fr_called f). i < fr) \<and>
     (\<not> fr_nested f \<longrightarrow> sorted_wrt (<) (fr_called f @ map cn_node (pending g)) \<and>
        (\<forall>i \<in> set (fr_init f) \<inter> set (nodes g). i \<in> set (fr_called f) \<union> cn_node ` set (pending g)))"

definition done_ok :: "emission \<Rightarrow> bool" where
  "done_ok f \<longleftrightarrow> fr_nested f \<or> sorted_wrt (<) (fr_called f) \<and> set (fr_init f) \<inter> set (fr_end f) \<subseteq> set (fr_called f)"

text \<open>An object's senders are the signals that have connections to it, and only those.\<close>

definition reaches :: "sig_world \<Rightarrow> nat \<Rightarrow> nat \<Rightarrow> bool" where
  "reaches w s d \<longleftrightarrow> (\<exists>g. w_signals w s = Some g \<and> d \<in> cn_pdest ` set (m_connected_slots g))"

definition sends :: "sig_world \<Rightarrow> nat \<Rightarrow> nat \<Rightarrow> bool" where
  "sends w s d \<longleftrightarrow> (\<exists>S. w_senders w d = Some S \<and> s \<in> S)"

definition mirrored :: "sig_world \<Rightarrow> bool" where
  "mirrored w \<longleftrightarrow> (\<forall>s d. sends w s d \<longleftrightarrow> reaches w s d) \<and> (\<forall>d S. w_senders w d = Some S \<longrightarrow> finite S)"

definition world_ok :: "sig_world \<Rightarrow> bool" where
  "world_ok w \<longleftrightarrow> (\<forall>s g. w_signals w s = Some g \<longrightarrow> sig_ok (w_fresh w) g) \<and> mirrored w \<and>
     (\<forall>f \<in> set (w_frames w). \<exists>g. w_signals w (fr_signal f) = Some g \<and> emission_ok (w_fresh w) g f) \<and>
     sorted_wrt (\<lambda>h f. fr_nested f \<or> fr_signal h \<noteq> fr_signal f) (w_frames w) \<and> list_all done_ok (w_done w)"

text \<open>A change of a signal that keeps every emission of it as it should be.\<close>

definition keeps_emissions :: "nat \<Rightarrow> nat \<Rightarrow> signal_base \<Rightarrow> signal_base \<Rightarrow> bool" where
  "keeps_emissions fr fr' g g' \<longleftrightarrow> sig_ok fr' g' \<and> (\<forall>f. emission_ok fr g f \<longrightarrow> emission_ok fr' g' f)"

lemma keeps_refl: "sig_ok fr g \<Longrightarrow> fr \<le> fr' \<Longrightarrow> keeps_emissions fr fr' g g"
  unfolding keeps_emissions_def sig_ok_def emission_ok_def by (meson less_le_trans)

lemma keeps_trans: "keeps_emissions fr fr' g g' \<Longrightarrow> keeps_emissions fr' fr'' g' g'' \<Longrightarrow> keeps_emissions fr fr'' g g''"
  by (auto simp: keeps_emissions_def)

lemma world_okI:
  assumes "world_ok w" "w_frames w' = w_frames w" "w_done w' = w_done w" "mirrored w'"
    and "\<And>s g. w_signals w s = Some g \<Longrightarrow> s \<in> fr_signal ` set (w_frames w) \<Longrightarrow> \<exists>g'. w_signals w' s = Some g'"
    and "\<And>s g'. w_signals w' s = Some g' \<Longrightarrow>
      (\<exists>g. w_signals w s = Some g \<and> keeps_emissions (w_fresh w) (w_fresh w') g g') \<or> w_signals w s = None \<and> sig_ok (w_fresh w') g'"
  shows "world_ok w'"
proof -
  have "sig_ok (w_fresh w') g'" if "w_signals w' s = Some g'" for s g'
    using assms(6) [OF that] by (auto simp: keeps_emissions_def)
  moreover have "\<exists>g. w_signals w' (fr_signal f) = Some g \<and> emission_ok (w_fresh w') g f" if f: "f \<in> set (w_frames w')" for f
  proof -
    obtain g where g: "w_signals w (fr_signal f) = Some g" "emission_ok (w_fresh w) g f"
      using f assms(1,2) by (auto simp: world_ok_def)
    then obtain g' where g': "w_signals w' (fr_signal f) = Some g'" using assms(5) [of "fr_signal f" g] f assms(2) by auto
    with g assms(6) [OF g'] show ?thesis by (auto simp: keeps_emissions_def)
  qed
  ultimately show ?thesis using assms(1-4) by (simp add: world_ok_def)
qed

lemma pending_split:
  assumes "sig_ok fr g" "m_current_iterator g = Some n"
  obtains pre c suf where "m_connected_slots g = pre @ c # suf" "cn_node c = n" "pending g = c # suf"
    "n \<notin> cn_node ` set pre" "n \<notin> cn_node ` set suf"
proof -
  have "n \<in> set (nodes g)" using assms by (simp add: sig_ok_def)
  then obtain pre c suf where l: "m_connected_slots g = pre @ c # suf" "cn_node c = n" "\<forall>x \<in> set pre. cn_node x \<noteq> n"
    unfolding nodes_def using split_list_first_prop [of "m_connected_slots g" "\<lambda>c. cn_node c = n"] by auto
  moreover have "pending g = c # suf" using assms(2) l by (simp add: pending_def dropWhile_append2)
  moreover have "n \<notin> cn_node ` set suf" using assms(1) l by (auto simp: sig_ok_def nodes_def sorted_wrt_append)
  moreover have "n \<notin> cn_node ` set pre" using l(3) by blast
  ultimately show ?thesis using that by blast
qed

lemma pending_subset: "set (pending g) \<subseteq> set (m_connected_slots g)"
  by (auto simp: pending_def split: option.splits dest: set_dropWhileD)

text \<open>Erasing connections.\<close>

definition shrinks :: "(opaque_connection \<Rightarrow> bool) \<Rightarrow> signal_base \<Rightarrow> signal_base \<Rightarrow> bool" where
  "shrinks P g g' \<longleftrightarrow> m_connected_slots g' = filter P (m_connected_slots g) \<and> pending g' = filter P (pending g) \<and>
     set_option (m_current_iterator g') \<subseteq> set (nodes g')"

lemma nodes_inj: "sig_ok fr g \<Longrightarrow> c \<in> set (m_connected_slots g) \<Longrightarrow> e \<in> set (m_connected_slots g) \<Longrightarrow> cn_node c = cn_node e \<Longrightarrow> c = e"
  by (metis inj_onD nodes_def distinct_map sig_ok_def strict_sorted_iff)

lemma shrinks_keeps:
  assumes "sig_ok fr g" "shrinks P g g'"
  shows "keeps_emissions fr fr g g'"
proof -
  have n: "nodes g' = map cn_node (filter P (m_connected_slots g))" using assms(2) by (simp add: shrinks_def nodes_def)
  have "sorted_wrt (<) (nodes g')"
    using assms(1) unfolding n sig_ok_def nodes_def [of g] by (simp add: sorted_wrt_map sorted_wrt_filter)
  then have ok: "sig_ok fr g'" using assms n by (auto simp: sig_ok_def shrinks_def nodes_def)
  have "emission_ok fr g' f" if f: "emission_ok fr g f" for f
  proof -
    have "sorted_wrt (<) (fr_called f @ map cn_node (pending g'))" if "\<not> fr_nested f"
      using f that assms(2) by (auto simp: emission_ok_def shrinks_def sorted_wrt_append sorted_wrt_map sorted_wrt_filter)
    moreover have "i \<in> set (fr_called f) \<union> cn_node ` set (pending g')"
      if i: "i \<in> set (fr_init f) \<inter> set (nodes g')" "\<not> fr_nested f" for i
    proof -
      obtain c where c: "c \<in> set (m_connected_slots g)" "P c" "cn_node c = i" using i(1) n by auto
      then have "i \<in> set (fr_called f) \<union> cn_node ` set (pending g)" using f i by (auto simp: emission_ok_def nodes_def)
      then consider "i \<in> set (fr_called f)" | e where "e \<in> set (pending g)" "cn_node e = i" by auto
      then show ?thesis
      proof cases
        case 2
        then have "e = c" using nodes_inj [OF assms(1)] c pending_subset by blast
        with 2 c assms(2) show ?thesis by (auto simp: shrinks_def)
      qed simp
    qed
    ultimately show ?thesis using f by (auto simp: emission_ok_def)
  qed
  with ok show ?thesis by (simp add: keeps_emissions_def)
qed

lemma drop_to: "n \<notin> cn_node ` set pre \<Longrightarrow> cn_node c = n \<Longrightarrow> dropWhile (\<lambda>c. cn_node c \<noteq> n) (pre @ c # suf) = c # suf"
  by (subst dropWhile_append2) (auto simp: image_iff)

lemma next_node_split:
  assumes "n \<notin> cn_node ` set pre" "cn_node c = n"
  shows "next_node n (pre @ c # suf) = (case suf of [] \<Rightarrow> None | e # _ \<Rightarrow> Some (cn_node e))"
  using drop_to [OF assms] by (simp add: next_node_def split: list.split)

lemma erase_shrinks:
  assumes "sig_ok fr g"
  shows "shrinks (\<lambda>c. cn_node c \<noteq> n) g (erase_conn n g)"
proof (cases "m_current_iterator g")
  case None
  then show ?thesis by (simp add: shrinks_def erase_conn_def pending_def)
next
  case (Some m)
  with assms obtain pre c suf where l: "m_connected_slots g = pre @ c # suf" "cn_node c = m" "pending g = c # suf"
    "m \<notin> cn_node ` set pre" "m \<notin> cn_node ` set suf" by (rule pending_split)
  have f: "filter (\<lambda>c. cn_node c \<noteq> m) pre = pre" "filter (\<lambda>c. cn_node c \<noteq> m) suf = suf" using l(4,5) by (auto simp: filter_id_conv)
  show ?thesis
  proof (cases "m = n")
    case True
    have e: "e \<in> set suf \<Longrightarrow> cn_node e \<notin> cn_node ` set pre" for e
      using assms l(1) by (fastforce simp: sig_ok_def nodes_def sorted_wrt_append)
    show ?thesis
    proof (cases suf)
      case Nil
      with Some True l f show ?thesis by (auto simp: shrinks_def erase_conn_def pending_def nodes_def next_node_split)
    next
      case (Cons a list)
      with e have "cn_node a \<notin> cn_node ` set pre" by simp
      from drop_to [OF this refl, of list] Some True l f Cons show ?thesis
        by (auto simp: shrinks_def erase_conn_def pending_def nodes_def next_node_split)
    qed
  next
    case False
    have "m \<notin> cn_node ` set (filter (\<lambda>c. cn_node c \<noteq> n) pre)" using l(4) by (simp add: image_iff)
    from drop_to [OF this l(2), of "filter (\<lambda>c. cn_node c \<noteq> n) suf"] Some False l show ?thesis by (auto simp: shrinks_def erase_conn_def pending_def nodes_def)
  qed
qed

lemma shrinks_trans: "shrinks P g g' \<Longrightarrow> shrinks Q g' g'' \<Longrightarrow> shrinks (\<lambda>c. P c \<and> Q c) g g''"
  by (auto simp: shrinks_def conj_commute)

lemma erase_dest_shrinks:
  assumes "sig_ok fr g"
  shows "shrinks (\<lambda>c. \<not> (\<exists>e \<in> set cs. cn_pdest e = d \<and> cn_node e = cn_node c)) g (erase_dest d cs g)"
  using assms
proof (induction cs arbitrary: g)
  case Nil
  then show ?case by (simp add: shrinks_def sig_ok_def)
next
  case (Cons c cs)
  show ?case
  proof (cases "cn_pdest c = d")
    case True
    have s: "shrinks (\<lambda>e. cn_node e \<noteq> cn_node c) g (erase_conn (cn_node c) g)" by (rule erase_shrinks [OF Cons.prems])
    then have "sig_ok fr (erase_conn (cn_node c) g)" using shrinks_keeps [OF Cons.prems] by (simp add: keeps_emissions_def)
    from shrinks_trans [OF s Cons.IH [OF this]] True show ?thesis
      by (auto simp: conj_commute elim!: back_subst [where P = "\<lambda>P. shrinks P g g'" for g g'])
  qed (use Cons in simp)
qed

lemma erase_all_dest:
  assumes "sig_ok fr g"
  shows "shrinks (\<lambda>c. cn_pdest c \<noteq> d) g (erase_dest d (m_connected_slots g) g)"
proof -
  let ?Q = "\<lambda>c. \<not> (\<exists>e \<in> set (m_connected_slots g). cn_pdest e = d \<and> cn_node e = cn_node c)"
  have "?Q c \<longleftrightarrow> cn_pdest c \<noteq> d" if "c \<in> set (m_connected_slots g)" for c using nodes_inj [OF assms _ that] that by blast
  then have "filter ?Q (m_connected_slots g) = filter (\<lambda>c. cn_pdest c \<noteq> d) (m_connected_slots g)"
    "filter ?Q (pending g) = filter (\<lambda>c. cn_pdest c \<noteq> d) (pending g)"
    using pending_subset by (auto intro!: filter_cong)
  with erase_dest_shrinks [OF assms, of "m_connected_slots g" d] show ?thesis by (simp add: shrinks_def)
qed

text \<open>Adding connections behind the others.\<close>

lemma extends_keeps:
  assumes "sig_ok fr g" "sorted_wrt (<) (map cn_node l)" "\<And>c. c \<in> set l \<Longrightarrow> fr \<le> cn_node c \<and> cn_node c < fr'" "fr \<le> fr'"
  shows "keeps_emissions fr fr' g (g\<lparr>m_connected_slots := m_connected_slots g @ l\<rparr>)"
proof -
  let ?g = "g\<lparr>m_connected_slots := m_connected_slots g @ l\<rparr>"
  have n: "nodes ?g = nodes g @ map cn_node l" by (simp add: nodes_def)
  have ok: "sig_ok fr' ?g" using assms unfolding sig_ok_def n by (fastforce simp: sorted_wrt_append)
  have p: "pending ?g = pending g @ (if m_current_iterator g = None then [] else l)"
  proof (cases "m_current_iterator g")
    case (Some m)
    with assms(1) obtain pre c suf where p: "m_connected_slots g = pre @ c # suf" "cn_node c = m" "pending g = c # suf"
      "m \<notin> cn_node ` set pre" by (rule pending_split)
    from drop_to [OF p(4,2), of "suf @ l"] Some p show ?thesis by (simp add: pending_def)
  qed (simp add: pending_def)
  have "emission_ok fr' ?g f" if f: "emission_ok fr g f" for f
  proof -
    have "sorted_wrt (<) (fr_called f @ map cn_node (pending ?g))" if "\<not> fr_nested f"
    proof -
      have "x < fr" if "x \<in> set (fr_called f) \<union> cn_node ` set (pending g)" for x
        using that f assms(1) pending_subset [of g] by (auto simp: emission_ok_def sig_ok_def nodes_def)
      then have "x < cn_node c" if "x \<in> set (fr_called f) \<union> cn_node ` set (pending g)" "c \<in> set l" for x c
        using that assms(3) less_le_trans by blast
      moreover have "sorted_wrt (<) (fr_called f @ map cn_node (pending g))" using f that by (simp add: emission_ok_def)
      ultimately show ?thesis using assms(2) unfolding p by (auto simp: sorted_wrt_append)
    qed
    moreover have "i \<in> set (nodes g)" if "i \<in> set (fr_init f) \<inter> set (nodes ?g)" for i
    proof -
      have "i < fr" using f that by (simp add: emission_ok_def)
      then show ?thesis using that assms(3) unfolding n by fastforce
    qed
    moreover have "i < fr'" if "i \<in> set (fr_init f) \<union> set (fr_called f)" for i
      using f that assms(4) less_le_trans unfolding emission_ok_def by blast
    ultimately show ?thesis using f by (auto simp: emission_ok_def p)
  qed
  with ok show ?thesis by (simp add: keeps_emissions_def)
qed

lemma world_okD:
  assumes "world_ok w"
  shows "w_signals w s = Some g \<Longrightarrow> sig_ok (w_fresh w) g"
    "sends w s d \<longleftrightarrow> reaches w s d"
    "w_senders w d = Some S \<Longrightarrow> finite S"
    "f \<in> set (w_frames w) \<Longrightarrow> \<exists>g. w_signals w (fr_signal f) = Some g \<and> emission_ok (w_fresh w) g f"
  using assms by (auto simp: world_ok_def mirrored_def)

lemma dest_lives:
  assumes "world_ok w" "w_signals w s = Some g" "c \<in> set (m_connected_slots g)"
  obtains S where "w_senders w (cn_pdest c) = Some S" "s \<in> S"
proof -
  have "reaches w s (cn_pdest c)" using assms(2,3) by (auto simp: reaches_def)
  then show ?thesis using that world_okD(2) [OF assms(1)] by (auto simp: sends_def)
qed

lemma sender_lives:
  assumes "world_ok w" "w_senders w d = Some S" "s \<in> S"
  obtains g where "w_signals w s = Some g" "d \<in> cn_pdest ` set (m_connected_slots g)"
proof -
  have "sends w s d" using assms(2,3) by (auto simp: sends_def)
  then show ?thesis using that world_okD(2) [OF assms(1)] by (auto simp: reaches_def)
qed

lemma keeps_same: "world_ok w \<Longrightarrow> w_signals w s = Some g \<Longrightarrow> w_fresh w \<le> fr \<Longrightarrow> keeps_emissions (w_fresh w) fr g g"
  using keeps_refl world_okD(1) by blast

section \<open>Every action keeps the invariant\<close>

text \<open>A change of one signal, with the senders that go with it.\<close>

lemma put_ok:
  assumes "world_ok w" "w_signals w s = Some g" "keeps_emissions (w_fresh w) fr g g'" "w_fresh w \<le> fr"
    and "\<And>d. w_senders w d = None \<longleftrightarrow> sn d = None" "\<And>d S. sn d = Some S \<Longrightarrow> finite S"
    and "\<And>t d. t \<noteq> s \<Longrightarrow> (\<exists>S. sn d = Some S \<and> t \<in> S) \<longleftrightarrow> sends w t d"
    and "\<And>d. (\<exists>S. sn d = Some S \<and> s \<in> S) \<longleftrightarrow> d \<in> cn_pdest ` set (m_connected_slots g')"
  shows "world_ok (w\<lparr>w_signals := (w_signals w)(s \<mapsto> g'), w_senders := sn, w_fresh := fr\<rparr>)"
proof (rule world_okI [OF assms(1)])
  let ?w = "w\<lparr>w_signals := (w_signals w)(s \<mapsto> g'), w_senders := sn, w_fresh := fr\<rparr>"
  have "sends ?w t d \<longleftrightarrow> reaches ?w t d" for t d
  proof (cases "t = s")
    case True
    with assms(8) show ?thesis by (simp add: sends_def reaches_def)
  next
    case False
    have "sends ?w t d \<longleftrightarrow> sends w t d" using assms(7) [OF False] by (simp add: sends_def [of ?w])
    also have "\<dots> \<longleftrightarrow> reaches w t d" by (rule world_okD(2) [OF assms(1)])
    finally show ?thesis using False by (simp add: reaches_def)
  qed
  then show "mirrored ?w" using assms(6) by (simp add: mirrored_def)
  show "(\<exists>g. w_signals w t = Some g \<and> keeps_emissions (w_fresh w) (w_fresh ?w) g h) \<or> w_signals w t = None \<and> sig_ok (w_fresh ?w) h"
    if "w_signals ?w t = Some h" for t h using that assms(2-4) keeps_same [OF assms(1)] by (auto split: if_splits)
qed (use assms(2) in auto)

lemma connect_ok:
  assumes "world_ok w" "w_signals w s = Some g" "w_senders w d = Some S"
  obtains w' where "sig_connect s d m w = Inr w'" "world_ok w'" "w_senders w' = (w_senders w)(d \<mapsto> insert s S)"
    "dom (w_signals w') = dom (w_signals w)"
proof -
  let ?c = "\<lparr>cn_node = w_fresh w, cn_pdest = d, cn_pmethod = m\<rparr>"
  let ?g = "g\<lparr>m_connected_slots := m_connected_slots g @ [?c]\<rparr>"
  let ?sn = "(w_senders w)(d \<mapsto> insert s S)"
  let ?w = "w\<lparr>w_signals := (w_signals w)(s \<mapsto> ?g), w_senders := ?sn, w_fresh := w_fresh w + 1\<rparr>"
  have e: "sig_connect s d m w = Inr ?w" using assms(2,3) by (simp add: sig_connect_def the_signal_def put_signal_def do_signal_connect_def)
  have "world_ok ?w"
  proof (rule put_ok [OF assms(1,2)])
    show "keeps_emissions (w_fresh w) (w_fresh w + 1) g ?g" using world_okD(1) [OF assms(1,2)] by (intro extends_keeps) auto
    show "(\<exists>S. ?sn e = Some S \<and> s \<in> S) \<longleftrightarrow> e \<in> cn_pdest ` set (m_connected_slots ?g)" for e
      using world_okD(2) [OF assms(1), of s e] assms(2) by (auto simp: sends_def reaches_def)
  qed (use assms(3) world_okD(3) [OF assms(1)] in \<open>auto simp: sends_def split: if_splits\<close>)
  with e assms(2) show ?thesis by (intro that [of ?w]) auto
qed

lemma disconnect_ok:
  assumes "world_ok w" "action_ok (Disconnect s d) w"
  shows "\<exists>w'. sig_disconnect s d w = Inr w' \<and> world_ok w'"
proof -
  obtain g where g: "w_signals w s = Some g" "length (filter (\<lambda>c. cn_pdest c = d) (m_connected_slots g)) \<le> 1"
    using assms(2) by (auto split: option.splits)
  note ok = world_okD(1) [OF assms(1) g(1)]
  show ?thesis
  proof (cases "find (\<lambda>c. cn_pdest c = d) (m_connected_slots g)")
    case None
    then show ?thesis using assms(1) g(1) by (simp add: sig_disconnect_def the_signal_def)
  next
    case (Some c)
    then have c: "c \<in> set (m_connected_slots g)" "cn_pdest c = d" by (auto simp: find_Some_iff)
    then obtain S where S: "w_senders w d = Some S" by (metis dest_lives [OF assms(1) g(1)])
    define F where "F = filter (\<lambda>c. cn_pdest c = d) (m_connected_slots g)"
    have "c \<in> set F" "length F \<le> 1" using g(2) c by (simp_all add: F_def)
    then have "F = [c]" by (cases F) auto
    moreover have "set F = {e \<in> set (m_connected_slots g). cn_pdest e = d}" by (simp add: F_def)
    ultimately have F: "cn_pdest e = d \<Longrightarrow> e = c" if "e \<in> set (m_connected_slots g)" for e using that by auto
    have only: "cn_node e = cn_node c \<longleftrightarrow> cn_pdest e = d" if "e \<in> set (m_connected_slots g)" for e
      using F [OF that] nodes_inj [OF ok that c(1)] c(2) by blast
    have k: "keeps_emissions (w_fresh w) (w_fresh w) g (erase_conn (cn_node c) g)"
      by (rule shrinks_keeps [OF ok erase_shrinks [OF ok]])
    have l: "set (m_connected_slots (erase_conn (cn_node c) g)) = {e \<in> set (m_connected_slots g). cn_pdest e \<noteq> d}"
      using only by (auto simp: erase_conn_def)
    have "world_ok (w\<lparr>w_signals := (w_signals w)(s \<mapsto> erase_conn (cn_node c) g), w_senders := (w_senders w)(d \<mapsto> S - {s}),
        w_fresh := w_fresh w\<rparr>)"
    proof (rule put_ok [OF assms(1) g(1) k])
      show "(\<exists>T. ((w_senders w)(d \<mapsto> S - {s})) e = Some T \<and> s \<in> T) \<longleftrightarrow>
          e \<in> cn_pdest ` set (m_connected_slots (erase_conn (cn_node c) g))" for e
        using world_okD(2) [OF assms(1), of s e] g(1) unfolding l by (auto simp: sends_def reaches_def)
    qed (use S world_okD(3) [OF assms(1)] in \<open>auto simp: sends_def split: if_splits\<close>)
    with g(1) Some S show ?thesis by (simp add: sig_disconnect_def the_signal_def put_signal_def do_signal_disconnect_def)
  qed
qed

lemma remove_sender:
  assumes "\<And>c. c \<in> set cs \<Longrightarrow> w_senders w (cn_pdest c) \<noteq> None"
  shows "for_each (\<lambda>c. do_signal_disconnect (cn_pdest c) s) cs w =
    Inr (w\<lparr>w_senders := \<lambda>d. if d \<in> cn_pdest ` set cs then map_option (\<lambda>S. S - {s}) (w_senders w d) else w_senders w d\<rparr>)"
  using assms
proof (induction cs arbitrary: w)
  case (Cons c cs)
  obtain S where S: "w_senders w (cn_pdest c) = Some S" using Cons.prems by auto
  let ?w = "w\<lparr>w_senders := (w_senders w)(cn_pdest c \<mapsto> S - {s})\<rparr>"
  have "for_each (\<lambda>c. do_signal_disconnect (cn_pdest c) s) (c # cs) w = for_each (\<lambda>c. do_signal_disconnect (cn_pdest c) s) cs ?w"
    using S by (simp add: do_signal_disconnect_def)
  also have "\<dots> = Inr (?w\<lparr>w_senders := \<lambda>d. if d \<in> cn_pdest ` set cs then map_option (\<lambda>S. S - {s}) (w_senders ?w d) else w_senders ?w d\<rparr>)"
    by (rule Cons.IH) (use Cons.prems in \<open>auto split: if_splits\<close>)
  finally show ?case using S by (auto simp: fun_eq_iff)
qed simp

lemma disconnect_all_ok:
  assumes "world_ok w" "w_signals w s = Some g"
  obtains w' where "sig_disconnect_all s w = Inr w'" "world_ok w'" "w_frames w' = w_frames w"
    "w_signals w' s = Some \<lparr>m_connected_slots = [], m_current_iterator = None\<rparr>"
proof -
  let ?e = "\<lparr>m_connected_slots = [], m_current_iterator = None\<rparr>"
  let ?sn = "\<lambda>d. if d \<in> cn_pdest ` set (m_connected_slots g) then map_option (\<lambda>S. S - {s}) (w_senders w d) else w_senders w d"
  let ?w = "w\<lparr>w_signals := (w_signals w)(s \<mapsto> ?e), w_senders := ?sn, w_fresh := w_fresh w\<rparr>"
  have "w_senders w (cn_pdest c) \<noteq> None" if c: "c \<in> set (m_connected_slots g)" for c by (rule dest_lives [OF assms c]) simp
  then have e: "sig_disconnect_all s w = Inr ?w"
    using assms(2) by (simp add: sig_disconnect_all_def the_signal_def put_signal_def remove_sender)
  have "shrinks (\<lambda>_. False) g ?e" by (simp add: shrinks_def pending_def)
  then have k: "keeps_emissions (w_fresh w) (w_fresh w) g ?e" by (rule shrinks_keeps [OF world_okD(1) [OF assms]])
  have "world_ok ?w"
  proof (rule put_ok [OF assms k])
    show "(\<exists>S. ?sn d = Some S \<and> s \<in> S) \<longleftrightarrow> d \<in> cn_pdest ` set (m_connected_slots ?e)" for d
      using world_okD(2) [OF assms(1), of s d] assms(2) by (auto simp: sends_def reaches_def)
  qed (use world_okD(3) [OF assms(1)] in \<open>auto simp: sends_def split: if_splits\<close>)
  with e show ?thesis by (intro that [of ?w]) auto
qed

lemma sig_destroy_ok:
  assumes "world_ok w" "w_signals w s \<noteq> None" "s \<notin> fr_signal ` set (w_frames w)"
  shows "\<exists>w'. sig_destroy s w = Inr w' \<and> world_ok w'"
proof -
  obtain g where "w_signals w s = Some g" using assms(2) by auto
  then obtain v where v: "sig_disconnect_all s w = Inr v" "world_ok v" "w_frames v = w_frames w"
    "w_signals v s = Some \<lparr>m_connected_slots = [], m_current_iterator = None\<rparr>" by (rule disconnect_all_ok [OF assms(1)])
  let ?w = "v\<lparr>w_signals := (w_signals v)(s := None)\<rparr>"
  have "world_ok ?w"
  proof (rule world_okI [OF v(2)])
    have "reaches ?w t d \<longleftrightarrow> reaches v t d" for t d using v(4) by (auto simp: reaches_def)
    then show "mirrored ?w" using v(2) by (simp add: world_ok_def mirrored_def sends_def)
    show "(\<exists>g. w_signals v t = Some g \<and> keeps_emissions (w_fresh v) (w_fresh ?w) g h) \<or> w_signals v t = None \<and> sig_ok (w_fresh ?w) h"
      if "w_signals ?w t = Some h" for t h using that keeps_same [OF v(2)] by (auto split: if_splits)
  qed (use assms(3) v(3) in auto)
  with v(1) show ?thesis by (simp add: sig_destroy_def)
qed

lemma sig_new_ok:
  assumes "world_ok w" "w_signals w s = None"
  shows "world_ok (put_signal s \<lparr>m_connected_slots = [], m_current_iterator = None\<rparr> w)"
proof (rule world_okI [OF assms(1)])
  let ?w = "put_signal s \<lparr>m_connected_slots = [], m_current_iterator = None\<rparr> w"
  have "reaches ?w t d \<longleftrightarrow> reaches w t d" for t d using assms(2) by (auto simp: reaches_def put_signal_def)
  then show "mirrored ?w" using assms(1) by (simp add: world_ok_def mirrored_def sends_def put_signal_def)
  show "(\<exists>g. w_signals w t = Some g \<and> keeps_emissions (w_fresh w) (w_fresh ?w) g h) \<or> w_signals w t = None \<and> sig_ok (w_fresh ?w) h"
    if "w_signals ?w t = Some h" for t h
    using that keeps_same [OF assms(1)] assms(2) by (auto simp: put_signal_def sig_ok_def nodes_def split: if_splits)
qed (auto simp: put_signal_def)

lemma connect_each_ok:
  assumes "world_ok w" "w_signals w t \<noteq> None" "\<And>c. c \<in> set cs \<Longrightarrow> w_senders w (cn_pdest c) \<noteq> None"
  shows "\<exists>w'. for_each (\<lambda>c. sig_connect t (cn_pdest c) (cn_pmethod c)) cs w = Inr w' \<and> world_ok w'"
  using assms
proof (induction cs arbitrary: w)
  case (Cons c cs)
  obtain g S where "w_signals w t = Some g" "w_senders w (cn_pdest c) = Some S" using Cons.prems(2,3) by force
  then obtain v where v: "sig_connect t (cn_pdest c) (cn_pmethod c) w = Inr v" "world_ok v"
    "w_senders v = (w_senders w)(cn_pdest c \<mapsto> insert t S)" "dom (w_signals v) = dom (w_signals w)"
    by (rule connect_ok [OF Cons.prems(1)])
  have "w_signals v t \<noteq> None" using v(4) Cons.prems(2) by (auto simp: dom_def set_eq_iff)
  then show ?case using Cons.IH [OF v(2)] Cons.prems(3) v(1,3) by simp
qed simp

lemma sig_copy_ok:
  assumes "world_ok w" "w_signals w s \<noteq> None" "w_signals w t = None"
  shows "\<exists>w'. sig_copy s t w = Inr w' \<and> world_ok w'"
proof -
  obtain g where g: "w_signals w s = Some g" using assms(2) by auto
  let ?v = "put_signal t \<lparr>m_connected_slots = [], m_current_iterator = None\<rparr> w"
  have "w_senders ?v (cn_pdest c) \<noteq> None" if c: "c \<in> set (m_connected_slots g)" for c
    by (rule dest_lives [OF assms(1) g c]) (simp add: put_signal_def)
  then have "\<exists>w'. for_each (\<lambda>c. sig_connect t (cn_pdest c) (cn_pmethod c)) (m_connected_slots g) ?v = Inr w' \<and> world_ok w'"
    by (intro connect_each_ok sig_new_ok assms) (simp add: put_signal_def)
  then show ?thesis using g by (simp add: sig_copy_def the_signal_def sig_new_def)
qed

lemma slots_new_ok:
  assumes "world_ok w" "w_senders w d = None"
  shows "world_ok (w\<lparr>w_senders := (w_senders w)(d \<mapsto> {})\<rparr>)"
proof (rule world_okI [OF assms(1)])
  let ?w = "w\<lparr>w_senders := (w_senders w)(d \<mapsto> {})\<rparr>"
  have "sends ?w t e \<longleftrightarrow> sends w t e" for t e using assms(2) by (auto simp: sends_def)
  then show "mirrored ?w" using assms(1) by (auto simp: world_ok_def mirrored_def reaches_def)
  show "(\<exists>g. w_signals w t = Some g \<and> keeps_emissions (w_fresh w) (w_fresh ?w) g h) \<or> w_signals w t = None \<and> sig_ok (w_fresh ?w) h"
    if "w_signals ?w t = Some h" for t h using that keeps_same [OF assms(1)] by auto
qed auto

lemma slot_disconnect_each:
  assumes "distinct ss" "\<And>s. s \<in> set ss \<Longrightarrow> w_signals w s \<noteq> None"
  shows "for_each (do_slot_disconnect d) ss w =
    Inr (w\<lparr>w_signals := \<lambda>s. if s \<in> set ss then map_option (\<lambda>g. erase_dest d (m_connected_slots g) g) (w_signals w s) else w_signals w s\<rparr>)"
  using assms
proof (induction ss arbitrary: w)
  case (Cons s ss)
  obtain g where g: "w_signals w s = Some g" using Cons.prems by auto
  let ?v = "put_signal s (erase_dest d (m_connected_slots g) g) w"
  have "for_each (do_slot_disconnect d) (s # ss) w = for_each (do_slot_disconnect d) ss ?v"
    using g by (simp add: do_slot_disconnect_def the_signal_def)
  also have "\<dots> = Inr (?v\<lparr>w_signals := \<lambda>s. if s \<in> set ss then map_option (\<lambda>g. erase_dest d (m_connected_slots g) g) (w_signals ?v s)
      else w_signals ?v s\<rparr>)" by (rule Cons.IH) (use Cons.prems in \<open>auto simp: put_signal_def\<close>)
  finally show ?case using g Cons.prems(1) by (auto simp: put_signal_def fun_eq_iff)
qed simp

lemma slots_disconnect_all_ok:
  assumes "world_ok w" "w_senders w d \<noteq> None"
  obtains w' where "slots_disconnect_all d w = Inr w'" "world_ok w'" "w_senders w' d = Some {}"
proof -
  obtain S where S: "w_senders w d = Some S" using assms(2) by auto
  let ?h = "\<lambda>g. erase_dest d (m_connected_slots g) g"
  let ?sg = "\<lambda>s. if s \<in> S then map_option ?h (w_signals w s) else w_signals w s"
  let ?w = "w\<lparr>w_senders := (w_senders w)(d \<mapsto> {}), w_signals := ?sg\<rparr>"
  have f: "finite S" by (rule world_okD(3) [OF assms(1) S])
  have live: "w_signals w s \<noteq> None" if "s \<in> S" for s by (rule sender_lives [OF assms(1) S that]) simp
  have e: "slots_disconnect_all d w = Inr ?w"
    using S f live slot_disconnect_each [of "sorted_list_of_set S" "w\<lparr>w_senders := (w_senders w)(d \<mapsto> {})\<rparr>" d]
    by (simp add: slots_disconnect_all_def cong: if_cong)
  have h: "shrinks (\<lambda>c. cn_pdest c \<noteq> d) g (?h g)" if "w_signals w s = Some g" for s g
    by (rule erase_all_dest [OF world_okD(1) [OF assms(1) that]])
  have "world_ok ?w"
  proof (rule world_okI [OF assms(1)])
    have "reaches ?w s x \<longleftrightarrow> reaches w s x \<and> x \<noteq> d" for s x
    proof (cases "w_signals w s")
      case (Some g)
      then have "reaches w s d \<longleftrightarrow> s \<in> S" using world_okD(2) [OF assms(1), of s d] S by (simp add: sends_def)
      with Some h [OF Some] show ?thesis by (auto simp: reaches_def shrinks_def)
    qed (simp add: reaches_def)
    then show "mirrored ?w" using world_okD(2,3) [OF assms(1)] by (auto simp: mirrored_def sends_def)
    show "(\<exists>g. w_signals w t = Some g \<and> keeps_emissions (w_fresh w) (w_fresh ?w) g h) \<or> w_signals w t = None \<and> sig_ok (w_fresh ?w) h"
      if "w_signals ?w t = Some h" for t h
      using that keeps_same [OF assms(1)] shrinks_keeps [OF world_okD(1) [OF assms(1)] h] by (auto split: if_splits)
  qed auto
  with e show ?thesis by (intro that [of ?w]) auto
qed

lemma slots_destroy_ok:
  assumes "world_ok w" "w_senders w d \<noteq> None"
  shows "\<exists>w'. slots_destroy d w = Inr w' \<and> world_ok w'"
proof -
  obtain v where v: "slots_disconnect_all d w = Inr v" "world_ok v" "w_senders v d = Some {}"
    by (rule slots_disconnect_all_ok [OF assms])
  let ?w = "v\<lparr>w_senders := (w_senders v)(d := None)\<rparr>"
  have "world_ok ?w"
  proof (rule world_okI [OF v(2)])
    have "sends ?w t e \<longleftrightarrow> sends v t e" for t e using v(3) by (auto simp: sends_def)
    then show "mirrored ?w" using v(2) by (auto simp: world_ok_def mirrored_def reaches_def)
    show "(\<exists>g. w_signals v t = Some g \<and> keeps_emissions (w_fresh v) (w_fresh ?w) g h) \<or> w_signals v t = None \<and> sig_ok (w_fresh ?w) h"
      if "w_signals ?w t = Some h" for t h using that keeps_same [OF v(2)] by auto
  qed auto
  with v(1) show ?thesis by (simp add: slots_destroy_def)
qed

lemma duplicate_ok:
  assumes "world_ok w" "w_senders w new = Some N" "reaches w s old"
  obtains w' where "rbind (do_slot_duplicate old new s w) (do_signal_connect new s) = Inr w'" "world_ok w'"
    "w_senders w' = (w_senders w)(new \<mapsto> insert s N)" "\<And>t. reaches w t old \<Longrightarrow> reaches w' t old"
proof -
  obtain g where g: "w_signals w s = Some g" "old \<in> cn_pdest ` set (m_connected_slots g)" using assms(3) by (auto simp: reaches_def)
  let ?cs = "filter (\<lambda>c. cn_pdest c = old) (m_connected_slots g)"
  let ?l = "map (\<lambda>(i, c). c\<lparr>cn_node := w_fresh w + i, cn_pdest := new\<rparr>) (enumerate 0 ?cs)"
  let ?g = "g\<lparr>m_connected_slots := m_connected_slots g @ ?l\<rparr>"
  let ?sn = "(w_senders w)(new \<mapsto> insert s N)"
  let ?w = "w\<lparr>w_signals := (w_signals w)(s \<mapsto> ?g), w_senders := ?sn, w_fresh := w_fresh w + length ?cs\<rparr>"
  have e: "rbind (do_slot_duplicate old new s w) (do_signal_connect new s) = Inr ?w"
    using g(1) assms(2) by (simp add: do_slot_duplicate_def the_signal_def put_signal_def do_signal_connect_def Let_def)
  have n: "map cn_node ?l = map (\<lambda>i. w_fresh w + i) [0..<length ?cs]"
    by (rule nth_equalityI) (auto simp: nth_enumerate_eq)
  have "cn_pdest c = new" if "c \<in> set ?l" for c using that by auto
  moreover have "?l \<noteq> []" using g(2) by (auto simp: filter_empty_conv enumerate_eq_zip)
  ultimately have dests: "cn_pdest ` set ?l = {new}" by (cases ?l) auto
  have k: "keeps_emissions (w_fresh w) (w_fresh w + length ?cs) g ?g"
  proof (rule extends_keeps [OF world_okD(1) [OF assms(1) g(1)]])
    show "sorted_wrt (<) (map cn_node ?l)" unfolding n by (simp add: sorted_wrt_map)
    show "w_fresh w \<le> cn_node c \<and> cn_node c < w_fresh w + length ?cs" if "c \<in> set ?l" for c
    proof -
      have "cn_node c \<in> set (map cn_node ?l)" using that by (simp only: set_map imageI)
      then show ?thesis unfolding n by auto
    qed
  qed simp
  have "world_ok ?w"
  proof (rule put_ok [OF assms(1) g(1) k])
    show "(\<exists>S. ?sn x = Some S \<and> s \<in> S) \<longleftrightarrow> x \<in> cn_pdest ` set (m_connected_slots ?g)" for x
      using world_okD(2) [OF assms(1), of s x] g(1) dests by (auto simp: sends_def reaches_def image_Un)
  qed (use assms(2) world_okD(3) [OF assms(1)] in \<open>auto simp: sends_def split: if_splits\<close>)
  with e g(1) show ?thesis by (intro that [of ?w]) (auto simp: reaches_def)
qed

lemma slots_copy_ok:
  assumes "world_ok w" "w_senders w old \<noteq> None" "w_senders w new = None"
  shows "\<exists>w'. slots_copy old new w = Inr w' \<and> world_ok w'"
proof -
  obtain S where S: "w_senders w old = Some S" using assms(2) by auto
  have each: "\<exists>w'. for_each (\<lambda>s w. rbind (do_slot_duplicate old new s w) (do_signal_connect new s)) ss v = Inr w' \<and> world_ok w'"
    if "world_ok v" "w_senders v new \<noteq> None" "\<And>s. s \<in> set ss \<Longrightarrow> reaches v s old" for ss v
    using that
  proof (induction ss arbitrary: v)
    case (Cons s ss)
    obtain N where N: "w_senders v new = Some N" using Cons.prems(2) by auto
    have r: "reaches v s old" using Cons.prems(3) by simp
    obtain u where u: "rbind (do_slot_duplicate old new s v) (do_signal_connect new s) = Inr u" "world_ok u"
      "w_senders u = (w_senders v)(new \<mapsto> insert s N)" "\<And>t. reaches v t old \<Longrightarrow> reaches u t old"
      by (rule duplicate_ok [OF Cons.prems(1) N r]) blast
    from Cons.IH [OF u(2)] u(1,3,4) Cons.prems(3) show ?case by simp
  qed simp
  have "reaches w s old" if "s \<in> S" for s using world_okD(2) [OF assms(1), of s old] S that by (simp add: sends_def)
  moreover have "finite S" by (rule world_okD(3) [OF assms(1) S])
  ultimately show ?thesis
    using S each [OF slots_new_ok [OF assms(1,3)], of "sorted_list_of_set S"]
    by (simp add: slots_copy_def slots_new_def reaches_def)
qed

text \<open>One turn of an emission, and its start.\<close>

lemma emit_turn_ok:
  assumes "world_ok w" "w_frames w = f # fs"
  shows "\<exists>w'. emit_turn w = Inr w' \<and> world_ok w'"
proof -
  obtain g where g: "w_signals w (fr_signal f) = Some g" and f: "emission_ok (w_fresh w) g f"
    using world_okD(4) [OF assms(1), of f] assms(2) by auto
  note ok = world_okD(1) [OF assms(1) g]
  show ?thesis
  proof (cases "m_current_iterator g")
    case None
    have "done_ok (f\<lparr>fr_end := nodes g\<rparr>)" using f None by (auto simp: done_ok_def emission_ok_def pending_def)
    then have "world_ok (w\<lparr>w_frames := fs, w_done := f\<lparr>fr_end := nodes g\<rparr> # w_done w\<rparr>)"
      using assms by (simp add: world_ok_def mirrored_def sends_def reaches_def)
    then show ?thesis using assms(2) g None by (simp add: emit_turn_def the_signal_def)
  next
    case (Some n)
    obtain pre c suf where l: "m_connected_slots g = pre @ c # suf" "cn_node c = n" "pending g = c # suf"
      "n \<notin> cn_node ` set pre" "n \<notin> cn_node ` set suf" by (rule pending_split [OF ok Some])
    have c: "find (\<lambda>c. cn_node c = n) (m_connected_slots g) = Some c"
    proof -
      have "cn_node (pre ! j) \<noteq> n" if "j < length pre" for j using l(4) nth_mem [OF that] by (metis image_eqI)
      then show ?thesis using l(1,2) by (auto simp: find_Some_iff nth_append intro!: exI [of _ "length pre"])
    qed
    have live: "w_senders w (cn_pdest c) \<noteq> None" by (rule dest_lives [OF assms(1) g, of c]) (simp_all add: l(1))
    let ?g = "g\<lparr>m_current_iterator := next_node n (m_connected_slots g)\<rparr>"
    let ?f = "f\<lparr>fr_called := fr_called f @ [n]\<rparr>"
    let ?w = "(put_signal (fr_signal f) ?g w)\<lparr>w_frames := ?f # fs\<rparr>"
    have nx: "next_node n (m_connected_slots g) = (case suf of [] \<Rightarrow> None | e # _ \<Rightarrow> Some (cn_node e))"
      using next_node_split [OF l(4,2)] l(1) by simp
    have p: "pending ?g = suf"
    proof (cases suf)
      case (Cons e es)
      have "cn_node e \<notin> cn_node ` set (pre @ [c])" using ok l(1) Cons by (fastforce simp: sig_ok_def nodes_def sorted_wrt_append)
      from drop_to [OF this refl, of es] show ?thesis using l(1) Cons nx by (simp add: pending_def)
    qed (use nx in \<open>simp add: pending_def\<close>)
    have okg: "sig_ok (w_fresh w) ?g" using ok l(1) nx by (auto simp: sig_ok_def nodes_def split: list.split)
    have "n < w_fresh w" using ok l(1,2) by (auto simp: sig_ok_def nodes_def)
    then have okf: "emission_ok (w_fresh w) ?g ?f" using f l(2,3) by (auto simp: emission_ok_def p nodes_def)
    have "world_ok ?w"
      unfolding world_ok_def
    proof (intro conjI)
      show "\<forall>s h. w_signals ?w s = Some h \<longrightarrow> sig_ok (w_fresh ?w) h"
        using okg world_okD(1) [OF assms(1)] by (auto simp: put_signal_def)
      have "reaches ?w s d \<longleftrightarrow> reaches w s d" for s d using g by (auto simp: reaches_def put_signal_def)
      then show "mirrored ?w" using assms(1) by (simp add: world_ok_def mirrored_def sends_def put_signal_def)
      have "fr_nested h \<or> fr_signal h \<noteq> fr_signal f" if "h \<in> set fs" for h
        using assms that by (auto simp: world_ok_def)
      moreover have "emission_ok (w_fresh w) ?g h" if "fr_nested h" "emission_ok (w_fresh w) g h" for h
        using that by (simp add: emission_ok_def)
      ultimately show "\<forall>h \<in> set (w_frames ?w). \<exists>g. w_signals ?w (fr_signal h) = Some g \<and> emission_ok (w_fresh ?w) g h"
        using okf g world_okD(4) [OF assms(1)] assms(2) by (fastforce simp: put_signal_def)
      show "sorted_wrt (\<lambda>h f. fr_nested f \<or> fr_signal h \<noteq> fr_signal f) (w_frames ?w)" "list_all done_ok (w_done ?w)"
        using assms by (auto simp: world_ok_def put_signal_def)
    qed
    then show ?thesis using assms(2) g Some c live by (simp add: emit_turn_def the_signal_def)
  qed
qed

lemma emit_ok:
  assumes "world_ok w" "w_signals w s \<noteq> None"
  shows "\<exists>w'. sig_emit s w = Inr w' \<and> world_ok w'"
proof -
  obtain g where g: "w_signals w s = Some g" using assms(2) by auto
  note ok = world_okD(1) [OF assms(1) g]
  let ?g = "g\<lparr>m_current_iterator := begin_node (m_connected_slots g)\<rparr>"
  let ?f = "\<lparr>fr_signal = s, fr_init = nodes g, fr_called = [], fr_nested = False, fr_end = []\<rparr>"
  let ?n = "\<lambda>f. if fr_signal f = s then f\<lparr>fr_nested := True\<rparr> else f"
  let ?w = "(put_signal s ?g w)\<lparr>w_frames := ?f # map ?n (w_frames w)\<rparr>"
  have p: "pending ?g = m_connected_slots g" by (auto simp: pending_def begin_node_def split: list.split)
  have okg: "sig_ok (w_fresh w) ?g" using ok by (auto simp: sig_ok_def nodes_def begin_node_def split: list.split)
  have okf: "emission_ok (w_fresh w) ?g ?f" using ok by (auto simp: emission_ok_def p nodes_def sig_ok_def)
  have "world_ok ?w"
    unfolding world_ok_def
  proof (intro conjI)
    show "\<forall>s h. w_signals ?w s = Some h \<longrightarrow> sig_ok (w_fresh ?w) h"
      using okg world_okD(1) [OF assms(1)] by (auto simp: put_signal_def)
    have "reaches ?w s d \<longleftrightarrow> reaches w s d" for s d using g by (auto simp: reaches_def put_signal_def)
    then show "mirrored ?w" using assms(1) by (simp add: world_ok_def mirrored_def sends_def put_signal_def)
    have "\<exists>h. w_signals ?w (fr_signal (?n f)) = Some h \<and> emission_ok (w_fresh ?w) h (?n f)" if "f \<in> set (w_frames w)" for f
      using world_okD(4) [OF assms(1) that] g by (auto simp: put_signal_def emission_ok_def)
    moreover have "\<exists>g. w_signals ?w (fr_signal ?f) = Some g \<and> emission_ok (w_fresh ?w) g ?f" using okf by (simp add: put_signal_def)
    moreover have "set (w_frames ?w) = insert ?f (?n ` set (w_frames w))" by simp
    ultimately show "\<forall>h \<in> set (w_frames ?w). \<exists>g. w_signals ?w (fr_signal h) = Some g \<and> emission_ok (w_fresh ?w) g h"
      by (simp only: ball_simps) blast
    have "sorted_wrt (\<lambda>h f. fr_nested f \<or> fr_signal h \<noteq> fr_signal f) (w_frames w)" using assms(1) by (simp add: world_ok_def)
    then have "sorted_wrt (\<lambda>h f. fr_nested (?n f) \<or> fr_signal (?n h) \<noteq> fr_signal (?n f)) (w_frames w)"
      by (rule sorted_wrt_mono_rel [rotated]) auto
    then have "sorted_wrt (\<lambda>h f. fr_nested f \<or> fr_signal h \<noteq> fr_signal f) (map ?n (w_frames w))" by (simp only: sorted_wrt_map)
    moreover have "\<forall>h \<in> set (map ?n (w_frames w)). fr_nested h \<or> fr_signal ?f \<noteq> fr_signal h"
    proof
      fix h assume "h \<in> set (map ?n (w_frames w))"
      then obtain f where "h = ?n f" unfolding set_map by (rule imageE)
      then show "fr_nested h \<or> fr_signal ?f \<noteq> fr_signal h" by (cases "fr_signal f = s") simp_all
    qed
    moreover have "w_frames ?w = ?f # map ?n (w_frames w)" by simp
    ultimately show "sorted_wrt (\<lambda>h f. fr_nested f \<or> fr_signal h \<noteq> fr_signal f) (w_frames ?w)" by (simp only: sorted_wrt.simps)
    show "list_all done_ok (w_done ?w)" using assms(1) by (simp add: world_ok_def put_signal_def)
  qed
  from emit_turn_ok [OF this] g show ?thesis by (simp add: sig_emit_def the_signal_def)
qed

lemma act_ok:
  assumes "world_ok w" "action_ok a w"
  shows "\<exists>w'. act a w = Inr w' \<and> world_ok w'"
proof (cases a)
  case (Connect s d m)
  then obtain g S where g: "w_signals w s = Some g" "w_senders w d = Some S" using assms(2) by auto
  show ?thesis by (rule connect_ok [OF assms(1) g, of m]) (use Connect in simp)
next
  case (DisconnectAll s)
  then obtain g where g: "w_signals w s = Some g" using assms(2) by auto
  show ?thesis by (rule disconnect_all_ok [OF assms(1) g]) (use DisconnectAll in simp)
next
  case (DropSlots d)
  then have d: "w_senders w d \<noteq> None" using assms(2) by simp
  show ?thesis by (rule slots_disconnect_all_ok [OF assms(1) d]) (use DropSlots in simp)
next
  case Return
  then obtain f fs where "w_frames w = f # fs" using assms(2) by (auto simp: neq_Nil_conv)
  from emit_turn_ok [OF assms(1) this] Return show ?thesis by simp
qed (use assms disconnect_ok sig_new_ok sig_copy_ok sig_destroy_ok slots_new_ok slots_copy_ok slots_destroy_ok emit_ok in
    \<open>simp_all add: sig_new_def slots_new_def\<close>)

interpretation sig_runs: transition_system sig_step world_ok
proof
  show "world_ok t" if "sig_step s t" "world_ok s" for s t
    using that(1) by cases (use act_ok [OF that(2)] in fastforce)
qed

lemma init_ok: "world_ok sig_init"
  by (simp add: world_ok_def sig_init_def mirrored_def sends_def reaches_def)

section \<open>Properties\<close>

text \<open>
  C9: However signals are connected, disconnected, copied, destroyed and emitted, also by the slots that are being called, no
  object is used after its end: every action a program may take is defined, where it may not destroy a signal that is being emitted,
  nor disconnect an object that is connected to the signal more than once. An object knows the signals that are connected to it,
  and only those.
\<close>

theorem signals_never_dangle:
  assumes "sig_step\<^sup>*\<^sup>* sig_init w" "action_ok a w"
  shows "(\<exists>w'. act a w = Inr w') \<and> (sends w s d \<longleftrightarrow> reaches w s d)"
proof -
  have "world_ok w" by (rule sig_runs.invar_reach [OF assms(1) init_ok])
  with act_ok [OF _ assms(2)] world_okD(2) show ?thesis by blast
qed

text \<open>
  C16: An emission during which the same signal is not emitted again calls its connections in the order in which they were made,
  each at most once, and leaves out none of those that were there from its start to its end, whatever the slots connect,
  disconnect and destroy meanwhile.
\<close>

theorem emissions_complete:
  assumes "sig_step\<^sup>*\<^sup>* sig_init w" "f \<in> set (w_done w)" "\<not> fr_nested f"
  shows "sorted_wrt (<) (fr_called f) \<and> (\<forall>i \<in> set (fr_init f). i \<in> set (fr_end f) \<longrightarrow> i \<in> set (fr_called f))"
proof -
  have "world_ok w" by (rule sig_runs.invar_reach [OF assms(1) init_ok])
  then have "done_ok f" using assms(2) by (auto simp: world_ok_def list_all_iff)
  then show ?thesis using assms(3) by (auto simp: done_ok_def)
qed

definition guarded :: "action \<Rightarrow> sig_world \<Rightarrow> sig_world res" where
  "guarded a w = (if action_ok a w then act a w else Inl Fatal)"

lemma run_steps: "for_each guarded as w = Inr w' \<Longrightarrow> sig_step\<^sup>*\<^sup>* w w'"
proof (induction "as" arbitrary: w)
  case (Cons a "as")
  then obtain v where v: "guarded a w = Inr v" "for_each guarded as v = Inr w'" by (auto simp: rbind_Inr_iff)
  then have "sig_step w v" by (auto simp: guarded_def split: if_splits intro: sig_step.act)
  then show ?case using Cons.IH [OF v(2)] by (rule converse_rtranclp_into_rtranclp)
qed simp

lemmas run_defs = guarded_def sig_init_def sig_new_def slots_new_def sig_connect_def sig_disconnect_def slots_destroy_def
  slots_disconnect_all_def do_slot_disconnect_def the_signal_def put_signal_def do_signal_connect_def do_signal_disconnect_def
  sig_emit_def emit_turn_def begin_node_def next_node_def nodes_def erase_conn_def

text \<open>Two slots; the first cuts its own connection while it runs.\<close>

definition self_cut :: "action list" where
  "self_cut = [NewSignal 0, NewSlots 0, NewSlots 1, Connect 0 0 0, Connect 0 1 0, Emit 0, Disconnect 0 0, Return, Return]"

lemma self_cut_run:
  obtains w where "for_each guarded self_cut sig_init = Inr w"
    "w_done w = [\<lparr>fr_signal = 0, fr_init = [0, 1], fr_called = [0, 1], fr_nested = False, fr_end = [1]\<rparr>]" "w_signals w 0 \<noteq> None"
proof -
  have "case for_each guarded self_cut sig_init of Inl _ \<Rightarrow> False | Inr w \<Rightarrow>
      w_done w = [\<lparr>fr_signal = 0, fr_init = [0, 1], fr_called = [0, 1], fr_nested = False, fr_end = [1]\<rparr>] \<and> w_signals w 0 \<noteq> None"
    by (simp add: self_cut_def run_defs)
  then show ?thesis using that by (auto split: sum.splits)
qed

theorem signals_never_dangle_witness: "\<exists>w w'. for_each guarded self_cut sig_init = Inr w \<and> act (Emit 0) w = Inr w'"
proof -
  obtain w where w: "for_each guarded self_cut sig_init = Inr w" "w_signals w 0 \<noteq> None" by (rule self_cut_run)
  with signals_never_dangle [OF run_steps [OF w(1)], of "Emit 0"] show ?thesis by auto
qed

theorem emissions_complete_witness:
  "\<exists>w f. for_each guarded self_cut sig_init = Inr w \<and> w_done w = [f] \<and> fr_called f = [0, 1] \<and> sorted_wrt (<) (fr_called f)"
proof -
  obtain w where w: "for_each guarded self_cut sig_init = Inr w"
    "w_done w = [\<lparr>fr_signal = 0, fr_init = [0, 1], fr_called = [0, 1], fr_nested = False, fr_end = [1]\<rparr>]" by (rule self_cut_run)
  have "sorted_wrt (<) (fr_called (hd (w_done w)))"
    using emissions_complete [OF run_steps [OF w(1)], of "hd (w_done w)"] w(2) by simp
  with w show ?thesis by auto
qed

text \<open>
  When an object is connected to a signal twice, \<^verbatim>\<open>disconnect\<close> cuts one connection but takes the signal from the
  object's senders: the other connection outlives the object, and emitting the signal then calls a slot of the destroyed object.
\<close>

theorem double_connection_dangles:
  "\<exists>w. for_each act [NewSignal 0, NewSlots 0, Connect 0 0 0, Connect 0 0 1, Disconnect 0 0, DestroySlots 0] sig_init = Inr w \<and>
    reaches w 0 0 \<and> w_senders w 0 = None \<and> act (Emit 0) w = Inl (UB Dangling)"
  by (simp add: run_defs reaches_def)

text \<open>
  An emission ends when a slot emits the same signal again: the slots behind it get the inner emission only, as the inner
  one leaves the iterator at the end.
\<close>

theorem nested_emission_cut_short:
  "\<exists>w. for_each guarded [NewSignal 0, NewSlots 0, NewSlots 1, Connect 0 0 0, Connect 0 1 0, Emit 0, Emit 0, Return, Return, Return]
      sig_init = Inr w \<and>
    map (\<lambda>f. (fr_init f, fr_called f)) (w_done w) = [([0, 1], [0]), ([0, 1], [0, 1])] \<and> w_frames w = []"
  by (simp add: run_defs)

end
