(* ===== verification/Safe_Numerics.thy ===== *)
theory Safe_Numerics
  imports Prelude
begin

text \<open>
  \<^verbatim>\<open>third/webrtc/include/rtc_base/numerics\<close>: \<^verbatim>\<open>safe_compare.h\<close>, \<^verbatim>\<open>safe_conversions.h\<close> and \<^verbatim>\<open>safe_conversions_impl.h\<close>, for
  the integer types. A C++ integer type is its signedness and its size in bytes, a value of it an integer in its
  range; what the language does with operands of different types (promotion, the usual arithmetic conversions)
  is written out.
\<close>

section \<open>Integer types\<close>

record ity =
  it_signed :: bool
  it_bytes :: nat

definition it_ok :: "ity \<Rightarrow> bool" where
  "it_ok t \<longleftrightarrow> it_bytes t \<in> {1, 2, 4, 8}"

definition tmin :: "ity \<Rightarrow> int" where
  "tmin t = (if it_signed t then - (2 ^ (it_bytes t * 8 - 1)) else 0)"

definition tmax :: "ity \<Rightarrow> int" where
  "tmax t = (if it_signed t then 2 ^ (it_bytes t * 8 - 1) - 1 else 2 ^ (it_bytes t * 8) - 1)"

definition in_type :: "ity \<Rightarrow> int \<Rightarrow> bool" where
  "in_type t v \<longleftrightarrow> tmin t \<le> v \<and> v \<le> tmax t"

text \<open>\<^verbatim>\<open>static_cast\<close> between integer types: modulo the width.\<close>

definition conv :: "ity \<Rightarrow> int \<Rightarrow> int" where
  "conv t v = (v - tmin t) mod 2 ^ (it_bytes t * 8) + tmin t"

definition int_type :: ity where "int_type = \<lparr>it_signed = True, it_bytes = 4\<rparr>"

definition promote :: "ity \<Rightarrow> ity" where
  "promote t = (if it_bytes t < 4 then int_type else t)"

text \<open>The type in which the operands of two promoted types are compared.\<close>

definition common :: "ity \<Rightarrow> ity \<Rightarrow> ity" where
  "common t1 t2 =
     (if it_signed t1 = it_signed t2 then (if it_bytes t1 < it_bytes t2 then t2 else t1)
      else
        let s = (if it_signed t1 then t1 else t2); u = (if it_signed t1 then t2 else t1) in
        if it_bytes u < it_bytes s then s else u)"

datatype cmp_op = EqOp | NeOp | LtOp | LeOp | GtOp | GeOp

fun op_on :: "cmp_op \<Rightarrow> int \<Rightarrow> int \<Rightarrow> bool" where
  "op_on EqOp a b \<longleftrightarrow> a = b"
| "op_on NeOp a b \<longleftrightarrow> a \<noteq> b"
| "op_on LtOp a b \<longleftrightarrow> a < b"
| "op_on LeOp a b \<longleftrightarrow> a \<le> b"
| "op_on GtOp a b \<longleftrightarrow> a > b"
| "op_on GeOp a b \<longleftrightarrow> a \<ge> b"

text \<open>\<^verbatim>\<open>Op::Op(a, b)\<close>: the operator of the language on the two types.\<close>

definition Op :: "cmp_op \<Rightarrow> ity \<Rightarrow> int \<Rightarrow> ity \<Rightarrow> int \<Rightarrow> bool" where
  "Op oper t1 a t2 b = (let c = common (promote t1) (promote t2) in op_on oper (conv c a) (conv c b))"

section \<open>Comparison\<close>

definition LargerIntImpl :: "nat \<Rightarrow> ity option" where
  "LargerIntImpl n =
     (if n = 1 then Some \<lparr>it_signed = True, it_bytes = 2\<rparr>
      else if n = 2 then Some \<lparr>it_signed = True, it_bytes = 4\<rparr>
      else if n = 4 then Some \<lparr>it_signed = True, it_bytes = 8\<rparr>
      else None)"

text \<open>The size of a pointer is an argument.\<close>

definition LargerInt :: "nat \<Rightarrow> ity \<Rightarrow> ity \<Rightarrow> ity option" where
  "LargerInt ptr t1 t2 = LargerIntImpl (if it_bytes t1 < it_bytes t2 \<or> it_bytes t1 < ptr then it_bytes t1 else 0)"

definition make_unsigned :: "ity \<Rightarrow> ity" where
  "make_unsigned t = t\<lparr>it_signed := False\<rparr>"

definition MakeUnsigned :: "ity \<Rightarrow> int \<Rightarrow> int" where
  "MakeUnsigned t a = conv (make_unsigned t) a"

text \<open>The five overloads, told apart by the types.\<close>

definition Cmp :: "nat \<Rightarrow> cmp_op \<Rightarrow> ity \<Rightarrow> int \<Rightarrow> ity \<Rightarrow> int \<Rightarrow> bool" where
  "Cmp ptr oper t1 a t2 b =
     (if it_signed t1 = it_signed t2 then Op oper t1 a t2 b
      else if it_signed t1 then
        (case LargerInt ptr t2 t1 of
           Some l \<Rightarrow> Op oper t1 a l (conv l b)
         | None \<Rightarrow> if a < 0 then Op oper int_type (- 1) int_type 0 else Op oper (make_unsigned t1) (MakeUnsigned t1 a) t2 b)
      else
        (case LargerInt ptr t1 t2 of
           Some l \<Rightarrow> Op oper l (conv l a) t2 b
         | None \<Rightarrow> if b < 0 then Op oper int_type 0 int_type (- 1) else Op oper t1 a (make_unsigned t2) (MakeUnsigned t2 b)))"

text \<open>\<^verbatim>\<open>SafeEq\<close>, \<^verbatim>\<open>SafeNe\<close>, \<^verbatim>\<open>SafeLt\<close>, \<^verbatim>\<open>SafeLe\<close>, \<^verbatim>\<open>SafeGt\<close> and \<^verbatim>\<open>SafeGe\<close>; unary plus promotes.\<close>

definition Safe :: "nat \<Rightarrow> cmp_op \<Rightarrow> ity \<Rightarrow> int \<Rightarrow> ity \<Rightarrow> int \<Rightarrow> bool" where
  "Safe ptr oper t1 a t2 b = Cmp ptr oper (promote t1) (conv (promote t1) a) (promote t2) (conv (promote t2) b)"

section \<open>Conversion\<close>

datatype DstRange = OVERLAPS_RANGE | CONTAINS_RANGE

definition StaticRangeCheck :: "ity \<Rightarrow> ity \<Rightarrow> DstRange" where
  "StaticRangeCheck dst src =
     (if it_signed dst \<and> it_signed src then
        (if it_bytes dst * 8 - 1 \<ge> it_bytes src * 8 - 1 then CONTAINS_RANGE else OVERLAPS_RANGE)
      else if \<not> it_signed dst \<and> \<not> it_signed src then
        (if it_bytes dst \<ge> it_bytes src then CONTAINS_RANGE else OVERLAPS_RANGE)
      else if it_signed dst then
        (if it_bytes dst * 8 - 1 \<ge> it_bytes src * 8 then CONTAINS_RANGE else OVERLAPS_RANGE)
      else OVERLAPS_RANGE)"

datatype RangeCheckResult = TYPE_VALID | TYPE_UNDERFLOW | TYPE_OVERFLOW | TYPE_INVALID

definition range_check_result :: "bool \<Rightarrow> bool \<Rightarrow> RangeCheckResult" where
  "range_check_result is_in_upper_bound is_in_lower_bound =
     (case (is_in_upper_bound, is_in_lower_bound) of
        (True, True) \<Rightarrow> TYPE_VALID | (True, False) \<Rightarrow> TYPE_UNDERFLOW
      | (False, True) \<Rightarrow> TYPE_OVERFLOW | (False, False) \<Rightarrow> TYPE_INVALID)"

text \<open>The specializations of \<^verbatim>\<open>RangeCheckImpl\<close>; the bounds are cast to the source type.\<close>

definition RangeCheck :: "ity \<Rightarrow> ity \<Rightarrow> int \<Rightarrow> RangeCheckResult" where
  "RangeCheck dst src v =
     (if StaticRangeCheck dst src = CONTAINS_RANGE then TYPE_VALID
      else if it_signed dst \<and> it_signed src then range_check_result (v \<le> conv src (tmax dst)) (v \<ge> conv src (tmin dst))
      else if \<not> it_signed dst \<and> \<not> it_signed src then range_check_result (v \<le> conv src (tmax dst)) True
      else if it_signed dst then
        (if it_bytes dst > it_bytes src then TYPE_VALID else range_check_result (v \<le> conv src (tmax dst)) True)
      else if it_bytes dst * 8 \<ge> it_bytes src * 8 - 1 then range_check_result True (v \<ge> conv src 0)
      else range_check_result (v \<le> conv src (tmax dst)) (v \<ge> conv src 0))"

definition IsValueInRangeForNumericType :: "ity \<Rightarrow> ity \<Rightarrow> int \<Rightarrow> bool" where
  "IsValueInRangeForNumericType dst src v \<longleftrightarrow> RangeCheck dst src v = TYPE_VALID"

definition checked_cast :: "ity \<Rightarrow> ity \<Rightarrow> int \<Rightarrow> int res" where
  "checked_cast dst src v = (if IsValueInRangeForNumericType dst src v then Inr (conv dst v) else Inl Fatal)"

definition dchecked_cast :: "ity \<Rightarrow> ity \<Rightarrow> int \<Rightarrow> int res" where
  "dchecked_cast dst src v = Inr (conv dst v)"

definition saturated_cast :: "ity \<Rightarrow> ity \<Rightarrow> int \<Rightarrow> int res" where
  "saturated_cast dst src v =
     (case RangeCheck dst src v of
        TYPE_VALID \<Rightarrow> Inr (conv dst v)
      | TYPE_UNDERFLOW \<Rightarrow> Inr (tmin dst)
      | TYPE_OVERFLOW \<Rightarrow> Inr (tmax dst)
      | TYPE_INVALID \<Rightarrow> Inl Fatal)"

section \<open>Ranges\<close>

lemma it_ok_cases:
  assumes "it_ok t"
  obtains "it_bytes t = 1" | "it_bytes t = 2" | "it_bytes t = 4" | "it_bytes t = 8"
  using assms by (auto simp: it_ok_def)

lemma span: "it_ok t \<Longrightarrow> tmax t - tmin t = 2 ^ (it_bytes t * 8) - 1"
  by (erule it_ok_cases) (auto simp: tmin_def tmax_def)

lemma conv_id:
  assumes "it_ok t" "in_type t v"
  shows "conv t v = v"
proof -
  have "0 \<le> v - tmin t" "v - tmin t < 2 ^ (it_bytes t * 8)" using assms span [OF assms(1)] by (simp_all add: in_type_def)
  then show ?thesis by (simp add: conv_def)
qed

text \<open>A type holds the values of another.\<close>

definition holds :: "ity \<Rightarrow> ity \<Rightarrow> bool" where
  "holds t s \<longleftrightarrow> tmin t \<le> tmin s \<and> tmax s \<le> tmax t"

lemma holdsD: "holds t s \<Longrightarrow> in_type s v \<Longrightarrow> in_type t v"
  by (auto simp: holds_def in_type_def)

lemma holds_same_sign: "it_ok t \<Longrightarrow> it_ok s \<Longrightarrow> it_signed t = it_signed s \<Longrightarrow> it_bytes s \<le> it_bytes t \<Longrightarrow> holds t s"
  by (erule it_ok_cases; erule it_ok_cases) (auto simp: holds_def tmin_def tmax_def)

lemma holds_wider: "it_ok t \<Longrightarrow> it_ok s \<Longrightarrow> it_signed t \<Longrightarrow> it_bytes s < it_bytes t \<Longrightarrow> holds t s"
  by (erule it_ok_cases; erule it_ok_cases) (auto simp: holds_def tmin_def tmax_def)

lemma promote_ok: "it_ok t \<Longrightarrow> it_ok (promote t) \<and> holds (promote t) t \<and> 4 \<le> it_bytes (promote t)"
  by (erule it_ok_cases; cases "it_signed t") (auto simp: promote_def int_type_def it_ok_def holds_def tmin_def tmax_def)

lemma promote_id: "4 \<le> it_bytes t \<Longrightarrow> promote t = t"
  by (simp add: promote_def)

lemma Op_same_sign:
  assumes "it_ok t1" "it_ok t2" "4 \<le> it_bytes t1" "4 \<le> it_bytes t2" "it_signed t1 = it_signed t2" "in_type t1 a" "in_type t2 b"
  shows "Op oper t1 a t2 b = op_on oper a b"
proof -
  have "it_ok (common t1 t2)" "holds (common t1 t2) t1" "holds (common t1 t2) t2"
    using assms(1-5) by (auto simp: common_def intro!: holds_same_sign)
  then have "conv (common t1 t2) a = a" "conv (common t1 t2) b = b" using assms(6,7) by (auto intro!: conv_id intro: holdsD)
  then show ?thesis using assms(3,4) by (simp add: Op_def promote_id)
qed

lemma op_sign: "a < 0 \<Longrightarrow> 0 \<le> b \<Longrightarrow> op_on oper a b = op_on oper (- 1) 0 \<and> op_on oper b a = op_on oper 0 (- 1)"
  by (cases oper) auto

lemma LargerInt_ok:
  assumes "LargerInt ptr t s = Some l" "it_ok t" "4 \<le> it_bytes t"
  shows "it_ok l" "it_signed l" "4 \<le> it_bytes l" "holds l t"
proof -
  have "it_bytes t = 4" "l = \<lparr>it_signed = True, it_bytes = 8\<rparr>"
    using assms by (auto simp: LargerInt_def LargerIntImpl_def it_ok_def split: if_splits)
  then show "it_ok l" "it_signed l" "4 \<le> it_bytes l" "holds l t" using holds_wider [of l t] assms(2) by (auto simp: it_ok_def)
qed

lemma MakeUnsigned_ok:
  assumes "it_ok t" "in_type t a" "0 \<le> a"
  shows "it_ok (make_unsigned t)" "in_type (make_unsigned t) a" "MakeUnsigned t a = a"
proof -
  show ok: "it_ok (make_unsigned t)" using assms(1) by (simp add: it_ok_def make_unsigned_def)
  show u: "in_type (make_unsigned t) a"
    using assms by (elim it_ok_cases; cases "it_signed t") (auto simp: in_type_def make_unsigned_def tmin_def tmax_def)
  show "MakeUnsigned t a = a" using conv_id [OF ok u] by (simp add: MakeUnsigned_def)
qed

lemma Op_ints: "Op oper int_type (- 1) int_type 0 = op_on oper (- 1) 0" "Op oper int_type 0 int_type (- 1) = op_on oper 0 (- 1)"
  by (rule Op_same_sign; simp add: int_type_def it_ok_def in_type_def tmin_def tmax_def)+

lemma Cmp_ok:
  assumes "it_ok t1" "it_ok t2" "4 \<le> it_bytes t1" "4 \<le> it_bytes t2" "in_type t1 a" "in_type t2 b"
  shows "Cmp ptr oper t1 a t2 b = op_on oper a b"
proof -
  consider "it_signed t1 = it_signed t2" | "it_signed t1" "\<not> it_signed t2" | "\<not> it_signed t1" "it_signed t2" by auto
  then show ?thesis
  proof cases
    case 1
    then show ?thesis using assms by (simp add: Cmp_def Op_same_sign)
  next
    case 2
    have b: "0 \<le> b" using assms(6) 2(2) by (simp add: in_type_def tmin_def)
    show ?thesis
    proof (cases "LargerInt ptr t2 t1")
      case None
      with 2 assms b MakeUnsigned_ok [OF assms(1,5)] op_sign [of a b oper] show ?thesis
        by (simp add: Cmp_def Op_ints) (simp add: Op_same_sign make_unsigned_def)
    next
      case (Some l)
      note l = LargerInt_ok [OF Some assms(2,4)]
      then have "in_type l b" "conv l b = b" using holdsD [OF l(4) assms(6)] conv_id [OF l(1)] by auto
      with 2 Some l assms show ?thesis by (simp add: Cmp_def Op_same_sign)
    qed
  next
    case 3
    have a: "0 \<le> a" using assms(5) 3(1) by (simp add: in_type_def tmin_def)
    show ?thesis
    proof (cases "LargerInt ptr t1 t2")
      case None
      with 3 assms a MakeUnsigned_ok [OF assms(2,6)] op_sign [of b a oper] show ?thesis
        by (simp add: Cmp_def Op_ints) (simp add: Op_same_sign make_unsigned_def)
    next
      case (Some l)
      note l = LargerInt_ok [OF Some assms(1,3)]
      then have "in_type l a" "conv l a = a" using holdsD [OF l(4) assms(5)] conv_id [OF l(1)] by auto
      with 3 Some l assms show ?thesis by (simp add: Cmp_def Op_same_sign)
    qed
  qed
qed

section \<open>Properties\<close>

text \<open>
  C25: The safe comparisons compare the numbers: for operands of any two integer types, of the same or of different size and sign,
  \<^verbatim>\<open>SafeLt(a, b)\<close> is \<open>a < b\<close> and so on, while the comparison of the language is not (a negative \<^verbatim>\<open>int\<close> is not less
  than an \<^verbatim>\<open>unsigned\<close> zero).
\<close>

theorem safe_comparisons:
  assumes "it_ok t1" "it_ok t2" "in_type t1 a" "in_type t2 b"
  shows "Safe ptr oper t1 a t2 b = op_on oper a b"
proof -
  note p = promote_ok [OF assms(1)] promote_ok [OF assms(2)]
  then have "in_type (promote t1) a" "in_type (promote t2) b" using assms(3,4) holdsD by blast+
  with p show ?thesis by (simp add: Safe_def conv_id Cmp_ok)
qed

theorem safe_comparisons_witness:
  "Safe 8 LtOp \<lparr>it_signed = True, it_bytes = 4\<rparr> (- 1) \<lparr>it_signed = False, it_bytes = 8\<rparr> 0 \<and>
    \<not> Op LtOp \<lparr>it_signed = True, it_bytes = 4\<rparr> (- 1) \<lparr>it_signed = False, it_bytes = 8\<rparr> 0"
proof -
  have "\<not> Op LtOp \<lparr>it_signed = True, it_bytes = 4\<rparr> (- 1) \<lparr>it_signed = False, it_bytes = 8\<rparr> 0"
    by (simp add: Op_def promote_def common_def conv_def tmin_def)
  then show ?thesis
    using safe_comparisons [of "\<lparr>it_signed = True, it_bytes = 4\<rparr>" "\<lparr>it_signed = False, it_bytes = 8\<rparr>" "- 1" 0 8 LtOp]
    by (simp add: it_ok_def in_type_def tmin_def tmax_def)
qed

lemma bounds_fit:
  assumes "it_ok dst" "it_ok src" "StaticRangeCheck dst src = OVERLAPS_RANGE"
  shows "it_signed dst = it_signed src \<Longrightarrow> in_type src (tmax dst) \<and> in_type src (tmin dst)"
    "it_signed dst \<Longrightarrow> \<not> it_signed src \<Longrightarrow> it_bytes dst \<le> it_bytes src \<and> in_type src (tmax dst)"
    "\<not> it_signed dst \<Longrightarrow> it_signed src \<Longrightarrow> it_bytes dst * 8 < it_bytes src * 8 - 1 \<Longrightarrow> in_type src (tmax dst)"
    "\<not> it_signed dst \<Longrightarrow> it_signed src \<Longrightarrow> it_bytes src * 8 - 1 \<le> it_bytes dst * 8 \<Longrightarrow> tmax src \<le> tmax dst"
  using assms
  by (elim it_ok_cases; auto simp: StaticRangeCheck_def in_type_def tmin_def tmax_def split: if_splits)+

lemma contains_holds:
  assumes "it_ok dst" "it_ok src" "StaticRangeCheck dst src = CONTAINS_RANGE"
  shows "holds dst src"
  using assms by (elim it_ok_cases; auto simp: StaticRangeCheck_def holds_def tmin_def tmax_def split: if_splits)

lemma RangeCheck_ok:
  assumes "it_ok dst" "it_ok src" "in_type src v"
  shows "RangeCheck dst src v = (if v < tmin dst then TYPE_UNDERFLOW else if tmax dst < v then TYPE_OVERFLOW else TYPE_VALID)"
proof (cases "StaticRangeCheck dst src")
  case CONTAINS_RANGE
  then have "in_type dst v" using contains_holds [OF assms(1,2)] assms(3) holdsD by blast
  then show ?thesis using CONTAINS_RANGE by (auto simp: RangeCheck_def in_type_def)
next
  case OVERLAPS_RANGE
  note b = bounds_fit [OF assms(1,2) OVERLAPS_RANGE]
  have z: "conv src 0 = 0" using assms(2) by (intro conv_id) (auto simp: in_type_def tmin_def tmax_def it_ok_def)
  have le: "tmin dst \<le> tmax dst" using assms(1) by (auto simp: tmin_def tmax_def it_ok_def)
  consider "it_signed dst = it_signed src" | "it_signed dst" "\<not> it_signed src" | "\<not> it_signed dst" "it_signed src" by auto
  then show ?thesis
  proof cases
    case 1
    with b(1) have "conv src (tmax dst) = tmax dst" "conv src (tmin dst) = tmin dst" by (simp_all add: conv_id assms(2))
    moreover have "\<not> it_signed src \<Longrightarrow> tmin dst \<le> v" using 1 assms(3) by (simp add: in_type_def tmin_def)
    ultimately show ?thesis using OVERLAPS_RANGE 1 le by (auto simp: RangeCheck_def range_check_result_def)
  next
    case 2
    with b(2) have "conv src (tmax dst) = tmax dst" "it_bytes dst \<le> it_bytes src" by (simp_all add: conv_id assms(2))
    moreover have "0 \<le> v" "tmin dst \<le> 0" using 2 assms(3) by (simp_all add: in_type_def tmin_def)
    ultimately show ?thesis using OVERLAPS_RANGE 2 by (auto simp: RangeCheck_def range_check_result_def)
  next
    case 3
    have m: "tmin dst = 0" using 3 by (simp add: tmin_def)
    show ?thesis
    proof (cases "it_bytes src * 8 - 1 \<le> it_bytes dst * 8")
      case True
      then have "v \<le> tmax dst" using b(4) [OF 3] assms(3) by (simp add: in_type_def)
      with OVERLAPS_RANGE 3 True m z show ?thesis by (auto simp: RangeCheck_def range_check_result_def)
    next
      case False
      then have "conv src (tmax dst) = tmax dst" using b(3) [OF 3] assms(2) by (simp add: conv_id)
      with OVERLAPS_RANGE 3 False m z le show ?thesis by (auto simp: RangeCheck_def range_check_result_def)
    qed
  qed
qed

text \<open>
  C39: \<^verbatim>\<open>saturated_cast\<close> gives the value of the destination type that is nearest to the source value, and
  \<^verbatim>\<open>checked_cast\<close> the value itself, or ends the process when the destination type does not have it, for every pair of integer
  types.
\<close>

theorem casts_keep_value:
  assumes "it_ok dst" "it_ok src" "in_type src v"
  shows "saturated_cast dst src v = Inr (max (tmin dst) (min v (tmax dst))) \<and>
    checked_cast dst src v = (if in_type dst v then Inr v else Inl Fatal)"
proof -
  have le: "tmin dst \<le> tmax dst" using assms(1) by (auto simp: tmin_def tmax_def it_ok_def)
  have "conv dst v = v" if "in_type dst v" using conv_id [OF assms(1) that] .
  with RangeCheck_ok [OF assms] le show ?thesis
    by (auto simp: saturated_cast_def checked_cast_def IsValueInRangeForNumericType_def in_type_def)
qed

theorem casts_keep_value_witness:
  "saturated_cast \<lparr>it_signed = True, it_bytes = 1\<rparr> \<lparr>it_signed = False, it_bytes = 4\<rparr> 300 = Inr 127 \<and>
    checked_cast \<lparr>it_signed = True, it_bytes = 1\<rparr> \<lparr>it_signed = False, it_bytes = 4\<rparr> 300 = Inl Fatal"
  using casts_keep_value [of "\<lparr>it_signed = True, it_bytes = 1\<rparr>" "\<lparr>it_signed = False, it_bytes = 4\<rparr>" 300]
  by (simp add: it_ok_def in_type_def tmin_def tmax_def)

end
