(* ===== verification/Units.thy ===== *)
theory Units
  imports Prelude "HOL-Library.Signed_Division"
begin

text \<open>
  \<^verbatim>\<open>third/webrtc/include/rtc_base/units/unit_base.h\<close> and the units of \<^verbatim>\<open>api/units\<close>: times, durations, data sizes,
  data rates and frequencies, each an \<^verbatim>\<open>int64_t\<close> whose extreme values stand for the infinities. A unit is
  modelled by its \<^verbatim>\<open>value_\<close>. Overflow of the 64 bit arithmetic and division by zero are undefined. The build
  without \<^verbatim>\<open>RTC_DCHECK\<close>s is modelled, and of the overloads those for integers.
\<close>

section \<open>64 bit arithmetic\<close>

definition int64_min :: int where "int64_min = - (2 ^ 63)"
definition int64_max :: int where "int64_max = 2 ^ 63 - 1"

definition i64 :: "int \<Rightarrow> int res" where
  "i64 x = (if int64_min \<le> x \<and> x \<le> int64_max then Inr x else Inl (UB IntRange))"

text \<open>Division truncates.\<close>

definition div64 :: "int \<Rightarrow> int \<Rightarrow> int res" where
  "div64 a b = (if b = 0 then Inl (UB DivByZero) else i64 (a sdiv b))"

section \<open>UnitBase\<close>

definition PlusInfinityVal :: int where "PlusInfinityVal = int64_max"
definition MinusInfinityVal :: int where "MinusInfinityVal = int64_min"

definition IsPlusInfinity :: "int \<Rightarrow> bool" where "IsPlusInfinity v \<longleftrightarrow> v = PlusInfinityVal"
definition IsMinusInfinity :: "int \<Rightarrow> bool" where "IsMinusInfinity v \<longleftrightarrow> v = MinusInfinityVal"
definition IsInfinite :: "int \<Rightarrow> bool" where "IsInfinite v \<longleftrightarrow> v = PlusInfinityVal \<or> v = MinusInfinityVal"
definition IsFinite :: "int \<Rightarrow> bool" where "IsFinite v \<longleftrightarrow> \<not> IsInfinite v"
definition IsZero :: "int \<Rightarrow> bool" where "IsZero v \<longleftrightarrow> v = 0"

definition FromValue :: "int \<Rightarrow> int res" where
  "FromValue val = i64 val"

definition FromFraction :: "int \<Rightarrow> int \<Rightarrow> int res" where
  "FromFraction denominator val = i64 (val * denominator)"

definition ToValue :: "int \<Rightarrow> int" where "ToValue v = v"

definition ToValueOr :: "int \<Rightarrow> int \<Rightarrow> int" where
  "ToValueOr fallback_value v = (if IsFinite v then v else fallback_value)"

definition DivRoundPositiveToNearest :: "int \<Rightarrow> int \<Rightarrow> int res" where
  "DivRoundPositiveToNearest n d = rbind (div64 d 2) (\<lambda>h. rbind (i64 (n + h)) (\<lambda>s. div64 s d))"

definition DivRoundToNearest :: "int \<Rightarrow> int \<Rightarrow> int res" where
  "DivRoundToNearest n d =
     rbind (if n \<ge> 0 then div64 d 2 else rbind (i64 (- d)) (\<lambda>m. div64 m 2)) (\<lambda>h. rbind (i64 (n + h)) (\<lambda>s. div64 s d))"

definition ToFraction :: "bool \<Rightarrow> int \<Rightarrow> int \<Rightarrow> int res" where
  "ToFraction one_sided Denominator v =
     (if one_sided then DivRoundPositiveToNearest v Denominator else DivRoundToNearest v Denominator)"

definition ToFractionOr :: "bool \<Rightarrow> int \<Rightarrow> int \<Rightarrow> int \<Rightarrow> int res" where
  "ToFractionOr one_sided Denominator fallback_value v =
     (if IsFinite v
      then (if one_sided then DivRoundPositiveToNearest v Denominator else DivRoundToNearest v Denominator)
      else Inr fallback_value)"

definition ToMultiple :: "int \<Rightarrow> int \<Rightarrow> int res" where
  "ToMultiple Factor v = i64 (ToValue v * Factor)"

text \<open>\<^verbatim>\<open>RelativeUnit::operator*\<close> with an integer, which the rounding functions use.\<close>

definition unit_times :: "int \<Rightarrow> int \<Rightarrow> int res" where
  "unit_times v scalar = rbind (i64 (ToValue v * scalar)) FromValue"

definition RoundTo :: "int \<Rightarrow> int \<Rightarrow> int res" where
  "RoundTo v resolution =
     rbind (div64 resolution 2) (\<lambda>h. rbind (i64 (v + h)) (\<lambda>s. rbind (div64 s resolution) (\<lambda>q. unit_times q resolution)))"

definition RoundUpTo :: "int \<Rightarrow> int \<Rightarrow> int res" where
  "RoundUpTo v resolution =
     rbind (i64 (v + resolution)) (\<lambda>s. rbind (i64 (s - 1)) (\<lambda>s. rbind (div64 s resolution) (\<lambda>q. unit_times q resolution)))"

definition RoundDownTo :: "int \<Rightarrow> int \<Rightarrow> int res" where
  "RoundDownTo v resolution = rbind (div64 v resolution) (\<lambda>q. unit_times q resolution)"

section \<open>RelativeUnit\<close>

definition Clamped :: "int \<Rightarrow> int \<Rightarrow> int \<Rightarrow> int" where
  "Clamped min_value max_value v = max min_value (min v max_value)"

definition unit_plus :: "int \<Rightarrow> int \<Rightarrow> int res" where
  "unit_plus v other =
     (if IsPlusInfinity v \<or> IsPlusInfinity other then Inr PlusInfinityVal
      else if IsMinusInfinity v \<or> IsMinusInfinity other then Inr MinusInfinityVal
      else rbind (i64 (ToValue v + ToValue other)) FromValue)"

definition unit_minus :: "int \<Rightarrow> int \<Rightarrow> int res" where
  "unit_minus v other =
     (if IsPlusInfinity v \<or> IsMinusInfinity other then Inr PlusInfinityVal
      else if IsMinusInfinity v \<or> IsPlusInfinity other then Inr MinusInfinityVal
      else rbind (i64 (ToValue v - ToValue other)) FromValue)"

text \<open>
  \<^verbatim>\<open>operator/\<close> with an integer: the quotient is passed to \<^verbatim>\<open>std::round\<close> and so becomes a \<^verbatim>\<open>double\<close>, of which 53 bits
  are kept, rounding to the nearest and to even.
\<close>

function low_bits :: "nat \<Rightarrow> nat \<Rightarrow> nat" where
  "low_bits p m = (if m < 2 ^ p then 0 else Suc (low_bits p (m div 2)))"
  by auto
termination
proof (relation "measure snd")
  fix p m :: nat
  assume "\<not> m < 2 ^ p"
  then have "m \<noteq> 0" by (cases m) simp_all
  then show "((p, m div 2), (p, m)) \<in> measure snd" by simp
qed simp

declare low_bits.simps [simp del]

definition round_bits :: "nat \<Rightarrow> nat \<Rightarrow> nat" where
  "round_bits p m =
     (let k = low_bits p m; q = m div 2 ^ k; r = m mod 2 ^ k in
      (if 2 * r > 2 ^ k \<or> 2 * r = 2 ^ k \<and> odd q then q + 1 else q) * 2 ^ k)"

definition to_double :: "int \<Rightarrow> int" where
  "to_double n = sgn n * int (round_bits 53 (nat \<bar>n\<bar>))"

definition unit_divide :: "int \<Rightarrow> int \<Rightarrow> int res" where
  "unit_divide v scalar = rbind (div64 (ToValue v) scalar) (\<lambda>q. rbind (i64 (to_double q)) FromValue)"

section \<open>Timestamp and TimeDelta\<close>

definition Seconds :: "int \<Rightarrow> int res" where "Seconds val = FromFraction 1000000 val"
definition Millis :: "int \<Rightarrow> int res" where "Millis val = FromFraction 1000 val"
definition Micros :: "int \<Rightarrow> int res" where "Micros val = FromValue val"

definition Timestamp_seconds :: "int \<Rightarrow> int res" where "Timestamp_seconds v = ToFraction True 1000000 v"
definition Timestamp_ms :: "int \<Rightarrow> int res" where "Timestamp_ms v = ToFraction True 1000 v"
definition TimeDelta_seconds :: "int \<Rightarrow> int res" where "TimeDelta_seconds v = ToFraction False 1000000 v"
definition TimeDelta_ms :: "int \<Rightarrow> int res" where "TimeDelta_ms v = ToFraction False 1000 v"
definition us_value :: "int \<Rightarrow> int" where "us_value v = ToValue v"
definition ns_value :: "int \<Rightarrow> int res" where "ns_value v = ToMultiple 1000 v"

definition TimeDelta_Abs :: "int \<Rightarrow> int res" where
  "TimeDelta_Abs v = (if us_value v < 0 then rbind (i64 (- us_value v)) Micros else Inr v)"

definition Timestamp_plus :: "int \<Rightarrow> int \<Rightarrow> int res" where
  "Timestamp_plus t delta =
     (if IsPlusInfinity t \<or> IsPlusInfinity delta then Inr PlusInfinityVal
      else if IsMinusInfinity t \<or> IsMinusInfinity delta then Inr MinusInfinityVal
      else rbind (i64 (us_value t + us_value delta)) Micros)"

definition Timestamp_minus :: "int \<Rightarrow> int \<Rightarrow> int res" where
  "Timestamp_minus t delta =
     (if IsPlusInfinity t \<or> IsMinusInfinity delta then Inr PlusInfinityVal
      else if IsMinusInfinity t \<or> IsPlusInfinity delta then Inr MinusInfinityVal
      else rbind (i64 (us_value t - us_value delta)) Micros)"

definition Timestamp_diff :: "int \<Rightarrow> int \<Rightarrow> int res" where
  "Timestamp_diff t other =
     (if IsPlusInfinity t \<or> IsMinusInfinity other then Inr PlusInfinityVal
      else if IsMinusInfinity t \<or> IsPlusInfinity other then Inr MinusInfinityVal
      else rbind (i64 (us_value t - us_value other)) Micros)"

section \<open>DataSize, DataRate and Frequency\<close>

definition bytes :: "int \<Rightarrow> int" where "bytes v = ToValue v"
definition bps :: "int \<Rightarrow> int" where "bps v = ToValue v"
definition bytes_per_sec :: "int \<Rightarrow> int res" where "bytes_per_sec v = ToFraction True 8 v"
definition kbps :: "int \<Rightarrow> int res" where "kbps v = ToFraction True 1000 v"
definition BytesPerSec :: "int \<Rightarrow> int res" where "BytesPerSec val = FromFraction 8 val"
definition KilobitsPerSec :: "int \<Rightarrow> int res" where "KilobitsPerSec val = FromFraction 1000 val"
definition millihertz :: "int \<Rightarrow> int" where "millihertz v = ToValue v"
definition hertz :: "int \<Rightarrow> int res" where "hertz v = ToFraction True 1000 v"

definition Microbits :: "int \<Rightarrow> int res" where
  "Microbits sz = i64 (bytes sz * 8000000)"

definition MillibytePerSec :: "int \<Rightarrow> int res" where
  "MillibytePerSec rate = i64 (bps rate * (1000 div 8))"

definition size_over_time :: "int \<Rightarrow> int \<Rightarrow> int res" where
  "size_over_time sz duration = rbind (Microbits sz) (\<lambda>m. rbind (div64 m (us_value duration)) FromValue)"

definition size_over_rate :: "int \<Rightarrow> int \<Rightarrow> int res" where
  "size_over_rate sz rate = rbind (Microbits sz) (\<lambda>m. rbind (div64 m (bps rate)) Micros)"

definition rate_times_time :: "int \<Rightarrow> int \<Rightarrow> int res" where
  "rate_times_time rate duration =
     rbind (i64 (bps rate * us_value duration)) (\<lambda>microbits.
     rbind (i64 (microbits + 4000000)) (\<lambda>s. rbind (div64 s 8000000) FromValue))"

definition rate_over_frequency :: "int \<Rightarrow> int \<Rightarrow> int res" where
  "rate_over_frequency rate frequency = rbind (MillibytePerSec rate) (\<lambda>m. rbind (div64 m (millihertz frequency)) FromValue)"

definition rate_over_size :: "int \<Rightarrow> int \<Rightarrow> int res" where
  "rate_over_size rate sz = rbind (MillibytePerSec rate) (\<lambda>m. rbind (div64 m (bytes sz)) FromValue)"

definition size_times_frequency :: "int \<Rightarrow> int \<Rightarrow> int res" where
  "size_times_frequency sz frequency =
     rbind (i64 (bytes sz * 8)) (\<lambda>b. rbind (i64 (b * millihertz frequency)) (\<lambda>millibits_per_second.
     rbind (i64 (millibits_per_second + 500)) (\<lambda>s. rbind (div64 s 1000) FromValue)))"

definition per_interval :: "int \<Rightarrow> int \<Rightarrow> int res" where
  "per_interval nominator interval =
     (if \<not> IsFinite interval \<or> IsZero interval then Inl Fatal
      else rbind (i64 (nominator * 1000000000)) (\<lambda>m. rbind (div64 m (us_value interval)) FromValue))"

definition per_frequency :: "int \<Rightarrow> int \<Rightarrow> int res" where
  "per_frequency nominator frequency =
     (if \<not> IsFinite frequency \<or> IsZero frequency then Inl Fatal
      else rbind (i64 (nominator * 1000000000)) (\<lambda>m. rbind (div64 m (millihertz frequency)) Micros))"

section \<open>Extended integers\<close>

text \<open>What a unit stands for, with the order and the sum that the comparisons and \<^verbatim>\<open>operator+\<close> give.\<close>

datatype ext = MInf | Fin int | PInf

definition ext_of :: "int \<Rightarrow> ext" where
  "ext_of v = (if IsPlusInfinity v then PInf else if IsMinusInfinity v then MInf else Fin v)"

instantiation ext :: linorder
begin

fun less_eq_ext :: "ext \<Rightarrow> ext \<Rightarrow> bool" where
  "less_eq_ext MInf b = True"
| "less_eq_ext (Fin x) (Fin y) = (x \<le> y)"
| "less_eq_ext (Fin x) b = (b = PInf)"
| "less_eq_ext PInf b = (b = PInf)"

definition less_ext :: "ext \<Rightarrow> ext \<Rightarrow> bool" where
  "less_ext a b \<longleftrightarrow> a \<le> b \<and> \<not> b \<le> a"

instance
proof
  fix a b c :: ext
  show "a \<le> a" by (cases a) simp_all
  show "a \<le> b \<or> b \<le> a" by (cases a; cases b) auto
  show "a \<le> b \<Longrightarrow> b \<le> a \<Longrightarrow> a = b" by (cases a; cases b) auto
  show "a \<le> b \<Longrightarrow> b \<le> c \<Longrightarrow> a \<le> c" by (cases a; cases b; cases c) auto
qed (simp add: less_ext_def)

end

fun ext_plus :: "ext \<Rightarrow> ext \<Rightarrow> ext" where
  "ext_plus PInf b = PInf"
| "ext_plus a PInf = PInf"
| "ext_plus MInf b = MInf"
| "ext_plus a MInf = MInf"
| "ext_plus (Fin x) (Fin y) = Fin (x + y)"

fun ext_uminus :: "ext \<Rightarrow> ext" where
  "ext_uminus PInf = MInf"
| "ext_uminus MInf = PInf"
| "ext_uminus (Fin x) = Fin (- x)"

lemmas unit_defs = PlusInfinityVal_def MinusInfinityVal_def IsPlusInfinity_def IsMinusInfinity_def IsInfinite_def IsFinite_def
  IsZero_def FromValue_def ToValue_def us_value_def Micros_def bytes_def bps_def millihertz_def

lemmas int64_defs = int64_min_def int64_max_def

lemma i64_in: "int64_min \<le> x \<Longrightarrow> x \<le> int64_max \<Longrightarrow> i64 x = Inr x"
  by (simp add: i64_def)

lemma i64_out: "x < int64_min \<or> int64_max < x \<Longrightarrow> i64 x = Inl (UB IntRange)"
  by (auto simp: i64_def)

lemma ext_of_mono: "int64_min \<le> a \<Longrightarrow> b \<le> int64_max \<Longrightarrow> a \<le> b \<Longrightarrow> ext_of a \<le> ext_of b"
  by (auto simp: ext_of_def unit_defs int64_defs)

lemma unit_plus_ext:
  assumes "unit_plus a b = Inr c"
  shows "ext_of c = ext_plus (ext_of a) (ext_of b) \<or> ext_plus (ext_of a) (ext_of b) \<in> {Fin int64_min, Fin int64_max} \<and> IsInfinite c"
  using assms by (auto simp: unit_plus_def ext_of_def unit_defs int64_defs i64_def split: if_splits)

lemma unit_minus_ext:
  assumes "unit_minus a b = Inr c"
  shows "ext_of c = ext_plus (ext_of a) (ext_uminus (ext_of b)) \<or>
    ext_plus (ext_of a) (ext_uminus (ext_of b)) \<in> {Fin int64_min, Fin int64_max} \<and> IsInfinite c"
  using assms by (auto simp: unit_minus_def ext_of_def unit_defs int64_defs i64_def split: if_splits)

section \<open>Division\<close>

lemma sdiv_pos: "0 \<le> a \<Longrightarrow> 0 < b \<Longrightarrow> a sdiv b = a div (b :: int)"
  by (cases "a = 0") (simp_all add: signed_divide_int_def)

lemma sdiv_neg: "a < 0 \<Longrightarrow> 0 < b \<Longrightarrow> a sdiv b = - ((- a) div (b :: int))"
  by (simp add: signed_divide_int_def)

lemma div64_pos: "0 \<le> a \<Longrightarrow> a \<le> int64_max \<Longrightarrow> 0 < b \<Longrightarrow> div64 a b = Inr (a div b)"
proof -
  assume a: "0 \<le> a" "a \<le> int64_max" "0 < b"
  then have "0 \<le> a div b" "a div b \<le> a" using zdiv_mono2 [of a 1 b] by (simp_all add: pos_imp_zdiv_nonneg_iff)
  with a show ?thesis by (simp add: div64_def sdiv_pos i64_def int64_min_def)
qed

lemma div64_neg: "a < 0 \<Longrightarrow> int64_min < a \<Longrightarrow> 0 < b \<Longrightarrow> div64 a b = Inr (- ((- a) div b))"
proof -
  assume a: "a < 0" "int64_min < a" "0 < b"
  then have "0 \<le> (- a) div b" "(- a) div b \<le> - a" using zdiv_mono2 [of "- a" 1 b] by (simp_all add: pos_imp_zdiv_nonneg_iff)
  with a show ?thesis by (simp add: div64_def sdiv_neg i64_def int64_defs)
qed

lemma div_bounds: "0 < b \<Longrightarrow> b * (a div b) \<le> a \<and> a < b * (a div b) + (b :: int)"
  by (metis div_mult_mod_eq mult.commute add_le_same_cancel1 add_less_cancel_left le_add_same_cancel1 pos_mod_bound pos_mod_sign)

section \<open>Rounding\<close>

lemma half64: "0 < d \<Longrightarrow> d \<le> int64_max \<Longrightarrow> div64 d 2 = Inr (d div 2)"
  by (simp add: div64_pos)

lemma div_round_pos:
  assumes "0 \<le> n" "0 < d" "d \<le> int64_max" "n + d div 2 \<le> int64_max"
  shows "DivRoundPositiveToNearest n d = Inr ((n + d div 2) div d)" "DivRoundToNearest n d = Inr ((n + d div 2) div d)"
proof -
  have "0 \<le> n + d div 2" using assms by (simp add: pos_imp_zdiv_nonneg_iff)
  moreover have "i64 (n + d div 2) = Inr (n + d div 2)" using calculation assms(4) by (intro i64_in) (simp_all add: int64_min_def)
  ultimately show "DivRoundPositiveToNearest n d = Inr ((n + d div 2) div d)" "DivRoundToNearest n d = Inr ((n + d div 2) div d)"
    using assms by (simp_all add: DivRoundPositiveToNearest_def DivRoundToNearest_def half64 div64_pos)
qed

lemma div_round_neg:
  assumes "n < 0" "0 < d" "d \<le> int64_max" "- n + d div 2 \<le> int64_max"
  shows "DivRoundToNearest n d = Inr (- ((- n + d div 2) div d))"
proof -
  have h: "div64 (- d) 2 = Inr (- (d div 2))" using assms(2,3) div64_neg [of "- d" 2] by (simp add: int64_defs)
  have "i64 (- d) = Inr (- d)" using assms(2,3) by (intro i64_in) (simp_all add: int64_defs)
  moreover have d: "0 \<le> d div 2" using assms(2) by (simp add: pos_imp_zdiv_nonneg_iff)
  moreover have "i64 (n - d div 2) = Inr (n - d div 2)" using assms(1,4) d by (intro i64_in) (simp_all add: int64_defs)
  moreover have "div64 (n - d div 2) d = Inr (- ((- n + d div 2) div d))"
    using assms d div64_neg [of "n - d div 2" d] by (simp add: int64_defs)
  ultimately show ?thesis using assms(1) h by (simp add: DivRoundToNearest_def)
qed

lemma nearest:
  assumes "0 \<le> n" "0 < d"
  shows "2 * \<bar>n - d * ((n + d div 2) div d)\<bar> \<le> (d :: int)"
proof -
  define X where "X = d * ((n + d div 2) div d)"
  have "X \<le> n + d div 2" "n + d div 2 < X + d" using div_bounds [OF assms(2), of "n + d div 2"] by (simp_all add: X_def)
  moreover have "2 * (d div 2) \<le> d" "d \<le> 2 * (d div 2) + 1" by simp_all
  ultimately have "n - X \<le> d div 2" "X - n \<le> d div 2" by linarith+
  then have "\<bar>n - X\<bar> \<le> d div 2" by simp
  then have "2 * \<bar>n - X\<bar> \<le> 2 * (d div 2)" by (rule mult_left_mono) simp
  also have "\<dots> \<le> d" by simp
  finally show ?thesis by (simp only: X_def)
qed

section \<open>Properties\<close>

text \<open>
  Durations convert to milliseconds by rounding to the nearest, the same for negative ones, whenever the conversion is
  defined; but for a finite duration within 500 microseconds of the largest one the addition overflows, and it is not.
\<close>

theorem milliseconds_nearest:
  assumes "0 \<le> n" "n < PlusInfinityVal"
  shows "if n \<le> PlusInfinityVal - 500
    then \<exists>q. TimeDelta_ms n = Inr q \<and> Timestamp_ms n = Inr q \<and> TimeDelta_ms (- n) = Inr (- q) \<and> 2 * \<bar>n - 1000 * q\<bar> \<le> 1000
    else TimeDelta_ms n = Inl (UB IntRange) \<and> Timestamp_ms n = Inl (UB IntRange)"
proof (cases "n \<le> PlusInfinityVal - 500")
  case True
  let ?q = "(n + 500) div 1000"
  have "TimeDelta_ms n = Inr ?q" "Timestamp_ms n = Inr ?q"
    using div_round_pos [of n 1000] assms(1) True by (simp_all add: TimeDelta_ms_def Timestamp_ms_def ToFraction_def unit_defs int64_defs)
  moreover have "TimeDelta_ms (- n) = Inr (- ?q)"
    using div_round_neg [of "- n" 1000] div_round_pos [of 0 1000] assms(1) True
    by (cases "n = 0") (simp_all add: TimeDelta_ms_def ToFraction_def unit_defs int64_defs)
  moreover have "2 * \<bar>n - 1000 * ?q\<bar> \<le> 1000" using nearest [OF assms(1), of 1000] by simp
  ultimately show ?thesis using True by auto
next
  case False
  then have "i64 (n + 500) = Inl (UB IntRange)" by (intro i64_out) (simp add: unit_defs)
  with False assms(1) show ?thesis
    by (simp add: TimeDelta_ms_def Timestamp_ms_def ToFraction_def DivRoundToNearest_def DivRoundPositiveToNearest_def
        div64_def i64_def int64_defs)
qed

theorem milliseconds_nearest_witness:
  "\<exists>q. TimeDelta_ms 1499 = Inr q \<and> Timestamp_ms 1499 = Inr q \<and> TimeDelta_ms (- 1499) = Inr (- q) \<and> 2 * \<bar>1499 - 1000 * q\<bar> \<le> 1000"
  using milliseconds_nearest [of 1499] by (simp add: unit_defs int64_defs)

text \<open>What a \<^verbatim>\<open>Timestamp\<close> holds: a one-sided value, or an infinity of either sign.\<close>

definition is_timestamp :: "int \<Rightarrow> bool" where
  "is_timestamp t \<longleftrightarrow> IsInfinite t \<or> 0 \<le> t \<and> t < PlusInfinityVal"

lemmas timestamp_ops = Timestamp_plus_def Timestamp_minus_def Timestamp_diff_def

lemma finite_ops:
  assumes "IsFinite t" "IsFinite d" "MinusInfinityVal < t + d" "t + d < PlusInfinityVal"
    and "MinusInfinityVal \<le> t" "t \<le> PlusInfinityVal" "MinusInfinityVal \<le> d" "d \<le> PlusInfinityVal"
  shows "Timestamp_plus t d = Inr (t + d)" "Timestamp_minus (t + d) d = Inr t" "Timestamp_diff (t + d) t = Inr d"
  using assms by (simp_all add: timestamp_ops) (auto simp: unit_defs int64_defs i64_def)

lemma infinite_ops:
  "IsFinite d \<Longrightarrow> IsInfinite t \<Longrightarrow> Timestamp_plus t d = Inr t \<and> Timestamp_minus t d = Inr t"
  "IsFinite t \<Longrightarrow> IsInfinite u \<Longrightarrow> Timestamp_diff u t = Inr u \<and> Timestamp_plus t u = Inr u"
  "IsFinite t \<Longrightarrow> Timestamp_diff t PlusInfinityVal = Inr MinusInfinityVal \<and> Timestamp_diff t MinusInfinityVal = Inr PlusInfinityVal"
  "IsFinite t \<Longrightarrow> Timestamp_minus t PlusInfinityVal = Inr MinusInfinityVal \<and> Timestamp_minus t MinusInfinityVal = Inr PlusInfinityVal"
  by (auto simp: timestamp_ops) (auto simp: unit_defs int64_defs)

text \<open>
  C37: Points in time and durations fit together. What lies between a finite timestamp and any other, infinite of either sign or not,
  gives the other when it is added to the first, without overflow. A duration, infinite or not, added to a finite timestamp is the
  difference of the two, and a finite one is taken off again by the subtraction, where the sum is a timestamp. An infinite timestamp
  stays as it is when a finite duration is added or taken off, its distance to a finite one is infinite with its sign, and taking off
  an infinite duration gives the infinity of the opposite sign. (Sums and differences of two infinities that cancel are excluded by
  the \<^verbatim>\<open>RTC_DCHECK\<close>s.)
\<close>

theorem timestamps_and_deltas:
  assumes "is_timestamp t" "is_timestamp u" "MinusInfinityVal \<le> d" "d \<le> PlusInfinityVal"
  shows "(IsFinite t \<longrightarrow> rbind (Timestamp_diff u t) (Timestamp_plus t) = Inr u) \<and>
    (IsFinite t \<and> (IsInfinite d \<or> 0 \<le> t + d \<and> t + d < PlusInfinityVal) \<longrightarrow>
      rbind (Timestamp_plus t d) (\<lambda>x. Timestamp_diff x t) = Inr d \<and>
      (IsFinite d \<longrightarrow> rbind (Timestamp_plus t d) (\<lambda>x. Timestamp_minus x d) = Inr t)) \<and>
    (IsInfinite t \<and> IsFinite d \<longrightarrow> Timestamp_plus t d = Inr t \<and> Timestamp_minus t d = Inr t) \<and>
    (IsInfinite t \<and> IsFinite u \<longrightarrow> Timestamp_diff t u = Inr t) \<and>
    (IsFinite t \<longrightarrow> Timestamp_diff t PlusInfinityVal = Inr MinusInfinityVal \<and> Timestamp_diff t MinusInfinityVal = Inr PlusInfinityVal \<and>
      Timestamp_minus t PlusInfinityVal = Inr MinusInfinityVal \<and> Timestamp_minus t MinusInfinityVal = Inr PlusInfinityVal)"
proof (intro conjI impI; (elim conjE)?)
  assume t: "IsFinite t"
  then have tb: "0 \<le> t" "t < PlusInfinityVal" using assms(1) by (auto simp: is_timestamp_def IsFinite_def)
  have m: "MinusInfinityVal < 0" by (simp add: unit_defs int64_defs)
  show "rbind (Timestamp_diff u t) (Timestamp_plus t) = Inr u"
  proof (cases "IsFinite u")
    case True
    then have u: "0 \<le> u" "u < PlusInfinityVal" using assms(2) by (auto simp: is_timestamp_def IsFinite_def)
    then have "IsFinite (u - t)" using tb by (auto simp: unit_defs int64_defs)
    then show ?thesis using finite_ops(1,3) [OF t, of "u - t"] t u tb m by (auto simp: PlusInfinityVal_def MinusInfinityVal_def int64_defs)
  qed (use t infinite_ops(2) in \<open>auto simp: IsFinite_def\<close>)
  assume d: "IsInfinite d \<or> 0 \<le> t + d \<and> t + d < PlusInfinityVal"
  have fin: "Timestamp_plus t d = Inr (t + d)" "Timestamp_minus (t + d) d = Inr t" "Timestamp_diff (t + d) t = Inr d" if "IsFinite d"
    using finite_ops [OF t that] d assms(3,4) tb m that by (auto simp: IsFinite_def)
  show "rbind (Timestamp_plus t d) (\<lambda>x. Timestamp_diff x t) = Inr d"
    using fin infinite_ops(2) [OF t, of d] by (cases "IsFinite d") (auto simp: IsFinite_def)
  show "rbind (Timestamp_plus t d) (\<lambda>x. Timestamp_minus x d) = Inr t" if "IsFinite d" using fin [OF that] by simp
qed (use infinite_ops in auto)

theorem timestamps_and_deltas_witness:
  "rbind (Timestamp_diff MinusInfinityVal 7) (Timestamp_plus 7) = Inr MinusInfinityVal \<and>
    rbind (Timestamp_plus 7 (- 3)) (\<lambda>x. Timestamp_diff x 7) = Inr (- 3) \<and> Timestamp_diff 7 PlusInfinityVal = Inr MinusInfinityVal"
  using timestamps_and_deltas [of 7 MinusInfinityVal "- 3"] by (simp add: is_timestamp_def unit_defs int64_defs)

text \<open>
  C38: A rate is consistent with the size and the duration it comes from: multiplied by the duration again it never gives more than
  the size, the error is bounded, and for durations up to four seconds it is zero.
\<close>

theorem data_rate_consistent:
  assumes "0 \<le> sz" "sz * 8000000 + 4000000 \<le> int64_max" "0 < dur" "dur \<le> int64_max"
  shows "\<exists>rate b. size_over_time sz dur = Inr rate \<and> rate_times_time rate dur = Inr b \<and> b \<le> sz \<and>
    8000000 * (sz - b) < dur + 4000000 \<and> (dur \<le> 4000000 \<longrightarrow> b = sz)"
proof -
  define m where "m = sz * 8000000"
  define rate where "rate = m div dur"
  define X where "X = rate * dur"
  have m: "0 \<le> m" "m \<le> int64_max" using assms(1,2) by (simp_all add: m_def)
  have X: "X \<le> m" "m < X + dur" using div_bounds [OF assms(3), of m] by (simp_all add: X_def rate_def mult.commute)
  have rate: "0 \<le> rate" "rate \<le> m" using m(1) assms(3) zdiv_mono2 [of m 1 dur] by (simp_all add: rate_def pos_imp_zdiv_nonneg_iff)
  then have X0: "0 \<le> X" using assms(3) by (simp add: X_def)
  have "i64 m = Inr m" "i64 rate = Inr rate" "i64 X = Inr X" "i64 (X + 4000000) = Inr (X + 4000000)"
    using m X X0 rate assms(2) by (auto simp: i64_def int64_min_def m_def)
  note facts = this
  have s: "size_over_time sz dur = Inr rate"
    using facts div64_pos [OF m assms(3)] by (simp add: size_over_time_def Microbits_def unit_defs m_def rate_def)
  define b where "b = (X + 4000000) div 8000000"
  have bb: "8000000 * b \<le> X + 4000000" "X + 4000000 < 8000000 * b + 8000000"
    using div_bounds [of 8000000 "X + 4000000"] by (simp_all add: b_def)
  have "0 \<le> X + 4000000" "X + 4000000 \<le> int64_max" using X(1) X0 assms(2) by (simp_all add: m_def)
  then have "div64 (X + 4000000) 8000000 = Inr b" by (simp add: div64_pos b_def)
  moreover have "i64 b = Inr b" using bb X0 X(1) assms(2) by (simp add: i64_def int64_min_def m_def)
  ultimately have t: "rate_times_time rate dur = Inr b" using facts by (simp add: rate_times_time_def unit_defs X_def)
  have "b \<le> sz" "8000000 * (sz - b) < dur + 4000000" using bb X by (simp_all add: m_def)
  with s t show ?thesis by (intro exI [of _ rate] exI [of _ b]) auto
qed

theorem data_rate_consistent_witness:
  "\<exists>rate b. size_over_time 1000 3000000 = Inr rate \<and> rate_times_time rate 3000000 = Inr b \<and> b = 1000"
  using data_rate_consistent [of 1000 3000000] by (auto simp: int64_max_def)

text \<open>
  \<^verbatim>\<open>RoundDownTo\<close> rounds a negative duration up: the division truncates towards zero.
\<close>

theorem negative_rounded_up:
  assumes "MinusInfinityVal < v" "v < 0" "0 < resolution" "\<not> resolution dvd v"
  shows "\<exists>x. RoundDownTo v resolution = Inr x \<and> v < x"
proof -
  let ?q = "(- v) div resolution"
  have "div64 v resolution = Inr (- ?q)" using assms by (simp add: div64_neg unit_defs)
  moreover have b: "resolution * ?q \<le> - v" using div_bounds [OF assms(3), of "- v"] by simp
  moreover have "resolution * ?q \<noteq> - v" using assms(4) by (metis dvd_triv_left dvd_minus_iff)
  moreover have "0 \<le> resolution * ?q" using assms(2,3) by (simp add: pos_imp_zdiv_nonneg_iff)
  ultimately show ?thesis using assms(1,2)
    by (auto simp: RoundDownTo_def unit_times_def unit_defs int64_defs i64_def mult.commute)
qed

theorem negative_rounded_up_witness: "\<exists>x. RoundDownTo (- 5) 10 = Inr x \<and> - 5 < x"
  using negative_rounded_up [of "- 5" 10] by (simp add: unit_defs int64_defs)

text \<open>The absolute value of the smallest duration overflows, and a rate over no time divides by zero, which nothing checks.\<close>

lemma abs_of_delta:
  "MinusInfinityVal < v \<Longrightarrow> v \<le> PlusInfinityVal \<Longrightarrow> TimeDelta_Abs v = Inr \<bar>v\<bar>"
  "TimeDelta_Abs MinusInfinityVal = Inl (UB IntRange)"
  by (auto simp: TimeDelta_Abs_def unit_defs int64_defs i64_def)

lemma rate_over_no_time: "0 \<le> sz \<Longrightarrow> sz * 8000000 \<le> int64_max \<Longrightarrow> size_over_time sz 0 = Inl (UB DivByZero)"
  by (simp add: size_over_time_def Microbits_def unit_defs i64_def int64_min_def div64_def)

lemma round_bits_exact: "m < 2 ^ p \<Longrightarrow> round_bits p m = m"
  by (simp add: round_bits_def Let_def low_bits.simps)

lemma to_double_exact: "\<bar>n\<bar> < 2 ^ 53 \<Longrightarrow> to_double n = n"
  using round_bits_exact [of "nat \<bar>n\<bar>" 53] by (simp add: to_double_def sgn_mult_abs nat_less_iff del: power_numeral)

text \<open>
  Dividing a unit by an integer goes through a \<^verbatim>\<open>double\<close>: even divided by one, no odd value above \<open>2\<^sup>53\<close> stays what it was.
\<close>

theorem division_loses_precision:
  assumes "odd v" "2 ^ 53 < v" "v \<le> int64_max"
  shows "unit_divide v 1 \<noteq> Inr v"
proof -
  have "\<not> nat \<bar>v\<bar> < 2 ^ 53" using assms(2) by simp
  then obtain k where k: "low_bits 53 (nat \<bar>v\<bar>) = Suc k" using that by (subst (asm) low_bits.simps) (simp only: if_False)
  then have "even (to_double v)" by (simp add: to_double_def round_bits_def Let_def)
  with assms(1) show ?thesis by (auto simp: unit_divide_def div64_def i64_def unit_defs split: if_splits)
qed

theorem division_loses_precision_witness: "unit_divide (2 ^ 53 + 1) 1 \<noteq> Inr (2 ^ 53 + 1)"
  using division_loses_precision [of "2 ^ 53 + 1"] by (simp add: int64_max_def)

end
