(* ===== verification/Seq_Nums.thy ===== *)
theory Seq_Nums
  imports Units
begin

text \<open>
  Numbers that wrap around: \<^verbatim>\<open>third/webrtc/include/rtc_base/numerics/mod_ops.h\<close>, \<^verbatim>\<open>sequence_number_util.h\<close> and
  \<^verbatim>\<open>modules/include/module_common_types_public.h\<close>, with which RTP sequence numbers and timestamps are ordered and
  unwrapped. An unsigned type is a word of its width; \<open>M\<close> is the template argument, where zero stands for the
  whole range of the type. Types narrower than \<^verbatim>\<open>int\<close> are promoted before they are subtracted.
\<close>

section \<open>Modular arithmetic\<close>

definition Mod_Add :: "64 word \<Rightarrow> 64 word \<Rightarrow> 64 word \<Rightarrow> 64 word" where
  "Mod_Add M a b =
     (let t = M - b mod M; r = a - t in
      if t > a then r + M else r)"

definition Mod_Subtract :: "64 word \<Rightarrow> 64 word \<Rightarrow> 64 word \<Rightarrow> 64 word" where
  "Mod_Subtract M a b = (let sub = b mod M in if a < sub then M - (sub - a) else a - sub)"

definition ForwardDiff :: "'a :: len word \<Rightarrow> 'a word \<Rightarrow> 'a word \<Rightarrow> 'a word" where
  "ForwardDiff M a b = (if M > 0 then (if a \<le> b then b - a else M - (a - b)) else b - a)"

definition ReverseDiff :: "'a :: len word \<Rightarrow> 'a word \<Rightarrow> 'a word \<Rightarrow> 'a word" where
  "ReverseDiff M a b = (if M > 0 then (if b \<le> a then a - b else M - (b - a)) else a - b)"

definition MinDiff :: "'a :: len word \<Rightarrow> 'a word \<Rightarrow> 'a word \<Rightarrow> 'a word" where
  "MinDiff M a b = min (ForwardDiff M a b) (ReverseDiff M a b)"

text \<open>\<^verbatim>\<open>a - b\<close> of two operands of the type, as a number: in \<^verbatim>\<open>int\<close> if the type is narrower.\<close>

definition promoted_minus :: "'a :: len word \<Rightarrow> 'a word \<Rightarrow> int" where
  "promoted_minus a b = (if LENGTH('a) < 32 then uint a - uint b else uint (a - b))"

section \<open>Order\<close>

definition AheadOrAt :: "'a :: len word \<Rightarrow> 'a word \<Rightarrow> 'a word \<Rightarrow> bool" where
  "AheadOrAt M a b =
     (if M > 0 then
        (let maxDist = M div 2 in
         if \<not> bit M 0 \<and> MinDiff M a b = maxDist then b < a else ForwardDiff M b a \<le> maxDist)
      else
        (let maxDist = (- 1) div 2 + 1 in
         if promoted_minus a b = uint maxDist then b < a else ForwardDiff 0 b a < maxDist))"

definition AheadOf :: "'a :: len word \<Rightarrow> 'a word \<Rightarrow> 'a word \<Rightarrow> bool" where
  "AheadOf M a b \<longleftrightarrow> a \<noteq> b \<and> AheadOrAt M a b"

definition IsNewer :: "'a :: len word \<Rightarrow> 'a word \<Rightarrow> bool" where
  "IsNewer val prev_value =
     (let kBreakpoint = drop_bit 1 (- 1) + 1 in
      if promoted_minus val prev_value = uint kBreakpoint then val > prev_value
      else val \<noteq> prev_value \<and> val - prev_value < kBreakpoint)"

definition LatestSequenceNumber :: "16 word \<Rightarrow> 16 word \<Rightarrow> 16 word" where
  "LatestSequenceNumber a b = (if IsNewer a b then a else b)"

definition LatestTimestamp :: "32 word \<Rightarrow> 32 word \<Rightarrow> 32 word" where
  "LatestTimestamp a b = (if IsNewer a b then a else b)"

section \<open>Unwrapping\<close>

record 'v seq_unwrapper =
  last_unwrapped :: int
  last_value :: "'v option"

definition SeqNumUnwrapper_new :: "'a :: len word seq_unwrapper" where
  "SeqNumUnwrapper_new = \<lparr>last_unwrapped = 0, last_value = None\<rparr>"

definition SeqNum_Unwrap :: "'a :: len word \<Rightarrow> 'a word \<Rightarrow> 'a word seq_unwrapper \<Rightarrow> (int \<times> 'a word seq_unwrapper) res" where
  "SeqNum_Unwrap M val u =
     rbind (case last_value u of
              None \<Rightarrow> Inr (uint val)
            | Some l \<Rightarrow>
                rbind (i64 (last_unwrapped u + uint (ForwardDiff M l val))) (\<lambda>x.
                if \<not> AheadOrAt M val l
                then i64 (x - (if M = 0 then uint (- 1 :: 'a word) + 1 else uint M))
                else Inr x)) (\<lambda>x.
     Inr (x, \<lparr>last_unwrapped = x, last_value = Some val\<rparr>))"

definition UnwrapWithoutUpdate :: "'a :: len word \<Rightarrow> int option \<Rightarrow> int res" where
  "UnwrapWithoutUpdate val lst =
     (case lst of
        None \<Rightarrow> Inr (uint val)
      | Some l \<Rightarrow>
          (let kMaxPlusOne = uint (- 1 :: 'a word) + 1;
               cropped_last = (word_of_int l :: 'a word);
               delta = promoted_minus val cropped_last in
           if IsNewer val cropped_last then i64 (l + (if delta < 0 then delta + kMaxPlusOne else delta))
           else if delta > 0
           then rbind (i64 (l + delta)) (\<lambda>s. rbind (i64 (s - kMaxPlusOne)) (\<lambda>s'.
                i64 (l + (if s' \<ge> 0 then delta - kMaxPlusOne else delta))))
           else i64 (l + delta)))"

definition Unwrapper_Unwrap :: "'a :: len word \<Rightarrow> int option \<Rightarrow> (int \<times> int option) res" where
  "Unwrapper_Unwrap val lst = rbind (UnwrapWithoutUpdate val lst) (\<lambda>x. Inr (x, Some x))"

section \<open>What they compute\<close>

text \<open>The number of values before the wrap, and the values below it.\<close>

definition span_of :: "'a :: len word \<Rightarrow> int" where
  "span_of M = (if M = 0 then 2 ^ LENGTH('a) else uint M)"

definition below :: "'a :: len word \<Rightarrow> 'a word \<Rightarrow> bool" where
  "below M a \<longleftrightarrow> uint a < span_of M"

lemma uint_minus_le: "b \<le> a \<Longrightarrow> uint (a - b) = uint a - uint (b :: 'a :: len word)"
  by (simp add: uint_minus_simple_alt word_le_def)

lemma span_pos: "0 < span_of M"
  by (cases "M = 0") (auto simp: span_of_def order_less_le uint_0_iff)

lemma ForwardDiff_uint:
  assumes "below M a" "below M b"
  shows "uint (ForwardDiff M a b) = (uint b - uint a) mod span_of M"
proof (cases "M = 0")
  case True
  then show ?thesis by (simp add: ForwardDiff_def span_of_def uint_word_ariths)
next
  case False
  have lt: "uint a < uint M" "uint b < uint M" using assms False by (simp_all add: below_def span_of_def)
  have M: "M > 0" using False by (simp add: word_greater_zero_iff)
  show ?thesis
  proof (cases "a \<le> b")
    case True
    then have "uint (b - a) = uint b - uint a" "0 \<le> uint b - uint a" by (simp_all add: uint_minus_le word_le_def)
    moreover have "uint b - uint a < uint M" using lt(2) uint_ge_0 [of a] by linarith
    ultimately show ?thesis using True M False by (simp add: ForwardDiff_def span_of_def)
  next
    case ba: False
    then have d: "uint (a - b) = uint a - uint b" "uint b < uint a" by (simp_all add: uint_minus_le word_le_def)
    then have "uint (a - b) \<le> uint M" using lt(1) uint_ge_0 [of b] by linarith
    then have "uint (M - (a - b)) = uint M - (uint a - uint b)" using d(1) by (simp add: uint_minus_le word_le_def)
    moreover have "(uint b - uint a) mod uint M = uint M - (uint a - uint b)"
    proof -
      have "(uint b - uint a) mod uint M = (uint b - uint a + uint M) mod uint M" by simp
      also have "\<dots> = uint b - uint a + uint M" using d(2) lt uint_ge_0 [of b] by (intro mod_pos_pos_trivial) linarith+
      finally show ?thesis by simp
    qed
    ultimately show ?thesis using ba M False by (simp add: ForwardDiff_def span_of_def)
  qed
qed

lemma ReverseDiff_Forward: "ReverseDiff M a b = ForwardDiff M b a"
  by (simp add: ReverseDiff_def ForwardDiff_def)

text \<open>How far \<open>a\<close> is ahead of \<open>b\<close>.\<close>

definition lead :: "'a :: len word \<Rightarrow> 'a word \<Rightarrow> 'a word \<Rightarrow> int" where
  "lead M a b = (uint a - uint b) mod span_of M"

lemma lead_range: "0 \<le> lead M a b" "lead M a b < span_of M"
  using span_pos [of M] by (simp_all add: lead_def)

lemma lead_zero: "below M a \<Longrightarrow> below M b \<Longrightarrow> lead M a b = 0 \<longleftrightarrow> a = b"
proof
  assume "below M a" "below M b" "lead M a b = 0"
  then have "uint a mod span_of M = uint b mod span_of M" by (simp add: lead_def mod_eq_dvd_iff mod_eq_0_iff_dvd)
  with \<open>below M a\<close> \<open>below M b\<close> show "a = b" by (simp add: below_def word_uint_eq_iff)
qed (simp add: lead_def)

lemma lead_flip: "lead M a b \<noteq> 0 \<Longrightarrow> lead M b a = span_of M - lead M a b"
proof -
  assume "lead M a b \<noteq> 0"
  then have "(- (uint a - uint b)) mod span_of M = span_of M - lead M a b"
    using zmod_zminus1_eq_if [of "uint a - uint b" "span_of M"] by (simp only: lead_def if_False)
  moreover have "- (uint a - uint b) = uint b - uint a" by simp
  ultimately show ?thesis by (simp only: lead_def [of M b a])
qed

lemma two_word: "1 < LENGTH('a) \<Longrightarrow> uint (2 :: 'a :: len word) = 2"
  using power_strict_increasing [of 1 "LENGTH('a)" "2 :: nat"] by (simp add: unsigned_numeral take_bit_nat_eq_self)

lemma le_half_iff: "(k :: int) \<le> n div 2 \<longleftrightarrow> 2 * k \<le> n"
  by presburger

lemma half_word: "1 < LENGTH('a) \<Longrightarrow> uint ((- 1) div 2 + 1 :: 'a :: len word) = 2 ^ (LENGTH('a) - 1)"
  "1 < LENGTH('a) \<Longrightarrow> uint (drop_bit 1 (- 1) + 1 :: 'a :: len word) = 2 ^ (LENGTH('a) - 1)"
proof -
  assume l: "1 < LENGTH('a)"
  have n: "LENGTH('a) = Suc (Suc (LENGTH('a) - 2))" using l by simp
  then have p: "(2 :: int) ^ LENGTH('a) = 2 * 2 ^ (LENGTH('a) - 1)" "(0 :: int) < 2 ^ (LENGTH('a) - 1)"
    by (simp_all flip: power_Suc)
  have "uint ((- 1) div 2 :: 'a word) = (2 ^ LENGTH('a) - 1) div 2" by (simp only: uint_div two_word [OF l] unsigned_minus_1_eq_mask mask_eq_exp_minus_1)
  also have "\<dots> = 2 ^ (LENGTH('a) - 1) - 1" unfolding p(1) by presburger
  finally have h: "uint ((- 1) div 2 :: 'a word) = 2 ^ (LENGTH('a) - 1) - 1" .
  then show d: "uint ((- 1) div 2 + 1 :: 'a word) = 2 ^ (LENGTH('a) - 1)" using p by (simp add: uint_word_ariths)
  have "(drop_bit 1 (- 1) :: 'a word) = (- 1) div 2" by (simp only: drop_bit_eq_div power_one_right)
  with d show "uint (drop_bit 1 (- 1) + 1 :: 'a word) = 2 ^ (LENGTH('a) - 1)" by simp
qed

lemma tie_promoted:
  fixes a b :: "'a :: len word"
  assumes "1 < LENGTH('a)"
  shows "promoted_minus a b = 2 ^ (LENGTH('a) - 1) \<longleftrightarrow> 2 * lead 0 a b = span_of (0 :: 'a word) \<and> (LENGTH('a) < 32 \<longrightarrow> b < a)"
proof -
  have s: "span_of (0 :: 'a word) = 2 * 2 ^ (LENGTH('a) - 1)" using assms by (simp add: span_of_def flip: power_Suc)
  have k: "uint (a - b) = lead 0 a b" by (simp add: lead_def span_of_def uint_word_ariths)
  show ?thesis
  proof (cases "b < a")
    case True
    then have "uint (a - b) = uint a - uint b" by (simp add: uint_minus_le)
    then show ?thesis using True k s by (auto simp: promoted_minus_def)
  next
    case False
    then have "uint a - uint b \<le> 0" by (simp add: word_less_def)
    moreover have "(0 :: int) < 2 ^ (LENGTH('a) - 1)" by simp
    ultimately have "uint a - uint b \<noteq> 2 ^ (LENGTH('a) - 1)" by linarith
    then show ?thesis using False k s by (auto simp: promoted_minus_def)
  qed
qed

lemma tie_int: "0 < k \<Longrightarrow> k < N \<Longrightarrow> even N \<and> min (N - k) k = N div 2 \<longleftrightarrow> 2 * k = (N :: int)"
  by (auto simp: min_def elim!: evenE)

lemma AheadOrAt_iff:
  fixes a b :: "'a :: len word"
  assumes "1 < LENGTH('a)" "below M a" "below M b"
  shows "AheadOrAt M a b \<longleftrightarrow> (if 2 * lead M a b = span_of M then b < a else 2 * lead M a b < span_of M)"
proof (cases "M = 0")
  case True
  have s: "span_of (0 :: 'a word) = 2 * 2 ^ (LENGTH('a) - 1)" using assms(1) by (simp add: span_of_def flip: power_Suc)
  have f: "uint (ForwardDiff 0 b a) = lead 0 a b" using ForwardDiff_uint [OF assms(3,2)] True by (simp add: lead_def)
  show ?thesis
    using True tie_promoted [OF assms(1), of a b] half_word(1) [OF assms(1)] f s
    by (auto simp: AheadOrAt_def Let_def word_less_def)
next
  case False
  then have M: "M > 0" and s: "span_of M = uint M" by (simp_all add: word_greater_zero_iff span_of_def)
  have h: "uint (M div 2) = uint M div 2" by (simp only: uint_div two_word [OF assms(1)])
  have f: "uint (ForwardDiff M b a) = lead M a b" "uint (ForwardDiff M a b) = lead M b a"
    using ForwardDiff_uint [OF assms(3,2)] ForwardDiff_uint [OF assms(2,3)] by (simp_all add: lead_def)
  have e: "\<not> bit M 0 \<longleftrightarrow> even (uint M)" by (metis bit_0 bit_uint_iff len_gt_0)
  have m: "MinDiff M a b = M div 2 \<longleftrightarrow> min (lead M b a) (lead M a b) = uint M div 2"
    using f h by (simp add: MinDiff_def ReverseDiff_Forward word_uint_eq_iff min_def word_le_def)
  have le: "ForwardDiff M b a \<le> M div 2 \<longleftrightarrow> 2 * lead M a b \<le> span_of M" using f h s by (simp add: word_le_def le_half_iff)
  have "\<not> bit M 0 \<and> MinDiff M a b = M div 2 \<longleftrightarrow> 2 * lead M a b = span_of M"
  proof (cases "lead M a b = 0")
    case True
    then have "lead M b a = 0" using lead_zero [OF assms(2,3)] by (simp add: lead_def)
    moreover have "even (uint M) \<Longrightarrow> uint M div 2 \<noteq> 0" using span_pos [of M] s by (auto elim!: evenE)
    ultimately show ?thesis using True m e s span_pos [of M] by auto
  next
    case False
    then show ?thesis unfolding m e lead_flip [OF False] s using lead_range [of M a b] unfolding s by (intro tie_int) auto
  qed
  with M le show ?thesis by (auto simp: AheadOrAt_def Let_def)
qed

text \<open>Exactly half a turn away the greater number is ahead; the two headers agree on the order of whole words.\<close>

lemma AheadOf_iff:
  fixes a b :: "'a :: len word"
  assumes "1 < LENGTH('a)" "below M a" "below M b"
  shows "AheadOf M a b \<longleftrightarrow> a \<noteq> b \<and> (if 2 * lead M a b = span_of M then b < a else 2 * lead M a b < span_of M)"
  unfolding AheadOf_def AheadOrAt_iff [OF assms] by (cases "2 * lead M a b = span_of M") auto

lemma below_0: "below 0 a"
  by (simp add: below_def span_of_def)

lemma IsNewer_AheadOf:
  fixes a b :: "'a :: len word"
  assumes l: "1 < LENGTH('a)"
  shows "IsNewer a b \<longleftrightarrow> AheadOf 0 a b"
proof -
  have s: "span_of (0 :: 'a word) = 2 * 2 ^ (LENGTH('a) - 1)" using l by (simp add: span_of_def flip: power_Suc)
  have k: "uint (a - b) = lead 0 a b" by (simp add: lead_def span_of_def uint_word_ariths)
  have lt: "a - b < drop_bit 1 (- 1) + 1 \<longleftrightarrow> 2 * lead 0 a b < span_of (0 :: 'a word)"
    unfolding word_less_def half_word(2) [OF l] k s by simp
  show ?thesis
    unfolding IsNewer_def Let_def half_word(2) [OF l] tie_promoted [OF l] lt AheadOf_iff [OF l below_0 below_0]
    by auto
qed

lemma lead_flip_tie: "2 * lead M a b = span_of M \<Longrightarrow> 2 * lead M b a = span_of M"
  using lead_flip [of M a b] span_pos [of M] by (cases "lead M a b = 0") auto

lemma AheadOf_total:
  fixes a b :: "'a :: len word"
  assumes "1 < LENGTH('a)" "below M a" "below M b" "a \<noteq> b"
  shows "AheadOf M a b \<longleftrightarrow> \<not> AheadOf M b a"
proof (cases "2 * lead M a b = span_of M")
  case True
  then show ?thesis
    using assms lead_flip_tie [OF True] by (auto simp: AheadOf_iff [OF assms(1,2,3)] AheadOf_iff [OF assms(1,3,2)])
next
  case False
  have "lead M a b \<noteq> 0" using lead_zero [OF assms(2,3)] assms(4) by simp
  note f = lead_flip [OF this]
  then have "2 * lead M b a \<noteq> span_of M" using False by simp
  then show ?thesis
    unfolding AheadOf_iff [OF assms(1,2,3)] AheadOf_iff [OF assms(1,3,2)] using False f assms(4) by auto
qed

text \<open>
  Two sequence numbers below the wrap are equal or exactly one is ahead of the other, a number less than half a turn
  further on is ahead, and \<^verbatim>\<open>IsNewer\<close> is this order on whole words, so that the later of two sequence numbers and of two
  timestamps does not depend on which comes first.
\<close>

theorem sequence_order:
  fixes a b M :: "'a :: len word"
  assumes "1 < LENGTH('a)" "below M a" "below M b"
  shows "a \<noteq> b \<longrightarrow> (AheadOf M a b \<longleftrightarrow> \<not> AheadOf M b a)"
    "\<not> AheadOf M a a \<and> AheadOrAt M a a"
    "0 < lead M a b \<and> 2 * lead M a b < span_of M \<longrightarrow> AheadOf M a b"
    "IsNewer a b \<longleftrightarrow> AheadOf 0 a b"
    "LatestSequenceNumber s t = LatestSequenceNumber t s \<and> LatestTimestamp p q = LatestTimestamp q p"
proof -
  show "a \<noteq> b \<longrightarrow> (AheadOf M a b \<longleftrightarrow> \<not> AheadOf M b a)" using AheadOf_total [OF assms] by simp
  have "lead M a a = 0" by (simp add: lead_def)
  then show "\<not> AheadOf M a a \<and> AheadOrAt M a a"
    using span_pos [of M] by (simp add: AheadOf_def AheadOrAt_iff [OF assms(1,2,2)])
  show "0 < lead M a b \<and> 2 * lead M a b < span_of M \<longrightarrow> AheadOf M a b"
    unfolding AheadOf_iff [OF assms] using lead_zero [OF assms(2,3)] by auto
  show "IsNewer a b \<longleftrightarrow> AheadOf 0 a b" by (rule IsNewer_AheadOf [OF assms(1)])
  have "s = t \<or> AheadOf 0 s t = (\<not> AheadOf 0 t s)" using AheadOf_total [OF _ below_0 below_0, of s t] by fastforce
  moreover have "p = q \<or> AheadOf 0 p q = (\<not> AheadOf 0 q p)" using AheadOf_total [OF _ below_0 below_0, of p q] by fastforce
  ultimately show "LatestSequenceNumber s t = LatestSequenceNumber t s \<and> LatestTimestamp p q = LatestTimestamp q p"
    by (auto simp: LatestSequenceNumber_def LatestTimestamp_def IsNewer_AheadOf)
qed

theorem sequence_order_witness:
  "AheadOf 0 (2 :: 16 word) 65533 \<and> \<not> AheadOf 0 65533 (2 :: 16 word) \<and> AheadOf 11 (2 :: 8 word) 10 \<and> \<not> AheadOf 11 10 (2 :: 8 word)
   \<and> IsNewer (32770 :: 16 word) 2 \<and> LatestSequenceNumber 65533 2 = 2"
proof -
  have "below 0 (2 :: 16 word) \<and> below 0 (65533 :: 16 word) \<and> below 11 (2 :: 8 word) \<and> below 11 (10 :: 8 word)"
    "0 < lead 0 (2 :: 16 word) 65533 \<and> 2 * lead 0 (2 :: 16 word) 65533 < span_of (0 :: 16 word)"
    "AheadOf 11 (2 :: 8 word) 10" "AheadOf 0 (32770 :: 16 word) 2" "LatestSequenceNumber 2 65533 = 2"
    by code_simp+
  then show ?thesis
    using sequence_order(1,3) [of 0 "2 :: 16 word" 65533] sequence_order(5) [OF _ below_0 below_0, where 'a = 8, of 65533 2 0 0] sequence_order(1) [of 11 "2 :: 8 word" 10]
      sequence_order(4) [OF _ below_0 below_0, of "32770 :: 16 word" 2] by simp
qed

section \<open>Arithmetic modulo M\<close>

lemma uint_word_sum: "uint a + uint b < 2 ^ LENGTH('a) \<Longrightarrow> uint (a + b :: 'a :: len word) = uint a + uint b"
  by (simp add: uint_word_ariths)

lemma Mod_Add_uint:
  assumes "a < M"
  shows "uint (Mod_Add M a b) = (uint a + uint b) mod uint M"
proof -
  define r where "r = b mod M"
  have M: "0 < uint M" using assms uint_ge_0 [of a] unfolding word_less_def by linarith
  have r: "uint r = uint b mod uint M" "uint r < uint M" "0 \<le> uint r" using M by (simp_all add: r_def uint_mod)
  have a: "uint a < uint M" "0 \<le> uint a" using assms by (simp_all add: word_less_def)
  have t: "uint (M - r) = uint M - uint r" using r(2) by (simp add: uint_minus_le word_le_def)
  have e: "(uint a + uint b) mod uint M = (uint a + uint r) mod uint M" by (simp add: r(1) mod_add_right_eq)
  show ?thesis
  proof (cases "M - r > a")
    case True
    then have lt: "uint a + uint r < uint M" using t by (simp add: word_less_def)
    then have "uint (a + r) = uint a + uint r" using uint_lt2p [of M] by (intro uint_word_sum) linarith
    moreover have "a - (M - r) + M = a + r" by simp
    ultimately show ?thesis using True lt a r e by (simp add: Mod_Add_def Let_def flip: r_def)
  next
    case False
    then have le: "uint M - uint r \<le> uint a" using t by (simp add: word_less_def)
    have "(uint a + uint r) mod uint M = (uint a + uint r - uint M) mod uint M" by simp
    also have "\<dots> = uint a + uint r - uint M" using le a r by (intro mod_pos_pos_trivial) linarith+
    finally show ?thesis using False le t e by (simp add: Mod_Add_def Let_def uint_minus_le word_le_def flip: r_def)
  qed
qed

lemma Mod_Subtract_uint:
  assumes "a < M"
  shows "uint (Mod_Subtract M a b) = (uint a - uint b) mod uint M"
proof -
  define r where "r = b mod M"
  have M: "0 < uint M" using assms uint_ge_0 [of a] unfolding word_less_def by linarith
  have "r < M" using M by (simp add: r_def word_less_def uint_mod)
  then have "below M a" "below M r" using M assms by (auto simp: below_def span_of_def word_less_def)
  have "(uint a - uint b) mod uint M = (uint a - uint r) mod uint M"
    by (simp add: r_def uint_mod mod_diff_right_eq)
  also have "\<dots> = uint (ForwardDiff M r a)"
    using ForwardDiff_uint [OF \<open>below M r\<close> \<open>below M a\<close>] M by (cases "M = 0") (simp_all add: span_of_def)
  also have "ForwardDiff M r a = Mod_Subtract M a b"
    using M by (auto simp: ForwardDiff_def Mod_Subtract_def Let_def word_less_def word_le_def simp flip: r_def)
  finally show ?thesis by simp
qed

section \<open>Unwrapping a sequence\<close>

primrec unwrap_all :: "('v \<Rightarrow> 's \<Rightarrow> (int \<times> 's) res) \<Rightarrow> 'v list \<Rightarrow> 's \<Rightarrow> int list res" where
  "unwrap_all f [] s = Inr []"
| "unwrap_all f (v # vs) s = rbind (f v s) (\<lambda>(x, s'). rbind (unwrap_all f vs s') (\<lambda>xs. Inr (x # xs)))"

primrec close_steps :: "(int \<Rightarrow> int \<Rightarrow> bool) \<Rightarrow> int \<Rightarrow> int list \<Rightarrow> bool" where
  "close_steps near x [] \<longleftrightarrow> True"
| "close_steps near x (y # ys) \<longleftrightarrow> near x y \<and> close_steps near y ys"

text \<open>
  The contract of an unwrapper: while its state tracks the true number \<open>x\<close> at the offset \<open>c\<close>, it maps the wrapped form of a
  number near \<open>x\<close> to that number at the same offset.
\<close>

locale unwrapper =
  fixes unwrap :: "'v \<Rightarrow> 's \<Rightarrow> (int \<times> 's) res"
    and wrap :: "int \<Rightarrow> 'v"
    and tracks :: "int \<Rightarrow> int \<Rightarrow> 's \<Rightarrow> bool"
    and near :: "int \<Rightarrow> int \<Rightarrow> int \<Rightarrow> bool"
  assumes follows: "tracks c x s \<Longrightarrow> near c x y \<Longrightarrow> \<exists>s'. unwrap (wrap y) s = Inr (y + c, s') \<and> tracks c y s'"
begin

lemma all_follow: "tracks c x s \<Longrightarrow> close_steps (near c) x ys \<Longrightarrow> unwrap_all unwrap (map wrap ys) s = Inr (map (\<lambda>y. y + c) ys)"
proof (induction ys arbitrary: x s)
  case (Cons y ys)
  then obtain s' where "unwrap (wrap y) s = Inr (y + c, s')" "tracks c y s'" using follows by fastforce
  with Cons show ?case by simp
qed simp

end

definition seq_wrap :: "'a :: len word \<Rightarrow> int \<Rightarrow> 'a word" where
  "seq_wrap M x = word_of_int (x mod span_of M)"

definition seq_tracks :: "'a :: len word \<Rightarrow> int \<Rightarrow> int \<Rightarrow> 'a word seq_unwrapper \<Rightarrow> bool" where
  "seq_tracks M c x u \<longleftrightarrow> 1 < LENGTH('a) \<and> LENGTH('a) \<le> 32 \<and> last_unwrapped u = x + c \<and> last_value u = Some (seq_wrap M x)"

definition seq_near :: "'a :: len word \<Rightarrow> int \<Rightarrow> int \<Rightarrow> int \<Rightarrow> bool" where
  "seq_near M c x y \<longleftrightarrow> 2 * \<bar>y - x\<bar> < span_of M \<and> \<bar>y + c\<bar> < 2 ^ 62"

lemma span_le: "span_of (M :: 'a :: len word) \<le> 2 ^ LENGTH('a)"
  using uint_lt2p [of M] by (simp add: span_of_def less_imp_le)

lemma uint_seq_wrap: "uint (seq_wrap M x) = x mod span_of M"
proof -
  have "0 \<le> x mod span_of M" "x mod span_of M < 2 ^ LENGTH('a)"
    using span_pos [of M] span_le [of M] pos_mod_bound [of "span_of M" x] by (simp, linarith)
  then show ?thesis by (simp add: seq_wrap_def uint_word_of_int)
qed

lemma below_seq_wrap: "below M (seq_wrap M x)"
  using span_pos [of M] by (simp add: below_def uint_seq_wrap)

lemma lead_seq_wrap: "lead M (seq_wrap M y) (seq_wrap M x) = (y - x) mod span_of M"
  by (simp add: lead_def uint_seq_wrap mod_diff_eq)

lemma lead_near:
  assumes "2 * \<bar>y - x\<bar> < span_of M"
  shows "lead M (seq_wrap M y) (seq_wrap M x) = (if x \<le> y then y - x else y - x + span_of M)"
proof (cases "x \<le> y")
  case False
  have "(y - x) mod span_of M = (y - x + span_of M) mod span_of M" by simp
  also have "\<dots> = y - x + span_of M" using False assms by (intro mod_pos_pos_trivial) (simp_all add: abs_if)
  finally show ?thesis using False by (simp add: lead_seq_wrap)
qed (use assms in \<open>simp add: lead_seq_wrap\<close>)

lemma wrap_amount: "(if M = 0 then uint (- 1 :: 'a word) + 1 else uint M) = span_of (M :: 'a :: len word)"
  by (simp add: span_of_def unsigned_minus_1_eq_mask mask_eq_exp_minus_1)

lemma SeqNum_follows:
  fixes M :: "'a :: len word"
  assumes "seq_tracks M c x u" "seq_near M c x y"
  shows "\<exists>u'. SeqNum_Unwrap M (seq_wrap M y) u = Inr (y + c, u') \<and> seq_tracks M c y u'"
proof -
  have l: "1 < LENGTH('a)" "LENGTH('a) \<le> 32" and u: "last_unwrapped u = x + c" "last_value u = Some (seq_wrap M x)"
    using assms(1) by (simp_all add: seq_tracks_def)
  have n: "2 * \<bar>y - x\<bar> < span_of M" "\<bar>y + c\<bar> < 2 ^ 62" using assms(2) by (simp_all add: seq_near_def)
  have "(2 :: int) ^ LENGTH('a) \<le> 2 ^ 32" using l(2) by (intro power_increasing) simp_all
  then have sp: "span_of M \<le> 2 ^ 32" using span_le [of M] by linarith
  note le = lead_near [OF n(1)]
  have f: "uint (ForwardDiff M (seq_wrap M x) (seq_wrap M y)) = lead M (seq_wrap M y) (seq_wrap M x)"
    using ForwardDiff_uint [OF below_seq_wrap below_seq_wrap, of M x y] by (simp add: lead_def)
  have a: "AheadOrAt M (seq_wrap M y) (seq_wrap M x) \<longleftrightarrow> x \<le> y"
    unfolding AheadOrAt_iff [OF l(1) below_seq_wrap below_seq_wrap] le using n(1) by auto
  have "i64 (y + c) = Inr (y + c)" "i64 (y + c + span_of M) = Inr (y + c + span_of M)"
    using n(2) sp span_pos [of M] by (simp_all add: i64_def int64_min_def int64_max_def abs_less_iff)
  then show ?thesis
    unfolding SeqNum_Unwrap_def u option.case f a wrap_amount le
    using l by (cases "x \<le> y") (simp_all add: seq_tracks_def algebra_simps)
qed

interpretation seq_numbers: unwrapper "SeqNum_Unwrap M" "seq_wrap M" "seq_tracks M" "seq_near M" for M :: "'a :: len word"
  by unfold_locales (rule SeqNum_follows)

lemma promoted_lead:
  fixes a b :: "'a :: len word"
  shows "promoted_minus a b = lead 0 a b \<or> promoted_minus a b = lead 0 a b - 2 ^ LENGTH('a) \<and> uint a - uint b = promoted_minus a b"
proof (cases "b \<le> a \<or> 32 \<le> LENGTH('a)")
  case True
  then have "promoted_minus a b = uint (a - b)" by (auto simp: promoted_minus_def uint_minus_le)
  then show ?thesis by (simp add: lead_def span_of_def uint_word_ariths)
next
  case False
  then have ab: "uint a < uint b" and w: "LENGTH('a) < 32" by (auto simp: word_le_def)
  have "lead 0 a b = (uint a - uint b + 2 ^ LENGTH('a)) mod 2 ^ LENGTH('a)" by (simp add: lead_def span_of_def)
  also have "\<dots> = uint a - uint b + 2 ^ LENGTH('a)"
    using ab uint_lt2p [of b] uint_ge_0 [of a] by (intro mod_pos_pos_trivial) linarith+
  finally show ?thesis using w by (simp add: promoted_minus_def)
qed

text \<open>The unwrapped number goes back by one turn only if the value is not newer and the result is not negative.\<close>

lemma UnwrapWithoutUpdate_eq:
  fixes v :: "'a :: len word"
  defines "d \<equiv> \<lambda>l. lead 0 v (word_of_int l)"
  assumes "LENGTH('a) \<le> 32" "0 \<le> l" "l < 2 ^ 62 + 2 ^ 33"
  shows "UnwrapWithoutUpdate v (Some l) =
    Inr (if IsNewer v (word_of_int l) \<or> d l = 0 \<or> l + d l < 2 ^ LENGTH('a) then l + d l else l + d l - 2 ^ LENGTH('a))"
proof -
  define K :: int where "K = 2 ^ LENGTH('a)"
  have K: "uint (- 1 :: 'a word) + 1 = K" "0 < K" by (simp_all add: K_def unsigned_minus_1_eq_mask mask_eq_exp_minus_1)
  have "(2 :: int) ^ LENGTH('a) \<le> 2 ^ 32" using assms(2) by (intro power_increasing) simp_all
  then have K32: "K \<le> 2 ^ 32" by (simp add: K_def)
  have dr: "0 \<le> d l" "d l < K" using lead_range [of 0 v "word_of_int l"] by (simp_all add: d_def K_def span_of_def)
  have m: "l mod K \<le> l" "uint (word_of_int l :: 'a word) = l mod K"
    using assms(3) by (simp_all add: zmod_le_nonneg_dividend K_def uint_word_of_int)
  have i: "i64 (l + d l) = Inr (l + d l)" "i64 (l + d l - K) = Inr (l + d l - K)" "i64 (l + (d l - K)) = Inr (l + d l - K)"
    using assms(3,4) dr K32 by (simp_all add: i64_def int64_min_def int64_max_def)
  show ?thesis
  proof (cases "promoted_minus v (word_of_int l) = d l")
    case True
    then show ?thesis unfolding UnwrapWithoutUpdate_def option.case Let_def K(1) K_def [symmetric] True
      using dr i by (cases "d l = 0") (simp_all add: not_less)
  next
    case False
    then have e: "promoted_minus v (word_of_int l) = d l - K" and "uint v - l mod K = d l - K"
      using promoted_lead [of v "word_of_int l"] m(2) by (auto simp: d_def K_def)
    then have "0 \<le> l + d l - K" using m(1) uint_ge_0 [of v] by linarith
    moreover have "d l \<noteq> 0" using e False \<open>uint v - l mod K = d l - K\<close> pos_mod_bound [OF K(2), of l] uint_ge_0 [of v] by linarith
    ultimately show ?thesis unfolding UnwrapWithoutUpdate_def option.case Let_def K(1) K_def [symmetric] e
      using dr i by simp
  qed
qed

definition Unwrapper_tracks :: "'a :: len itself \<Rightarrow> int \<Rightarrow> int \<Rightarrow> int option \<Rightarrow> bool" where
  "Unwrapper_tracks w c x s \<longleftrightarrow> 1 < LENGTH('a) \<and> LENGTH('a) \<le> 32 \<and> c = 0 \<and> s = Some x \<and> 0 \<le> x \<and> x < 2 ^ 62"

definition Unwrapper_near :: "'a :: len itself \<Rightarrow> int \<Rightarrow> int \<Rightarrow> int \<Rightarrow> bool" where
  "Unwrapper_near w c x y \<longleftrightarrow> 2 * \<bar>y - x\<bar> < 2 ^ LENGTH('a) \<and> 0 \<le> y \<and> y < 2 ^ 62"

lemma seq_wrap_0: "seq_wrap (0 :: 'a :: len word) = word_of_int"
  by (rule ext) (simp add: word_uint_eq_iff uint_seq_wrap uint_word_of_int span_of_def)

lemma Unwrapper_follows:
  assumes "Unwrapper_tracks TYPE('a :: len) c x s" "Unwrapper_near TYPE('a) c x y"
  shows "\<exists>s'. Unwrapper_Unwrap (word_of_int y :: 'a word) s = Inr (y + c, s') \<and> Unwrapper_tracks TYPE('a) c y s'"
proof -
  have l: "1 < LENGTH('a)" "LENGTH('a) \<le> 32" and s: "c = 0" "s = Some x" "0 \<le> x" "x < 2 ^ 62 + 2 ^ 33"
    using assms(1) by (simp_all add: Unwrapper_tracks_def)
  have n: "2 * \<bar>y - x\<bar> < 2 ^ LENGTH('a)" "0 \<le> y" "y < 2 ^ 62" using assms(2) by (simp_all add: Unwrapper_near_def)
  have sp: "span_of (0 :: 'a word) = 2 ^ LENGTH('a)" by (simp add: span_of_def)
  have le: "lead 0 (word_of_int y :: 'a word) (word_of_int x) = (if x \<le> y then y - x else y - x + 2 ^ LENGTH('a))"
    using lead_near [of y x "0 :: 'a word"] n(1) by (simp add: sp seq_wrap_0)
  have "IsNewer (word_of_int y :: 'a word) (word_of_int x) \<longleftrightarrow> x < y"
    unfolding IsNewer_AheadOf [OF l(1)] AheadOf_iff [OF l(1) below_0 below_0]
      lead_zero [OF below_0 below_0, symmetric] le sp using n(1) by auto
  then have "UnwrapWithoutUpdate (word_of_int y :: 'a word) (Some x) = Inr y"
    unfolding UnwrapWithoutUpdate_eq [OF l(2) s(3,4)] le using n by auto
  then show ?thesis using l s n by (simp add: Unwrapper_Unwrap_def Unwrapper_tracks_def)
qed

interpretation unwrapper_class: unwrapper "Unwrapper_Unwrap :: 'a :: len word \<Rightarrow> _" word_of_int
  "Unwrapper_tracks TYPE('a)" "Unwrapper_near TYPE('a)"
  by unfold_locales (rule Unwrapper_follows)

lemma seq_tracks_first:
  fixes M :: "'a :: len word"
  assumes "1 < LENGTH('a)" "LENGTH('a) \<le> 32"
  shows "\<exists>u. SeqNum_Unwrap M (seq_wrap M x) SeqNumUnwrapper_new = Inr (x mod span_of M, u) \<and> seq_tracks M (x mod span_of M - x) x u"
  using assms by (simp add: SeqNum_Unwrap_def SeqNumUnwrapper_new_def uint_seq_wrap seq_tracks_def)

text \<open>
  C24: \<^verbatim>\<open>SeqNumUnwrapper\<close> recovers a sequence from its numbers modulo the wrap: if each number lies less than half a
  turn from the one before, forwards or backwards, and all unwrapped numbers stay below \<open>2\<^sup>62\<close> in magnitude, they have
  the differences of the true ones.
\<close>

theorem sequence_unwrapped:
  fixes M :: "'a :: len word"
  assumes "1 < LENGTH('a)" "LENGTH('a) \<le> 32" "c = x mod span_of M - x" "close_steps (seq_near M c) x ys"
  shows "unwrap_all (SeqNum_Unwrap M) (map (seq_wrap M) (x # ys)) SeqNumUnwrapper_new = Inr (map (\<lambda>y. y + c) (x # ys))"
proof -
  obtain u where "SeqNum_Unwrap M (seq_wrap M x) SeqNumUnwrapper_new = Inr (x mod span_of M, u)" "seq_tracks M c x u"
    using seq_tracks_first [OF assms(1,2), of M x] assms(3) by blast
  then show ?thesis using seq_numbers.all_follow [of M c x u ys] assms(3,4) by simp
qed

theorem sequence_unwrapped_witness:
  "unwrap_all (SeqNum_Unwrap 0) (map (seq_wrap (0 :: 16 word)) [65530, 65539, 65535, 98000]) SeqNumUnwrapper_new
     = Inr [65530, 65539, 65535, 98000] \<and>
   unwrap_all (SeqNum_Unwrap 11) (map (seq_wrap (11 :: 8 word)) [20, 17, 22]) SeqNumUnwrapper_new = Inr [9, 6, 11]"
  using sequence_unwrapped [of 0 65530 "0 :: 16 word" "[65539, 65535, 98000]"]
    sequence_unwrapped [of "- 11" 20 "11 :: 8 word" "[17, 22]"]
  by (simp add: seq_near_def span_of_def)

lemma Unwrapper_some:
  fixes v :: "'a :: len word"
  assumes "LENGTH('a) \<le> 32" "0 \<le> l" "l < 2 ^ 62 + 2 ^ 33"
  shows "\<exists>x. UnwrapWithoutUpdate v (Some l) = Inr x \<and> 0 \<le> x \<and> word_of_int x = v"
proof -
  have d: "0 \<le> lead 0 v (word_of_int l)" using lead_range [of 0 v "word_of_int l"] by simp
  have v: "word_of_int z = v" if "z mod 2 ^ LENGTH('a) = uint v" for z
    using that by (simp add: word_uint_eq_iff uint_word_of_int)
  have e: "(l + lead 0 v (word_of_int l)) mod 2 ^ LENGTH('a) = uint v"
    by (simp add: lead_def span_of_def uint_word_of_int mod_simps)
  have "(l + lead 0 v (word_of_int l) - 2 ^ LENGTH('a)) mod 2 ^ LENGTH('a) = uint v"
    unfolding minus_mod_self2 by (rule e)
  note w = v [OF e] v [OF this]
  show ?thesis unfolding UnwrapWithoutUpdate_eq [OF assms] using w d assms(2) by auto
qed

text \<open>
  \<^verbatim>\<open>Unwrapper\<close> returns, for any value, a number that is not negative and has this value as its low bits; given numbers
  that start in the range of the type, are not negative and lie less than half a turn apart, it returns them as they are.
\<close>

theorem unwrapped_never_negative:
  fixes v :: "'a :: len word"
  assumes "1 < LENGTH('a)" "LENGTH('a) \<le> 32" "0 \<le> l" "l < 2 ^ 62" "0 \<le> x" "x < 2 ^ LENGTH('a)"
    "close_steps (Unwrapper_near TYPE('a) 0) x ys"
  shows "\<exists>z s. Unwrapper_Unwrap v (Some l) = Inr (z, s) \<and> 0 \<le> z \<and> word_of_int z = v"
    "unwrap_all Unwrapper_Unwrap (map (word_of_int :: int \<Rightarrow> 'a word) (x # ys)) None = Inr (x # ys)"
proof -
  show "\<exists>z s. Unwrapper_Unwrap v (Some l) = Inr (z, s) \<and> 0 \<le> z \<and> word_of_int z = v"
    using Unwrapper_some [of l v] assms(2-4) by (auto simp: Unwrapper_Unwrap_def)
  have "(2 :: int) ^ LENGTH('a) \<le> 2 ^ 32" using assms(2) by (intro power_increasing) simp_all
  then have "Unwrapper_tracks TYPE('a) 0 x (Some x)" using assms by (simp add: Unwrapper_tracks_def)
  then show "unwrap_all Unwrapper_Unwrap (map (word_of_int :: int \<Rightarrow> 'a word) (x # ys)) None = Inr (x # ys)"
    using unwrapper_class.all_follow [where 'a = 'a, of 0 x "Some x" ys] assms(5-7)
    by (simp add: Unwrapper_Unwrap_def UnwrapWithoutUpdate_def uint_word_of_int)
qed

theorem unwrapped_never_negative_witness:
  "(\<exists>z s. Unwrapper_Unwrap (65535 :: 16 word) (Some 3) = Inr (z, s) \<and> 0 \<le> z \<and> word_of_int z = (65535 :: 16 word))
   \<and> unwrap_all Unwrapper_Unwrap (map word_of_int [65530, 65539, 65535] :: 16 word list) None = Inr [65530, 65539, 65535]"
  using unwrapped_never_negative(1) [of 3 65530 "[65539, 65535]" "65535 :: 16 word"]
    unwrapped_never_negative(2) [where 'a = 16, of 3 65530 "[65539, 65535]"] by (simp add: Unwrapper_near_def)

end
