(* ===== verification/Swap_Queue.thy ===== *)
theory Swap_Queue
  imports Prelude "HOL-Library.Multiset"
begin

text \<open>
  \<^verbatim>\<open>SwapQueue\<close> of \<^verbatim>\<open>third/webrtc/include/rtc_base/swap_queue.h\<close>, a queue of fixed size between one producer and one
  consumer that run in different threads and share only the atomic \<^verbatim>\<open>num_elements_\<close>. Each call is cut at its atomic
  accesses: the load of the number of elements, the swap with a slot, the atomic update of the number, and the update
  of the caller's own index. The two threads take such steps in any order. The acquire and release orders of the accesses
  forbid any other reordering, provided that the two swaps are never enabled on the same slot, which is proved.
\<close>

section \<open>The class\<close>

record 'a swap_queue =
  queue :: "'a list"
  num_elements :: nat
  next_write_index :: nat
  next_read_index :: nat

definition SwapQueue_new :: "nat \<Rightarrow> 'a \<Rightarrow> 'a swap_queue" where
  "SwapQueue_new n prototype =
     \<lparr>queue = replicate n prototype, num_elements = 0, next_write_index = 0, next_read_index = 0\<rparr>"

text \<open>The atomic exchange of \<^verbatim>\<open>Clear\<close> and what follows it.\<close>

definition exchange_0 :: "'a swap_queue \<Rightarrow> nat \<times> 'a swap_queue" where
  "exchange_0 q = (num_elements q, q\<lparr>num_elements := 0\<rparr>)"

definition skip_read :: "nat \<Rightarrow> 'a swap_queue \<Rightarrow> 'a swap_queue" where
  "skip_read k q =
     (let i = next_read_index q + k in
      q\<lparr>next_read_index := if i \<ge> length (queue q) then i - length (queue q) else i\<rparr>)"

definition SwapQueue_Clear :: "'a swap_queue \<Rightarrow> 'a swap_queue" where
  "SwapQueue_Clear q = (let (k, q') = exchange_0 q in skip_read k q')"

definition is_full :: "'a swap_queue \<Rightarrow> bool" where
  "is_full q \<longleftrightarrow> num_elements q = length (queue q)"

definition swap_write :: "'a \<Rightarrow> 'a swap_queue \<Rightarrow> 'a \<times> 'a swap_queue" where
  "swap_write x q = (queue q ! next_write_index q, q\<lparr>queue := (queue q)[next_write_index q := x]\<rparr>)"

definition fetch_add :: "'a swap_queue \<Rightarrow> 'a swap_queue" where
  "fetch_add q = q\<lparr>num_elements := num_elements q + 1\<rparr>"

definition next_write :: "'a swap_queue \<Rightarrow> 'a swap_queue" where
  "next_write q =
     (let i = next_write_index q + 1 in q\<lparr>next_write_index := if i = length (queue q) then 0 else i\<rparr>)"

definition Insert :: "'a \<Rightarrow> 'a swap_queue \<Rightarrow> bool \<times> 'a \<times> 'a swap_queue" where
  "Insert input q =
     (if is_full q then (False, input, q)
      else let (e, q') = swap_write input q in (True, e, next_write (fetch_add q')))"

definition is_empty :: "'a swap_queue \<Rightarrow> bool" where
  "is_empty q \<longleftrightarrow> num_elements q = 0"

definition swap_read :: "'a \<Rightarrow> 'a swap_queue \<Rightarrow> 'a \<times> 'a swap_queue" where
  "swap_read x q = (queue q ! next_read_index q, q\<lparr>queue := (queue q)[next_read_index q := x]\<rparr>)"

definition fetch_sub :: "'a swap_queue \<Rightarrow> 'a swap_queue" where
  "fetch_sub q = q\<lparr>num_elements := num_elements q - 1\<rparr>"

definition next_read :: "'a swap_queue \<Rightarrow> 'a swap_queue" where
  "next_read q =
     (let i = next_read_index q + 1 in q\<lparr>next_read_index := if i = length (queue q) then 0 else i\<rparr>)"

definition Remove :: "'a \<Rightarrow> 'a swap_queue \<Rightarrow> bool \<times> 'a \<times> 'a swap_queue" where
  "Remove output q =
     (if is_empty q then (False, output, q)
      else let (x, q') = swap_read output q in (True, x, next_read (fetch_sub q')))"

definition SizeAtLeast :: "'a swap_queue \<Rightarrow> nat" where
  "SizeAtLeast q = num_elements q"

section \<open>Two threads\<close>

text \<open>
  Where a thread is: outside a call; past the test, with the caller's object; past the swap, with the objects given to and got
  from the queue; past the atomic update of \<^verbatim>\<open>Insert\<close> or \<^verbatim>\<open>Remove\<close>; past the exchange of \<^verbatim>\<open>Clear\<close>.
\<close>

datatype 'a phase = Idle | Checked 'a | Swapped 'a 'a | Counted | Dropped nat

record 'a threads =
  shared :: "'a swap_queue"
  producer :: "'a phase"
  consumer :: "'a phase"

datatype 'a event = Inserted 'a | InsertRefused | Removed 'a | RemoveRefused | Cleared | Silent

inductive sq_step :: "'a threads \<Rightarrow> 'a event \<Rightarrow> 'a threads \<Rightarrow> bool" where
  insert_full: "producer s = Idle \<Longrightarrow> is_full (shared s) \<Longrightarrow> sq_step s InsertRefused s"
| insert_load: "producer s = Idle \<Longrightarrow> \<not> is_full (shared s) \<Longrightarrow> sq_step s Silent (s\<lparr>producer := Checked x\<rparr>)"
| insert_swap: "producer s = Checked x \<Longrightarrow> swap_write x (shared s) = (e, q) \<Longrightarrow>
    sq_step s Silent (s\<lparr>shared := q, producer := Swapped x e\<rparr>)"
| insert_count: "producer s = Swapped x e \<Longrightarrow>
    sq_step s (Inserted x) (s\<lparr>shared := fetch_add (shared s), producer := Counted\<rparr>)"
| insert_return: "producer s = Counted \<Longrightarrow> sq_step s Silent (s\<lparr>shared := next_write (shared s), producer := Idle\<rparr>)"
| remove_empty: "consumer s = Idle \<Longrightarrow> is_empty (shared s) \<Longrightarrow> sq_step s RemoveRefused s"
| remove_load: "consumer s = Idle \<Longrightarrow> \<not> is_empty (shared s) \<Longrightarrow> sq_step s Silent (s\<lparr>consumer := Checked e\<rparr>)"
| remove_swap: "consumer s = Checked e \<Longrightarrow> swap_read e (shared s) = (x, q) \<Longrightarrow>
    sq_step s Silent (s\<lparr>shared := q, consumer := Swapped e x\<rparr>)"
| remove_count: "consumer s = Swapped e x \<Longrightarrow>
    sq_step s (Removed x) (s\<lparr>shared := fetch_sub (shared s), consumer := Counted\<rparr>)"
| remove_return: "consumer s = Counted \<Longrightarrow> sq_step s Silent (s\<lparr>shared := next_read (shared s), consumer := Idle\<rparr>)"
| clear_exchange: "consumer s = Idle \<Longrightarrow> exchange_0 (shared s) = (k, q) \<Longrightarrow>
    sq_step s Cleared (s\<lparr>shared := q, consumer := Dropped k\<rparr>)"
| clear_return: "consumer s = Dropped k \<Longrightarrow> sq_step s Silent (s\<lparr>shared := skip_read k (shared s), consumer := Idle\<rparr>)"

inductive sq_steps :: "'a threads \<Rightarrow> 'a event list \<Rightarrow> 'a threads \<Rightarrow> bool" where
  sq_nil: "sq_steps s [] s"
| sq_snoc: "sq_steps s es t \<Longrightarrow> sq_step t e u \<Longrightarrow> sq_steps s (es @ [e]) u"

definition sq_start :: "nat \<Rightarrow> 'a \<Rightarrow> 'a threads" where
  "sq_start n prototype = \<lparr>shared = SwapQueue_new n prototype, producer = Idle, consumer = Idle\<rparr>"

section \<open>The queue they implement\<close>

text \<open>A bounded queue; \<^const>\<open>None\<close> if the event is not one of the queue in this state.\<close>

fun fifo :: "nat \<Rightarrow> 'a event \<Rightarrow> 'a list \<Rightarrow> 'a list option" where
  "fifo n (Inserted x) xs = (if length xs < n then Some (xs @ [x]) else None)"
| "fifo n InsertRefused xs = (if length xs = n then Some xs else None)"
| "fifo n (Removed x) [] = None"
| "fifo n (Removed x) (y # ys) = (if x = y then Some ys else None)"
| "fifo n RemoveRefused xs = (if xs = [] then Some xs else None)"
| "fifo n Cleared xs = Some []"
| "fifo n Silent xs = Some xs"

primrec fifo_run :: "nat \<Rightarrow> 'a event list \<Rightarrow> 'a list \<Rightarrow> 'a list option" where
  "fifo_run n [] xs = Some xs"
| "fifo_run n (e # es) xs = Option.bind (fifo n e xs) (fifo_run n es)"

definition slots :: "'a list \<Rightarrow> nat \<Rightarrow> nat \<Rightarrow> 'a list" where
  "slots xs i k = map (\<lambda>j. xs ! ((i + j) mod length xs)) [0..<k]"

text \<open>The indices once both calls are over, and what is queued: an object that is being removed is still the first.\<close>

fun ahead :: "'a phase \<Rightarrow> nat" where
  "ahead Counted = 1"
| "ahead (Dropped k) = k"
| "ahead _ = 0"

definition read_at :: "'a threads \<Rightarrow> nat" where
  "read_at s = next_read_index (shared s) + ahead (consumer s)"

definition write_at :: "'a threads \<Rightarrow> nat" where
  "write_at s = next_write_index (shared s) + ahead (producer s)"

definition sq_contents :: "'a threads \<Rightarrow> 'a list" where
  "sq_contents s =
     (let xs = slots (queue (shared s)) (read_at s) (num_elements (shared s)) in
      case consumer s of Swapped e x \<Rightarrow> xs[0 := x] | _ \<Rightarrow> xs)"

fun calling :: "'a phase \<Rightarrow> bool" where
  "calling (Checked x) = True"
| "calling (Swapped x y) = True"
| "calling _ = False"

definition sq_ok :: "nat \<Rightarrow> 'a threads \<Rightarrow> bool" where
  "sq_ok n s \<longleftrightarrow>
     (let q = shared s in
      0 < n \<and> length (queue q) = n \<and> num_elements q \<le> n \<and> next_read_index q < n \<and> next_write_index q < n
      \<and> write_at s mod n = (read_at s + num_elements q) mod n
      \<and> (calling (producer s) \<longrightarrow> num_elements q < n) \<and> (calling (consumer s) \<longrightarrow> 0 < num_elements q)
      \<and> ahead (producer s) \<le> 1 \<and> ahead (consumer s) \<le> n
      \<and> (case producer s of Swapped x e \<Rightarrow> queue q ! next_write_index q = x | _ \<Rightarrow> True))"

section \<open>Steps of the threads are steps of the queue\<close>

lemma slots_simps [simp]: "slots xs i 0 = []" "length (slots xs i k) = k" "slots xs i k = [] \<longleftrightarrow> k = 0"
  by (simp_all add: slots_def)

lemma slots_snoc: "slots xs i (Suc k) = slots xs i k @ [xs ! ((i + k) mod length xs)]"
  by (simp add: slots_def)

lemma slots_cons: "slots xs i (Suc k) = xs ! (i mod length xs) # slots xs (Suc i) k"
  unfolding slots_def upt_conv_Cons [OF zero_less_Suc] by (simp add: map_Suc_upt [symmetric] del: upt_Suc)

lemma slots_mod: "i mod length xs = j mod length xs \<Longrightarrow> slots xs i k = slots xs j k"
  unfolding slots_def by (intro map_cong refl) (metis mod_add_left_eq)

lemma mod_apart:
  assumes "j < k" "k - j < n"
  shows "(i + j) mod n \<noteq> (i + k) mod (n :: nat)"
proof
  assume "(i + j) mod n = (i + k) mod n"
  then have "n dvd (i + k) - (i + j)" using assms mod_eq_dvd_iff_nat [of "i + j" "i + k" n] by simp
  then have "n \<le> k - j" using assms(1) dvd_imp_le [of n "k - j"] by simp
  then show False using assms(2) by simp
qed

lemma slots_update_other: "(\<And>j. j < k \<Longrightarrow> (i + j) mod length xs \<noteq> w) \<Longrightarrow> slots (xs[w := v]) i k = slots xs i k"
  unfolding slots_def by (intro map_cong refl) (metis atLeastLessThan_iff length_list_update nth_list_update_neq set_upt)

lemma slots_update_end: "k < length xs \<Longrightarrow> slots (xs[(i + k) mod length xs := v]) i k = slots xs i k"
  by (rule slots_update_other, rule mod_apart) simp_all

lemma slots_update_first:
  assumes "k \<le> length xs" "i < length xs"
  shows "(slots (xs[i := v]) i k)[0 := xs ! i] = slots xs i k"
proof (cases k)
  case (Suc m)
  have "slots (xs[i := v]) (Suc i) m = slots xs (Suc i) m"
  proof (rule slots_update_other)
    fix j
    assume "j < m"
    then show "(Suc i + j) mod length xs \<noteq> i" using assms Suc mod_apart [of 0 "Suc j" "length xs" i] by simp
  qed
  then show ?thesis using assms Suc by (simp add: slots_cons)
qed simp

lemma length_sq_contents [simp]: "length (sq_contents s) = num_elements (shared s)"
  by (simp add: sq_contents_def Let_def split: phase.split)

lemma sq_contents_producer [simp]: "sq_contents (s\<lparr>producer := p\<rparr>) = sq_contents s"
  by (simp add: sq_contents_def read_at_def)

lemma sq_contents_shared:
  assumes "slots (queue q) (next_read_index q + ahead (consumer s)) (num_elements q) =
    slots (queue (shared s)) (read_at s) (num_elements (shared s))"
  shows "sq_contents (s\<lparr>shared := q, producer := p\<rparr>) = sq_contents s"
  using assms by (simp add: sq_contents_def read_at_def)

lemma write_index:
  assumes "sq_ok n s" "calling (producer s)"
  shows "next_write_index (shared s) = (read_at s + num_elements (shared s)) mod n"
proof -
  have "ahead (producer s) = 0" using assms(2) by (auto elim: calling.elims)
  moreover have "next_write_index (shared s) mod n = next_write_index (shared s)" using assms(1) by (simp add: sq_ok_def Let_def)
  ultimately show ?thesis using assms(1) by (simp add: sq_ok_def Let_def write_at_def)
qed

lemma indices_apart:
  assumes "sq_ok n s" "calling (producer s)" "calling (consumer s)"
  shows "next_write_index (shared s) \<noteq> next_read_index (shared s)"
proof -
  have "ahead (producer s) = 0" "ahead (consumer s) = 0" using assms(2,3) by (auto elim: calling.elims)
  moreover have "0 < num_elements (shared s)" "num_elements (shared s) < n" "next_read_index (shared s) < n"
    using assms by (simp_all add: sq_ok_def Let_def)
  ultimately show ?thesis
    using assms(1) mod_apart [of 0 "num_elements (shared s)" n "next_read_index (shared s)"]
    by (auto simp: sq_ok_def Let_def read_at_def write_at_def)
qed

definition refines_fifo :: "nat \<Rightarrow> 'a threads \<Rightarrow> 'a event \<Rightarrow> 'a threads \<Rightarrow> bool" where
  "refines_fifo n s e t \<longleftrightarrow> sq_ok n t \<and> fifo n e (sq_contents s) = Some (sq_contents t)"

lemma insert_swap_ok:
  assumes "sq_ok n s" "producer s = Checked x" "swap_write x (shared s) = (e, q)"
  shows "refines_fifo n s Silent (s\<lparr>shared := q, producer := Swapped x e\<rparr>)"
proof -
  have w: "next_write_index (shared s) = (read_at s + num_elements (shared s)) mod n" "num_elements (shared s) < n"
    using assms(1,2) write_index [OF assms(1)] by (simp_all add: sq_ok_def Let_def)
  have q: "q = (shared s)\<lparr>queue := (queue (shared s))[next_write_index (shared s) := x]\<rparr>"
    using assms(3) by (simp add: swap_write_def)
  have "sq_contents (s\<lparr>shared := q, producer := Swapped x e\<rparr>) = sq_contents s"
    using assms(1) w slots_update_end [of "num_elements (shared s)" "queue (shared s)" "read_at s" x]
    by (intro sq_contents_shared) (simp add: q sq_ok_def Let_def read_at_def)
  then show ?thesis
    using assms(1,2) by (simp add: refines_fifo_def sq_ok_def Let_def q read_at_def write_at_def)
qed

lemma insert_count_ok:
  assumes "sq_ok n s" "producer s = Swapped x e"
  shows "refines_fifo n s (Inserted x) (s\<lparr>shared := fetch_add (shared s), producer := Counted\<rparr>)"
proof -
  let ?k = "num_elements (shared s)" and ?t = "s\<lparr>shared := fetch_add (shared s), producer := Counted\<rparr>"
  have n: "?k < n" and x: "queue (shared s) ! ((read_at s + ?k) mod n) = x" and l: "length (queue (shared s)) = n"
    using assms write_index [OF assms(1)] by (auto simp: sq_ok_def Let_def)
  have "sq_contents ?t = sq_contents s @ [x]"
    using assms(1) x l by (auto simp: sq_contents_def fetch_add_def read_at_def slots_snoc sq_ok_def Let_def list_update_append split: phase.split)
  moreover have "sq_ok n ?t"
    using assms by (simp add: sq_ok_def Let_def fetch_add_def read_at_def write_at_def mod_Suc_eq)
      (metis mod_Suc_eq mod_less)
  ultimately show ?thesis using n by (simp add: refines_fifo_def)
qed

lemma remove_swap_ok:
  assumes "sq_ok n s" "consumer s = Checked e" "swap_read e (shared s) = (x, q)"
  shows "refines_fifo n s Silent (s\<lparr>shared := q, consumer := Swapped e x\<rparr>)"
proof -
  have q: "x = queue (shared s) ! next_read_index (shared s)"
    "q = (shared s)\<lparr>queue := (queue (shared s))[next_read_index (shared s) := e]\<rparr>"
    using assms(3) by (simp_all add: swap_read_def)
  have "sq_contents (s\<lparr>shared := q, consumer := Swapped e x\<rparr>) = sq_contents s"
    using assms(1,2) slots_update_first [of "num_elements (shared s)" "queue (shared s)" "next_read_index (shared s)" e]
    by (simp add: sq_contents_def read_at_def q sq_ok_def Let_def)
  moreover have "sq_ok n (s\<lparr>shared := q, consumer := Swapped e x\<rparr>)"
    using assms(1,2) indices_apart [OF assms(1)] by (auto simp: sq_ok_def Let_def q read_at_def write_at_def split: phase.splits)
  ultimately show ?thesis by (simp add: refines_fifo_def)
qed

lemma remove_count_ok:
  assumes "sq_ok n s" "consumer s = Swapped e x"
  shows "refines_fifo n s (Removed x) (s\<lparr>shared := fetch_sub (shared s), consumer := Counted\<rparr>)"
proof -
  let ?t = "s\<lparr>shared := fetch_sub (shared s), consumer := Counted\<rparr>"
  obtain m where m: "num_elements (shared s) = Suc m" using assms by (cases "num_elements (shared s)") (simp_all add: sq_ok_def Let_def)
  have "sq_contents s = x # sq_contents ?t" using assms(2) m by (simp add: sq_contents_def read_at_def fetch_sub_def slots_cons)
  moreover have "sq_ok n ?t"
    using assms m by (auto simp: sq_ok_def Let_def fetch_sub_def read_at_def write_at_def split: phase.splits)
  ultimately show ?thesis by (simp add: refines_fifo_def)
qed

lemma index_step: "i < n \<Longrightarrow> (if i + 1 = n then 0 else i + 1) mod n = (i + 1) mod n \<and> (if i + 1 = n then 0 else i + 1) < (n :: nat)"
  by auto

lemma index_skip: "i < n \<Longrightarrow> k \<le> n \<Longrightarrow> (if i + k \<ge> n then i + k - n else i + k) mod n = (i + k) mod n \<and> (if i + k \<ge> n then i + k - n else i + k) < (n :: nat)"
  by (auto simp: le_mod_geq)

lemma insert_return_ok:
  assumes "sq_ok n s" "producer s = Counted"
  shows "refines_fifo n s Silent (s\<lparr>shared := next_write (shared s), producer := Idle\<rparr>)"
proof -
  have "sq_contents (s\<lparr>shared := next_write (shared s), producer := Idle\<rparr>) = sq_contents s"
    by (rule sq_contents_shared) (simp add: next_write_def Let_def read_at_def)
  moreover have "sq_ok n (s\<lparr>shared := next_write (shared s), producer := Idle\<rparr>)"
    using assms index_step [of "next_write_index (shared s)" n]
    by (auto simp: sq_ok_def Let_def next_write_def read_at_def write_at_def split: if_splits)
  ultimately show ?thesis by (simp add: refines_fifo_def)
qed

text \<open>A step of the consumer that only moves its index.\<close>

lemma consumer_return_ok:
  assumes "sq_ok n s" "\<not> calling (consumer s)"
    "queue q = queue (shared s)" "num_elements q = num_elements (shared s)" "next_write_index q = next_write_index (shared s)"
    "next_read_index q mod n = read_at s mod n" "next_read_index q < n"
  shows "refines_fifo n s Silent (s\<lparr>shared := q, consumer := Idle\<rparr>)"
proof -
  let ?t = "s\<lparr>shared := q, consumer := Idle\<rparr>"
  have l: "length (queue (shared s)) = n" using assms(1) by (simp add: sq_ok_def Let_def)
  have "sq_contents ?t = sq_contents s"
    using assms(2-6) l by (auto simp: sq_contents_def read_at_def Let_def split: phase.split intro!: slots_mod)
  moreover have "(read_at ?t + num_elements q) mod n = (read_at s + num_elements (shared s)) mod n"
    using assms(4,6) by (simp add: read_at_def) (metis mod_add_left_eq)
  ultimately show ?thesis
    using assms by (auto simp: refines_fifo_def sq_ok_def Let_def write_at_def split: phase.splits)
qed

lemma remove_return_ok: "sq_ok n s \<Longrightarrow> consumer s = Counted \<Longrightarrow> refines_fifo n s Silent (s\<lparr>shared := next_read (shared s), consumer := Idle\<rparr>)"
  using index_step [of "next_read_index (shared s)" n]
  by (intro consumer_return_ok) (simp_all add: next_read_def Let_def read_at_def sq_ok_def)

lemma clear_return_ok: "sq_ok n s \<Longrightarrow> consumer s = Dropped k \<Longrightarrow> refines_fifo n s Silent (s\<lparr>shared := skip_read k (shared s), consumer := Idle\<rparr>)"
  using index_skip [of "next_read_index (shared s)" n k]
  by (intro consumer_return_ok) (auto simp: skip_read_def Let_def read_at_def sq_ok_def split: if_splits)

lemma clear_exchange_ok:
  assumes "sq_ok n s" "consumer s = Idle" "exchange_0 (shared s) = (k, q)"
  shows "refines_fifo n s Cleared (s\<lparr>shared := q, consumer := Dropped k\<rparr>)"
  using assms by (auto simp: refines_fifo_def exchange_0_def sq_contents_def sq_ok_def Let_def read_at_def write_at_def split: phase.splits)

lemma sq_step_refines: "sq_step s e t \<Longrightarrow> sq_ok n s \<Longrightarrow> refines_fifo n s e t"
proof (induction rule: sq_step.induct)
  case (insert_full s)
  then show ?case by (simp add: refines_fifo_def is_full_def sq_ok_def Let_def)
next
  case (insert_load s x)
  then show ?case by (simp add: refines_fifo_def is_full_def sq_ok_def Let_def read_at_def write_at_def)
next
  case (remove_empty s)
  then show ?case by (simp add: refines_fifo_def is_empty_def flip: length_0_conv)
next
  case (remove_load s e)
  then have "sq_contents (s\<lparr>consumer := Checked e\<rparr>) = sq_contents s" by (simp add: sq_contents_def read_at_def)
  with remove_load show ?case by (simp add: refines_fifo_def is_empty_def sq_ok_def Let_def read_at_def write_at_def)
qed (auto intro: insert_swap_ok insert_count_ok insert_return_ok remove_swap_ok remove_count_ok remove_return_ok
    clear_exchange_ok clear_return_ok)

interpretation sq_runs: transition_system "\<lambda>s t. \<exists>e. sq_step s e t" "sq_ok n" for n
  by unfold_locales (auto dest: sq_step_refines simp: refines_fifo_def)

lemma sq_steps_reach: "sq_steps s es t \<Longrightarrow> (\<lambda>s t. \<exists>e. sq_step s e t)\<^sup>*\<^sup>* s t"
  by (induction rule: sq_steps.induct) (auto intro: rtranclp.rtrancl_into_rtrancl)

lemma fifo_run_snoc: "fifo_run n (es @ [e]) xs = Option.bind (fifo_run n es xs) (fifo n e)"
proof (induction es arbitrary: xs)
  case Nil
  then show ?case by (cases "fifo n e xs") simp_all
next
  case (Cons a es)
  then show ?case by (cases "fifo n a xs") simp_all
qed

lemma sq_start_ok: "0 < n \<Longrightarrow> sq_ok n (sq_start n p)"
  by (simp add: sq_ok_def Let_def sq_start_def SwapQueue_new_def read_at_def write_at_def)

lemma sq_steps_fifo: "sq_steps s es t \<Longrightarrow> sq_ok n s \<Longrightarrow> fifo_run n es (sq_contents s) = Some (sq_contents t) \<and> sq_ok n t"
proof (induction rule: sq_steps.induct)
  case (sq_snoc s es t e u)
  then show ?case using sq_step_refines [of t e u n] by (simp add: fifo_run_snoc refines_fifo_def)
qed simp

lemma sq_steps_trans: "sq_steps t fs u \<Longrightarrow> sq_steps s es t \<Longrightarrow> sq_steps s (es @ fs) u"
  by (induction rule: sq_steps.induct) (auto simp flip: append_assoc intro: sq_snoc)

lemma sq_step_first: "sq_step s e t \<Longrightarrow> sq_steps t fs u \<Longrightarrow> sq_steps s (e # fs) u"
  using sq_steps_trans [of t fs u s "[e]"] sq_snoc [OF sq_nil, of s e t] by simp

lemma sq_steps_4: "sq_step s a t \<Longrightarrow> sq_step t b u \<Longrightarrow> sq_step u c v \<Longrightarrow> sq_step v d w \<Longrightarrow> sq_steps s [a, b, c, d] w"
  by (intro sq_step_first [of s a t] sq_step_first [of t b u] sq_step_first [of u c v] sq_step_first [of v d w] sq_nil)

text \<open>A whole call is a sequence of the steps of its thread, and it exchanges objects without losing or copying one.\<close>

lemma Insert_steps:
  assumes "producer s = Idle" "Insert x (shared s) = (b, y, q)"
  shows "sq_steps s (if b then [Silent, Silent, Inserted x, Silent] else [InsertRefused]) (s\<lparr>shared := q\<rparr>)"
proof (cases "is_full (shared s)")
  case True
  then show ?thesis using assms sq_snoc [OF sq_nil insert_full] by (auto simp: Insert_def)
next
  case False
  obtain e q' where w: "swap_write x (shared s) = (e, q')" by fastforce
  let ?t = "s\<lparr>producer := Checked x\<rparr>" and ?u = "s\<lparr>shared := q', producer := Swapped x e\<rparr>"
    and ?v = "s\<lparr>shared := fetch_add q', producer := Counted\<rparr>"
  have "sq_step s Silent ?t" using assms(1) False by (rule insert_load)
  moreover have "sq_step ?t Silent ?u" using insert_swap [of ?t x e q'] w by simp
  moreover have "sq_step ?u (Inserted x) ?v" using insert_count [of ?u x e] by simp
  moreover have "sq_step ?v Silent (s\<lparr>shared := q\<rparr>)"
    using insert_return [of ?v] assms False w by (cases s) (auto simp: Insert_def)
  moreover have "b" using assms(2) False w by (simp add: Insert_def)
  ultimately show ?thesis using sq_steps_4 by fastforce
qed

lemma Remove_steps:
  assumes "consumer s = Idle" "Remove e (shared s) = (b, y, q)"
  shows "sq_steps s (if b then [Silent, Silent, Removed y, Silent] else [RemoveRefused]) (s\<lparr>shared := q\<rparr>)"
proof (cases "is_empty (shared s)")
  case True
  then show ?thesis using assms sq_snoc [OF sq_nil remove_empty] by (auto simp: Remove_def)
next
  case False
  obtain x q' where w: "swap_read e (shared s) = (x, q')" by fastforce
  let ?t = "s\<lparr>consumer := Checked e\<rparr>" and ?u = "s\<lparr>shared := q', consumer := Swapped e x\<rparr>"
    and ?v = "s\<lparr>shared := fetch_sub q', consumer := Counted\<rparr>"
  have "sq_step s Silent ?t" using assms(1) False by (rule remove_load)
  moreover have "sq_step ?t Silent ?u" using remove_swap [of ?t e x q'] w by simp
  moreover have "sq_step ?u (Removed x) ?v" using remove_count [of ?u e x] by simp
  moreover have "sq_step ?v Silent (s\<lparr>shared := q\<rparr>)"
    using remove_return [of ?v] assms False w by (cases s) (auto simp: Remove_def)
  moreover have "b \<and> y = x" using assms(2) False w by (simp add: Remove_def)
  ultimately show ?thesis using sq_steps_4 by fastforce
qed

lemma Clear_steps: "consumer s = Idle \<Longrightarrow> sq_steps s [Cleared, Silent] (s\<lparr>shared := SwapQueue_Clear (shared s)\<rparr>)"
proof -
  assume c: "consumer s = Idle"
  obtain k q where x: "exchange_0 (shared s) = (k, q)" by fastforce
  let ?t = "s\<lparr>shared := q, consumer := Dropped k\<rparr>"
  have "sq_step ?t Silent (s\<lparr>shared := SwapQueue_Clear (shared s)\<rparr>)"
    using clear_return [of ?t k] c x by (cases s) (simp add: SwapQueue_Clear_def)
  then show ?thesis using clear_exchange [OF c x] by (auto intro: sq_step_first sq_nil)
qed

lemma swap_conserves:
  assumes "sq_ok n s"
  shows "Insert x (shared s) = (b, y, q) \<Longrightarrow> add_mset y (mset (queue q)) = add_mset x (mset (queue (shared s)))"
    "Remove x (shared s) = (b, y, q) \<Longrightarrow> add_mset y (mset (queue q)) = add_mset x (mset (queue (shared s)))"
  using assms
  by (auto simp: Insert_def Remove_def swap_write_def swap_read_def next_write_def next_read_def fetch_add_def fetch_sub_def
      mset_update Let_def sq_ok_def split: if_splits)

section \<open>Properties\<close>

text \<open>
  C8: However the steps of the producer and of the consumer are interleaved, the queue behaves like one bounded queue on which the
  calls take effect one at a time: objects come out in the order in which they went in, each once, \<^verbatim>\<open>Insert\<close> fails only if the
  queue is full and \<^verbatim>\<open>Remove\<close> only if it is empty; the two threads never touch the same slot at the same time.
\<close>

theorem swap_queue_linearizable:
  assumes "0 < n" "sq_steps (sq_start n prototype) es s"
  shows "fifo_run n es [] = Some (sq_contents s) \<and>
    (calling (producer s) \<and> calling (consumer s) \<longrightarrow> next_write_index (shared s) \<noteq> next_read_index (shared s)) \<and>
    next_write_index (shared s) < n \<and> next_read_index (shared s) < n \<and> SizeAtLeast (shared s) \<le> n"
proof (intro conjI)
  have "sq_contents (sq_start n prototype) = []" by (simp add: sq_contents_def sq_start_def SwapQueue_new_def)
  then show "fifo_run n es [] = Some (sq_contents s)" using sq_steps_fifo [OF assms(2) sq_start_ok [OF assms(1)]] by simp
  have ok: "sq_ok n s" using sq_runs.invar_reach [OF sq_steps_reach [OF assms(2)] sq_start_ok [OF assms(1)]] .
  show "calling (producer s) \<and> calling (consumer s) \<longrightarrow> next_write_index (shared s) \<noteq> next_read_index (shared s)"
    using indices_apart [OF ok] by blast
  show "next_write_index (shared s) < n" "next_read_index (shared s) < n" "SizeAtLeast (shared s) \<le> n"
    using ok by (simp_all add: sq_ok_def Let_def SizeAtLeast_def)
qed

theorem swap_queue_linearizable_witness:
  "\<exists>s. sq_steps (sq_start 1 (0 :: int)) [Silent, Silent, Inserted 7, Silent, Silent, Silent, InsertRefused, Removed 7] s
     \<and> fifo_run 1 [Silent, Silent, Inserted 7, Silent, Silent, Silent, InsertRefused, Removed (7 :: int)] [] = Some (sq_contents s)"
proof -
  let ?s = "sq_start 1 (0 :: int)" and ?q = "\<lambda>x. \<lparr>queue = [x :: int], num_elements = 1, next_write_index = 0, next_read_index = 0\<rparr>"
  let ?u = "\<lparr>shared = ?q 7, producer = Idle, consumer = Idle\<rparr>" and ?v = "\<lparr>shared = ?q 7, producer = Idle, consumer = Checked 5\<rparr>"
  let ?w = "\<lparr>shared = ?q 5, producer = Idle, consumer = Swapped 5 7\<rparr>"
  let ?z = "\<lparr>shared = fetch_sub (?q 5), producer = Idle, consumer = Counted\<rparr>"
  have "?s\<lparr>shared := ?q 7\<rparr> = ?u" by (simp add: sq_start_def)
  then have a: "sq_steps ?s [Silent, Silent, Inserted 7, Silent] ?u"
    using Insert_steps [of ?s 7 True 0 "?q 7"]
    by (simp add: sq_start_def Insert_def is_full_def SwapQueue_new_def swap_write_def next_write_def fetch_add_def)
  have s: "sq_step ?u Silent ?v" "sq_step ?v Silent ?w" "sq_step ?w InsertRefused ?w" "sq_step ?w (Removed 7) ?z"
    using remove_load [of ?u 5] remove_swap [of ?v 5 7 "?q 5"] insert_full [of ?w] remove_count [of ?w 5 7]
    by (simp_all add: is_empty_def is_full_def swap_read_def)
  have st: "sq_steps ?s [Silent, Silent, Inserted 7, Silent, Silent, Silent, InsertRefused, Removed 7] ?z"
    using sq_steps_trans [OF sq_steps_4 [OF s] a] by simp
  show ?thesis by (intro exI conjI, rule st, rule conjunct1, rule swap_queue_linearizable [OF zero_less_one st])
qed

end
