(* ===== verification/Moving_Stats.thy ===== *)
theory Moving_Stats
  imports Units "HOL-Library.Multiset"
begin

text \<open>
  Statistics over a moving window, from \<^verbatim>\<open>third/webrtc/include/rtc_base/numerics/\<close>: the maximum of the samples of a span of time
  (\<^verbatim>\<open>moving_max_counter.h\<close>), a percentile of a collection of observations (\<^verbatim>\<open>percentile_filter.h\<close>) and the median of the last
  samples (\<^verbatim>\<open>moving_median_filter.h\<close>). Deques and lists are lists, with the back at the end; a \<^verbatim>\<open>std::multiset\<close> is the list of
  its elements in their order and an iterator into it a position, which insertion and erasure of other elements move so that it stays
  at its element.
\<close>

section \<open>MovingMaxCounter\<close>

record 'a moving_max =
  window_length_ms :: int
  max_samples :: "(int \<times> 'a) list"

definition MovingMaxCounter_new :: "int \<Rightarrow> 'a moving_max" where
  "MovingMaxCounter_new w = \<lparr>window_length_ms = w, max_samples = []\<rparr>"

definition RollWindow :: "int \<Rightarrow> 'a moving_max \<Rightarrow> 'a moving_max res" where
  "RollWindow new_time_ms c =
     rbind (i64 (new_time_ms - window_length_ms c)) (\<lambda>window_begin_ms.
     Inr (c\<lparr>max_samples := dropWhile (\<lambda>p. fst p < window_begin_ms) (max_samples c)\<rparr>))"

definition pop_back_while :: "('b \<Rightarrow> bool) \<Rightarrow> 'b list \<Rightarrow> 'b list" where
  "pop_back_while P xs = rev (dropWhile P (rev xs))"

definition MovingMax_Add :: "'a :: linorder \<Rightarrow> int \<Rightarrow> 'a moving_max \<Rightarrow> 'a moving_max res" where
  "MovingMax_Add sample current_time_ms c =
     rbind (RollWindow current_time_ms c) (\<lambda>c.
     let xs = pop_back_while (\<lambda>p. snd p \<le> sample) (max_samples c) in
     Inr (c\<lparr>max_samples :=
       if xs = [] \<or> fst (last xs) < current_time_ms then xs @ [(current_time_ms, sample)] else xs\<rparr>))"

definition MovingMax_Max :: "int \<Rightarrow> 'a moving_max \<Rightarrow> ('a option \<times> 'a moving_max) res" where
  "MovingMax_Max current_time_ms c =
     rbind (RollWindow current_time_ms c) (\<lambda>c.
     Inr (case max_samples c of [] \<Rightarrow> None | p # _ \<Rightarrow> Some (snd p), c))"

definition MovingMax_Reset :: "'a moving_max \<Rightarrow> 'a moving_max" where
  "MovingMax_Reset c = c\<lparr>max_samples := []\<rparr>"

section \<open>PercentileFilter\<close>

text \<open>
  The percentile is a \<^verbatim>\<open>float\<close>, that is \<open>m / 2\<^sup>k\<close> with a mantissa of at most 24 bits. The number of elements is converted to a
  \<^verbatim>\<open>float\<close> before the product is taken and rounded; the result is truncated.
\<close>

record 'a percentile_filter =
  percentile :: "int \<times> nat"
  pset :: "'a list"
  percentile_it :: nat
  percentile_index :: int

definition PercentileFilter_new :: "int \<times> nat \<Rightarrow> 'a percentile_filter res" where
  "PercentileFilter_new p =
     (if 0 \<le> fst p \<and> fst p \<le> 2 ^ snd p
      then Inr \<lparr>percentile = p, pset = [], percentile_it = 0, percentile_index = 0\<rparr> else Inl Fatal)"

definition float_index :: "int \<times> nat \<Rightarrow> nat \<Rightarrow> int" where
  "float_index p n = int (round_bits 24 (nat (fst p) * round_bits 24 n) div 2 ^ snd p)"

definition UpdatePercentileIterator :: "'a percentile_filter \<Rightarrow> 'a percentile_filter res" where
  "UpdatePercentileIterator f =
     (if pset f = [] then Inr f
      else let index = float_index (percentile f) (length (pset f) - 1);
               pos = int (percentile_it f) + (index - percentile_index f) in
           if 0 \<le> pos \<and> pos \<le> int (length (pset f))
           then Inr (f\<lparr>percentile_it := nat pos, percentile_index := index\<rparr>) else Inl (UB BadRead))"

definition deref_it :: "'a list \<Rightarrow> nat \<Rightarrow> 'a res" where
  "deref_it xs i = (if i < length xs then Inr (xs ! i) else Inl (UB BadRead))"

definition upper_bound :: "'a :: linorder \<Rightarrow> 'a list \<Rightarrow> nat" where
  "upper_bound v xs = length (takeWhile (\<lambda>x. x \<le> v) xs)"

definition lower_bound :: "'a :: linorder \<Rightarrow> 'a list \<Rightarrow> nat" where
  "lower_bound v xs = length (takeWhile (\<lambda>x. x < v) xs)"

definition insert_at :: "nat \<Rightarrow> 'a \<Rightarrow> 'a list \<Rightarrow> 'a list" where
  "insert_at i v xs = take i xs @ v # drop i xs"

definition erase_at :: "nat \<Rightarrow> 'a list \<Rightarrow> 'a list" where
  "erase_at i xs = take i xs @ drop (Suc i) xs"

definition Percentile_Insert :: "'a :: linorder \<Rightarrow> 'a percentile_filter \<Rightarrow> 'a percentile_filter res" where
  "Percentile_Insert v f =
     (let i = upper_bound v (pset f); it = percentile_it f;
          g = f\<lparr>pset := insert_at i v (pset f), percentile_it := if i \<le> it then it + 1 else it\<rparr> in
      rbind (if length (pset g) = 1 then Inr (g\<lparr>percentile_it := 0, percentile_index := 0\<rparr>)
             else rbind (deref_it (pset g) (percentile_it g)) (\<lambda>x.
                  Inr (if v < x then g\<lparr>percentile_index := percentile_index g + 1\<rparr> else g)))
        UpdatePercentileIterator)"

definition Percentile_Erase :: "'a :: linorder \<Rightarrow> 'a percentile_filter \<Rightarrow> (bool \<times> 'a percentile_filter) res" where
  "Percentile_Erase v f =
     (let i = lower_bound v (pset f); it = percentile_it f; xs = erase_at i (pset f) in
      if i = length (pset f) \<or> pset f ! i \<noteq> v then Inr (False, f)
      else rbind
        (rbind (if i = it then Inr (f\<lparr>pset := xs, percentile_it := i\<rparr>)
                else let g = f\<lparr>pset := xs, percentile_it := if i < it then it - 1 else it\<rparr> in
                     rbind (deref_it (pset g) (percentile_it g)) (\<lambda>x.
                     Inr (if v \<le> x then g\<lparr>percentile_index := percentile_index g - 1\<rparr> else g)))
          UpdatePercentileIterator) (\<lambda>g. Inr (True, g)))"

definition GetPercentileValue :: "'a :: zero percentile_filter \<Rightarrow> 'a res" where
  "GetPercentileValue f = (if pset f = [] then Inr 0 else deref_it (pset f) (percentile_it f))"

definition Percentile_Reset :: "'a percentile_filter \<Rightarrow> 'a percentile_filter" where
  "Percentile_Reset f = f\<lparr>pset := [], percentile_it := 0, percentile_index := 0\<rparr>"

section \<open>MovingMedianFilter\<close>

record 'a moving_median =
  percentile_filter :: "'a percentile_filter"
  median_samples :: "'a list"
  samples_stored :: nat
  window_size :: nat

definition MovingMedianFilter_new :: "nat \<Rightarrow> 'a moving_median res" where
  "MovingMedianFilter_new n =
     rbind (PercentileFilter_new (1, 1)) (\<lambda>f.
     if n > 0 then Inr \<lparr>percentile_filter = f, median_samples = [], samples_stored = 0, window_size = n\<rparr> else Inl Fatal)"

definition Median_Insert :: "'a :: linorder \<Rightarrow> 'a moving_median \<Rightarrow> 'a moving_median res" where
  "Median_Insert v d =
     rbind (Percentile_Insert v (percentile_filter d)) (\<lambda>f.
     let d = d\<lparr>percentile_filter := f, median_samples := median_samples d @ [v], samples_stored := samples_stored d + 1\<rparr> in
     if samples_stored d > window_size d
     then (case median_samples d of
             [] \<Rightarrow> Inl (UB EmptyFront)
           | x # xs \<Rightarrow> rbind (Percentile_Erase x (percentile_filter d)) (\<lambda>(_, f).
               Inr (d\<lparr>percentile_filter := f, median_samples := xs, samples_stored := samples_stored d - 1\<rparr>)))
     else Inr d)"

definition GetFilteredValue :: "'a :: zero moving_median \<Rightarrow> 'a res" where
  "GetFilteredValue d = GetPercentileValue (percentile_filter d)"

definition Median_Reset :: "'a moving_median \<Rightarrow> 'a moving_median" where
  "Median_Reset d = d\<lparr>percentile_filter := Percentile_Reset (percentile_filter d), median_samples := [], samples_stored := 0\<rparr>"

definition GetNumberOfSamplesStored :: "'a moving_median \<Rightarrow> nat" where
  "GetNumberOfSamplesStored d = samples_stored d"

section \<open>The maximum of a window\<close>

datatype 'a max_op = OpAdd 'a int | OpMax int | OpMaxReset

fun max_run :: "'a :: linorder max_op list \<Rightarrow> 'a moving_max \<Rightarrow> 'a option list res" where
  "max_run [] c = Inr []"
| "max_run (OpAdd x t # ops) c = rbind (MovingMax_Add x t c) (max_run ops)"
| "max_run (OpMax t # ops) c =
     rbind (MovingMax_Max t c) (\<lambda>(m, c'). rbind (max_run ops c') (\<lambda>ms. Inr (m # ms)))"
| "max_run (OpMaxReset # ops) c = max_run ops (MovingMax_Reset c)"

text \<open>What the calls should return: the maximum of all samples added since the last reset that lie in the window.\<close>

definition window_max :: "int \<Rightarrow> int \<Rightarrow> (int \<times> 'a :: linorder) list \<Rightarrow> 'a option" where
  "window_max w t h =
     (case map snd (filter (\<lambda>p. t - w \<le> fst p) h) of [] \<Rightarrow> None | x # xs \<Rightarrow> Some (fold max xs x))"

fun max_spec :: "int \<Rightarrow> 'a :: linorder max_op list \<Rightarrow> (int \<times> 'a) list \<Rightarrow> 'a option list" where
  "max_spec w [] h = []"
| "max_spec w (OpAdd x t # ops) h = max_spec w ops (h @ [(t, x)])"
| "max_spec w (OpMax t # ops) h = window_max w t h # max_spec w ops h"
| "max_spec w (OpMaxReset # ops) h = max_spec w ops []"

text \<open>The time never decreases, and the begin of the window is an \<^verbatim>\<open>int64_t\<close>.\<close>

fun times_ok :: "int \<Rightarrow> int \<Rightarrow> 'a max_op list \<Rightarrow> bool" where
  "times_ok w now [] = True"
| "times_ok w now (OpAdd x t # ops) \<longleftrightarrow> now \<le> t \<and> int64_min \<le> t - w \<and> t - w \<le> int64_max \<and> times_ok w t ops"
| "times_ok w now (OpMax t # ops) \<longleftrightarrow> now \<le> t \<and> int64_min \<le> t - w \<and> t - w \<le> int64_max \<and> times_ok w t ops"
| "times_ok w now (OpMaxReset # ops) = times_ok w now ops"

definition staircase :: "(int \<times> 'a :: linorder) list \<Rightarrow> bool" where
  "staircase = sorted_wrt (\<lambda>p q. fst p < fst q \<and> snd q < snd p)"

text \<open>Each sample of the history that can still count is dominated by a later one that is kept.\<close>

definition covers :: "(int \<times> 'a :: linorder) list \<Rightarrow> int \<Rightarrow> (int \<times> 'a) list \<Rightarrow> bool" where
  "covers xs b h \<longleftrightarrow> staircase xs \<and> set xs \<subseteq> set h \<and>
     (\<forall>p \<in> set h. b \<le> fst p \<longrightarrow> (\<exists>q \<in> set xs. fst p \<le> fst q \<and> snd p \<le> snd q))"

lemma staircase_Nil [simp]: "staircase []"
  by (simp add: staircase_def)

lemma staircase_roll: "staircase xs \<Longrightarrow> dropWhile (\<lambda>p. fst p < b) xs = filter (\<lambda>p. b \<le> fst p) xs"
  unfolding staircase_def by (induction xs) (auto simp: not_less intro!: filter_id_conv [THEN iffD2, symmetric] dest: order_le_less_trans)

lemma staircase_pop: "staircase xs \<Longrightarrow> pop_back_while (\<lambda>p. snd p \<le> x) xs = filter (\<lambda>p. x < snd p) xs"
  unfolding staircase_def pop_back_while_def
proof (induction xs rule: rev_induct)
  case (snoc p xs)
  then have s: "sorted_wrt (\<lambda>p q. fst p < fst q \<and> snd q < snd p) xs" "\<forall>q \<in> set xs. snd p < snd q"
    by (auto simp: sorted_wrt_append)
  show ?case
  proof (cases "snd p \<le> x")
    case True
    then show ?thesis using snoc.IH [OF s(1)] by (simp add: not_less)
  next
    case False
    then have "filter (\<lambda>p. x < snd p) xs = xs" using s(2) by (intro filter_True) (meson order_less_trans not_le)
    then show ?thesis using False by (simp add: not_le)
  qed
qed simp

lemma covers_roll: "covers xs b h \<Longrightarrow> b \<le> b' \<Longrightarrow> covers (dropWhile (\<lambda>p. fst p < b') xs) b' h"
proof -
  assume c: "covers xs b h" "b \<le> b'"
  then have e: "dropWhile (\<lambda>p. fst p < b') xs = filter (\<lambda>p. b' \<le> fst p) xs" by (simp add: covers_def staircase_roll)
  show ?thesis unfolding e covers_def
  proof (intro conjI ballI impI)
    show "staircase (filter (\<lambda>p. b' \<le> fst p) xs)" using c(1) by (simp add: covers_def staircase_def sorted_wrt_filter)
    show "set (filter (\<lambda>p. b' \<le> fst p) xs) \<subseteq> set h" using c(1) by (auto simp: covers_def)
    fix p assume p: "p \<in> set h" "b' \<le> fst p"
    then obtain q where "q \<in> set xs" "fst p \<le> fst q" "snd p \<le> snd q" using c by (fastforce simp: covers_def)
    with p(2) show "\<exists>q \<in> set (filter (\<lambda>p. b' \<le> fst p) xs). fst p \<le> fst q \<and> snd p \<le> snd q"
      by (intro bexI [of _ q]) auto
  qed
qed

lemma staircase_last: "staircase ys \<Longrightarrow> q \<in> set ys \<Longrightarrow> fst q \<le> fst (last ys)"
  by (cases ys rule: rev_cases) (auto simp: staircase_def sorted_wrt_append)

lemma covers_add:
  assumes c: "covers xs b h" and t: "\<forall>p \<in> set h. fst p \<le> t"
    and z: "zs = (let ys = pop_back_while (\<lambda>p. snd p \<le> x) xs in if ys = [] \<or> fst (last ys) < t then ys @ [(t, x)] else ys)"
  shows "covers zs b (h @ [(t, x)])"
proof -
  let ?ys = "filter (\<lambda>p. x < snd p) xs"
  have s: "staircase xs" "set xs \<subseteq> set h" using c by (simp_all add: covers_def)
  have z: "zs = (if ?ys = [] \<or> fst (last ?ys) < t then ?ys @ [(t, x)] else ?ys)" using z by (simp add: staircase_pop [OF s(1)] Let_def)
  have ys: "staircase ?ys" using s(1) by (simp add: staircase_def sorted_wrt_filter)
  have new: "\<exists>q \<in> set zs. t \<le> fst q \<and> x \<le> snd q"
  proof (cases "?ys = [] \<or> fst (last ?ys) < t")
    case False
    then have "last ?ys \<in> set ?ys" by (intro last_in_set) simp
    then show ?thesis using False z by (intro bexI [of _ "last ?ys"]) auto
  qed (simp add: z)
  show ?thesis unfolding covers_def
  proof (intro conjI ballI impI)
    show "staircase zs"
    proof (cases "?ys = [] \<or> fst (last ?ys) < t")
      case True
      then have "fst q < t" if "q \<in> set ?ys" for q using staircase_last [OF ys that] that by (cases "?ys = []") (simp, linarith)
      then show ?thesis using ys True by (auto simp: z staircase_def sorted_wrt_append)
    qed (use ys z in simp)
    show "set zs \<subseteq> set (h @ [(t, x)])" using s(2) by (auto simp: z)
    fix p assume p: "p \<in> set (h @ [(t, x)])" "b \<le> fst p"
    show "\<exists>q \<in> set zs. fst p \<le> fst q \<and> snd p \<le> snd q"
    proof (cases "fst p \<le> t \<and> snd p \<le> x")
      case True
      then show ?thesis using new by (meson order_trans)
    next
      case False
      then have "p \<in> set h" using p(1) by auto
      then obtain q where q: "q \<in> set xs" "fst p \<le> fst q" "snd p \<le> snd q" using c p(2) by (auto simp: covers_def)
      then have "x < snd q" using False t \<open>p \<in> set h\<close> by auto
      then show ?thesis using q by (intro bexI [of _ q]) (auto simp: z)
    qed
  qed
qed

lemma covers_max:
  assumes c: "covers xs (t - w) h" and b: "\<forall>p \<in> set xs. t - w \<le> fst p"
  shows "window_max w t h = (case xs of [] \<Rightarrow> None | p # _ \<Rightarrow> Some (snd p))"
proof (cases xs)
  case Nil
  then have "filter (\<lambda>p. t - w \<le> fst p) h = []" using c by (auto simp: covers_def filter_empty_conv)
  then show ?thesis using Nil by (simp add: window_max_def)
next
  case (Cons p ps)
  let ?W = "map snd (filter (\<lambda>p. t - w \<le> fst p) h)"
  have p: "snd p \<in> set ?W" using c b Cons by (auto simp: covers_def)
  have "y \<le> snd p" if y: "y \<in> set ?W" for y
  proof -
    obtain q where q: "q \<in> set h" "t - w \<le> fst q" "y = snd q" using y by auto
    then obtain r where "r \<in> set xs" "snd q \<le> snd r" using c by (auto simp: covers_def)
    moreover from this(1) have "snd r \<le> snd p" using c Cons by (auto simp: covers_def staircase_def)
    ultimately show ?thesis using q(3) by simp
  qed
  then have m: "Max (set ?W) = snd p" using p by (intro Max_eqI) simp_all
  obtain x ys where xs: "?W = x # ys" using p by (cases ?W) auto
  show ?thesis using m Cons unfolding window_max_def xs Max.set_eq_fold by simp
qed

lemma RollWindow_ok: "int64_min \<le> t - window_length_ms c \<Longrightarrow> t - window_length_ms c \<le> int64_max \<Longrightarrow>
    RollWindow t c = Inr (c\<lparr>max_samples := dropWhile (\<lambda>p. fst p < t - window_length_ms c) (max_samples c)\<rparr>)"
  by (simp add: RollWindow_def i64_def)

lemma max_run_spec:
  assumes "covers (max_samples c) (now - w) h" "\<forall>p \<in> set h. fst p \<le> now" "window_length_ms c = w" "times_ok w now ops"
  shows "max_run ops c = Inr (max_spec w ops h)"
  using assms
proof (induction ops arbitrary: c now h)
  case (Cons op ops)
  show ?case
  proof (cases op)
    case (OpAdd x t)
    then have t: "now \<le> t" "int64_min \<le> t - w" "t - w \<le> int64_max" "times_ok w t ops" using Cons.prems(4) by simp_all
    have r: "covers (dropWhile (\<lambda>p. fst p < t - w) (max_samples c)) (t - w) h" using covers_roll [OF Cons.prems(1), of "t - w"] t(1) by simp
    have h: "\<forall>p \<in> set h. fst p \<le> t" using Cons.prems(2) t(1) by auto
    obtain c' where a: "MovingMax_Add x t c = Inr c'" "window_length_ms c' = w" "covers (max_samples c') (t - w) (h @ [(t, x)])"
      using covers_add [OF r h refl, of x] t Cons.prems(3) by (simp add: MovingMax_Add_def RollWindow_ok Let_def cong: if_cong)
    then show ?thesis using Cons.IH [OF a(3) _ a(2) t(4)] h OpAdd by simp
  next
    case (OpMax t)
    then have t: "now \<le> t" "int64_min \<le> t - w" "t - w \<le> int64_max" "times_ok w t ops" using Cons.prems(4) by simp_all
    have r: "covers (dropWhile (\<lambda>p. fst p < t - w) (max_samples c)) (t - w) h" using covers_roll [OF Cons.prems(1), of "t - w"] t(1) by simp
    have "\<forall>p \<in> set (dropWhile (\<lambda>p. fst p < t - w) (max_samples c)). t - w \<le> fst p"
      using Cons.prems(1) by (simp add: covers_def staircase_roll)
    note covers_max [OF r this]
    moreover have "\<forall>p \<in> set h. fst p \<le> t" using Cons.prems(2) t(1) by auto
    ultimately show ?thesis using Cons.IH [of "c\<lparr>max_samples := dropWhile (\<lambda>p. fst p < t - w) (max_samples c)\<rparr>" t h] r t Cons.prems(3) OpMax
      by (simp add: MovingMax_Max_def RollWindow_ok)
  next
    case OpMaxReset
    then show ?thesis using Cons.IH [of "MovingMax_Reset c" now "[]"] Cons.prems by (simp add: MovingMax_Reset_def covers_def)
  qed
qed simp

text \<open>
  C26: \<^verbatim>\<open>Max\<close> of a \<^verbatim>\<open>MovingMaxCounter\<close> returns the maximum of all the samples added in the window that ends at the given time, and
  nothing if there was none, although only a decreasing subsequence of them is kept.
\<close>

theorem moving_maximum:
  assumes "times_ok w now ops"
  shows "max_run ops (MovingMaxCounter_new w) = Inr (max_spec w ops [])"
  using assms by (intro max_run_spec) (simp_all add: MovingMaxCounter_new_def covers_def)

theorem moving_maximum_witness:
  "max_run [OpAdd (5 :: int) 10, OpAdd 9 12, OpAdd 7 15, OpMax 20, OpMax 24, OpMax 90] (MovingMaxCounter_new 10) = Inr [Some 9, Some 7, None]"
  using moving_maximum [of 10 0 "[OpAdd (5 :: int) 10, OpAdd 9 12, OpAdd 7 15, OpMax 20, OpMax 24, OpMax 90]"]
  by (simp add: window_max_def int64_min_def int64_max_def)

section \<open>Rounding\<close>

lemma low_bits_spec:
  assumes "2 ^ p \<le> m" "1 \<le> p"
  shows "2 ^ (p - 1) \<le> m div 2 ^ low_bits p m"
  using assms
proof (induction m rule: less_induct)
  case (less m)
  have l: "low_bits p m = Suc (low_bits p (m div 2))" using less.prems(1) by (subst low_bits.simps) simp
  have "0 < m" using less.prems(1) by (metis gr0I not_le zero_less_numeral zero_less_power)
  show ?case
  proof (cases "2 ^ p \<le> m div 2")
    case True
    then show ?thesis using less.IH [of "m div 2"] \<open>0 < m\<close> less.prems(2) by (simp add: l div_mult2_eq)
  next
    case False
    then have "low_bits p (m div 2) = 0" by (subst low_bits.simps) simp
    moreover have "(2 :: nat) ^ p = 2 * 2 ^ (p - 1)" using less.prems(2) by (cases p) simp_all
    ultimately show ?thesis using less.prems(1) by (simp add: l)
  qed
qed

text \<open>A number with few enough significant bits stays an upper bound.\<close>

lemma round_bits_le:
  assumes "m \<le> 2 ^ j * n" "n < 2 ^ p" "1 \<le> p"
  shows "round_bits p m \<le> 2 ^ j * n"
proof (cases "m < 2 ^ p")
  case True
  then show ?thesis using assms(1) by (simp add: round_bits_exact)
next
  case False
  define k where "k = low_bits p m"
  define q where "q = m div 2 ^ k"
  have q: "2 ^ (p - 1) \<le> q" using low_bits_spec [of p m] False assms(3) by (simp add: q_def k_def)
  have m: "m = q * 2 ^ k + m mod 2 ^ k" unfolding q_def by (rule div_mult_mod_eq [symmetric])
  have "(2 :: nat) ^ (p - 1 + k) \<le> q * 2 ^ k" using q by (simp add: power_add)
  also have "\<dots> \<le> m" using m by linarith
  also have "m < 2 ^ (j + p)" using assms(1,2) by (simp add: power_add) (meson le_less_trans mult_less_cancel1 zero_less_numeral zero_less_power)
  finally have "p - 1 + k < j + p" by (rule power_less_imp_less_exp [rotated]) simp
  then have "k \<le> j" using assms(3) by simp
  then have "(2 :: nat) ^ j = 2 ^ k * 2 ^ (j - k)" by (simp flip: power_add)
  then obtain N where N: "2 ^ j * n = 2 ^ k * N" by (metis mult.assoc)
  have r: "round_bits p m = (if 2 * (m mod 2 ^ k) > 2 ^ k \<or> 2 * (m mod 2 ^ k) = 2 ^ k \<and> odd q then q + 1 else q) * 2 ^ k"
    by (simp add: round_bits_def Let_def q_def k_def)
  show ?thesis
  proof (cases "m mod 2 ^ k = 0")
    case True
    then show ?thesis using assms(1) m r by simp
  next
    case False
    then have "q * 2 ^ k < N * 2 ^ k" using assms(1) m N by (metis add_less_same_cancel1 less_le_trans less_add_same_cancel1 mult.commute neq0_conv)
    then have "q + 1 \<le> N" by simp
    then show ?thesis unfolding r N by (auto simp: mult.commute)
  qed
qed

definition unit_fraction :: "int \<times> nat \<Rightarrow> bool" where
  "unit_fraction p \<longleftrightarrow> 0 \<le> fst p \<and> fst p \<le> 2 ^ snd p"

lemma float_index_range:
  assumes "unit_fraction p" "n < 2 ^ 24"
  shows "0 \<le> float_index p n" "float_index p n \<le> int n"
proof -
  have "nat (fst p) \<le> 2 ^ snd p" using assms(1) by (simp add: unit_fraction_def nat_le_iff)
  then have "nat (fst p) * n \<le> 2 ^ snd p * n" by (rule mult_right_mono) simp
  then have "round_bits 24 (nat (fst p) * n) \<le> n * 2 ^ snd p" using round_bits_le [of _ "snd p" n 24] assms(2) by (simp add: mult.commute)
  then have "round_bits 24 (nat (fst p) * n) div 2 ^ snd p \<le> n" using div_le_mono [of _ "n * 2 ^ snd p" "2 ^ snd p"] by simp
  then show "float_index p n \<le> int n" using assms(2) by (simp add: float_index_def round_bits_exact)
qed (simp add: float_index_def)

lemma float_index_half: "n < 2 ^ 24 \<Longrightarrow> float_index (1, 1) n = int (n div 2)"
  by (simp add: float_index_def round_bits_exact)

text \<open>Above this bound the conversion to \<^verbatim>\<open>float\<close> may round up, and the maximum (percentile 1) is looked for past the last element.\<close>

lemma float_index_overrun: "float_index (1, 0) (2 ^ 24 + 3) = int (2 ^ 24 + 3) + 1"
  by (simp add: float_index_def round_bits_def Let_def low_bits.simps [of _ 16777219] low_bits.simps [of _ 8388609]
      low_bits.simps [of _ 16777220] low_bits.simps [of _ 8388610])

section \<open>Positions in a sorted list\<close>

lemma takeWhile_stop:
  assumes "\<And>i j. i \<le> j \<Longrightarrow> j < length xs \<Longrightarrow> P (xs ! j) \<Longrightarrow> P (xs ! i)" "k < length xs"
  shows "length (takeWhile P xs) \<le> k \<longleftrightarrow> \<not> P (xs ! k)"
proof
  assume le: "length (takeWhile P xs) \<le> k"
  then have "\<not> P (xs ! length (takeWhile P xs))" using assms(2) by (intro nth_length_takeWhile) simp
  then show "\<not> P (xs ! k)" using assms(1) [OF le assms(2)] by blast
next
  assume "\<not> P (xs ! k)"
  then show "length (takeWhile P xs) \<le> k" by (metis nth_mem set_takeWhileD takeWhile_nth not_le)
qed

lemma upper_bound_le: "sorted xs \<Longrightarrow> k < length xs \<Longrightarrow> upper_bound v xs \<le> k \<longleftrightarrow> v < xs ! k"
  unfolding upper_bound_def by (subst takeWhile_stop) (auto simp: not_le dest: sorted_nth_mono intro: order_trans)

lemma lower_bound_le: "sorted xs \<Longrightarrow> k < length xs \<Longrightarrow> lower_bound v xs \<le> k \<longleftrightarrow> v \<le> xs ! k"
  unfolding lower_bound_def by (subst takeWhile_stop) (auto simp: not_less dest: sorted_nth_mono intro: order_le_less_trans)

lemma bounds_length: "upper_bound v xs \<le> length xs" "lower_bound v xs \<le> length xs"
  by (simp_all add: upper_bound_def lower_bound_def length_takeWhile_le)

lemma length_insert_at [simp]: "i \<le> length xs \<Longrightarrow> length (insert_at i v xs) = Suc (length xs)"
  by (simp add: insert_at_def)

lemma length_erase_at [simp]: "i < length xs \<Longrightarrow> length (erase_at i xs) = length xs - 1"
  by (simp add: erase_at_def)

lemma nth_insert_at: "i \<le> length xs \<Longrightarrow> insert_at i v xs ! k = (if k < i then xs ! k else if k = i then v else xs ! (k - 1))"
  by (auto simp: insert_at_def nth_append min_def nth_Cons')

lemma nth_erase_at: "i < length xs \<Longrightarrow> erase_at i xs ! k = (if k < i then xs ! k else xs ! Suc k)"
  by (auto simp: erase_at_def nth_append min_def)

lemma insert_at_sort: "insert_at (upper_bound v (sort vs)) v (sort vs) = sort (vs @ [v])"
proof (rule sym, rule properties_for_sort)
  let ?i = "upper_bound v (sort vs)"
  have "mset (take ?i (sort vs)) + mset (drop ?i (sort vs)) = mset vs" by (simp flip: mset_append)
  then show "mset (insert_at ?i v (sort vs)) = mset (vs @ [v])" by (simp add: insert_at_def)
  have "\<forall>x \<in> set (take ?i (sort vs)). x \<le> v"
    by (auto simp: upper_bound_def simp flip: takeWhile_eq_take dest: set_takeWhileD)
  moreover have "\<forall>x \<in> set (drop ?i (sort vs)). v < x"
  proof
    fix x assume "x \<in> set (drop ?i (sort vs))"
    then obtain k where "k < length (drop ?i (sort vs))" "x = sort vs ! (?i + k)" by (auto simp: in_set_conv_nth)
    then show "v < x" using upper_bound_le [of "sort vs" "?i + k" v] by simp
  qed
  ultimately show "sorted (insert_at ?i v (sort vs))"
    unfolding insert_at_def sorted_append sorted_simps set_simps using order_trans less_imp_le by (auto simp: sorted_wrt_take sorted_wrt_drop) blast+
qed

lemma erase_at_sort:
  assumes "i < length vs" "sort vs ! i = v"
  shows "erase_at i (sort vs) = sort (remove1 v vs)"
proof (rule sym, rule properties_for_sort)
  have e: "sort vs = take i (sort vs) @ v # drop (Suc i) (sort vs)" using assms id_take_nth_drop [of i "sort vs"] by simp
  have "mset vs = add_mset v (mset (erase_at i (sort vs)))"
    using arg_cong [OF e, of mset] by (simp add: erase_at_def)
  then show "mset (erase_at i (sort vs)) = mset (remove1 v vs)" by simp
  have "sorted (take i (sort vs) @ v # drop (Suc i) (sort vs))" using e by (metis sorted_sort)
  then show "sorted (erase_at i (sort vs))" by (simp add: erase_at_def sorted_append)
qed

lemma lower_bound_absent:
  assumes "lower_bound v (sort vs) = length vs \<or> sort vs ! lower_bound v (sort vs) \<noteq> v"
  shows "v \<notin> set vs"
proof
  assume "v \<in> set vs"
  then obtain k where k: "k < length vs" "sort vs ! k = v" by (metis in_set_conv_nth length_sort set_sort)
  then have le: "lower_bound v (sort vs) \<le> k" using lower_bound_le [of "sort vs" k v] by simp
  then have "sort vs ! lower_bound v (sort vs) \<le> v" "v \<le> sort vs ! lower_bound v (sort vs)"
    using k sorted_nth_mono [of "sort vs" "lower_bound v (sort vs)" k] lower_bound_le [of "sort vs" "lower_bound v (sort vs)" v] by auto
  then show False using assms k le by auto
qed

section \<open>The percentile of a collection\<close>

text \<open>The filter holds the values \<open>vs\<close>, and its iterator is at its index.\<close>

definition filter_ok :: "int \<times> nat \<Rightarrow> 'a :: linorder percentile_filter \<Rightarrow> 'a list \<Rightarrow> bool" where
  "filter_ok p f vs \<longleftrightarrow> percentile f = p \<and> unit_fraction p \<and> pset f = sort vs \<and> length vs \<le> 2 ^ 24
     \<and> percentile_index f = float_index p (length vs - 1) \<and> int (percentile_it f) = percentile_index f"

lemma filter_ok_it: "filter_ok p f vs \<Longrightarrow> vs \<noteq> [] \<Longrightarrow> percentile_it f < length vs"
  using float_index_range(2) [of p "length vs - 1"] by (cases vs) (auto simp: filter_ok_def)

lemma float_index_0 [simp]: "float_index p 0 = 0"
  by (simp add: float_index_def round_bits_exact)

lemma Update_ok:
  assumes "percentile g = p" "unit_fraction p" "pset g = sort vs" "length vs \<le> 2 ^ 24" "int (percentile_it g) = percentile_index g"
    "vs = [] \<Longrightarrow> percentile_it g = 0"
  shows "\<exists>h. UpdatePercentileIterator g = Inr h \<and> filter_ok p h vs"
proof (cases "vs = []")
  case True
  then show ?thesis using assms by (simp add: UpdatePercentileIterator_def filter_ok_def)
next
  case False
  then have "length vs - 1 < 2 ^ 24" using assms(4) by (cases vs) simp_all
  note b = float_index_range [OF assms(2) this]
  have "sort vs \<noteq> []" using False by (metis length_0_conv length_sort)
  then show ?thesis using assms b by (simp add: UpdatePercentileIterator_def filter_ok_def Let_def)
qed

lemma Percentile_Insert_ok:
  assumes "filter_ok p f vs" "length vs < 2 ^ 24"
  shows "\<exists>g. Percentile_Insert v f = Inr g \<and> filter_ok p g (vs @ [v])"
proof -
  let ?i = "upper_bound v (pset f)" and ?it = "percentile_it f"
  define g where "g = f\<lparr>pset := insert_at ?i v (pset f), percentile_it := if ?i \<le> ?it then ?it + 1 else ?it\<rparr>"
  have ps: "pset f = sort vs" "length (pset f) = length vs" "?i \<le> length vs" using assms(1) bounds_length(1) [of v "sort vs"]
    by (simp_all add: filter_ok_def)
  have g: "pset g = sort (vs @ [v])" "percentile g = p" "percentile_index g = percentile_index f" "length (pset g) = Suc (length vs)"
    using assms(1) ps insert_at_sort [of v vs] by (simp_all add: g_def filter_ok_def)
  have up: "\<exists>h. UpdatePercentileIterator k = Inr h \<and> filter_ok p h (vs @ [v])"
    if "percentile k = p" "pset k = pset g" "int (percentile_it k) = percentile_index k" for k
    using assms that g by (intro Update_ok) (simp_all add: filter_ok_def)
  show ?thesis
  proof (cases "vs = []")
    case True
    then have "Percentile_Insert v f = UpdatePercentileIterator (g\<lparr>percentile_it := 0, percentile_index := 0\<rparr>)"
      using g(4) unfolding Percentile_Insert_def Let_def g_def [symmetric] by simp
    then show ?thesis using up g by simp
  next
    case False
    then have it: "?it < length vs" using filter_ok_it [OF assms(1)] by simp
    then have u: "?i \<le> ?it \<longleftrightarrow> v < pset f ! ?it" using upper_bound_le [of "pset f" ?it v] ps by simp
    have x: "pset g ! percentile_it g = pset f ! ?it" using ps(2,3) by (simp add: g_def nth_insert_at)
    have d: "deref_it (pset g) (percentile_it g) = Inr (pset f ! ?it)" using x g(4) it by (simp add: deref_it_def g_def)
    have "Percentile_Insert v f = UpdatePercentileIterator (if ?i \<le> ?it then g\<lparr>percentile_index := percentile_index g + 1\<rparr> else g)"
      using g(4) d u False unfolding Percentile_Insert_def Let_def g_def [symmetric] by simp
    then show ?thesis using up g assms(1) by (simp add: filter_ok_def g_def)
  qed
qed

lemma Percentile_Erase_ok:
  assumes "filter_ok p f vs"
  shows "\<exists>g. Percentile_Erase v f = Inr (v \<in> set vs, g) \<and> filter_ok p g (remove1 v vs)"
proof -
  let ?i = "lower_bound v (pset f)" and ?it = "percentile_it f"
  have ps: "pset f = sort vs" "length (pset f) = length vs" "?i \<le> length vs" using assms bounds_length(2) [of v "sort vs"]
    by (simp_all add: filter_ok_def)
  show ?thesis
  proof (cases "?i = length vs \<or> pset f ! ?i \<noteq> v")
    case True
    then have "v \<notin> set vs" using lower_bound_absent [of v vs] ps(1) by simp
    then show ?thesis using True ps assms by (auto simp: Percentile_Erase_def Let_def remove1_idem)
  next
    case False
    then have i: "?i < length vs" "sort vs ! ?i = v" using ps by auto
    then have v: "v \<in> set vs" by (metis length_sort nth_mem set_sort)
    have it: "?it < length vs" using filter_ok_it [OF assms] v by (cases vs) auto
    have e: "erase_at ?i (pset f) = sort (remove1 v vs)" using erase_at_sort [of ?i vs v] i ps by simp
    have lw: "?i \<le> ?it \<longleftrightarrow> v \<le> pset f ! ?it" using lower_bound_le [of "pset f" ?it v] ps it by simp
    have "length (remove1 v vs) \<le> 2 ^ 24" using assms by (auto simp: filter_ok_def length_remove1)
    then have up: "\<exists>h. UpdatePercentileIterator k = Inr h \<and> filter_ok p h (remove1 v vs)"
      if "percentile k = p" "pset k = erase_at ?i (pset f)" "int (percentile_it k) = percentile_index k"
        "remove1 v vs = [] \<Longrightarrow> percentile_it k = 0" for k
      using assms that e by (intro Update_ok) (simp_all add: filter_ok_def)
    have z: "percentile_it f = 0" if "length vs = 1" using assms that by (simp add: filter_ok_def)
    have one: "length vs = 1" if "remove1 v vs = []" using that v length_remove1 [of v vs] by (cases vs) auto
    define g where "g = f\<lparr>pset := erase_at ?i (pset f), percentile_it := if ?i < ?it then ?it - 1 else ?it\<rparr>"
    define k where "k = (if ?i < ?it then g\<lparr>percentile_index := percentile_index g - 1\<rparr> else g)"
    have kp: "percentile k = p" "pset k = erase_at ?i (pset f)" "int (percentile_it k) = percentile_index k"
      "remove1 v vs = [] \<Longrightarrow> percentile_it k = 0"
      using assms one z by (auto simp: k_def g_def filter_ok_def)
    have "Percentile_Erase v f = rbind (UpdatePercentileIterator k) (\<lambda>g. Inr (True, g))"
    proof (cases "?i = ?it")
      case True
      then have "k = f\<lparr>pset := erase_at ?i (pset f), percentile_it := ?i\<rparr>" by (simp add: k_def g_def)
      then show ?thesis using False ps True by (simp add: Percentile_Erase_def Let_def)
    next
      case ne: False
      have x: "deref_it (pset g) (percentile_it g) = Inr (pset f ! ?it)"
        using ne i it ps by (auto simp: deref_it_def g_def nth_erase_at)
      have "v \<le> pset f ! ?it \<longleftrightarrow> ?i < ?it" using lw ne by auto
      then show ?thesis using False ps ne x unfolding Percentile_Erase_def Let_def g_def [symmetric] by (simp add: k_def)
    qed
    then show ?thesis using up [OF kp] v by auto
  qed
qed

lemma GetPercentileValue_ok:
  "filter_ok p f vs \<Longrightarrow> GetPercentileValue f = Inr (if vs = [] then 0 else sort vs ! nat (float_index p (length vs - 1)))"
proof -
  assume f: "filter_ok p f vs"
  then have "nat (float_index p (length vs - 1)) = percentile_it f" unfolding filter_ok_def by (metis nat_int)
  moreover have "pset f = [] \<longleftrightarrow> vs = []" using f by (metis filter_ok_def length_0_conv length_sort)
  ultimately show ?thesis using f filter_ok_it [OF f] by (auto simp: GetPercentileValue_def deref_it_def filter_ok_def)
qed

lemma Percentile_Reset_ok: "filter_ok p f vs \<Longrightarrow> filter_ok p (Percentile_Reset f) []"
  by (simp add: filter_ok_def Percentile_Reset_def)

lemma PercentileFilter_new_ok: "unit_fraction p \<Longrightarrow> \<exists>f. PercentileFilter_new p = Inr f \<and> filter_ok p f []"
  by (auto simp: PercentileFilter_new_def unit_fraction_def filter_ok_def)

datatype 'a filter_op = OpInsert 'a | OpErase 'a | OpReset

fun filter_exec :: "'a :: linorder filter_op list \<Rightarrow> 'a percentile_filter \<Rightarrow> 'a percentile_filter res" where
  "filter_exec [] f = Inr f"
| "filter_exec (OpInsert v # ops) f = rbind (Percentile_Insert v f) (filter_exec ops)"
| "filter_exec (OpErase v # ops) f = rbind (Percentile_Erase v f) (\<lambda>(_, g). filter_exec ops g)"
| "filter_exec (OpReset # ops) f = filter_exec ops (Percentile_Reset f)"

fun filter_values :: "'a filter_op list \<Rightarrow> 'a list \<Rightarrow> 'a list" where
  "filter_values [] vs = vs"
| "filter_values (OpInsert v # ops) vs = filter_values ops (vs @ [v])"
| "filter_values (OpErase v # ops) vs = filter_values ops (remove1 v vs)"
| "filter_values (OpReset # ops) vs = filter_values ops []"

lemma filter_exec_ok:
  "filter_ok p f vs \<Longrightarrow> length vs + length ops \<le> 2 ^ 24 \<Longrightarrow> \<exists>g. filter_exec ops f = Inr g \<and> filter_ok p g (filter_values ops vs)"
proof (induction ops f arbitrary: vs rule: filter_exec.induct)
  case (2 v ops f)
  then obtain g where g: "Percentile_Insert v f = Inr g" "filter_ok p g (vs @ [v])" using Percentile_Insert_ok [of p f vs v] by auto
  with 2 show ?case by simp
next
  case (3 v ops f)
  then obtain g where g: "Percentile_Erase v f = Inr (v \<in> set vs, g)" "filter_ok p g (remove1 v vs)" using Percentile_Erase_ok by blast
  have "length (remove1 v vs) + length ops \<le> 2 ^ 24" using 3(3) by (auto simp: length_remove1)
  then show ?case using 3(1) g by simp
next
  case (4 ops f)
  then show ?case using Percentile_Reset_ok [of p f vs] by simp
qed simp

text \<open>
  After any calls of \<^verbatim>\<open>Insert\<close>, \<^verbatim>\<open>Erase\<close> and \<^verbatim>\<open>Reset\<close>, at most \<open>2\<^sup>24\<close> of them, \<^verbatim>\<open>GetPercentileValue\<close> returns the element that stands at the
  percentile in the sorted collection, a position inside it, and zero if it is empty; the iterator is never used outside the set.
\<close>

theorem percentile_selected:
  fixes ops :: "'a :: {linorder, zero} filter_op list"
  assumes "unit_fraction p" "length ops \<le> 2 ^ 24" "vs = filter_values ops []"
  shows "rbind (rbind (PercentileFilter_new p) (filter_exec ops)) GetPercentileValue
      = Inr (if vs = [] then 0 else sort vs ! nat (float_index p (length vs - 1)))"
    "vs \<noteq> [] \<longrightarrow> float_index p (length vs - 1) \<le> int (length vs - 1)"
proof -
  obtain f :: "'a percentile_filter" where f: "PercentileFilter_new p = Inr f" "filter_ok p f []" using PercentileFilter_new_ok [OF assms(1)] by blast
  then obtain g where g: "filter_exec ops f = Inr g" "filter_ok p g vs" using filter_exec_ok [OF f(2), of ops] assms(2,3) by auto
  show "rbind (rbind (PercentileFilter_new p) (filter_exec ops)) GetPercentileValue
      = Inr (if vs = [] then 0 else sort vs ! nat (float_index p (length vs - 1)))"
    using f(1) g GetPercentileValue_ok [OF g(2)] by simp
  show "vs \<noteq> [] \<longrightarrow> float_index p (length vs - 1) \<le> int (length vs - 1)"
    using filter_ok_it [OF g(2)] g(2) by (auto simp: filter_ok_def)
qed

theorem percentile_selected_witness:
  "rbind (rbind (PercentileFilter_new (3, 2)) (filter_exec [OpInsert 9, OpInsert 4, OpInsert 7, OpErase 9, OpInsert 2, OpInsert (5 :: int)]))
     GetPercentileValue = Inr 5"
  using percentile_selected(1) [of "(3, 2)" "[OpInsert 9, OpInsert 4, OpInsert 7, OpErase 9, OpInsert 2, OpInsert (5 :: int)]" "[4, 7, 2, 5]"]
  by (simp add: unit_fraction_def float_index_def round_bits_exact)

section \<open>The median of the last samples\<close>

definition last_n :: "nat \<Rightarrow> 'a list \<Rightarrow> 'a list" where
  "last_n n xs = drop (length xs - n) xs"

definition median_ok :: "'a :: linorder moving_median \<Rightarrow> 'a list \<Rightarrow> bool" where
  "median_ok d vs \<longleftrightarrow> 0 < window_size d \<and> window_size d < 2 ^ 24 \<and> filter_ok (1, 1) (percentile_filter d) (last_n (window_size d) vs)
     \<and> median_samples d = last_n (window_size d) vs \<and> samples_stored d = length (median_samples d)"

lemma last_n_snoc:
  "0 < n \<Longrightarrow> last_n n (xs @ [x]) = (if length (last_n n xs) < n then last_n n xs @ [x] else tl (last_n n xs @ [x]))"
  by (auto simp: last_n_def Suc_diff_le drop_Suc drop_tl tl_append split: list.split)

lemma Median_Insert_ok:
  assumes "median_ok d vs"
  shows "\<exists>e. Median_Insert v d = Inr e \<and> median_ok e (vs @ [v]) \<and> window_size e = window_size d"
proof -
  let ?w = "last_n (window_size d) vs"
  have d: "0 < window_size d" "window_size d < 2 ^ 24" "filter_ok (1, 1) (percentile_filter d) ?w" "median_samples d = ?w"
    "samples_stored d = length ?w" "length ?w \<le> window_size d"
    using assms by (simp_all add: median_ok_def last_n_def)
  obtain f where f: "Percentile_Insert v (percentile_filter d) = Inr f" "filter_ok (1, 1) f (?w @ [v])"
    using Percentile_Insert_ok [OF d(3), of v] d(2,6) by auto
  show ?thesis
  proof (cases "length ?w < window_size d")
    case True
    then show ?thesis using d f by (simp add: Median_Insert_def Let_def median_ok_def last_n_snoc)
  next
    case False
    obtain x xs where x: "?w @ [v] = x # xs" by (cases "?w @ [v]") auto
    moreover from arg_cong [OF this, of length] have "length xs = window_size d" using False d(6) by simp
    ultimately obtain g where g: "Percentile_Erase x f = Inr (True, g)" "filter_ok (1, 1) g xs"
      using Percentile_Erase_ok [OF f(2), of x] by auto
    then show ?thesis using d f x False \<open>length xs = window_size d\<close> by (simp add: Median_Insert_def Let_def median_ok_def last_n_snoc)
  qed
qed

primrec median_feed :: "'a :: linorder list \<Rightarrow> 'a moving_median \<Rightarrow> 'a moving_median res" where
  "median_feed [] d = Inr d"
| "median_feed (v # vs) d = rbind (Median_Insert v d) (median_feed vs)"

lemma median_feed_ok: "median_ok d hs \<Longrightarrow> \<exists>e. median_feed vs d = Inr e \<and> median_ok e (hs @ vs) \<and> window_size e = window_size d"
proof (induction vs arbitrary: d hs)
  case (Cons v vs)
  then obtain e where e: "Median_Insert v d = Inr e" "median_ok e (hs @ [v])" "window_size e = window_size d"
    using Median_Insert_ok by blast
  then show ?case using Cons.IH [OF e(2)] by simp
qed simp

text \<open>
  C15: \<^verbatim>\<open>GetFilteredValue\<close> of a \<^verbatim>\<open>MovingMedianFilter\<close> returns the lower median of the last samples, as many as the window holds, for
  every window below \<open>2\<^sup>24\<close> samples.
\<close>

theorem moving_median:
  fixes vs :: "'a :: {linorder, zero} list"
  assumes "0 < n" "n < 2 ^ 24" "vs \<noteq> []" "ws = last_n n vs"
  shows "rbind (rbind (MovingMedianFilter_new n) (median_feed vs)) GetFilteredValue = Inr (sort ws ! ((length ws - 1) div 2)) \<and>
    rbind (MovingMedianFilter_new n) (\<lambda>d. rbind (median_feed vs d) (\<lambda>e. Inr (GetNumberOfSamplesStored e))) = Inr (min n (length vs))"
proof (rule conjI)
  have "unit_fraction (1, 1)" by (simp add: unit_fraction_def)
  then obtain f :: "'a percentile_filter" where f: "PercentileFilter_new (1, 1) = Inr f" "filter_ok (1, 1) f []"
    using PercentileFilter_new_ok by blast
  define d where "d = \<lparr>percentile_filter = f, median_samples = [], samples_stored = 0, window_size = n\<rparr>"
  have d: "MovingMedianFilter_new n = Inr d" "median_ok d []" "window_size d = n"
    using assms(1,2) f by (simp_all add: MovingMedianFilter_new_def median_ok_def last_n_def d_def del: One_nat_def)
  obtain e where e: "median_feed vs d = Inr e" "median_ok e vs" "window_size e = n" using median_feed_ok [OF d(2), of vs] d(3) by auto
  have ws: "ws \<noteq> []" "length ws \<le> n" using assms by (cases vs; simp add: last_n_def)+
  then have "length ws - 1 < 2 ^ 24" using assms(2) by simp
  note float_index_half [OF this]
  moreover have "filter_ok (1, 1) (percentile_filter e) ws" using e assms(4) by (simp add: median_ok_def)
  ultimately show "rbind (rbind (MovingMedianFilter_new n) (median_feed vs)) GetFilteredValue = Inr (sort ws ! ((length ws - 1) div 2))"
    using d(1) e(1) ws(1) by (simp add: GetFilteredValue_def GetPercentileValue_ok nat_div_distrib)
  show "rbind (MovingMedianFilter_new n) (\<lambda>d. rbind (median_feed vs d) (\<lambda>e. Inr (GetNumberOfSamplesStored e))) = Inr (min n (length vs))"
    using d(1) e by (simp add: GetNumberOfSamplesStored_def median_ok_def last_n_def)
qed

theorem moving_median_witness:
  "rbind (rbind (MovingMedianFilter_new 3) (median_feed [8, 1, 6, 9, (4 :: int)])) GetFilteredValue = Inr 6"
  using moving_median [of 3 "[8, 1, 6, 9, (4 :: int)]" "[6, 9, 4]"] by (simp add: last_n_def)

end
