(* ===== verification/Unique_Id.thy ===== *)
theory Unique_Id
  imports Prelude
begin

text \<open>
  \<^verbatim>\<open>UniqueNumberGenerator\<close> of \<^verbatim>\<open>third/webrtc/include/rtc_base/unique_id_generator.h\<close>. The template argument, signed or not, enters
  through the greatest value of the type, \<open>maxval\<close>; the numbers known are a set. A failed \<^verbatim>\<open>RTC_CHECK\<close> ends the program.
\<close>

record generator =
  counter :: int
  known_ids :: "int set"

definition UniqueNumberGenerator_new :: "int list \<Rightarrow> generator" where
  "UniqueNumberGenerator_new ids = \<lparr>counter = 0, known_ids = set ids\<rparr>"

function GenerateNumber :: "int \<Rightarrow> generator \<Rightarrow> (int \<times> generator) res" where
  "GenerateNumber maxval g =
     (if \<not> counter g < maxval then Inl Fatal
      else let n = counter g; g' = g\<lparr>counter := n + 1, known_ids := insert n (known_ids g)\<rparr> in
           if n \<notin> known_ids g then Inr (n, g') else GenerateNumber maxval g')"
  by pat_completeness auto
termination
  by (relation "measure (\<lambda>(m, g). nat (m - counter g))") auto

declare GenerateNumber.simps [simp del]


section \<open>One call\<close>

text \<open>Every number from zero up to the counter is known.\<close>

definition gen_ok :: "generator \<Rightarrow> bool" where
  "gen_ok g \<longleftrightarrow> {0..<counter g} \<subseteq> known_ids g"

lemma gen_ok_next: "gen_ok g \<Longrightarrow> gen_ok (g\<lparr>counter := counter g + 1, known_ids := insert (counter g) (known_ids g)\<rparr>)"
  by (force simp: gen_ok_def)

lemma GenerateNumber_ok:
  "gen_ok g \<Longrightarrow> 0 \<le> counter g \<Longrightarrow>
   (if {0..<maxval} \<subseteq> known_ids g then GenerateNumber maxval g = Inl Fatal
    else \<exists>n. GenerateNumber maxval g = Inr (n, \<lparr>counter = n + 1, known_ids = insert n (known_ids g)\<rparr>)
      \<and> 0 \<le> n \<and> n < maxval \<and> n \<notin> known_ids g \<and> {0..<n} \<subseteq> known_ids g)"
proof (induction maxval g rule: GenerateNumber.induct)
  case (1 maxval g)
  consider "\<not> counter g < maxval" | "counter g < maxval" "counter g \<notin> known_ids g" | "counter g < maxval" "counter g \<in> known_ids g" by blast
  then show ?case
  proof cases
    case 1
    then have "{0..<maxval} \<subseteq> known_ids g" using "1.prems"(1) by (force simp: gen_ok_def)
    then show ?thesis using 1 by (simp add: GenerateNumber.simps)
  next
    case 2
    then have "\<not> {0..<maxval} \<subseteq> known_ids g" using "1.prems"(2) by force
    then show ?thesis using 2 "1.prems" by (simp add: GenerateNumber.simps gen_ok_def Let_def)
  next
    case 3
    let ?g = "g\<lparr>counter := counter g + 1, known_ids := insert (counter g) (known_ids g)\<rparr>"
    have "GenerateNumber maxval g = GenerateNumber maxval ?g" using 3 by (subst GenerateNumber.simps) (simp add: Let_def)
    moreover have e: "?g = g\<lparr>counter := counter g + 1\<rparr>" using 3 by (cases g) (simp add: insert_absorb)
    ultimately show ?thesis
      using "1.IH" [of "counter g" ?g] 3 gen_ok_next [OF "1.prems"(1)] "1.prems"(2) unfolding e by (simp cong: if_cong)
  qed
qed

section \<open>Any calls\<close>








lemma gen_ok_new: "gen_ok (UniqueNumberGenerator_new ids)" "0 \<le> counter (UniqueNumberGenerator_new ids)"
  by (simp_all add: gen_ok_def UniqueNumberGenerator_new_def)



text \<open>The greatest value is never returned, even if it is the only unknown one.\<close>

lemma last_id_refused: "GenerateNumber 3 (UniqueNumberGenerator_new [0, 1, 2]) = Inl Fatal"
proof -
  have "{0..<3} \<subseteq> known_ids (UniqueNumberGenerator_new [0, 1, 2])" by (auto simp: UniqueNumberGenerator_new_def)
  then show ?thesis using GenerateNumber_ok [OF gen_ok_new, of 3 "[0, 1, 2]"] by simp
qed

end
