(* ===== verification/Ordered.thy ===== *)
theory Ordered
  imports Prelude "HOL-Library.List_Lexorder" "HOL-Library.Char_ord"
begin

text \<open>
  \<^verbatim>\<open>std::set\<close> and \<^verbatim>\<open>std::map\<close> as lists in iteration order: strictly ascending
  elements, or strictly ascending keys with their values. Strings are compared the way
  \<^verbatim>\<open>std::less<std::string>\<close> does, lexicographically by unsigned characters, which is the
  order that \<open>List_Lexorder\<close> and \<open>Char_ord\<close> give to \<open>string\<close>. The locale
  \<open>ordered_map\<close> is the contract the client components rely on; the interpretation
  discharges it for the list model.
\<close>

section \<open>Sets\<close>

abbreviation oset_inv :: "'a::linorder list \<Rightarrow> bool" where
  "oset_inv xs \<equiv> sorted_wrt (<) xs"

fun oset_emplace :: "'a::linorder \<Rightarrow> 'a list \<Rightarrow> 'a list" where
  "oset_emplace x [] = [x]"
| "oset_emplace x (y # ys) =
     (if x < y then x # y # ys else if x = y then y # ys else y # oset_emplace x ys)"

definition oset_erase :: "'a::linorder \<Rightarrow> 'a list \<Rightarrow> 'a list" where
  "oset_erase x xs = filter (\<lambda>y. y \<noteq> x) xs"

lemma set_oset_emplace [simp]: "set (oset_emplace x xs) = insert x (set xs)"
  by (induction xs) auto

lemma oset_emplace_inv: "oset_inv xs \<Longrightarrow> oset_inv (oset_emplace x xs)"
  by (induction xs) auto

lemma oset_emplace_not_Nil [simp]: "oset_emplace x xs \<noteq> []"
  by (cases xs) auto

lemma oset_emplace_last: "(\<forall>y \<in> set xs. y < x) \<Longrightarrow> oset_emplace x xs = xs @ [x]"
  by (induction xs) auto

lemma set_oset_erase [simp]: "set (oset_erase x xs) = set xs - {x}"
  by (auto simp: oset_erase_def)

lemma oset_erase_inv: "oset_inv xs \<Longrightarrow> oset_inv (oset_erase x xs)"
  by (simp add: oset_erase_def sorted_wrt_filter)

lemma oset_unique: "oset_inv xs \<Longrightarrow> oset_inv ys \<Longrightarrow> set xs = set ys \<Longrightarrow> xs = ys"
  by (simp add: strict_sorted_equal)

section \<open>Maps\<close>

abbreviation omap_inv :: "('k::linorder \<times> 'v) list \<Rightarrow> bool" where
  "omap_inv m \<equiv> sorted_wrt (<) (map fst m)"

abbreviation omap_find :: "('k::linorder \<times> 'v) list \<Rightarrow> 'k \<Rightarrow> 'v option" where
  "omap_find m k \<equiv> map_of m k"

text \<open>\<open>omap_put\<close> binds a key, keeping the position of one that is there.\<close>

fun omap_put :: "'k::linorder \<Rightarrow> 'v \<Rightarrow> ('k \<times> 'v) list \<Rightarrow> ('k \<times> 'v) list" where
  "omap_put k v [] = [(k, v)]"
| "omap_put k v ((k', v') # m) =
     (if k < k' then (k, v) # (k', v') # m
      else if k = k' then (k, v) # m else (k', v') # omap_put k v m)"

definition omap_erase :: "'k::linorder \<Rightarrow> ('k \<times> 'v) list \<Rightarrow> ('k \<times> 'v) list" where
  "omap_erase k m = filter (\<lambda>(k', _). k' \<noteq> k) m"

lemma fst_set_omap_put: "fst ` set (omap_put k v m) = insert k (fst ` set m)"
proof (induction m)
  case (Cons a m)
  then show ?case by (cases a) (simp add: insert_commute)
qed simp

lemma omap_put_inv: "omap_inv m \<Longrightarrow> omap_inv (omap_put k v m)"
proof (induction m)
  case (Cons a m)
  then show ?case
    using fst_set_omap_put [of k v m] by (cases a) (fastforce simp: image_iff)
qed simp

lemma omap_find_put: "omap_find (omap_put k v m) k' = (if k' = k then Some v else omap_find m k')"
  by (induction m) auto

lemma omap_find_erase:
  "omap_find (omap_erase k m) k' = (if k' = k then None else omap_find m k')"
  by (induction m) (auto simp: omap_erase_def)

lemma omap_erase_inv: "omap_inv m \<Longrightarrow> omap_inv (omap_erase k m)"
proof (induction m)
  case (Cons a m)
  then show ?case by (cases a) (auto simp: omap_erase_def)
qed (simp add: omap_erase_def)

lemma omap_put_last: "(\<forall>k' \<in> fst ` set m. k' < k) \<Longrightarrow> omap_put k v m = m @ [(k, v)]"
  by (induction m) auto

lemma omap_put_replace_last: 
  "(\<forall>k' \<in> fst ` set m. k' < k) \<Longrightarrow> omap_put k v (m @ [(k, w)]) = m @ [(k, v)]"
  by (induction m) auto

lemma omap_inv_distinct: "omap_inv m \<Longrightarrow> distinct (map fst m)"
  by (simp add: strict_sorted_iff)

section \<open>The contract of a map\<close>

locale ordered_map =
  fixes find :: "'m \<Rightarrow> 'k \<Rightarrow> 'v option"
    and put :: "'k \<Rightarrow> 'v \<Rightarrow> 'm \<Rightarrow> 'm"
    and erase :: "'k \<Rightarrow> 'm \<Rightarrow> 'm"
    and invar :: "'m \<Rightarrow> bool"
  assumes find_put: "invar m \<Longrightarrow> find (put k v m) k' = (if k' = k then Some v else find m k')"
    and find_erase: "invar m \<Longrightarrow> find (erase k m) k' = (if k' = k then None else find m k')"
    and invar_put: "invar m \<Longrightarrow> invar (put k v m)"
    and invar_erase: "invar m \<Longrightarrow> invar (erase k m)"
begin

lemma put_put_find: "invar m \<Longrightarrow> find (put k v (put k w m)) k' = find (put k v m) k'"
  by (simp add: find_put invar_put)

lemma erase_put_find: "invar m \<Longrightarrow> find m k = None \<Longrightarrow> find (erase k (put k v m)) k' = find m k'"
  by (simp add: find_put find_erase invar_put)

lemma all_put:
  assumes "invar m" "\<And>k' w. find m k' = Some w \<Longrightarrow> P k' w" "P k v" "find (put k v m) k' = Some w"
  shows "P k' w"
  using assms by (auto simp: find_put split: if_splits)

lemma all_erase:
  assumes "invar m" "\<And>k' w. find m k' = Some w \<Longrightarrow> P k' w" "find (erase k m) k' = Some w"
  shows "P k' w"
  using assms by (auto simp: find_erase split: if_splits)

end

interpretation omap: ordered_map omap_find omap_put omap_erase omap_inv
  by unfold_locales (simp_all add: omap_find_put omap_find_erase omap_put_inv omap_erase_inv)

end
