(* ===== verification/Http_Url.thy ===== *)
theory Http_Url
  imports Cpp_String Ordered
begin

text \<open>
  \<^verbatim>\<open>messenger/http_url.h\<close> and \<^verbatim>\<open>messenger/http_url.cc\<close>: the URL builder
  (\<^verbatim>\<open>HttpUrl::Builder\<close>) with its setters, parser and printer, and the parsed
  \<^verbatim>\<open>HttpUrl\<close> with its accessors. Setters and the parser take the builder and return
  the new one; what can throw or is undefined returns a \<open>res\<close>.
\<close>

section \<open>The builder\<close>

record http_builder =
  b_scheme :: string
  b_host :: string
  b_port :: int
  b_segs :: "string list"
  b_query :: "(string \<times> string list) list"
  b_frag :: string

definition Builder_new :: http_builder where
  "Builder_new = \<lparr>b_scheme = [], b_host = [], b_port = - 1, b_segs = [], b_query = [], b_frag = []\<rparr>"

definition Builder_Clear :: "http_builder \<Rightarrow> http_builder" where
  "Builder_Clear b =
     b\<lparr>b_scheme := [], b_host := [], b_port := - 1, b_segs := [], b_query := [], b_frag := []\<rparr>"

definition Builder_Scheme :: "string \<Rightarrow> http_builder \<Rightarrow> http_builder" where
  "Builder_Scheme scheme b =
     (let b' = (if scheme = [] then b\<lparr>b_scheme := ''http''\<rparr> else b)
      in if scheme = ''http'' then b'\<lparr>b_scheme := ''http''\<rparr>
         else if scheme = ''https'' then b'\<lparr>b_scheme := ''https''\<rparr>
         else b'\<lparr>b_scheme := ''http''\<rparr>)"

text \<open>
  \<^verbatim>\<open>Host\<close> clears \<^verbatim>\<open>host_\<close> and then writes the lower-cased characters through
  \<^verbatim>\<open>host_.begin()\<close> of the now empty string: for a non-empty argument the first
  write is behind the end of the object.
\<close>

definition Builder_Host :: "string \<Rightarrow> http_builder \<Rightarrow> http_builder res" where
  "Builder_Host host b =
     (if host = [] then Inr b
      else let b' = b\<lparr>b_host := []\<rparr>
           in if length (b_host b') < length host then Inl (UB BadWrite)
              else Inr (b'\<lparr>b_host := map tolower host\<rparr>))"

definition Builder_Port :: "int \<Rightarrow> http_builder \<Rightarrow> http_builder" where
  "Builder_Port port b =
     (if port \<le> 0 \<or> port > 65535 then b\<lparr>b_port := - 1\<rparr> else b\<lparr>b_port := port\<rparr>)"

definition Builder_Pop :: "http_builder \<Rightarrow> http_builder" where
  "Builder_Pop b = (if b_segs b \<noteq> [] then b\<lparr>b_segs := butlast (b_segs b)\<rparr> else b)"

definition Builder_Push :: "string \<Rightarrow> http_builder \<Rightarrow> http_builder" where
  "Builder_Push segment b =
     (if segment = [] then b
      else if segment = ''.'' then b
      else if segment = ''..'' then Builder_Pop b
      else b\<lparr>b_segs := b_segs b @ [segment]\<rparr>)"

definition Builder_AddEncodedPathSegment :: "string \<Rightarrow> http_builder \<Rightarrow> http_builder" where
  "Builder_AddEncodedPathSegment seg b = (if seg = [] then b else Builder_Push seg b)"

definition Builder_AddEncodedPathSegments :: "string \<Rightarrow> http_builder \<Rightarrow> http_builder" where
  "Builder_AddEncodedPathSegments seg b =
     (if seg = [] then b else fold Builder_Push (tokens CHR ''/'' seg) b)"

definition Builder_SetEncodedPathSegment :: "int \<Rightarrow> string \<Rightarrow> http_builder \<Rightarrow> http_builder" where
  "Builder_SetEncodedPathSegment index seg b =
     (if seg = [] then b
      else if seg = ''.'' \<or> seg = ''..'' then b
      else if index < 0 \<or> index \<ge> int (length (b_segs b)) then b
      else b\<lparr>b_segs := (b_segs b)[nat index := seg]\<rparr>)"

definition Builder_RemovePathSegment :: "int \<Rightarrow> http_builder \<Rightarrow> http_builder" where
  "Builder_RemovePathSegment index b =
     (if index < 0 \<or> index \<ge> int (length (b_segs b)) then b
      else b\<lparr>b_segs := take (nat index) (b_segs b) @ drop (Suc (nat index)) (b_segs b)\<rparr>)"

definition Builder_AddEncodedQueryParameter ::
    "string \<Rightarrow> string \<Rightarrow> http_builder \<Rightarrow> http_builder" where
  "Builder_AddEncodedQueryParameter name val b =
     (if name = [] then b
      else (case omap_find (b_query b) name of
              None \<Rightarrow> b\<lparr>b_query := omap_put name (oset_emplace val []) (b_query b)\<rparr>
            | Some vs \<Rightarrow> b\<lparr>b_query := omap_put name (oset_emplace val vs) (b_query b)\<rparr>))"

definition Builder_RemoveEncodedQueryParameterValue ::
    "string \<Rightarrow> string \<Rightarrow> http_builder \<Rightarrow> http_builder" where
  "Builder_RemoveEncodedQueryParameterValue name val b =
     (if name = [] then b
      else (case omap_find (b_query b) name of
              None \<Rightarrow> b
            | Some vs \<Rightarrow>
                let vs' = oset_erase val vs
                in if vs' = [] then b\<lparr>b_query := omap_erase name (b_query b)\<rparr>
                   else b\<lparr>b_query := omap_put name vs' (b_query b)\<rparr>))"

definition Builder_RemoveEncodedQueryParameter :: "string \<Rightarrow> http_builder \<Rightarrow> http_builder" where
  "Builder_RemoveEncodedQueryParameter name b =
     (if name = [] then b else b\<lparr>b_query := omap_erase name (b_query b)\<rparr>)"

definition Builder_AddEncodedFragment :: "string \<Rightarrow> http_builder \<Rightarrow> http_builder" where
  "Builder_AddEncodedFragment fragment b =
     (if fragment = [] then b else b\<lparr>b_frag := fragment\<rparr>)"

definition DefaultPort :: "string \<Rightarrow> int" where
  "DefaultPort scheme =
     (if scheme = ''http'' then 80 else if scheme = ''https'' then 443 else - 1)"

section \<open>The parser\<close>

text \<open>The ten \<^verbatim>\<open>erase\<close> calls at the start of \<^verbatim>\<open>Parse\<close>.\<close>

definition trim_chars :: "char list" where
  "trim_chars = [CHR '' '', CHR 0x09, CHR 0x0A, CHR 0x0C, CHR 0x0D]"

definition trim_front :: "string \<Rightarrow> string" where
  "trim_front url = foldl (\<lambda>u c. erase_front u (str_find_first_not_of u c)) url trim_chars"

definition trim_back :: "string \<Rightarrow> string res" where
  "trim_back url =
     foldl (\<lambda>r c. rbind r (\<lambda>u. erase_back u (size_add (str_find_last_not_of u c) 1)))
       (Inr url) trim_chars"

text \<open>
  \<^verbatim>\<open>pathEnd\<close>, computed in the same way by \<^verbatim>\<open>Parse\<close> and \<^verbatim>\<open>EncodedPath\<close>: the
  first question mark wherever it is, else the first hash, else the end.
\<close>

definition path_end :: "string \<Rightarrow> nat" where
  "path_end url =
     (let q = str_find url CHR ''?'';
          e = (if q = npos then str_find url CHR ''#'' else q)
      in if e = npos then length url else e)"

text \<open>\<^verbatim>\<open>hostPath\<close>: from behind \<^verbatim>\<open>://\<close> to the query, the fragment or the end.\<close>

definition host_path :: "string \<Rightarrow> string \<Rightarrow> string res" where
  "host_path url scheme =
     (let pathStart = size_add (length scheme) 3
      in substr url pathStart (size_sub (path_end url) pathStart))"

text \<open>The text between the colon at \<open>portStart\<close> and the path.\<close>

definition port_string :: "string \<Rightarrow> nat \<Rightarrow> string res" where
  "port_string hostPath portStart =
     (let portEnd = str_find hostPath CHR ''/''
      in if portEnd = npos then substr_from hostPath (size_add portStart 1)
         else substr hostPath (size_add portStart 1)
                (size_sub portEnd (size_add portStart 1)))"

definition parse_host_port ::
    "string \<Rightarrow> string \<Rightarrow> (http_builder, unit) stm" where
  "parse_host_port scheme hostPath =
     (let portStart = str_find hostPath CHR '':'';
          pathStart = str_find hostPath CHR ''/''
      in if portStart = npos then
           sbind (smodify (\<lambda>b. b\<lparr>b_port := DefaultPort scheme\<rparr>)) (\<lambda>_.
             if pathStart = npos then smodify (\<lambda>b. b\<lparr>b_host := hostPath\<rparr>)
             else sbind (slift (substr hostPath 0 pathStart)) (\<lambda>h.
                    smodify (\<lambda>b. b\<lparr>b_host := h\<rparr>)))
         else
           sbind (slift (substr hostPath 0 portStart)) (\<lambda>h.
           sbind (smodify (\<lambda>b. b\<lparr>b_host := h\<rparr>)) (\<lambda>_.
           sbind (slift (port_string hostPath portStart)) (\<lambda>portS.
           if portS \<noteq> [] then
             sbind (slift (atoi portS)) (\<lambda>p. smodify (\<lambda>b. b\<lparr>b_port := p\<rparr>))
           else smodify (\<lambda>b. b\<lparr>b_port := DefaultPort scheme\<rparr>)))))"

definition parse_path :: "string \<Rightarrow> (http_builder, unit) stm" where
  "parse_path hostPath =
     sbind (slift (substr_from hostPath (size_add (str_find hostPath CHR ''/'') 1))) (\<lambda>path.
       if path \<noteq> [] then smodify (Builder_AddEncodedPathSegments path) else sret ())"

definition query_of :: "string \<Rightarrow> string res" where
  "query_of url =
     (let queryStart = str_find url CHR ''?'';
          fragmentStart = str_find url CHR ''#''
      in if queryStart = npos then Inr []
         else if fragmentStart = npos then substr_from url (size_add queryStart 1)
         else substr url (size_add queryStart 1) (size_sub fragmentStart (size_add queryStart 1)))"

definition split_param :: "string \<Rightarrow> (string \<times> string) res" where
  "split_param s =
     (let p = str_find s CHR ''=''
      in if p = npos then Inr (s, [])
         else rbind (substr s 0 p) (\<lambda>n. rbind (substr_from s (size_add p 1)) (\<lambda>v. Inr (n, v))))"

definition parse_query :: "string \<Rightarrow> (http_builder, unit) stm" where
  "parse_query url =
     sbind (slift (query_of url)) (\<lambda>query.
       if query = [] then sret ()
       else foldl (\<lambda>m s. sbind m (\<lambda>_. sbind (slift (split_param s)) (\<lambda>(n, v).
                        smodify (Builder_AddEncodedQueryParameter n v))))
              (sret ()) (tokens CHR ''&'' query))"

definition parse_fragment :: "string \<Rightarrow> (http_builder, unit) stm" where
  "parse_fragment url =
     (let fragmentStart = str_find url CHR ''#''
      in if fragmentStart = npos then sret ()
         else sbind (slift (substr_from url (size_add fragmentStart 1))) (\<lambda>f.
                smodify (Builder_AddEncodedFragment f)))"

text \<open>The stages behind \<^verbatim>\<open>hostPath\<close>, and the whole parser.\<close>

definition parse_tail :: "string \<Rightarrow> string \<Rightarrow> string \<Rightarrow> (http_builder, bool) stm" where
  "parse_tail url scheme hostPath =
     (if hostPath = [] then sret False
      else
        sbind (parse_host_port scheme hostPath) (\<lambda>_.
        sbind (parse_path hostPath) (\<lambda>_.
        sbind (parse_query url) (\<lambda>_.
        sbind (parse_fragment url) (\<lambda>_. sret True)))))"

definition Builder_Parse :: "string \<Rightarrow> (http_builder, bool) stm" where
  "Builder_Parse url =
     (if url = [] \<or> length url \<le> 7 then sret False
      else
        sbind (smodify Builder_Clear) (\<lambda>_.
        sbind (slift (trim_back (trim_front url))) (\<lambda>url.
        sbind (slift (substr url 0 (str_find url CHR '':''))) (\<lambda>s.
        if s = [] then sret False
        else let scheme = map tolower s in
          if scheme \<noteq> ''http'' \<and> scheme \<noteq> ''https'' then sret False
          else
            sbind (smodify (\<lambda>b. b\<lparr>b_scheme := scheme\<rparr>)) (\<lambda>_.
            sbind (slift (host_path url scheme)) (parse_tail url scheme))))))"

section \<open>The printer\<close>

fun values_str :: "string \<Rightarrow> nat \<Rightarrow> nat \<Rightarrow> string list \<Rightarrow> string" where
  "values_str param n valuesIndex [] = []"
| "values_str param n valuesIndex (v # vs) =
     param @ ''='' @ v @ (if Suc valuesIndex < n then ''&'' else [])
       @ values_str param n (Suc valuesIndex) vs"

fun query_str :: "nat \<Rightarrow> nat \<Rightarrow> (string \<times> string list) list \<Rightarrow> string" where
  "query_str n paramIndex [] = []"
| "query_str n paramIndex ((param, vs) # m) =
     (if vs = [] then param @ query_str n paramIndex m
      else values_str param (length vs) 0 vs @ (if Suc paramIndex < n then ''&'' else [])
             @ query_str n (Suc paramIndex) m)"

definition Builder_ToString :: "http_builder \<Rightarrow> string" where
  "Builder_ToString b =
     b_scheme b @ ''://''
     @ (if str_find (b_host b) CHR '':'' \<noteq> npos then ''['' @ b_host b @ '']'' else b_host b)
     @ '':'' @ show_int (if b_port b = - 1 then DefaultPort (b_scheme b) else b_port b)
     @ concat (map (\<lambda>s. ''/'' @ s) (b_segs b))
     @ (if b_query b \<noteq> [] then ''?'' @ query_str (length (b_query b)) 0 (b_query b) else [])
     @ (if b_frag b \<noteq> [] then ''#'' @ b_frag b else [])"

section \<open>The parsed URL\<close>

record http_url =
  u_url :: string
  u_scheme :: string
  u_port :: int
  u_host :: string
  u_frag :: string
  u_segs :: "string list"
  u_query :: "(string \<times> string list) list"

definition HttpUrl_empty :: http_url where
  "HttpUrl_empty = \<lparr>u_url = [], u_scheme = [], u_port = - 1, u_host = [], u_frag = [],
     u_segs = [], u_query = []\<rparr>"

definition HttpUrl_Init :: "http_builder \<Rightarrow> http_url \<Rightarrow> http_url" where
  "HttpUrl_Init b u =
     u\<lparr>u_scheme := b_scheme b, u_host := b_host b, u_port := b_port b, u_segs := b_segs b,
       u_query := b_query b, u_frag := b_frag b, u_url := Builder_ToString b\<rparr>"

definition HttpUrl_of_builder :: "http_builder \<Rightarrow> http_url" where
  "HttpUrl_of_builder b = HttpUrl_Init b HttpUrl_empty"

definition HttpUrl_of_string :: "string \<Rightarrow> http_url res" where
  "HttpUrl_of_string url =
     (case Builder_Parse url Builder_new of
        (Inl e, _) \<Rightarrow> Inl e
      | (Inr ok, b) \<Rightarrow> Inr (if ok then HttpUrl_Init b HttpUrl_empty else HttpUrl_empty))"

definition HttpUrl_copy :: "http_url \<Rightarrow> http_url" where
  "HttpUrl_copy u = \<lparr>u_url = u_url u, u_scheme = u_scheme u, u_port = u_port u, u_host = u_host u,
     u_frag = u_frag u, u_segs = u_segs u, u_query = u_query u\<rparr>"

definition Builder_Build :: "http_builder \<Rightarrow> http_url" where
  "Builder_Build b = HttpUrl_of_builder b"

definition HttpUrl_Scheme :: "http_url \<Rightarrow> string" where "HttpUrl_Scheme u = u_scheme u"

definition HttpUrl_Port :: "http_url \<Rightarrow> int" where "HttpUrl_Port u = u_port u"

definition HttpUrl_IsHttps :: "http_url \<Rightarrow> bool" where
  "HttpUrl_IsHttps u \<longleftrightarrow> u_scheme u = ''https''"

definition HttpUrl_Host :: "http_url \<Rightarrow> string" where "HttpUrl_Host u = u_host u"

definition HttpUrl_PathSize :: "http_url \<Rightarrow> int" where
  "HttpUrl_PathSize u = int (length (u_segs u)) - 1"

definition HttpUrl_EncodedPath :: "http_url \<Rightarrow> string res" where
  "HttpUrl_EncodedPath u =
     (let url = u_url u;
          pathStart = str_find_from url CHR ''/'' (size_add (length (u_scheme u)) 3)
      in substr url pathStart (size_sub (path_end url) pathStart))"

definition HttpUrl_EncodedQuery :: "http_url \<Rightarrow> string res" where
  "HttpUrl_EncodedQuery u =
     (let url = u_url u;
          queryStart = str_find url CHR ''?'';
          queryEnd = str_find url CHR ''#''
      in if queryStart \<noteq> npos then
           if queryEnd \<noteq> npos then
             substr url (size_add queryStart 1) (size_sub queryEnd (size_add queryStart 1))
           else substr_from url (size_add queryStart 1)
         else Inr [])"

definition HttpUrl_QuerySize :: "http_url \<Rightarrow> int" where
  "HttpUrl_QuerySize u = int (length (u_query u))"

definition HttpUrl_QueryParameter :: "http_url \<Rightarrow> string list" where
  "HttpUrl_QueryParameter u = []"

definition HttpUrl_EncodedFragment :: "http_url \<Rightarrow> string" where
  "HttpUrl_EncodedFragment u = u_frag u"

definition HttpUrl_Url :: "http_url \<Rightarrow> string" where "HttpUrl_Url u = u_url u"

lemma of_builder_sel [simp]:
  "u_url (HttpUrl_of_builder b) = Builder_ToString b"
  "u_scheme (HttpUrl_of_builder b) = b_scheme b"
  "u_host (HttpUrl_of_builder b) = b_host b"
  "u_port (HttpUrl_of_builder b) = b_port b"
  "u_segs (HttpUrl_of_builder b) = b_segs b"
  "u_query (HttpUrl_of_builder b) = b_query b"
  "u_frag (HttpUrl_of_builder b) = b_frag b"
  by (simp_all add: HttpUrl_of_builder_def HttpUrl_Init_def)

section \<open>The well-formed builder\<close>

text \<open>
  What every operation keeps. Path segments are non-empty and none is a dot segment, since
  \<^verbatim>\<open>Push\<close> and \<^verbatim>\<open>SetEncodedPathSegment\<close> refuse them: the comments above \<^verbatim>\<open>Pop\<close> and in
  \<^verbatim>\<open>PathSize\<close> speak of a list that ends with an empty segment, which the code never builds. The
  query is a map in key order, no name is empty, and no name is left with an empty value
  set (so the \<^verbatim>\<open>values.empty()\<close> branch of \<^verbatim>\<open>ToString\<close> is never taken).
\<close>

definition seg_ok :: "string \<Rightarrow> bool" where
  "seg_ok s \<longleftrightarrow> s \<noteq> [] \<and> s \<noteq> ''.'' \<and> s \<noteq> ''..''"

definition query_wf :: "(string \<times> string list) list \<Rightarrow> bool" where
  "query_wf m \<longleftrightarrow> omap_inv m \<and> (\<forall>n vs. omap_find m n = Some vs \<longrightarrow> n \<noteq> [] \<and> vs \<noteq> [] \<and> oset_inv vs)"

definition builder_wf :: "http_builder \<Rightarrow> bool" where
  "builder_wf b \<longleftrightarrow> (\<forall>s \<in> set (b_segs b). seg_ok s) \<and> query_wf (b_query b)"

text \<open>The calls a client can make on a builder, and a sequence of them.\<close>

datatype builder_call =
    CScheme string
  | CHost string
  | CPort int
  | CAddEncodedPathSegment string
  | CAddEncodedPathSegments string
  | CSetEncodedPathSegment int string
  | CRemovePathSegment int
  | CAddEncodedQueryParameter string string
  | CRemoveEncodedQueryParameterValue string string
  | CRemoveEncodedQueryParameter string
  | CAddEncodedFragment string
  | CParse string

fun do_builder_call :: "builder_call \<Rightarrow> (http_builder, unit) stm" where
  "do_builder_call (CScheme s) = smodify (Builder_Scheme s)"
| "do_builder_call (CHost h) = (\<lambda>b. case Builder_Host h b of Inl e \<Rightarrow> (Inl e, b) | Inr b' \<Rightarrow> (Inr (), b'))"
| "do_builder_call (CPort p) = smodify (Builder_Port p)"
| "do_builder_call (CAddEncodedPathSegment s) = smodify (Builder_AddEncodedPathSegment s)"
| "do_builder_call (CAddEncodedPathSegments s) = smodify (Builder_AddEncodedPathSegments s)"
| "do_builder_call (CSetEncodedPathSegment i s) = smodify (Builder_SetEncodedPathSegment i s)"
| "do_builder_call (CRemovePathSegment i) = smodify (Builder_RemovePathSegment i)"
| "do_builder_call (CAddEncodedQueryParameter n v) = smodify (Builder_AddEncodedQueryParameter n v)"
| "do_builder_call (CRemoveEncodedQueryParameterValue n v) =
     smodify (Builder_RemoveEncodedQueryParameterValue n v)"
| "do_builder_call (CRemoveEncodedQueryParameter n) = smodify (Builder_RemoveEncodedQueryParameter n)"
| "do_builder_call (CAddEncodedFragment f) = smodify (Builder_AddEncodedFragment f)"
| "do_builder_call (CParse u) = sbind (Builder_Parse u) (\<lambda>_. sret ())"

text \<open>
  A client may catch what \<^verbatim>\<open>Parse\<close> throws and go on with the builder, so the run goes
  on after an exception; undefined behaviour ends it.
\<close>

fun builder_run :: "http_builder \<Rightarrow> builder_call list \<Rightarrow> http_builder" where
  "builder_run b [] = b"
| "builder_run b (c # cs) =
     (case do_builder_call c b of
        (Inl (UB _), b') \<Rightarrow> b'
      | (_, b') \<Rightarrow> builder_run b' cs)"

lemma query_wf_Nil [simp]: "query_wf []"
  by (simp add: query_wf_def)

lemma query_wf_inv: "query_wf m \<Longrightarrow> omap_inv m"
  by (simp add: query_wf_def)

lemma query_wf_find:
  "query_wf m \<Longrightarrow> omap_find m n = Some vs \<Longrightarrow> n \<noteq> [] \<and> vs \<noteq> [] \<and> oset_inv vs"
  by (simp add: query_wf_def)

lemma query_wf_put:
  "query_wf m \<Longrightarrow> n \<noteq> [] \<Longrightarrow> vs \<noteq> [] \<Longrightarrow> oset_inv vs \<Longrightarrow> query_wf (omap_put n vs m)"
  by (auto simp: query_wf_def omap.invar_put omap.find_put)

lemma query_wf_erase: "query_wf m \<Longrightarrow> query_wf (omap_erase n m)"
  by (auto simp: query_wf_def omap.invar_erase omap.find_erase)

lemma wf_Builder_new [simp]: "builder_wf Builder_new"
  by (simp add: builder_wf_def Builder_new_def)

lemma wf_Clear: "builder_wf (Builder_Clear b)"
  by (simp add: builder_wf_def Builder_Clear_def)

lemma wf_Push: "builder_wf b \<Longrightarrow> builder_wf (Builder_Push s b)"
  by (auto simp: builder_wf_def Builder_Push_def Builder_Pop_def seg_ok_def dest: in_set_butlastD)

lemma wf_fold_Push: "builder_wf b \<Longrightarrow> builder_wf (fold Builder_Push ss b)"
  by (induction ss arbitrary: b) (simp_all add: wf_Push)

lemma wf_AddEncodedPathSegments: "builder_wf b \<Longrightarrow> builder_wf (Builder_AddEncodedPathSegments s b)"
  by (simp add: Builder_AddEncodedPathSegments_def wf_fold_Push)

lemma wf_SetEncodedPathSegment: "builder_wf b \<Longrightarrow> builder_wf (Builder_SetEncodedPathSegment i s b)"
  by (auto simp: builder_wf_def Builder_SetEncodedPathSegment_def seg_ok_def
      dest!: set_update_subset_insert [THEN subsetD])

lemma wf_RemovePathSegment: "builder_wf b \<Longrightarrow> builder_wf (Builder_RemovePathSegment i b)"
  by (auto simp: builder_wf_def Builder_RemovePathSegment_def dest: in_set_takeD in_set_dropD)

lemma wf_AddEncodedQueryParameter:
  "builder_wf b \<Longrightarrow> builder_wf (Builder_AddEncodedQueryParameter n v b)"
  by (auto simp: builder_wf_def Builder_AddEncodedQueryParameter_def oset_emplace_inv
      intro!: query_wf_put dest: query_wf_find split: option.splits)

lemma wf_RemoveEncodedQueryParameterValue:
  "builder_wf b \<Longrightarrow> builder_wf (Builder_RemoveEncodedQueryParameterValue n v b)"
  by (auto simp: builder_wf_def Builder_RemoveEncodedQueryParameterValue_def oset_erase_inv Let_def
      intro!: query_wf_put query_wf_erase dest: query_wf_find split: option.splits)

lemmas wf_setters = wf_Clear wf_Push wf_AddEncodedPathSegments wf_SetEncodedPathSegment
  wf_RemovePathSegment wf_AddEncodedQueryParameter wf_RemoveEncodedQueryParameterValue

lemma wf_simple_update:
  "builder_wf (b\<lparr>b_scheme := x\<rparr>) = builder_wf b"
  "builder_wf (b\<lparr>b_host := x\<rparr>) = builder_wf b"
  "builder_wf (b\<lparr>b_port := p\<rparr>) = builder_wf b"
  "builder_wf (b\<lparr>b_frag := x\<rparr>) = builder_wf b"
  by (simp_all add: builder_wf_def)

lemma wf_RemoveEncodedQueryParameter:
  "builder_wf b \<Longrightarrow> builder_wf (Builder_RemoveEncodedQueryParameter n b)"
  by (simp add: builder_wf_def Builder_RemoveEncodedQueryParameter_def query_wf_erase)

lemma wf_AddEncodedFragment: "builder_wf b \<Longrightarrow> builder_wf (Builder_AddEncodedFragment f b)"
  by (simp add: Builder_AddEncodedFragment_def wf_simple_update)

lemma keeps_parse_query: "skeeps builder_wf (parse_query url)"
  unfolding parse_query_def
  by (intro keeps_intros skeeps_foldl) (auto intro!: keeps_intros wf_AddEncodedQueryParameter)

lemma keeps_parse_rest:
  "skeeps builder_wf (parse_host_port scheme hp)"
  "skeeps builder_wf (parse_path hp)"
  "skeeps builder_wf (parse_fragment url)"
  unfolding parse_host_port_def parse_path_def parse_fragment_def Let_def
  by (intro keeps_intros; simp add: wf_simple_update wf_setters wf_AddEncodedFragment)+

lemma keeps_Parse: "skeeps builder_wf (Builder_Parse url)"
  unfolding Builder_Parse_def parse_tail_def Let_def
  by (intro keeps_intros keeps_parse_query keeps_parse_rest)
     (simp_all add: wf_simple_update wf_setters)

lemma keeps_do_builder_call: "skeeps builder_wf (do_builder_call c)"
proof (cases c)
  case (CHost h)
  then show ?thesis
    by (auto simp: skeeps_def Builder_Host_def wf_simple_update Let_def split: sum.splits)
qed (auto intro!: keeps_intros keeps_Parse simp: wf_setters wf_simple_update Builder_Scheme_def
      Builder_Port_def Builder_AddEncodedPathSegment_def wf_RemoveEncodedQueryParameter
      wf_AddEncodedFragment Let_def)

lemma wf_builder_run: "builder_wf b \<Longrightarrow> builder_wf (builder_run b cs)"
proof (induction cs arbitrary: b)
  case (Cons c cs)
  obtain r b' where c: "do_builder_call c b = (r, b')" by fastforce
  with Cons.prems have "builder_wf b'" by (rule skeepsD [OF keeps_do_builder_call])
  then show ?case using Cons.IH c by (auto split: sum.splits cpp_error.splits)
qed simp

end
