(* ===== verification/Http_Url_Parse.thy ===== *)
theory Http_Url_Parse
  imports Http_Url
begin

text \<open>
  What \<^verbatim>\<open>HttpUrl::Builder::Parse\<close> computes: each of its stages on a URL written as the
  concatenation of its parts, the inverse relation of \<^verbatim>\<open>Parse\<close> and \<^verbatim>\<open>ToString\<close>,
  when \<^verbatim>\<open>Parse\<close> throws, and what it does with a URL that has no path.
\<close>

section \<open>Trimming\<close>

definition strip_front :: "string \<Rightarrow> string" where
  "strip_front url = foldl (\<lambda>u c. dropWhile (\<lambda>d. d = c) u) url trim_chars"

definition strip_back :: "string \<Rightarrow> string" where
  "strip_back url = foldl (\<lambda>u c. rstrip c u) url trim_chars"

lemma trim_front_eq:
  assumes "str_ok url"
  shows "trim_front url = strip_front url"
proof -
  have "foldl (\<lambda>u c. erase_front u (str_find_first_not_of u c)) u cs =
        foldl (\<lambda>u c. dropWhile (\<lambda>d. d = c) u) u cs" if "str_ok u" for u cs
    using that
  proof (induction cs arbitrary: u)
    case (Cons c cs)
    have "str_ok (dropWhile (\<lambda>d. d = c) u)"
      using Cons.prems length_dropWhile_le [of "\<lambda>d. d = c" u] by linarith
    then show ?case using Cons by (simp add: erase_front_find)
  qed simp
  with assms show ?thesis by (simp add: trim_front_def strip_front_def)
qed

lemma trim_back_eq:
  assumes "str_ok url"
  shows "trim_back url = Inr (strip_back url)"
proof -
  have "foldl (\<lambda>r c. rbind r (\<lambda>u. erase_back u (size_add (str_find_last_not_of u c) 1))) (Inr u) cs =
        Inr (foldl (\<lambda>u c. rstrip c u) u cs)" if "str_ok u" for u cs
    using that
  proof (induction cs arbitrary: u)
    case (Cons c cs)
    have "str_ok (rstrip c u)"
      using Cons.prems length_rstrip [of c u] by linarith
    moreover have "erase_back u (size_add (str_find_last_not_of u c) 1) = Inr (rstrip c u)"
      using Cons.prems by (rule erase_back_find)
    ultimately show ?case using Cons.IH by (simp only: foldl_Cons rbind_simps)
  qed simp
  with assms show ?thesis by (simp add: trim_back_def strip_back_def)
qed

lemma strip_front_length: "length (strip_front url) \<le> length url"
proof -
  have "length (foldl (\<lambda>u c. dropWhile (\<lambda>d. d = c) u) u cs) \<le> length u" for u cs
  proof (induction cs arbitrary: u)
    case (Cons c cs)
    show ?case using Cons.IH [of "dropWhile (\<lambda>d. d = c) u"] length_dropWhile_le [of "\<lambda>d. d = c" u]
      by simp
  qed simp
  then show ?thesis by (simp add: strip_front_def)
qed

lemma trim_url_eq:
  "str_ok url \<Longrightarrow> trim_back (trim_front url) = Inr (strip_back (strip_front url))"
  using strip_front_length [of url] by (simp add: trim_front_eq trim_back_eq)

definition clean_ends :: "string \<Rightarrow> bool" where
  "clean_ends s \<longleftrightarrow> s = [] \<or> hd s \<notin> set trim_chars \<and> last s \<notin> set trim_chars"

lemma strip_clean: "clean_ends s \<Longrightarrow> strip_back (strip_front s) = s"
proof -
  assume c: "clean_ends s"
  have f: "dropWhile (\<lambda>d. d = x) s = s" if "x \<in> set trim_chars" for x
    using c that by (intro dropWhile_hd_id) (auto simp: clean_ends_def)
  have b: "rstrip x s = s" if "x \<in> set trim_chars" for x
    using c that by (intro rstrip_id) (auto simp: clean_ends_def)
  have "foldl (\<lambda>u c. dropWhile (\<lambda>d. d = c) u) s cs = s" if "set cs \<subseteq> set trim_chars" for cs
    using that by (induction cs) (simp_all add: f)
  moreover have "foldl (\<lambda>u c. rstrip c u) s cs = s" if "set cs \<subseteq> set trim_chars" for cs
    using that by (induction cs) (simp_all add: b)
  ultimately show ?thesis by (simp add: strip_back_def strip_front_def)
qed

section \<open>The stages of the parser\<close>

definition rest_ok :: "string \<Rightarrow> bool" where
  "rest_ok r \<longleftrightarrow> r = [] \<or> hd r = CHR ''?'' \<or> hd r = CHR ''#'' \<and> CHR ''?'' \<notin> set r"

lemma path_end_eq:
  assumes pre: "set pre \<inter> {CHR ''?'', CHR ''#''} = {}" and rest: "rest_ok rest"
    and ok: "str_ok (pre @ rest)"
  shows "path_end (pre @ rest) = length pre"
proof (cases rest)
  case Nil
  with pre show ?thesis by (simp add: path_end_def str_find_absent)
next
  case (Cons c cs)
  have lt: "length pre < npos" using ok by (simp add: Cons)
  have free: "CHR ''?'' \<notin> set pre" "CHR ''#'' \<notin> set pre" using pre by auto
  from rest Cons consider "c = CHR ''?''" | "c = CHR ''#''" "CHR ''?'' \<notin> set rest"
    by (auto simp: rest_ok_def)
  then show ?thesis
  proof cases
    case 1
    with lt show ?thesis
      by (simp add: path_end_def Cons str_find_at [OF free(1)])
  next
    case 2
    have "str_find (pre @ rest) CHR ''?'' = npos"
      using free(1) 2(2) by (intro str_find_absent) simp
    moreover have "str_find (pre @ rest) CHR ''#'' = length pre"
      using str_find_at [OF free(2), of cs] by (simp add: Cons 2(1))
    ultimately show ?thesis using lt by (simp add: path_end_def)
  qed
qed

lemma host_path_eq:
  assumes "set scheme \<inter> {CHR ''?'', CHR ''#''} = {}" "set hp \<inter> {CHR ''?'', CHR ''#''} = {}"
    and "rest_ok rest" and ok: "str_ok (scheme @ ''://'' @ hp @ rest)"
  shows "host_path (scheme @ ''://'' @ hp @ rest) scheme = Inr hp"
proof -
  let ?pre = "scheme @ ''://'' @ hp"
  have "path_end (?pre @ rest) = length ?pre"
    using assms by (intro path_end_eq) auto
  moreover have "size_add (length scheme) 3 = length scheme + 3"
    using ok less_npos_size_max [OF ok] by (intro size_add_small) simp
  moreover have "size_sub (length ?pre) (length scheme + 3) = length hp"
    using ok less_npos_size_max [OF ok] by (subst size_sub_small) simp_all
  ultimately show ?thesis
    unfolding host_path_def Let_def by (simp add: substr_ok)
qed

lemma port_string_eq:
  assumes "CHR ''/'' \<notin> set host" "CHR ''/'' \<notin> set p"
    and "path = [] \<or> hd path = CHR ''/''"
    and ok: "str_ok (host @ '':'' @ p @ path)"
  shows "port_string (host @ '':'' @ p @ path) (length host) = Inr p"
proof -
  let ?pre = "host @ '':'' @ p"
  have free: "CHR ''/'' \<notin> set ?pre" using assms(1,2) by simp
  have lt: "length host < npos" using ok by simp
  have sa: "size_add (length host) 1 = Suc (length host)"
    using less_npos_size_max [OF lt] by (simp add: size_add_small)
  show ?thesis
  proof (cases path)
    case Nil
    have "str_find ?pre CHR ''/'' = npos" using free by (rule str_find_absent)
    with ok Nil sa show ?thesis by (simp add: port_string_def substr_from_ok)
  next
    case (Cons c cs)
    with assms(3) have c: "c = CHR ''/''" by simp
    have l: "length ?pre < npos" using ok Cons by simp
    have "str_find (?pre @ c # cs) CHR ''/'' = length ?pre"
      unfolding c by (rule str_find_at [OF free])
    moreover have "size_sub (length ?pre) (Suc (length host)) = length p"
      using less_npos_size_max [OF l] by (subst size_sub_small) simp_all
    ultimately show ?thesis using l sa by (simp add: port_string_def Cons substr_ok)
  qed
qed

lemma parse_host_port_eq:
  assumes "CHR '':'' \<notin> set host" "CHR ''/'' \<notin> set host" "int n \<le> int32_max"
    and "path = [] \<or> hd path = CHR ''/''"
    and ok: "str_ok (host @ '':'' @ show_nat n @ path)"
  shows "parse_host_port scheme (host @ '':'' @ show_nat n @ path) b =
         (Inr (), b\<lparr>b_host := host, b_port := int n\<rparr>)"
proof -
  let ?hp = "host @ '':'' @ show_nat n @ path"
  have ps: "str_find ?hp CHR '':'' = length host"
    using str_find_at [OF assms(1), of "show_nat n @ path"] by simp
  have "CHR ''/'' \<notin> set (show_nat n)"
    using show_nat_digits [of n] by (auto simp: is_digit_def)
  then have p: "port_string ?hp (length host) = Inr (show_nat n)"
    using assms(2,4) ok by (intro port_string_eq)
  have at: "atoi (show_nat n) = Inr (int n)" using assms(3) by (rule atoi_show_nat)
  have ne: "length host \<noteq> npos" using ok by simp
  have h: "substr ?hp 0 (length host) = Inr host" by (simp add: substr_0)
  show ?thesis
    unfolding parse_host_port_def Let_def ps p h using ne by (simp add: at)
qed

lemma parse_path_eq:
  assumes "CHR ''/'' \<notin> set pre" and ok: "str_ok (pre @ ''/'' @ path)"
  shows "parse_path (pre @ ''/'' @ path) b = (Inr (), Builder_AddEncodedPathSegments path b)"
proof -
  have "str_find (pre @ CHR ''/'' # path) CHR ''/'' = length pre"
    using assms(1) by (rule str_find_at)
  moreover have "size_add (length pre) 1 = Suc (length pre)"
    using ok less_npos_size_max [OF ok] by (intro size_add_small [THEN trans]) simp_all
  ultimately show ?thesis
    using ok by (simp add: parse_path_def substr_from_ok Builder_AddEncodedPathSegments_def)
qed

text \<open>With no slash, \<^verbatim>\<open>pathStart + 1\<close> wraps to 0 and the path is the whole text.\<close>

lemma parse_path_no_slash:
  assumes "CHR ''/'' \<notin> set hp" "str_ok hp"
  shows "parse_path hp b = (Inr (), Builder_AddEncodedPathSegments hp b)"
  using assms by (simp add: parse_path_def str_find_absent substr_from_ok
      Builder_AddEncodedPathSegments_def)

lemma query_of_eq:
  assumes "set pre \<inter> {CHR ''?'', CHR ''#''} = {}" "CHR ''#'' \<notin> set q"
    and "fr = [] \<or> hd fr = CHR ''#''"
    and ok: "str_ok (pre @ ''?'' @ q @ fr)"
  shows "query_of (pre @ ''?'' @ q @ fr) = Inr q"
proof -
  have qs: "str_find (pre @ ''?'' @ q @ fr) CHR ''?'' = length pre"
    using assms(1) str_find_at [of "CHR ''?''" pre "q @ fr"] by auto
  have lt: "length pre < npos" using ok by simp
  have sa: "size_add (length pre) 1 = Suc (length pre)"
    using less_npos_size_max [OF lt] by (simp add: size_add_small)
  have free: "CHR ''#'' \<notin> set (pre @ ''?'' @ q)" using assms(1,2) by auto
  show ?thesis
  proof (cases fr)
    case Nil
    have "str_find (pre @ ''?'' @ q) CHR ''#'' = npos" using free by (rule str_find_absent)
    then show ?thesis using ok Nil qs sa lt by (simp add: query_of_def substr_from_ok)
  next
    case (Cons c cs)
    with assms(3) have c: "c = CHR ''#''" by simp
    have l: "length (pre @ ''?'' @ q) < npos" using ok Cons by simp
    have "str_find ((pre @ ''?'' @ q) @ c # cs) CHR ''#'' = length (pre @ ''?'' @ q)"
      unfolding c by (rule str_find_at [OF free])
    moreover have "size_sub (length (pre @ ''?'' @ q)) (Suc (length pre)) = length q"
      using less_npos_size_max [OF l] by (subst size_sub_small) simp_all
    ultimately show ?thesis using l lt qs sa Cons by (simp add: query_of_def substr_ok)
  qed
qed

lemma query_of_none: "CHR ''?'' \<notin> set url \<Longrightarrow> query_of url = Inr []"
  by (simp add: query_of_def str_find_absent)

lemma parse_fragment_eq:
  assumes "CHR ''#'' \<notin> set pre" and ok: "str_ok (pre @ ''#'' @ f)"
  shows "parse_fragment (pre @ ''#'' @ f) b = (Inr (), Builder_AddEncodedFragment f b)"
proof -
  have "str_find (pre @ CHR ''#'' # f) CHR ''#'' = length pre"
    using assms(1) by (rule str_find_at)
  moreover have "length pre < npos" using ok by simp
  moreover from this have "size_add (length pre) 1 = Suc (length pre)"
    using less_npos_size_max by (simp add: size_add_small)
  ultimately show ?thesis
    using ok by (simp add: parse_fragment_def substr_from_ok)
qed

lemma parse_fragment_none: "CHR ''#'' \<notin> set url \<Longrightarrow> parse_fragment url b = (Inr (), b)"
  by (simp add: parse_fragment_def str_find_absent)

section \<open>Path segments and query parameters\<close>

lemma tokens_concat_segs:
  "(\<forall>t \<in> set (s # ss). c \<notin> set t \<and> t \<noteq> []) \<Longrightarrow>
     tokens c (s @ concat (map (\<lambda>t. c # t) ss)) = s # ss"
proof (induction ss arbitrary: s)
  case Nil
  then show ?case by (simp add: tokens_single)
next
  case (Cons t ss)
  then show ?case by (simp add: tokens_append)
qed

lemma fold_Push_segs:
  "(\<forall>s \<in> set ss. seg_ok s) \<Longrightarrow> fold Builder_Push ss b = b\<lparr>b_segs := b_segs b @ ss\<rparr>"
  by (induction ss arbitrary: b) (simp_all add: Builder_Push_def seg_ok_def)

fun join :: "char \<Rightarrow> string list \<Rightarrow> string" where
  "join c [] = []"
| "join c [t] = t"
| "join c (t # ts) = t @ c # join c ts"

lemma join_Cons: "ts \<noteq> [] \<Longrightarrow> join c (t # ts) = t @ c # join c ts"
  by (cases ts) simp_all

lemma join_append: "xs \<noteq> [] \<Longrightarrow> ys \<noteq> [] \<Longrightarrow> join c (xs @ ys) = join c xs @ c # join c ys"
  by (induction c xs rule: join.induct) (simp_all add: join_Cons)

lemma tokens_join:
  "(\<forall>t \<in> set ts. c \<notin> set t \<and> t \<noteq> []) \<Longrightarrow> tokens c (join c ts) = ts"
  by (induction c ts rule: join.induct) (simp_all add: tokens_single tokens_append)

definition param_str :: "string \<times> string \<Rightarrow> string" where
  "param_str nv = fst nv @ ''='' @ snd nv"

definition pairs :: "(string \<times> string list) list \<Rightarrow> (string \<times> string) list" where
  "pairs m = concat (map (\<lambda>(n, vs). map (Pair n) vs) m)"

lemma values_str_join:
  "values_str n (i + length vs) i vs = join CHR ''&'' (map (\<lambda>v. param_str (n, v)) vs)"
proof (induction vs arbitrary: i)
  case (Cons v vs)
  show ?case using Cons.IH [of "Suc i"] by (cases vs) (simp_all add: param_str_def)
qed simp

lemma query_str_join:
  "(\<forall>(n, vs) \<in> set m. vs \<noteq> []) \<Longrightarrow>
     query_str (i + length m) i m = join CHR ''&'' (map param_str (pairs m))"
proof (induction m arbitrary: i)
  case Nil
  then show ?case by (simp add: pairs_def)
next
  case (Cons nv m)
  obtain n vs where nv: "nv = (n, vs)" by (cases nv)
  with Cons.prems have vs: "vs \<noteq> []" by auto
  have IH: "query_str (i + length (nv # m)) (Suc i) m = join CHR ''&'' (map param_str (pairs m))"
    using Cons.IH [of "Suc i"] Cons.prems by simp
  have v: "values_str n (length vs) 0 vs = join CHR ''&'' (map (\<lambda>v. param_str (n, v)) vs)"
    using values_str_join [of n 0 vs] by simp
  have p: "pairs (nv # m) = map (Pair n) vs @ pairs m" by (simp add: pairs_def nv)
  show ?case
  proof (cases m)
    case Nil
    with v vs show ?thesis by (simp add: nv pairs_def comp_def)
  next
    case (Cons nv' m')
    with \<open>\<forall>(n, vs) \<in> set (nv # m). vs \<noteq> []\<close> have "pairs m \<noteq> []"
      by (auto simp: pairs_def split: prod.splits)
    with vs have j: "join CHR ''&'' (map param_str (pairs (nv # m))) =
        join CHR ''&'' (map (\<lambda>v. param_str (n, v)) vs) @ CHR ''&'' # join CHR ''&'' (map param_str (pairs m))"
      unfolding p map_append by (subst join_append) (simp_all add: comp_def)
    have "query_str (i + length (nv # m)) i (nv # m) =
        values_str n (length vs) 0 vs @ ''&'' @ query_str (i + length (nv # m)) (Suc i) m"
      using vs by (simp add: nv Cons)
    with j v IH show ?thesis by simp
  qed
qed

lemma split_param_eq:
  assumes "CHR ''='' \<notin> set n" "str_ok (n @ ''='' @ v)"
  shows "split_param (param_str (n, v)) = Inr (n, v)"
proof -
  have "str_find (n @ CHR ''='' # v) CHR ''='' = length n"
    using assms(1) by (rule str_find_at)
  moreover have "length n < npos" using assms(2) by simp
  moreover from this have "size_add (length n) 1 = Suc (length n)"
    using less_npos_size_max by (simp add: size_add_small)
  ultimately show ?thesis
    using assms(2) by (simp add: split_param_def param_str_def substr_0 substr_from_ok)
qed

definition add_params :: "(string \<times> string) list \<Rightarrow> http_builder \<Rightarrow> http_builder" where
  "add_params ps b = fold (\<lambda>(n, v). Builder_AddEncodedQueryParameter n v) ps b"

lemma parse_query_tokens:
  assumes "query_of url = Inr q" "q \<noteq> []" "tokens CHR ''&'' q = map param_str ps"
    and sp: "\<forall>p \<in> set ps. split_param (param_str p) = Inr p"
  shows "parse_query url b = (Inr (), add_params ps b)"
proof -
  let ?f = "\<lambda>s. sbind (slift (split_param s)) (\<lambda>(n, v). smodify (Builder_AddEncodedQueryParameter n v))"
  have "foldl (\<lambda>m s. sbind m (\<lambda>_. ?f s)) m (map param_str ps) b = (Inr (), add_params ps b')"
    if "m b = (Inr (), b')" for m b'
    using that sp
  proof (induction ps arbitrary: m b')
    case (Cons p ps)
    obtain n v where p: "p = (n, v)" by (cases p)
    with Cons.prems have "sbind m (\<lambda>_. ?f (param_str p)) b = (Inr (), Builder_AddEncodedQueryParameter n v b')"
      by simp
    with Cons show ?case by (simp add: add_params_def p)
  qed (simp add: add_params_def)
  from this [of "sret ()" b] assms(1-3) show ?thesis
    by (simp add: parse_query_def)
qed

lemma add_values_last:
  assumes "\<forall>k \<in> fst ` set m. k < n" "n \<noteq> []" "oset_inv (us @ vs)" "us \<noteq> []"
  shows "add_params (map (Pair n) vs) (b\<lparr>b_query := m @ [(n, us)]\<rparr>) = b\<lparr>b_query := m @ [(n, us @ vs)]\<rparr>"
  using assms(3,4)
proof (induction vs arbitrary: us)
  case (Cons v vs)
  have fresh: "omap_find m n = None" using assms(1) by (auto simp: map_of_eq_None_iff)
  have "oset_emplace v us = us @ [v]"
    using Cons.prems(1) by (intro oset_emplace_last) (auto simp: sorted_wrt_append)
  then have "Builder_AddEncodedQueryParameter n v (b\<lparr>b_query := m @ [(n, us)]\<rparr>) =
      b\<lparr>b_query := m @ [(n, us @ [v])]\<rparr>"
    using assms(1,2) fresh
    by (simp add: Builder_AddEncodedQueryParameter_def omap_put_replace_last map_add_def)
  with Cons.IH [of "us @ [v]"] Cons.prems show ?case by (simp add: add_params_def)
qed (simp add: add_params_def)

lemma add_params_pairs:
  assumes "omap_inv (m @ m')" "\<forall>(n, vs) \<in> set m'. n \<noteq> [] \<and> vs \<noteq> [] \<and> oset_inv vs"
  shows "add_params (pairs m') (b\<lparr>b_query := m\<rparr>) = b\<lparr>b_query := m @ m'\<rparr>"
  using assms
proof (induction m' arbitrary: m)
  case Nil
  then show ?case by (simp add: add_params_def pairs_def)
next
  case (Cons nv m')
  obtain n v vs where nv: "nv = (n, v # vs)" and n: "n \<noteq> []" and vs: "oset_inv (v # vs)"
    using Cons.prems(2) by (cases nv; cases "snd nv") auto
  have lt: "\<forall>k \<in> fst ` set m. k < n"
    using Cons.prems(1) by (auto simp: sorted_wrt_append nv)
  then have fresh: "omap_find m n = None" by (auto simp: map_of_eq_None_iff)
  have first: "Builder_AddEncodedQueryParameter n v (b\<lparr>b_query := m\<rparr>) = b\<lparr>b_query := m @ [(n, [v])]\<rparr>"
    using n lt fresh by (simp add: Builder_AddEncodedQueryParameter_def omap_put_last)
  have "add_params (map (Pair n) vs) (b\<lparr>b_query := m @ [(n, [v])]\<rparr>) = b\<lparr>b_query := m @ [(n, v # vs)]\<rparr>"
    using add_values_last [of m n "[v]" vs b] lt n vs by simp
  moreover have "add_params (pairs m') (b\<lparr>b_query := m @ [nv]\<rparr>) = b\<lparr>b_query := (m @ [nv]) @ m'\<rparr>"
    using Cons.prems by (intro Cons.IH) auto
  ultimately show ?case
    using first by (simp add: add_params_def pairs_def nv)
qed

section \<open>Parse and ToString\<close>

text \<open>
  The builders whose printed form can be read back. The side conditions are exactly the
  places where the format has no escapes: separators inside a part, a fragment with a
  question mark when there is no query (the parser would take it for the start of one),
  white space at the end (trimmed), and an empty path (see \<open>parse_path_no_slash\<close>).
\<close>

definition url_canonical :: "http_builder \<Rightarrow> bool" where
  "url_canonical b \<longleftrightarrow>
     (b_scheme b = ''http'' \<or> b_scheme b = ''https'') \<and>
     set (b_host b) \<inter> {CHR '':'', CHR ''/'', CHR ''?'', CHR ''#''} = {} \<and>
     0 \<le> b_port b \<and> b_port b \<le> int32_max \<and>
     b_segs b \<noteq> [] \<and>
     (\<forall>s \<in> set (b_segs b). seg_ok s \<and> set s \<inter> {CHR ''/'', CHR ''?'', CHR ''#''} = {}) \<and>
     query_wf (b_query b) \<and>
     (\<forall>(n, vs) \<in> set (b_query b). set n \<inter> {CHR ''='', CHR ''&'', CHR ''#''} = {} \<and>
        (\<forall>v \<in> set vs. set v \<inter> {CHR ''&'', CHR ''#''} = {})) \<and>
     (b_query b = [] \<longrightarrow> CHR ''?'' \<notin> set (b_frag b)) \<and>
     last (Builder_ToString b) \<notin> set trim_chars \<and>
     length (Builder_ToString b) < npos"

text \<open>The parts of the printed form.\<close>

definition seg_text :: "string list \<Rightarrow> string" where
  "seg_text ss = concat (map (\<lambda>s. ''/'' @ s) ss)"

definition query_text :: "(string \<times> string list) list \<Rightarrow> string" where
  "query_text m = (if m \<noteq> [] then ''?'' @ query_str (length m) 0 m else [])"

definition frag_text :: "string \<Rightarrow> string" where
  "frag_text f = (if f \<noteq> [] then ''#'' @ f else [])"

lemma show_int_nonneg: "0 \<le> p \<Longrightarrow> show_int p = show_nat (nat p)"
  by (simp add: show_int_def)

lemma ToString_parts:
  assumes "CHR '':'' \<notin> set (b_host b)" "0 \<le> b_port b"
  shows "Builder_ToString b =
    b_scheme b @ ''://'' @ (b_host b @ '':'' @ show_nat (nat (b_port b)) @ seg_text (b_segs b))
      @ query_text (b_query b) @ frag_text (b_frag b)"
  using assms
  by (simp add: Builder_ToString_def str_find_absent show_int_nonneg seg_text_def query_text_def
      frag_text_def)

lemma query_wf_entries:
  assumes "query_wf m" "(n, vs) \<in> set m"
  shows "n \<noteq> [] \<and> vs \<noteq> [] \<and> oset_inv vs"
proof -
  have "omap_find m n = Some vs"
    using assms omap_inv_distinct [OF query_wf_inv [OF assms(1)]] by simp
  with assms(1) show ?thesis by (rule query_wf_find)
qed

lemma set_pairs: "(n, v) \<in> set (pairs m) \<longleftrightarrow> (\<exists>vs. (n, vs) \<in> set m \<and> v \<in> set vs)"
  by (fastforce simp: pairs_def)

lemma query_str_pairs:
  "query_wf m \<Longrightarrow> query_str (length m) 0 m = join CHR ''&'' (map param_str (pairs m))"
  using query_str_join [of m 0] query_wf_entries [of m] by fastforce

lemma join_not_Nil: "ts \<noteq> [] \<Longrightarrow> (\<forall>t \<in> set ts. t \<noteq> []) \<Longrightarrow> join c ts \<noteq> []"
  by (cases ts; cases "tl ts") auto

lemma set_join: "set (join c ts) \<subseteq> insert c (\<Union> (set ` set ts))"
  by (induction c ts rule: join.induct) auto

lemma length_join_elem: "t \<in> set ts \<Longrightarrow> length t \<le> length (join c ts)"
  by (induction c ts rule: join.induct) auto

lemma pairs_not_Nil: "query_wf m \<Longrightarrow> m \<noteq> [] \<Longrightarrow> pairs m \<noteq> []"
  using query_wf_entries [of m] by (cases m; fastforce simp: pairs_def)

lemma parse_query_text:
  assumes wf: "query_wf m" and ne: "m \<noteq> []"
    and free: "\<forall>(n, vs) \<in> set m. set n \<inter> {CHR ''='', CHR ''&'', CHR ''#''} = {} \<and>
                (\<forall>v \<in> set vs. set v \<inter> {CHR ''&'', CHR ''#''} = {})"
    and pre: "set pre \<inter> {CHR ''?'', CHR ''#''} = {}"
    and fr: "fr = [] \<or> hd fr = CHR ''#''"
    and ok: "str_ok (pre @ query_text m @ fr)"
  shows "parse_query (pre @ query_text m @ fr) (b\<lparr>b_query := []\<rparr>) = (Inr (), b\<lparr>b_query := m\<rparr>)"
proof -
  let ?ts = "map param_str (pairs m)"
  let ?q = "join CHR ''&'' ?ts"
  have qt: "query_text m = ''?'' @ ?q"
    using ne by (simp add: query_text_def query_str_pairs [OF wf])
  have p: "set n \<inter> {CHR ''='', CHR ''&'', CHR ''#''} = {} \<and> set v \<inter> {CHR ''&'', CHR ''#''} = {}"
    if "(n, v) \<in> set (pairs m)" for n v
    using that free by (fastforce simp: set_pairs)
  have tok: "\<forall>t \<in> set ?ts. CHR ''&'' \<notin> set t \<and> CHR ''#'' \<notin> set t \<and> t \<noteq> []"
  proof
    fix t assume "t \<in> set ?ts"
    then obtain n v where nv: "(n, v) \<in> set (pairs m)" "t = param_str (n, v)" by auto
    then show "CHR ''&'' \<notin> set t \<and> CHR ''#'' \<notin> set t \<and> t \<noteq> []"
      using p [OF nv(1)] by (auto simp: param_str_def)
  qed
  have "CHR ''#'' \<notin> set ?q" using tok set_join [of "CHR ''&''" ?ts] by auto
  then have "query_of (pre @ ''?'' @ ?q @ fr) = Inr ?q"
    using pre fr ok by (intro query_of_eq) (simp_all add: qt)
  moreover have "?q \<noteq> []"
    using tok pairs_not_Nil [OF wf ne] by (intro join_not_Nil) auto
  moreover have "tokens CHR ''&'' ?q = ?ts" using tok by (intro tokens_join) blast
  moreover have "\<forall>nv \<in> set (pairs m). split_param (param_str nv) = Inr nv"
  proof
    fix nv assume nv: "nv \<in> set (pairs m)"
    obtain n v where n: "nv = (n, v)" by (cases nv)
    have "length (param_str nv) \<le> length ?q" using nv by (intro length_join_elem) simp
    then have "str_ok (n @ ''='' @ v)" using ok by (simp add: qt n param_str_def)
    then show "split_param (param_str nv) = Inr nv"
      using p [of n v] nv unfolding n by (intro split_param_eq) auto
  qed
  ultimately have "parse_query (pre @ ''?'' @ ?q @ fr) (b\<lparr>b_query := []\<rparr>) =
      (Inr (), add_params (pairs m) (b\<lparr>b_query := []\<rparr>))"
    by (rule parse_query_tokens)
  moreover have "add_params (pairs m) (b\<lparr>b_query := []\<rparr>) = b\<lparr>b_query := m\<rparr>"
    using add_params_pairs [of "[]" m b] query_wf_inv [OF wf] query_wf_entries [OF wf] by fastforce
  ultimately show ?thesis by (simp add: qt)
qed

lemma Parse_stages:
  assumes scheme: "scheme = ''http'' \<or> scheme = ''https''"
    and hp: "hp \<noteq> []" "set hp \<inter> {CHR ''?'', CHR ''#''} = {}"
    and rest: "rest_ok rest"
    and url: "url = scheme @ ''://'' @ hp @ rest"
    and ok: "str_ok url" and last: "last url \<notin> set trim_chars"
  shows "Builder_Parse url b =
    sbind (parse_host_port scheme hp) (\<lambda>_. sbind (parse_path hp) (\<lambda>_.
      sbind (parse_query url) (\<lambda>_. sbind (parse_fragment url) (\<lambda>_. sret True))))
      ((Builder_Clear b)\<lparr>b_scheme := scheme\<rparr>)"
proof -
  have len: "7 < length url" using scheme hp(1) by (auto simp: url Suc_le_eq)
  then have ne: "url \<noteq> []" by auto
  have "hd url \<notin> set trim_chars" using scheme by (auto simp: url trim_chars_def)
  with last have "clean_ends url" by (simp add: clean_ends_def)
  then have trim: "trim_back (trim_front url) = Inr url"
    using ok by (simp add: trim_url_eq strip_clean)
  have "takeWhile (\<lambda>d. d \<noteq> CHR '':'') url = scheme"
    using scheme by (auto simp: url)
  then have sch: "substr url 0 (str_find url CHR '':'') = Inr scheme"
    using substr_find [OF ok, of "CHR '':''"] by simp
  have low: "map tolower scheme = scheme" "scheme \<noteq> []"
    using scheme by (auto simp: tolower_def)
  have "host_path url scheme = Inr hp"
    unfolding url using scheme hp(2) rest ok [unfolded url]
    by (intro host_path_eq) (auto simp: rest_ok_def)
  with len ne trim sch low scheme hp(1) show ?thesis
    unfolding Builder_Parse_def parse_tail_def Let_def by auto
qed

text \<open>The text between \<^verbatim>\<open>://\<close> and the query, and the stages on it.\<close>

definition hp_text :: "http_builder \<Rightarrow> string" where
  "hp_text b = b_host b @ '':'' @ show_nat (nat (b_port b)) @ seg_text (b_segs b)"

lemma canonical_facts:
  assumes "url_canonical b"
  shows "b_scheme b = ''http'' \<or> b_scheme b = ''https''"
    and "CHR '':'' \<notin> set (b_host b)" "CHR ''/'' \<notin> set (b_host b)"
    and "0 \<le> b_port b" "b_port b \<le> int32_max" "b_segs b \<noteq> []"
    and "query_wf (b_query b)"
    and "last (Builder_ToString b) \<notin> set trim_chars" "str_ok (Builder_ToString b)"
  using assms by (auto simp: url_canonical_def)

lemma port_text_free: "set (show_nat n) \<inter> {CHR '':'', CHR ''/'', CHR ''?'', CHR ''#''} = {}"
  using show_nat_digits [of n] by (auto simp: is_digit_def)

lemma canonical_hp_free:
  assumes "url_canonical b"
  shows "set (hp_text b) \<inter> {CHR ''?'', CHR ''#''} = {}"
proof -
  have "set (seg_text (b_segs b)) \<inter> {CHR ''?'', CHR ''#''} = {}"
    "set (b_host b) \<inter> {CHR ''?'', CHR ''#''} = {}"
    using assms by (auto simp: seg_text_def url_canonical_def)
  then show ?thesis using port_text_free [of "nat (b_port b)"] by (auto simp: hp_text_def)
qed

lemma canonical_url:
  assumes "url_canonical b"
  shows "Builder_ToString b = b_scheme b @ ''://'' @ hp_text b @ query_text (b_query b) @ frag_text (b_frag b)"
  using ToString_parts [of b] canonical_facts [OF assms] by (simp add: hp_text_def)

lemma canonical_rest:
  "url_canonical b \<Longrightarrow> rest_ok (query_text (b_query b) @ frag_text (b_frag b))"
  by (auto simp: url_canonical_def rest_ok_def query_text_def frag_text_def)

lemma canonical_hp_ok: "url_canonical b \<Longrightarrow> str_ok (hp_text b)"
  using canonical_url [of b] canonical_facts(9) [of b] by simp

lemma seg_text_Cons: "seg_text (s # ss) = ''/'' @ s @ concat (map (\<lambda>t. CHR ''/'' # t) ss)"
  by (simp add: seg_text_def)

lemma canonical_host_stage:
  assumes "url_canonical b"
  shows "parse_host_port (b_scheme b) (hp_text b) x = (Inr (), x\<lparr>b_host := b_host b, b_port := b_port b\<rparr>)"
proof -
  have "seg_text (b_segs b) = [] \<or> hd (seg_text (b_segs b)) = CHR ''/''"
    by (cases "b_segs b") (simp_all add: seg_text_def)
  then show ?thesis
    using parse_host_port_eq [of "b_host b" "nat (b_port b)" "seg_text (b_segs b)" "b_scheme b" x]
      canonical_facts [OF assms] canonical_hp_ok [OF assms] by (simp add: hp_text_def)
qed

lemma canonical_path_stage:
  assumes c: "url_canonical b" and x: "b_segs x = []"
  shows "parse_path (hp_text b) x = (Inr (), x\<lparr>b_segs := b_segs b\<rparr>)"
proof -
  let ?pre = "b_host b @ '':'' @ show_nat (nat (b_port b))"
  obtain s ss where ss: "b_segs b = s # ss" using canonical_facts(6) [OF c] by (cases "b_segs b") auto
  let ?path = "s @ concat (map (\<lambda>t. CHR ''/'' # t) ss)"
  have hp: "hp_text b = ?pre @ ''/'' @ ?path" by (simp add: hp_text_def ss seg_text_Cons)
  have segs: "\<forall>t \<in> set (s # ss). seg_ok t \<and> CHR ''/'' \<notin> set t"
    using c by (auto simp: url_canonical_def ss)
  have "CHR ''/'' \<notin> set ?pre"
    using canonical_facts(3) [OF c] port_text_free [of "nat (b_port b)"] by auto
  then have "parse_path (hp_text b) x = (Inr (), Builder_AddEncodedPathSegments ?path x)"
    unfolding hp using canonical_hp_ok [OF c, unfolded hp] by (rule parse_path_eq)
  moreover have "tokens CHR ''/'' ?path = s # ss"
    using segs by (intro tokens_concat_segs) (auto simp: seg_ok_def)
  ultimately show ?thesis
    using segs fold_Push_segs [of "s # ss" x] x
    by (simp add: Builder_AddEncodedPathSegments_def ss seg_ok_def)
qed

lemma canonical_query_stage:
  assumes c: "url_canonical b" and x: "b_query x = []"
  shows "parse_query (Builder_ToString b) x = (Inr (), x\<lparr>b_query := b_query b\<rparr>)"
proof (cases "b_query b = []")
  case True
  then have "CHR ''?'' \<notin> set (Builder_ToString b)"
    using c canonical_facts(1) [OF c] canonical_hp_free [OF c] unfolding canonical_url [OF c]
    by (auto simp: query_text_def frag_text_def url_canonical_def)
  then show ?thesis using True x by (simp add: parse_query_def query_of_none)
next
  case False
  let ?pre = "b_scheme b @ ''://'' @ hp_text b"
  have "set ?pre \<inter> {CHR ''?'', CHR ''#''} = {}"
    using canonical_facts(1) [OF c] canonical_hp_free [OF c] by auto
  moreover have "frag_text (b_frag b) = [] \<or> hd (frag_text (b_frag b)) = CHR ''#''"
    by (simp add: frag_text_def)
  moreover have "x\<lparr>b_query := []\<rparr> = x" using x by simp
  ultimately show ?thesis
    using parse_query_text [of "b_query b" ?pre "frag_text (b_frag b)" x] False
      canonical_facts(7,9) [OF c] c unfolding canonical_url [OF c] by (simp add: url_canonical_def)
qed

lemma canonical_query_free:
  assumes c: "url_canonical b"
  shows "CHR ''#'' \<notin> set (query_text (b_query b))"
proof -
  have "CHR ''#'' \<notin> set t" if "t \<in> set (map param_str (pairs (b_query b)))" for t
    using that c by (fastforce simp: set_pairs param_str_def url_canonical_def)
  then show ?thesis
    using set_join [of "CHR ''&''" "map param_str (pairs (b_query b))"]
    by (auto simp: query_text_def query_str_pairs [OF canonical_facts(7) [OF c]])
qed

lemma canonical_frag_stage:
  assumes c: "url_canonical b" and x: "b_frag x = []"
  shows "parse_fragment (Builder_ToString b) x = (Inr (), x\<lparr>b_frag := b_frag b\<rparr>)"
proof -
  let ?pre = "b_scheme b @ ''://'' @ hp_text b @ query_text (b_query b)"
  have free: "CHR ''#'' \<notin> set ?pre"
    using canonical_facts(1) [OF c] canonical_hp_free [OF c] canonical_query_free [OF c] by auto
  show ?thesis
  proof (cases "b_frag b = []")
    case True
    then have "CHR ''#'' \<notin> set (Builder_ToString b)"
      using free unfolding canonical_url [OF c] by (simp add: frag_text_def)
    then show ?thesis using True x by (simp add: parse_fragment_none)
  next
    case False
    then have u: "Builder_ToString b = ?pre @ ''#'' @ b_frag b"
      by (simp add: canonical_url [OF c] frag_text_def)
    show ?thesis
      using parse_fragment_eq [OF free, of "b_frag b" x, folded u, OF canonical_facts(9) [OF c]] False
      by (simp add: Builder_AddEncodedFragment_def)
  qed
qed

lemma Parse_canonical:
  assumes c: "url_canonical b"
  shows "Builder_Parse (Builder_ToString b) b0 = (Inr True, b)"
proof -
  have ne: "hp_text b \<noteq> []" by (simp add: hp_text_def)
  note stages = canonical_host_stage [OF c] canonical_path_stage [OF c]
    canonical_query_stage [OF c] canonical_frag_stage [OF c]
  show ?thesis
    using Parse_stages [OF canonical_facts(1) [OF c] ne canonical_hp_free [OF c] canonical_rest [OF c]
        canonical_url [OF c] canonical_facts(9,8) [OF c], of b0] stages
    by (simp add: Builder_Clear_def)
qed

section \<open>When the parser throws\<close>

lemma substr_nothrow: "pos \<le> length s \<Longrightarrow> substr s pos n \<noteq> Inl (Exn e)"
  by (simp add: substr_ok)

lemma substr_0_nothrow: "substr s 0 n \<noteq> Inl (Exn e)"
  by (simp add: substr_0)

lemma atoi_nothrow: "atoi s \<noteq> Inl (Exn e)"
  by (simp add: atoi_def Let_def)

text \<open>A position found by \<^verbatim>\<open>find\<close>, or \<^verbatim>\<open>npos\<close>, plus one is a position of the string.\<close>

lemma find_next_le:
  assumes "str_ok s"
  shows "size_add (str_find s c) 1 \<le> length s"
proof (cases "c \<in> set s")
  case True
  then have "str_find s c < length s" by (rule str_find_present)
  then show ?thesis
    using assms less_npos_size_max [of "str_find s c"] by (simp add: size_add_small Suc_le_eq)
next
  case False
  then show ?thesis by (simp add: str_find_absent)
qed

lemmas find_nothrow = substr_nothrow [OF find_next_le, unfolded One_nat_def]
  substr_nothrow [OF find_next_le, of _ _ npos, folded substr_from_def, unfolded One_nat_def]

lemma port_string_nothrow: "str_ok hp \<Longrightarrow> port_string hp (str_find hp CHR '':'') \<noteq> Inl (Exn e)"
  by (simp add: port_string_def Let_def find_nothrow)

lemma stages_nothrow:
  assumes "str_ok hp"
  shows "nothrow (parse_host_port scheme hp)" "nothrow (parse_path hp)"
    and "nothrow (parse_fragment hp)" "query_of hp \<noteq> Inl (Exn e)"
  unfolding parse_host_port_def parse_path_def parse_fragment_def query_of_def Let_def
  using assms
  by (auto intro!: nothrow_intros simp: find_nothrow substr_0_nothrow port_string_nothrow atoi_nothrow)

lemma split_param_nothrow: "str_ok s \<Longrightarrow> split_param s \<noteq> Inl (Exn e)"
  by (auto simp: split_param_def Let_def substr_0 rbind_Inl_iff find_nothrow)

lemma split_on_length: "t \<in> set (split_on c s) \<Longrightarrow> length t \<le> length s"
proof (induction s arbitrary: t)
  case (Cons x xs)
  then show ?case by (cases "split_on c xs") (fastforce split: if_splits)+
qed simp

lemma query_of_length: "query_of url = Inr q \<Longrightarrow> length q \<le> length url"
  by (auto simp: query_of_def Let_def substr_from_def substr_def split: if_splits)

lemma parse_query_nothrow:
  assumes ok: "str_ok url"
  shows "nothrow (parse_query url)"
proof (cases "query_of url")
  case (Inl e)
  have "e \<noteq> Exn x" for x using stages_nothrow(4) [OF ok, of x] Inl by simp
  then show ?thesis
    by (simp add: parse_query_def Inl nothrow_def)
next
  case (Inr q)
  have "str_ok t" if "t \<in> set (tokens CHR ''&'' q)" for t
    using that split_on_length [of t "CHR ''&''" q] query_of_length [OF Inr] ok
    by (auto simp: tokens_def)
  then have "nothrow (foldl (\<lambda>m s. sbind m (\<lambda>_. sbind (slift (split_param s)) (\<lambda>(n, v).
      smodify (Builder_AddEncodedQueryParameter n v)))) (sret ()) (tokens CHR ''&'' q))"
    by (intro nothrow_foldl) (auto intro!: nothrow_intros simp: split_param_nothrow)
  then show ?thesis
    by (auto simp: parse_query_def Inr nothrow_def)
qed

definition trimmed :: "string \<Rightarrow> string" where
  "trimmed url = strip_back (strip_front url)"

definition scheme_of :: "string \<Rightarrow> string" where
  "scheme_of u = map tolower (takeWhile (\<lambda>c. c \<noteq> CHR '':'') u)"

lemma strip_back_length: "length (strip_back url) \<le> length url"
proof -
  have "length (foldl (\<lambda>u c. rstrip c u) u cs) \<le> length u" for u cs
  proof (induction cs arbitrary: u)
    case (Cons c cs)
    show ?case using Cons.IH [of "rstrip c u"] length_rstrip [of c u] by simp
  qed simp
  then show ?thesis by (simp add: strip_back_def)
qed

lemma trimmed_length: "length (trimmed url) \<le> length url"
  unfolding trimmed_def by (rule order_trans [OF strip_back_length strip_front_length])

lemma Parse_unfold:
  assumes "str_ok url"
  shows "Builder_Parse url b =
    (if length url \<le> 7 then (Inr False, b)
     else let u = trimmed url; s = scheme_of u in
       if s \<noteq> ''http'' \<and> s \<noteq> ''https'' then (Inr False, Builder_Clear b)
       else sbind (slift (host_path u s)) (parse_tail u s) ((Builder_Clear b)\<lparr>b_scheme := s\<rparr>))"
proof -
  have ok: "str_ok (trimmed url)" using assms trimmed_length [of url] by simp
  have "trim_back (trim_front url) = Inr (trimmed url)"
    unfolding trimmed_def using assms by (rule trim_url_eq)
  moreover have "substr (trimmed url) 0 (str_find (trimmed url) CHR '':'') =
      Inr (takeWhile (\<lambda>c. c \<noteq> CHR '':'') (trimmed url))"
    using ok by (rule substr_find)
  ultimately show ?thesis
    by (cases "takeWhile (\<lambda>c. c \<noteq> CHR '':'') (trimmed url) = []")
       (auto simp: Builder_Parse_def Let_def scheme_of_def)
qed

lemma parse_tail_nothrow: "str_ok url \<Longrightarrow> str_ok hp \<Longrightarrow> nothrow (parse_tail url scheme hp)"
  unfolding parse_tail_def
  by (intro nothrow_intros stages_nothrow parse_query_nothrow)

lemma host_path_cases:
  assumes "str_ok u" "length s \<le> 5"
  shows "length u < length s + 3 \<Longrightarrow> host_path u s = Inl (Exn OutOfRange)"
    and "length s + 3 \<le> length u \<Longrightarrow> \<exists>hp. host_path u s = Inr hp \<and> length hp \<le> length u"
proof -
  have "size_add (length s) 3 = length s + 3"
    using assms(2) by (intro size_add_small) (simp add: size_max_def)
  then show "length u < length s + 3 \<Longrightarrow> host_path u s = Inl (Exn OutOfRange)"
    and "length s + 3 \<le> length u \<Longrightarrow> \<exists>hp. host_path u s = Inr hp \<and> length hp \<le> length u"
    by (simp_all add: host_path_def substr_def Let_def)
qed

lemma Parse_throws_lemma:
  assumes ok: "str_ok url"
  shows "(\<exists>b'. Builder_Parse url b = (Inl (Exn e), b')) \<longleftrightarrow>
    e = OutOfRange \<and> 7 < length url \<and>
    (scheme_of (trimmed url) = ''http'' \<or> scheme_of (trimmed url) = ''https'') \<and>
    length (trimmed url) < length (scheme_of (trimmed url)) + 3"
proof -
  let ?u = "trimmed url" and ?s = "scheme_of (trimmed url)"
  have u: "str_ok ?u" using ok trimmed_length [of url] by simp
  show ?thesis
  proof (cases "7 < length url \<and> (?s = ''http'' \<or> ?s = ''https'')")
    case False
    then show ?thesis by (auto simp: Parse_unfold [OF ok] Let_def)
  next
    case True
    then have l: "length ?s \<le> 5" by auto
    show ?thesis
    proof (cases "length ?u < length ?s + 3")
      case lt: True
      with True show ?thesis
        by (auto simp: Parse_unfold [OF ok] Let_def host_path_cases(1) [OF u l])
    next
      case False
      then obtain hp where hp: "host_path ?u ?s = Inr hp" "length hp \<le> length ?u"
        using host_path_cases(2) [OF u l] by auto
      then have "nothrow (parse_tail ?u ?s hp)" using u by (intro parse_tail_nothrow) simp_all
      with False True hp(1) show ?thesis
        by (auto simp: Parse_unfold [OF ok] Let_def dest: nothrowD)
    qed
  qed
qed

section \<open>The accessors that cut the printed form\<close>

lemma str_find_from_at:
  "length pre = n \<Longrightarrow> c \<notin> set xs \<Longrightarrow> str_find_from (pre @ xs @ c # ys) c n = n + length xs"
proof -
  assume "length pre = n" "c \<notin> set xs"
  moreover from this have "find_idx (\<lambda>d. d = c) (xs @ c # ys) = Some (length xs)"
    by (intro find_idx_append_stop) auto
  ultimately show ?thesis by (auto simp: str_find_from_def)
qed

lemma EncodedPath_canonical:
  assumes c: "url_canonical b"
  shows "HttpUrl_EncodedPath (HttpUrl_of_builder b) = Inr (seg_text (b_segs b))"
proof -
  let ?auth = "b_host b @ '':'' @ show_nat (nat (b_port b))" and ?sch = "b_scheme b @ ''://''"
  let ?rest = "query_text (b_query b) @ frag_text (b_frag b)"
  obtain t where seg: "seg_text (b_segs b) = CHR ''/'' # t"
    using canonical_facts(6) [OF c] by (cases "b_segs b") (auto simp: seg_text_Cons)
  have ok: "str_ok (?sch @ hp_text b @ ?rest)"
    using canonical_facts(9) [OF c] by (simp add: canonical_url [OF c])
  have "CHR ''/'' \<notin> set ?auth"
    using canonical_facts(3) [OF c] port_text_free [of "nat (b_port b)"] by auto
  then have start: "str_find_from (Builder_ToString b) CHR ''/'' (length ?sch) = length (?sch @ ?auth)"
    using str_find_from_at [of ?sch "length ?sch" "CHR ''/''" ?auth "t @ ?rest"]
    by (simp add: canonical_url [OF c] hp_text_def seg)
  have "path_end ((?sch @ hp_text b) @ ?rest) = length (?sch @ hp_text b)"
    using canonical_facts(1) [OF c] canonical_hp_free [OF c] canonical_rest [OF c] ok
    by (intro path_end_eq) auto
  then have pend: "path_end (Builder_ToString b) = length (?sch @ hp_text b)"
    by (simp add: canonical_url [OF c])
  have "size_add (length (b_scheme b)) 3 = length ?sch"
    using less_npos_size_max [OF ok] by (subst size_add_small) simp_all
  moreover have "size_sub (length (?sch @ hp_text b)) (length (?sch @ ?auth)) = length (seg_text (b_segs b))"
    using less_npos_size_max [OF ok] by (subst size_sub_small) (simp_all add: hp_text_def)
  ultimately have "HttpUrl_EncodedPath (HttpUrl_of_builder b) =
      substr (Builder_ToString b) (length (?sch @ ?auth)) (length (seg_text (b_segs b)))"
    unfolding HttpUrl_EncodedPath_def Let_def by (simp only: of_builder_sel start pend)
  also have "Builder_ToString b = (?sch @ ?auth) @ seg_text (b_segs b) @ ?rest"
    by (simp add: canonical_url [OF c] hp_text_def)
  finally show ?thesis by (simp only: substr_mid)
qed

lemma EncodedQuery_canonical:
  assumes c: "url_canonical b" and q: "b_query b \<noteq> []"
  shows "HttpUrl_EncodedQuery (HttpUrl_of_builder b) = Inr (query_str (length (b_query b)) 0 (b_query b))"
proof -
  let ?pre = "b_scheme b @ ''://'' @ hp_text b"
  have qt: "query_text (b_query b) = ''?'' @ query_str (length (b_query b)) 0 (b_query b)"
    using q by (simp add: query_text_def)
  have u: "Builder_ToString b = ?pre @ ''?'' @ query_str (length (b_query b)) 0 (b_query b) @ frag_text (b_frag b)"
    by (simp add: canonical_url [OF c] qt)
  have "query_of (Builder_ToString b) = Inr (query_str (length (b_query b)) 0 (b_query b))"
    unfolding u using canonical_facts(1) [OF c] canonical_hp_free [OF c] canonical_query_free [OF c]
      canonical_facts(9) [OF c]
    by (intro query_of_eq) (auto simp: qt frag_text_def u)
  moreover have "HttpUrl_EncodedQuery (HttpUrl_of_builder b) = query_of (Builder_ToString b)"
    by (simp add: HttpUrl_EncodedQuery_def query_of_def HttpUrl_of_builder_def HttpUrl_Init_def Let_def)
  ultimately show ?thesis by simp
qed

section \<open>The query as a set of parameters\<close>

text \<open>The abstract view of a builder's query: the set of its name-value pairs.\<close>

definition abs_query :: "http_builder \<Rightarrow> (string \<times> string) set" where
  "abs_query b = set (pairs (b_query b))"

lemma abs_query_iff:
  "builder_wf b \<Longrightarrow> (n, v) \<in> abs_query b \<longleftrightarrow> (\<exists>vs. omap_find (b_query b) n = Some vs \<and> v \<in> set vs)"
  using omap_inv_distinct [OF query_wf_inv, of "b_query b"]
  by (auto simp: abs_query_def set_pairs builder_wf_def dest: map_of_SomeD intro: map_of_is_SomeI)

lemma abs_AddEncodedQueryParameter:
  assumes "builder_wf b" "n \<noteq> []"
  shows "abs_query (Builder_AddEncodedQueryParameter n v b) = insert (n, v) (abs_query b)"
proof -
  have "(n', v') \<in> abs_query (Builder_AddEncodedQueryParameter n v b) \<longleftrightarrow>
      (n', v') = (n, v) \<or> (n', v') \<in> abs_query b" for n' v'
    using assms wf_AddEncodedQueryParameter [OF assms(1), of n v]
    by (auto simp: abs_query_iff Builder_AddEncodedQueryParameter_def omap_find_put split: option.splits if_splits)
  then show ?thesis by auto
qed

lemma abs_RemoveEncodedQueryParameterValue:
  assumes "builder_wf b" "n \<noteq> []"
  shows "abs_query (Builder_RemoveEncodedQueryParameterValue n v b) = abs_query b - {(n, v)}"
proof -
  have "(n', v') \<in> abs_query (Builder_RemoveEncodedQueryParameterValue n v b) \<longleftrightarrow>
      (n', v') \<in> abs_query b - {(n, v)}" for n' v'
  proof (cases "omap_find (b_query b) n")
    case None
    with assms show ?thesis
      by (auto simp: Builder_RemoveEncodedQueryParameterValue_def abs_query_iff)
  next
    case (Some vs)
    have e: "(oset_erase v vs = []) = (set vs \<subseteq> {v})"
      by (metis Diff_eq_empty_iff set_empty set_oset_erase)
    show ?thesis
      using assms Some wf_RemoveEncodedQueryParameterValue [OF assms(1), of n v]
      by (auto simp: abs_query_iff Builder_RemoveEncodedQueryParameterValue_def omap_find_put
          omap_find_erase Let_def e split: if_splits)
  qed
  then show ?thesis by auto
qed

lemma abs_RemoveEncodedQueryParameter:
  assumes "builder_wf b" "n \<noteq> []"
  shows "abs_query (Builder_RemoveEncodedQueryParameter n b) = abs_query b - {n} \<times> UNIV"
proof -
  have "(n', v') \<in> abs_query (Builder_RemoveEncodedQueryParameter n b) \<longleftrightarrow>
      (n', v') \<in> abs_query b - {n} \<times> UNIV" for n' v'
    using assms wf_RemoveEncodedQueryParameter [OF assms(1), of n]
    by (auto simp: abs_query_iff Builder_RemoveEncodedQueryParameter_def omap_find_erase split: if_splits)
  then show ?thesis by auto
qed

section \<open>A URL without a path\<close>

lemma Parse_no_path_lemma:
  assumes sch: "scheme = ''http'' \<or> scheme = ''https''"
    and host: "set host \<inter> {CHR '':'', CHR ''/'', CHR ''?'', CHR ''#''} = {}" "seg_ok host"
    and ok: "str_ok (scheme @ ''://'' @ host)" and last: "last host \<notin> set trim_chars"
  shows "Builder_Parse (scheme @ ''://'' @ host) b =
    (Inr True, \<lparr>b_scheme = scheme, b_host = host, b_port = DefaultPort scheme, b_segs = [host],
                b_query = [], b_frag = []\<rparr>)"
proof -
  let ?url = "scheme @ ''://'' @ host"
  have ne: "host \<noteq> []" using host(2) by (simp add: seg_ok_def)
  have free: "CHR ''?'' \<notin> set ?url" "CHR ''#'' \<notin> set ?url" using sch host(1) by auto
  have hok: "str_ok host" using ok by simp
  have "parse_host_port scheme host x = (Inr (), x\<lparr>b_port := DefaultPort scheme, b_host := host\<rparr>)" for x
    using host(1) by (simp add: parse_host_port_def str_find_absent)
  moreover have "parse_path host x = (Inr (), x\<lparr>b_segs := b_segs x @ [host]\<rparr>)" for x
    using host ne hok
    by (simp add: parse_path_no_slash Builder_AddEncodedPathSegments_def tokens_single Builder_Push_def
        seg_ok_def)
  moreover have "parse_query ?url x = (Inr (), x)" for x
    using free by (simp add: parse_query_def query_of_none del: append_Cons)
  moreover have "parse_fragment ?url x = (Inr (), x)" for x
    using free by (simp add: parse_fragment_none del: append_Cons)
  ultimately show ?thesis
    using Parse_stages [OF sch ne _ _ _ ok, of "[]" b] host(1) last ne
    by (simp add: rest_ok_def Builder_Clear_def del: append_Cons)
qed

section \<open>Properties\<close>

definition sample_builder :: http_builder where
  "sample_builder = \<lparr>b_scheme = ''http'', b_host = ''example.com'', b_port = 8888,
     b_segs = [''over'', ''there''], b_query = [(''a'', [''1'', ''2'']), (''name'', [''ferret''])],
     b_frag = ''nose''\<rparr>"

lemma sample_builder_text:
  "Builder_ToString sample_builder = ''http://example.com:8888/over/there?a=1&a=2&name=ferret#nose''"
  by (simp add: sample_builder_def Builder_ToString_def str_find_absent show_int_def show_nat.simps)

lemma sample_builder_canonical: "url_canonical sample_builder"
proof -
  have "query_wf (b_query sample_builder)"
    by (auto simp: sample_builder_def query_wf_def split: if_splits)
  then show ?thesis
    unfolding url_canonical_def sample_builder_text
    by (simp add: sample_builder_def seg_ok_def int32_max_def trim_chars_def npos_def size_max_def)
qed

text \<open>
  C5: Print, then parse. For every builder in canonical form, parsing the string that
  \<^verbatim>\<open>ToString\<close> prints succeeds and gives back every field: scheme, host, port, path
  segments, the whole query map and the fragment, whatever the builder held before.
\<close>

theorem Parse_ToString:
  assumes "url_canonical b"
  shows "Builder_Parse (Builder_ToString b) b0 = (Inr True, b)"
  using assms by (rule Parse_canonical)

theorem Parse_ToString_witness:
  "url_canonical sample_builder \<and>
   Builder_Parse ''http://example.com:8888/over/there?a=1&a=2&name=ferret#nose'' Builder_new =
     (Inr True, sample_builder)"
  using sample_builder_canonical Parse_ToString [OF sample_builder_canonical, of Builder_new]
  by (simp add: sample_builder_text)


text \<open>
  C40: \<^verbatim>\<open>Parse\<close> throws exactly when the text it is given is longer than seven characters and, after trimming, what
  stands before its first colon is http or https in any case while fewer than three characters follow it, and
  then it throws \<^verbatim>\<open>std::out_of_range\<close>; no other step of the parser throws. (A text of at most seven characters, such
  as \<^verbatim>\<open>http:\<close>, is refused before that.)
\<close>

theorem Parse_throws_iff:
  assumes "length url < npos"
  shows "(\<exists>b'. Builder_Parse url b = (Inl (Exn e), b')) \<longleftrightarrow>
    e = OutOfRange \<and> 7 < length url \<and>
    (scheme_of (trimmed url) = ''http'' \<or> scheme_of (trimmed url) = ''https'') \<and>
    length (trimmed url) < length (scheme_of (trimmed url)) + 3"
  using assms by (rule Parse_throws_lemma)

theorem Parse_throws_iff_witness:
  "length ''  http:/  '' < npos \<and> (\<exists>b'. Builder_Parse ''  http:/  '' Builder_new = (Inl (Exn OutOfRange), b'))"
proof -
  have ok: "length ''  http:/  '' < npos" by (simp add: npos_def size_max_def)
  have t: "trimmed ''  http:/  '' = ''http:/''"
    by (simp add: trimmed_def strip_back_def strip_front_def trim_chars_def rstrip_def)
  have "scheme_of ''http:/'' = ''http''" by (simp add: scheme_of_def tolower_def)
  then show ?thesis
    using Parse_throws_iff [OF ok, of Builder_new OutOfRange] ok by (simp add: t)
qed

text \<open>
  The query of a builder behaves as a set of name-value pairs: adding a parameter
  inserts the pair, removing a value takes out just that pair, removing a name takes out
  every pair of that name.
\<close>

theorem query_refines_pairs:
  assumes "builder_wf b" "n \<noteq> []"
  shows "abs_query (Builder_AddEncodedQueryParameter n v b) = insert (n, v) (abs_query b)
    \<and> abs_query (Builder_RemoveEncodedQueryParameterValue n v b) = abs_query b - {(n, v)}
    \<and> abs_query (Builder_RemoveEncodedQueryParameter n b) = abs_query b - {n} \<times> UNIV"
  using assms
  by (simp add: abs_AddEncodedQueryParameter abs_RemoveEncodedQueryParameterValue
      abs_RemoveEncodedQueryParameter)

theorem query_refines_pairs_witness:
  "builder_wf sample_builder \<and>
   abs_query (Builder_RemoveEncodedQueryParameterValue ''a'' ''1'' sample_builder) =
     {(''a'', ''2''), (''name'', ''ferret'')}"
proof -
  have wf: "builder_wf sample_builder"
    using sample_builder_canonical by (auto simp: url_canonical_def builder_wf_def)
  have "abs_query sample_builder = {(''a'', ''1''), (''a'', ''2''), (''name'', ''ferret'')}"
    by (auto simp: abs_query_def sample_builder_def pairs_def)
  then show ?thesis
    using wf query_refines_pairs [OF wf, of "''a''" "''1''"] by auto
qed

text \<open>
  On the URL object of a canonical builder the accessors that cut the printed text
  return the parts it was printed from: the path is the segments, each behind a slash, and
  the query is the printed parameter list, or empty when there is none.
\<close>

theorem encoded_parts:
  assumes "url_canonical b"
  shows "HttpUrl_EncodedPath (HttpUrl_of_builder b) = Inr (concat (map (\<lambda>s. ''/'' @ s) (b_segs b)))
    \<and> HttpUrl_EncodedQuery (HttpUrl_of_builder b) =
        Inr (if b_query b = [] then [] else join CHR ''&'' (map param_str (pairs (b_query b))))"
proof (cases "b_query b = []")
  case True
  have "CHR ''?'' \<notin> set (Builder_ToString b)"
    using assms canonical_facts(1) [OF assms] canonical_hp_free [OF assms] True
    unfolding canonical_url [OF assms]
    by (auto simp: query_text_def frag_text_def url_canonical_def)
  then show ?thesis
    using EncodedPath_canonical [OF assms] True
    by (simp add: HttpUrl_EncodedQuery_def str_find_absent seg_text_def)
next
  case False
  then show ?thesis
    using EncodedPath_canonical [OF assms] EncodedQuery_canonical [OF assms False]
    by (simp add: query_str_pairs canonical_facts(7) [OF assms] seg_text_def)
qed

theorem encoded_parts_witness:
  "url_canonical sample_builder
   \<and> HttpUrl_EncodedPath (HttpUrl_of_builder sample_builder) = Inr ''/over/there''
   \<and> HttpUrl_EncodedQuery (HttpUrl_of_builder sample_builder) = Inr ''a=1&a=2&name=ferret''"
  using sample_builder_canonical encoded_parts [OF sample_builder_canonical]
  by (simp add: sample_builder_def pairs_def param_str_def)

text \<open>
  A URL with a host and nothing behind it is parsed with the host name as its only path
  segment: \<^verbatim>\<open>hostPath.substr(pathStart + 1)\<close> with \<^verbatim>\<open>pathStart\<close> equal to
  \<^verbatim>\<open>npos\<close> is \<^verbatim>\<open>hostPath.substr(0)\<close>.
\<close>

theorem Parse_no_path:
  assumes "scheme = ''http'' \<or> scheme = ''https''"
    and "set host \<inter> {CHR '':'', CHR ''/'', CHR ''?'', CHR ''#''} = {}" "seg_ok host"
    and "length (scheme @ ''://'' @ host) < npos" "last host \<notin> set trim_chars"
  shows "Builder_Parse (scheme @ ''://'' @ host) b =
    (Inr True, \<lparr>b_scheme = scheme, b_host = host, b_port = DefaultPort scheme, b_segs = [host],
                b_query = [], b_frag = []\<rparr>)"
  using assms by (rule Parse_no_path_lemma)

theorem Parse_no_path_witness:
  "Builder_Parse ''https://licode'' Builder_new =
    (Inr True, \<lparr>b_scheme = ''https'', b_host = ''licode'', b_port = 443, b_segs = [''licode''],
                b_query = [], b_frag = []\<rparr>)"
  using Parse_no_path [of "''https''" "''licode''" Builder_new]
  by (simp add: seg_ok_def trim_chars_def npos_def size_max_def DefaultPort_def)

end
