(* ===== verification/Http_Request.thy ===== *)
theory Http_Request
  imports Http_Url_Parse
begin

text \<open>
  \<^verbatim>\<open>messenger/http_request.h\<close> and \<^verbatim>\<open>messenger/http_defines.h\<close>: the request template
  \<^verbatim>\<open>HttpRequest\<close>. The Boost.Beast message it wraps is not part of the repository. The
  model keeps the list of the calls the program makes on it, in order; the two Beast tables
  that decide which calls are made (header names, method names) are arguments of the
  operations that consult them, \<open>None\<close> standing for \<^verbatim>\<open>unknown\<close>.
\<close>

section \<open>The request and its operations\<close>

datatype http_protocol = HTTP_1_0 | HTTP_1_1 | HTTP_2_0

datatype ('f, 'v) beast_call =
    BSetHost string        \<comment> \<open>\<^verbatim>\<open>set(field::host, _)\<close>\<close>
  | BTarget string         \<comment> \<open>\<^verbatim>\<open>target(_)\<close>\<close>
  | BSet 'f string         \<comment> \<open>\<^verbatim>\<open>set(field, _)\<close>\<close>
  | BErase 'f              \<comment> \<open>\<^verbatim>\<open>erase(field)\<close>\<close>
  | BMethod 'v             \<comment> \<open>\<^verbatim>\<open>method(_)\<close>\<close>
  | BVersion nat           \<comment> \<open>\<^verbatim>\<open>version(_)\<close>\<close>
  | BBody string           \<comment> \<open>\<^verbatim>\<open>body() = _\<close>\<close>
  | BClear                 \<comment> \<open>\<^verbatim>\<open>clear()\<close>\<close>
  | BPreparePayload        \<comment> \<open>\<^verbatim>\<open>prepare_payload()\<close>\<close>

record ('f, 'v) http_request =
  rq_url :: http_url
  rq_calls :: "('f, 'v) beast_call list"

definition HttpRequest_new :: "('f, 'v) http_request" where
  "HttpRequest_new = \<lparr>rq_url = HttpUrl_empty, rq_calls = []\<rparr>"

definition beast :: "('f, 'v) beast_call \<Rightarrow> (('f, 'v) http_request, unit) stm" where
  "beast c = smodify (\<lambda>r. r\<lparr>rq_calls := rq_calls r @ [c]\<rparr>)"

definition HttpRequest_SetUrl :: "http_url \<Rightarrow> (('f, 'v) http_request, unit) stm" where
  "HttpRequest_SetUrl url =
     sbind (smodify (\<lambda>r. r\<lparr>rq_url := url\<rparr>)) (\<lambda>_.
       let host = HttpUrl_Host url @ '':'' @ show_int (HttpUrl_Port url)
       in sbind (beast (BSetHost (HttpUrl_Host url))) (\<lambda>_.
          sbind (slift (substr_from (HttpUrl_Url url)
                   (size_add (size_add (length (HttpUrl_Scheme url)) 3) (length host)))) (\<lambda>t.
          beast (BTarget t))))"

definition HttpRequest_SetUrl_string :: "string \<Rightarrow> (('f, 'v) http_request, unit) stm" where
  "HttpRequest_SetUrl_string s = sbind (slift (HttpUrl_of_string s)) HttpRequest_SetUrl"

definition HttpRequest_AddHeader ::
    "(string \<Rightarrow> 'f option) \<Rightarrow> string \<Rightarrow> string \<Rightarrow> ('f, 'v) http_request \<Rightarrow> ('f, 'v) http_request" where
  "HttpRequest_AddHeader string_to_field name val r =
     (if name = [] \<or> val = [] then r
      else (case string_to_field name of
              None \<Rightarrow> r
            | Some field \<Rightarrow> r\<lparr>rq_calls := rq_calls r @ [BSet field val]\<rparr>))"

definition HttpRequest_RemoveHeader ::
    "(string \<Rightarrow> 'f option) \<Rightarrow> string \<Rightarrow> ('f, 'v) http_request \<Rightarrow> ('f, 'v) http_request" where
  "HttpRequest_RemoveHeader string_to_field name r =
     (if name = [] then r
      else (case string_to_field name of
              None \<Rightarrow> r
            | Some field \<Rightarrow> r\<lparr>rq_calls := rq_calls r @ [BErase field]\<rparr>))"

definition HttpRequest_SetMethod ::
    "(string \<Rightarrow> 'v option) \<Rightarrow> string \<Rightarrow> ('f, 'v) http_request \<Rightarrow> ('f, 'v) http_request" where
  "HttpRequest_SetMethod string_to_verb method r =
     (if method = [] then r
      else (case string_to_verb method of
              None \<Rightarrow> r
            | Some m \<Rightarrow> r\<lparr>rq_calls := rq_calls r @ [BMethod m]\<rparr>))"

definition HttpRequest_SetBody :: "string \<Rightarrow> ('f, 'v) http_request \<Rightarrow> ('f, 'v) http_request" where
  "HttpRequest_SetBody body r = r\<lparr>rq_calls := rq_calls r @ [BBody body]\<rparr>"

definition HttpRequest_SetVersion :: "http_protocol \<Rightarrow> ('f, 'v) http_request \<Rightarrow> ('f, 'v) http_request" where
  "HttpRequest_SetVersion protocol r =
     (case protocol of
        HTTP_1_0 \<Rightarrow> r\<lparr>rq_calls := rq_calls r @ [BVersion 10]\<rparr>
      | HTTP_1_1 \<Rightarrow> r\<lparr>rq_calls := rq_calls r @ [BVersion 11]\<rparr>
      | HTTP_2_0 \<Rightarrow> r\<lparr>rq_calls := rq_calls r @ [BVersion 20]\<rparr>)"

definition HttpRequest_Url :: "('f, 'v) http_request \<Rightarrow> http_url" where
  "HttpRequest_Url r = HttpUrl_copy (rq_url r)"

definition HttpRequest_ClearHeaders :: "('f, 'v) http_request \<Rightarrow> ('f, 'v) http_request" where
  "HttpRequest_ClearHeaders r = r\<lparr>rq_calls := rq_calls r @ [BClear]\<rparr>"

definition HttpRequest_PreparePayload :: "('f, 'v) http_request \<Rightarrow> ('f, 'v) http_request" where
  "HttpRequest_PreparePayload r = r\<lparr>rq_calls := rq_calls r @ [BPreparePayload]\<rparr>"

text \<open>\<^verbatim>\<open>Request()\<close> hands out the Beast message itself, \<^verbatim>\<open>Method()\<close> what Beast's \<^verbatim>\<open>method_string\<close> reads in it.\<close>

definition HttpRequest_Request :: "('f, 'v) http_request \<Rightarrow> ('f, 'v) beast_call list" where
  "HttpRequest_Request r = rq_calls r"

definition HttpRequest_Method :: "(('f, 'v) beast_call list \<Rightarrow> string) \<Rightarrow> ('f, 'v) http_request \<Rightarrow> string" where
  "HttpRequest_Method method_string r = method_string (rq_calls r)"

section \<open>The target of a request\<close>

lemma HttpUrl_of_string_canonical:
  "url_canonical b \<Longrightarrow> HttpUrl_of_string (Builder_ToString b) = Inr (HttpUrl_of_builder b)"
  using Parse_canonical [of b Builder_new] by (simp add: HttpUrl_of_string_def HttpUrl_of_builder_def)

lemma SetUrl_canonical:
  assumes c: "url_canonical b"
  shows "HttpRequest_SetUrl (HttpUrl_of_builder b) r =
    (Inr (), r\<lparr>rq_url := HttpUrl_of_builder b,
       rq_calls := rq_calls r @ [BSetHost (b_host b),
         BTarget (seg_text (b_segs b) @ query_text (b_query b) @ frag_text (b_frag b))]\<rparr>)"
proof -
  let ?auth = "b_host b @ '':'' @ show_nat (nat (b_port b))"
  let ?t = "seg_text (b_segs b) @ query_text (b_query b) @ frag_text (b_frag b)"
  let ?pre = "(b_scheme b @ ''://'') @ ?auth"
  have u: "Builder_ToString b = ?pre @ ?t" by (simp add: canonical_url [OF c] hp_text_def)
  have ok: "str_ok (?pre @ ?t)" using canonical_facts(9) [OF c] by (simp only: u)
  have "show_int (b_port b) = show_nat (nat (b_port b))"
    using canonical_facts(4) [OF c] by (rule show_int_nonneg)
  moreover have "size_add (size_add (length (b_scheme b)) 3) (length ?auth) = length ?pre"
    using less_npos_size_max [OF ok] by (simp add: size_add_small)
  moreover have "substr_from (?pre @ ?t) (length ?pre) = Inr ?t"
    using ok by (rule substr_from_append)
  ultimately show ?thesis
    unfolding HttpRequest_SetUrl_def HttpUrl_Host_def HttpUrl_Port_def HttpUrl_Url_def HttpUrl_Scheme_def
    by (simp only: of_builder_sel u Let_def sbind_slift stm_simps beast_def) simp
qed

lemma SetUrl_empty_throws:
  "HttpRequest_SetUrl HttpUrl_empty r =
    (Inl (Exn OutOfRange), r\<lparr>rq_url := HttpUrl_empty, rq_calls := rq_calls r @ [BSetHost []]\<rparr>)"
  by (simp add: HttpRequest_SetUrl_def HttpUrl_empty_def HttpUrl_Host_def HttpUrl_Port_def HttpUrl_Url_def
      HttpUrl_Scheme_def show_int_def show_nat.simps size_add_def size_max_def substr_from_def
      substr_def beast_def)

section \<open>Properties\<close>

text \<open>
  Setting a request's URL from the printed form of a canonical builder sets the
  \<^verbatim>\<open>Host\<close> header to the host and the request target to exactly the text behind
  the authority: path, query and fragment.
\<close>

theorem SetUrl_target:
  assumes "url_canonical b"
  shows "HttpRequest_SetUrl_string (Builder_ToString b) r =
    (Inr (), r\<lparr>rq_url := HttpUrl_of_builder b,
       rq_calls := rq_calls r @ [BSetHost (b_host b),
         BTarget (seg_text (b_segs b) @ query_text (b_query b) @ frag_text (b_frag b))]\<rparr>)"
  using assms by (simp add: HttpRequest_SetUrl_string_def HttpUrl_of_string_canonical SetUrl_canonical)

theorem SetUrl_target_witness:
  "rq_calls (snd (HttpRequest_SetUrl_string ''http://example.com:8888/over/there?a=1&a=2&name=ferret#nose''
     (HttpRequest_new :: (nat, nat) http_request))) =
   [BSetHost ''example.com'', BTarget ''/over/there?a=1&a=2&name=ferret#nose'']"
  using SetUrl_target [OF sample_builder_canonical, of "HttpRequest_new :: (nat, nat) http_request"]
  by (simp add: sample_builder_text)
     (simp add: sample_builder_def seg_text_def query_text_def frag_text_def HttpRequest_new_def)

text \<open>
  A URL that \<^verbatim>\<open>Parse\<close> rejects makes \<^verbatim>\<open>SetUrl\<close> throw
  \<^verbatim>\<open>std::out_of_range\<close> (the substring is cut out of an empty text), after the request
  has already been given an empty \<^verbatim>\<open>Host\<close> header.
\<close>

theorem SetUrl_unparsable:
  assumes "Builder_Parse url Builder_new = (Inr False, b)"
  shows "HttpRequest_SetUrl_string url r =
    (Inl (Exn OutOfRange), r\<lparr>rq_url := HttpUrl_empty, rq_calls := rq_calls r @ [BSetHost []]\<rparr>)"
  using assms by (simp add: HttpRequest_SetUrl_string_def HttpUrl_of_string_def SetUrl_empty_throws)

theorem SetUrl_unparsable_witness:
  "Builder_Parse ''ftp://host'' Builder_new = (Inr False, Builder_new) \<and>
   fst (HttpRequest_SetUrl_string ''ftp://host'' (HttpRequest_new :: (nat, nat) http_request)) =
     Inl (Exn OutOfRange)"
proof -
  have ok: "str_ok ''ftp://host''" by (simp add: npos_def size_max_def)
  have "trimmed ''ftp://host'' = ''ftp://host''"
    by (simp add: trimmed_def strip_back_def strip_front_def trim_chars_def rstrip_def)
  moreover have "scheme_of ''ftp://host'' = ''ftp''" by (simp add: scheme_of_def tolower_def)
  ultimately have "Builder_Parse ''ftp://host'' Builder_new = (Inr False, Builder_new)"
    by (simp add: Parse_unfold [OF ok] Builder_Clear_def Builder_new_def)
  with SetUrl_unparsable [OF this, of "HttpRequest_new :: (nat, nat) http_request"] show ?thesis
    by simp
qed

end
