(* ===== verification/Websocket_Session.thy ===== *)
theory Websocket_Session
  imports Http_Url_Parse
begin

text \<open>
  \<^verbatim>\<open>messenger/websocket_session.cc\<close>: the websocket connection. Its handlers run on the
  one thread of its \<^verbatim>\<open>io_context\<close>, one at a time. A handler is a function of the session
  that returns the calls it makes on Boost.Asio and Boost.Beast and on the user's callbacks,
  in order; what those libraries answer comes back as the arguments of the completion
  handlers. The last part lets the handlers run in any order the libraries allow.
\<close>

section \<open>The session and its handlers\<close>

text \<open>
  \<open>'c\<close> is the type of the callbacks a client installs (\<open>None\<close> is an empty
  \<^verbatim>\<open>std::function\<close>); an error code is \<open>Some\<close> of its message, or \<open>None\<close>.
\<close>

record 'c ws_session =
  ws_url :: string
  ws_scheme :: string
  ws_host :: string
  ws_port :: int
  ws_target :: string
  ws_do_disconnect :: bool
  ws_connected :: bool
  ws_queue :: "string list"
  ws_ready :: "'c option"
  ws_receive :: "'c option"
  ws_abnormal :: "'c option"

type_synonym ec = "string option"

datatype 'c ws_call =
    Async_resolve string string     \<comment> \<open>host and service\<close>
  | Async_connect
  | Async_handshake string string   \<comment> \<open>host and target\<close>
  | Async_read
  | Async_write string
  | Post_OnSend string
  | Post_DoClose
  | Close string
  | Stop_and_join
  | Call_ready 'c
  | Call_receive 'c string
  | Call_abnormal 'c string

type_synonym 'c ws_handler = "'c ws_session \<Rightarrow> 'c ws_session \<times> 'c ws_call list"

definition ws_parse_host :: "string \<Rightarrow> ('c ws_session, unit) stm" where
  "ws_parse_host hostPath =
     (let portStart = str_find hostPath CHR '':'';
          pathStart = str_find hostPath CHR ''/''
      in if portStart = npos then
           sbind (smodify (\<lambda>s. s\<lparr>ws_port := 8080\<rparr>)) (\<lambda>_.
             if pathStart = npos then smodify (\<lambda>s. s\<lparr>ws_host := hostPath\<rparr>)
             else sbind (slift (substr hostPath 0 pathStart)) (\<lambda>h.
                    smodify (\<lambda>s. s\<lparr>ws_host := h\<rparr>)))
         else
           sbind (slift (substr hostPath 0 portStart)) (\<lambda>h.
           sbind (smodify (\<lambda>s. s\<lparr>ws_host := h\<rparr>)) (\<lambda>_.
           sbind (slift (port_string hostPath portStart)) (\<lambda>portS.
           if portS \<noteq> [] then
             sbind (slift (atoi portS)) (\<lambda>p. smodify (\<lambda>s. s\<lparr>ws_port := to_int16 p\<rparr>))
           else smodify (\<lambda>s. s\<lparr>ws_port := 8080\<rparr>)))))"

definition ws_parse_target :: "string \<Rightarrow> ('c ws_session, unit) stm" where
  "ws_parse_target hostPath =
     sbind (slift (substr_from hostPath (size_add (str_find hostPath CHR ''/'') 1))) (\<lambda>t.
       smodify (\<lambda>s. s\<lparr>ws_target := ''/'' @ t\<rparr>))"

definition ws_ParseUrl :: "('c ws_session, bool) stm" where
  "ws_ParseUrl s =
     (let url = ws_url s in
      if url = [] \<or> length url \<le> 5 then (Inr False, s)
      else sbind (slift (substr url 0 (str_find url CHR '':''))) (\<lambda>sch.
        if sch = [] then sret False
        else let scheme = map tolower sch in
          if scheme \<noteq> ''ws'' \<and> scheme \<noteq> ''wss'' then sret False
          else sbind (smodify (\<lambda>s. s\<lparr>ws_scheme := scheme\<rparr>)) (\<lambda>_.
            let pathStart = size_add (length scheme) 3; pathEnd = length url in
            sbind (slift (substr url pathStart (size_sub pathEnd pathStart))) (\<lambda>hostPath.
            if hostPath = [] then sret False
            else sbind (ws_parse_host hostPath) (\<lambda>_.
                 sbind (ws_parse_target hostPath) (\<lambda>_. sret True))))) s)"

text \<open>The constructor ignores the result of \<^verbatim>\<open>ParseUrl\<close> but for a log line.\<close>

definition ws_new :: "string \<Rightarrow> 'c ws_session res" where
  "ws_new url =
     (case ws_ParseUrl \<lparr>ws_url = url, ws_scheme = [], ws_host = [], ws_port = - 1, ws_target = [],
        ws_do_disconnect = False, ws_connected = False, ws_queue = [],
        ws_ready = None, ws_receive = None, ws_abnormal = None\<rparr> of
        (Inl e, _) \<Rightarrow> Inl e
      | (Inr _, s) \<Rightarrow> Inr s)"

definition ws_destroy :: "bool \<Rightarrow> 'c ws_handler" where
  "ws_destroy is_open s = (s, Stop_and_join # (if is_open then [Close ''close websocket''] else []))"

definition ws_Connect :: "'c ws_handler" where
  "ws_Connect s =
     (if ws_connected s then (s, [])
      else (s\<lparr>ws_do_disconnect := False, ws_connected := False\<rparr>,
            [Async_resolve (ws_host s) (show_int (ws_port s))]))"

definition ws_Disconnect :: "'c ws_handler" where
  "ws_Disconnect s = (s\<lparr>ws_do_disconnect := True\<rparr>, [Post_DoClose])"

definition ws_SendMsg :: "string \<Rightarrow> 'c ws_handler" where
  "ws_SendMsg msg s = (if \<not> ws_connected s then (s, []) else (s, [Post_OnSend msg]))"

definition ws_ProcessDisconnect :: "string \<Rightarrow> 'c ws_handler" where
  "ws_ProcessDisconnect reason s =
     (s, if \<not> ws_do_disconnect s then
           (case ws_abnormal s of None \<Rightarrow> [] | Some cb \<Rightarrow> [Call_abnormal cb reason])
         else [])"

definition ws_OnResolve :: "ec \<Rightarrow> 'c ws_handler" where
  "ws_OnResolve ec s =
     (case ec of Some m \<Rightarrow> ws_ProcessDisconnect m s | None \<Rightarrow> (s, [Async_connect]))"

definition ws_OnConnect :: "ec \<Rightarrow> 'c ws_handler" where
  "ws_OnConnect ec s =
     (case ec of
        Some m \<Rightarrow> ws_ProcessDisconnect m s
      | None \<Rightarrow> (s, [Async_handshake (ws_host s @ '':'' @ show_int (ws_port s)) (ws_target s)]))"

definition ws_DoRead :: "'c ws_handler" where
  "ws_DoRead s = (s, [Async_read])"

definition ws_OnHandshake :: "ec \<Rightarrow> 'c ws_handler" where
  "ws_OnHandshake ec s =
     (case ec of
        Some m \<Rightarrow> ws_ProcessDisconnect m s
      | None \<Rightarrow>
          let s = s\<lparr>ws_connected := True\<rparr>;
              ready = (case ws_ready s of None \<Rightarrow> [] | Some cb \<Rightarrow> [Call_ready cb]);
              (s, rd) = ws_DoRead s
          in (s, ready @ rd))"

text \<open>\<open>msg\<close> is the content of the read buffer, which is emptied before the next read.\<close>

definition ws_OnRead :: "ec \<Rightarrow> string \<Rightarrow> 'c ws_handler" where
  "ws_OnRead ec msg s =
     (case ec of
        Some m \<Rightarrow> ws_ProcessDisconnect m s
      | None \<Rightarrow>
          let rcv = (case ws_receive s of None \<Rightarrow> [] | Some cb \<Rightarrow> [Call_receive cb msg]);
              (s, rd) = ws_DoRead s
          in (s, rcv @ rd))"

definition ws_SetOnReadyCallback :: "'c option \<Rightarrow> 'c ws_session \<Rightarrow> 'c ws_session" where
  "ws_SetOnReadyCallback cb s = s\<lparr>ws_connected := True, ws_ready := cb\<rparr>"

definition ws_SetOnReceiveMsgCallback :: "'c option \<Rightarrow> 'c ws_session \<Rightarrow> 'c ws_session" where
  "ws_SetOnReceiveMsgCallback cb s = s\<lparr>ws_receive := cb\<rparr>"

definition ws_SetOnAbnormalDisconnectCallback :: "'c option \<Rightarrow> 'c ws_session \<Rightarrow> 'c ws_session" where
  "ws_SetOnAbnormalDisconnectCallback cb s = s\<lparr>ws_connected := False, ws_abnormal := cb\<rparr>"

definition ws_OnSend :: "string \<Rightarrow> 'c ws_handler" where
  "ws_OnSend msg s =
     (let s = s\<lparr>ws_queue := ws_queue s @ [msg]\<rparr>
      in if length (ws_queue s) > 1 then (s, [])
         else (s, [Async_write (hd (ws_queue s))]))"

text \<open>Erasing the first element of an empty vector is undefined.\<close>

definition ws_OnWrite :: "ec \<Rightarrow> 'c ws_session \<Rightarrow> ('c ws_session \<times> 'c ws_call list) res" where
  "ws_OnWrite ec s =
     (case ec of
        Some m \<Rightarrow> Inr (s, [])
      | None \<Rightarrow>
          (case ws_queue s of
             [] \<Rightarrow> Inl (UB BadWrite)
           | _ # q \<Rightarrow>
               let s = s\<lparr>ws_queue := q\<rparr>
               in Inr (s, if ws_queue s \<noteq> [] then [Async_write (hd (ws_queue s))] else [])))"

definition ws_DoClose :: "bool \<Rightarrow> 'c ws_handler" where
  "ws_DoClose is_open s = (s, if is_open then [Close ''close websocket''] else [])"

definition ws_IsConnected :: "'c ws_session \<Rightarrow> bool" where
  "ws_IsConnected s = ws_connected s"

lemmas ws_handler_defs =
  ws_Connect_def ws_Disconnect_def ws_SendMsg_def ws_ProcessDisconnect_def ws_OnResolve_def
  ws_OnConnect_def ws_DoRead_def ws_OnHandshake_def ws_OnRead_def ws_SetOnReadyCallback_def
  ws_SetOnReceiveMsgCallback_def ws_SetOnAbnormalDisconnectCallback_def ws_DoClose_def

section \<open>Parsing the URL\<close>

lemma ws_parse_host_port:
  assumes "CHR '':'' \<notin> set host" "CHR ''/'' \<notin> set host" "int n \<le> int32_max"
    and "path = [] \<or> hd path = CHR ''/''"
    and ok: "str_ok (host @ '':'' @ show_nat n @ path)"
  shows "ws_parse_host (host @ '':'' @ show_nat n @ path) s =
         (Inr (), s\<lparr>ws_host := host, ws_port := to_int16 (int n)\<rparr>)"
proof -
  let ?hp = "host @ '':'' @ show_nat n @ path"
  have ps: "str_find ?hp CHR '':'' = length host"
    using str_find_at [OF assms(1), of "show_nat n @ path"] by simp
  have "CHR ''/'' \<notin> set (show_nat n)"
    using show_nat_digits [of n] by (auto simp: is_digit_def)
  then have p: "port_string ?hp (length host) = Inr (show_nat n)"
    using assms(2,4) ok by (intro port_string_eq)
  have at: "atoi (show_nat n) = Inr (int n)" using assms(3) by (rule atoi_show_nat)
  have ne: "length host \<noteq> npos" using ok by simp
  have h: "substr ?hp 0 (length host) = Inr host" by (simp add: substr_0)
  show ?thesis
    unfolding ws_parse_host_def Let_def ps p h using ne by (simp add: at)
qed

lemma ws_parse_target_slash:
  assumes "CHR ''/'' \<notin> set pre" and ok: "str_ok (pre @ ''/'' @ t)"
  shows "ws_parse_target (pre @ ''/'' @ t) s = (Inr (), s\<lparr>ws_target := ''/'' @ t\<rparr>)"
proof -
  have "str_find (pre @ CHR ''/'' # t) CHR ''/'' = length pre"
    using assms(1) by (rule str_find_at)
  moreover have "size_add (length pre) 1 = Suc (length pre)"
    using ok less_npos_size_max [OF ok] by (intro size_add_small [THEN trans]) simp_all
  ultimately show ?thesis using ok by (simp add: ws_parse_target_def substr_from_ok)
qed

lemma ws_parse_target_no_slash:
  assumes "CHR ''/'' \<notin> set hp" "str_ok hp"
  shows "ws_parse_target hp s = (Inr (), s\<lparr>ws_target := ''/'' @ hp\<rparr>)"
  using assms by (simp add: ws_parse_target_def str_find_absent substr_from_ok)

text \<open>The part before \<^verbatim>\<open>hostPath\<close>, for a URL with an accepted scheme.\<close>

lemma ws_ParseUrl_scheme:
  assumes sch: "map tolower sch = ''ws'' \<or> map tolower sch = ''wss''"
    and free: "CHR '':'' \<notin> set sch" and hp: "hp \<noteq> []"
    and url: "ws_url s = sch @ ''://'' @ hp" and ok: "str_ok (sch @ ''://'' @ hp)"
  shows "ws_ParseUrl s =
    sbind (ws_parse_host hp) (\<lambda>_. sbind (ws_parse_target hp) (\<lambda>_. sret True))
      (s\<lparr>ws_scheme := map tolower sch\<rparr>)"
proof -
  have len: "length (map tolower sch) = length sch" by simp
  have ne: "sch \<noteq> []" using sch by auto
  have len2: "2 \<le> length sch" using sch len by auto
  have tw: "takeWhile (\<lambda>d. d \<noteq> CHR '':'') (sch @ ''://'' @ hp) = sch"
  proof -
    have "\<forall>x \<in> set sch. x \<noteq> CHR '':''" using free by blast
    from takeWhile_append_stop [OF this, of "CHR '':''" "''//'' @ hp"] show ?thesis by simp
  qed
  have s1: "substr (sch @ ''://'' @ hp) 0 (str_find (sch @ ''://'' @ hp) CHR '':'') = Inr sch"
    using substr_find [OF ok, of "CHR '':''"] tw by simp
  have lt: "length sch + 3 + length hp < size_max" using less_npos_size_max [OF ok] by simp
  have a: "size_add (length (map tolower sch)) 3 = length (sch @ ''://'')"
    using lt by (simp add: size_add_small)
  have b: "size_sub (length (sch @ ''://'' @ hp)) (length (sch @ ''://'')) = length hp"
    using lt by (subst size_sub_small) simp_all
  have s2: "substr (sch @ ''://'' @ hp) (length (sch @ ''://'')) (length hp) = Inr hp"
    using substr_mid [of "sch @ ''://''" hp "[]"] by simp
  have "length (sch @ ''://'' @ hp) > 5" using len2 hp by (cases hp) simp_all
  then have g: "\<not> (sch @ ''://'' @ hp = [] \<or> length (sch @ ''://'' @ hp) \<le> 5)" by auto
  show ?thesis
    unfolding ws_ParseUrl_def Let_def url if_not_P [OF g] s1 sbind_slift if_not_P [OF ne] a b s2
      if_not_P [OF hp]
    using sch by (auto simp: sbind_def)
qed

lemma ws_ParseUrl_lemma:
  assumes sch: "map tolower sch = ''ws'' \<or> map tolower sch = ''wss''" "CHR '':'' \<notin> set sch"
    and host: "CHR '':'' \<notin> set host" "CHR ''/'' \<notin> set host"
    and n: "int n \<le> int32_max"
    and url: "ws_url s = sch @ ''://'' @ host @ '':'' @ show_nat n @ ''/'' @ t"
    and ok: "str_ok (ws_url s)"
  shows "ws_ParseUrl s = (Inr True, s\<lparr>ws_scheme := map tolower sch, ws_host := host,
           ws_port := to_int16 (int n), ws_target := ''/'' @ t\<rparr>)"
proof -
  let ?hp = "host @ '':'' @ show_nat n @ ''/'' @ t"
  have ok1: "str_ok ?hp" using ok by (simp add: url)
  have h: "ws_parse_host ?hp s' = (Inr (), s'\<lparr>ws_host := host, ws_port := to_int16 (int n)\<rparr>)" for s' :: "'a ws_session"
    using host n ok1 by (intro ws_parse_host_port) simp_all
  have "CHR ''/'' \<notin> set (host @ '':'' @ show_nat n)"
    using host(2) show_nat_digits [of n] by (auto simp: is_digit_def)
  then have t: "ws_parse_target ?hp s' = (Inr (), s'\<lparr>ws_target := ''/'' @ t\<rparr>)" for s' :: "'a ws_session"
    using ws_parse_target_slash [of "host @ '':'' @ show_nat n" t s'] ok1 by simp
  have "ws_ParseUrl s = sbind (ws_parse_host ?hp) (\<lambda>_. sbind (ws_parse_target ?hp) (\<lambda>_. sret True))
      (s\<lparr>ws_scheme := map tolower sch\<rparr>)"
    using sch url ok by (intro ws_ParseUrl_scheme) simp_all
  also have "\<dots> = (Inr True, s\<lparr>ws_scheme := map tolower sch, ws_host := host,
           ws_port := to_int16 (int n), ws_target := ''/'' @ t\<rparr>)"
    unfolding sbind_def h t by simp
  finally show ?thesis .
qed

text \<open>No index \<^verbatim>\<open>ParseUrl\<close> computes is out of range, whatever the URL.\<close>

lemma str_find_le: "str_find s c \<noteq> npos \<Longrightarrow> str_find s c < length s"
  using str_find_present(2) [of c s] str_find_absent [of c s] by blast

lemma substr_no_throw: "pos \<le> length s \<Longrightarrow> substr s pos n \<noteq> Inl e"
  by (simp add: substr_ok)

lemma behind_find: "str_ok s \<Longrightarrow> size_add (str_find s c) 1 \<le> length s"
proof (cases "str_find s c = npos")
  case False
  assume "str_ok s"
  with str_find_le [OF False] less_npos_size_max [of "str_find s c"] show ?thesis
    by (simp add: size_add_small)
qed simp

lemma port_string_no_throw:
  assumes "str_ok hp" shows "port_string hp (str_find hp CHR '':'') \<noteq> Inl e"
  using behind_find [OF assms, of "CHR '':''"]
  by (simp add: port_string_def Let_def substr_from_def substr_no_throw del: One_nat_def)

lemma atoi_no_throw: "atoi s \<noteq> Inl (Exn e)"
  by (simp add: atoi_def Let_def)

lemma nothrow_ws_parse_host: "str_ok hp \<Longrightarrow> nothrow (ws_parse_host hp)"
  unfolding ws_parse_host_def Let_def
  by (intro nothrow_intros) (simp_all add: substr_0 port_string_no_throw atoi_no_throw)

lemma nothrow_ws_parse_target: "str_ok hp \<Longrightarrow> nothrow (ws_parse_target hp)"
  unfolding ws_parse_target_def
  by (intro nothrow_intros) (simp add: substr_from_def substr_no_throw behind_find del: One_nat_def)

lemma ws_ParseUrl_nothrow:
  assumes ok: "str_ok (ws_url s)"
  shows "fst (ws_ParseUrl s) \<noteq> Inl (Exn e)"
proof (cases "ws_url s = [] \<or> length (ws_url s) \<le> 5")
  case True
  then show ?thesis by (simp add: ws_ParseUrl_def)
next
  case False
  let ?url = "ws_url s" and ?sch = "takeWhile (\<lambda>d. d \<noteq> CHR '':'') (ws_url s)"
  have s1: "substr ?url 0 (str_find ?url CHR '':'') = Inr ?sch" using ok by (rule substr_find)
  show ?thesis
  proof (cases "?sch \<noteq> [] \<and> (map tolower ?sch = ''ws'' \<or> map tolower ?sch = ''wss'')")
    case accepted: True
    let ?start = "size_add (length (map tolower ?sch)) 3"
    let ?hp = "take (size_sub (length ?url) ?start) (drop ?start ?url)"
    have "length (map tolower ?sch) \<le> 3" using accepted by (auto simp del: length_map)
    then have "?start \<le> length ?url" using False by (simp add: size_add_small size_max_def)
    then have s2: "substr ?url ?start (size_sub (length ?url) ?start) = Inr ?hp" by (rule substr_ok)
    have hp: "str_ok ?hp" using ok by simp
    have "nothrow (sbind (ws_parse_host ?hp) (\<lambda>_. sbind (ws_parse_target ?hp) (\<lambda>_. sret True)))"
      by (intro nothrow_intros nothrow_ws_parse_host nothrow_ws_parse_target hp)
    then show ?thesis
      unfolding ws_ParseUrl_def Let_def if_not_P [OF False] s1 sbind_slift s2
      using accepted by (auto simp: nothrow_def)
  next
    case rejected: False
    then show ?thesis
      unfolding ws_ParseUrl_def Let_def if_not_P [OF False] s1 sbind_slift by auto
  qed
qed

section \<open>The event loop\<close>

text \<open>
  The world of one session: the session, the operations it has started and whose handlers
  have not run yet, and three ghost fields that record what was accepted for sending, what
  was written, and whether a write has failed.
\<close>

record 'c ws_world =
  w_ses :: "'c ws_session"
  w_ops :: "'c ws_call list"
  w_sent :: "string list"
  w_written :: "string list"
  w_failed :: bool

definition ws_start :: "'c ws_session \<Rightarrow> 'c ws_world" where
  "ws_start s = \<lparr>w_ses = s, w_ops = [], w_sent = [], w_written = [], w_failed = False\<rparr>"

definition ws_issue :: "'c ws_session \<times> 'c ws_call list \<Rightarrow> 'c ws_world \<Rightarrow> 'c ws_world" where
  "ws_issue r w = w\<lparr>w_ses := fst r, w_ops := w_ops w @ snd r\<rparr>"

definition ws_take :: "'c ws_call \<Rightarrow> 'c ws_world \<Rightarrow> 'c ws_world" where
  "ws_take c w = w\<lparr>w_ops := remove1 c (w_ops w)\<rparr>"

lemma ws_take_sel [simp]:
  "w_ses (ws_take c w) = w_ses w" "w_sent (ws_take c w) = w_sent w"
  "w_written (ws_take c w) = w_written w" "w_failed (ws_take c w) = w_failed w"
  by (simp_all add: ws_take_def)

text \<open>
  A step is a call of the client or the run of one pending handler, with any outcome. A
  callback that ran is a completed operation (\<open>callback\<close>); what it did to the session is
  the client's steps that follow.
\<close>

inductive ws_step :: "'c ws_world \<Rightarrow> 'c ws_world \<Rightarrow> bool" where
  connect: "ws_step w (ws_issue (ws_Connect (w_ses w)) w)"
| disconnect: "ws_step w (ws_issue (ws_Disconnect (w_ses w)) w)"
| send_msg: "ws_step w (ws_issue (ws_SendMsg msg (w_ses w)) w)"
| set_ready: "ws_step w (ws_issue (ws_SetOnReadyCallback cb (w_ses w), []) w)"
| set_receive: "ws_step w (ws_issue (ws_SetOnReceiveMsgCallback cb (w_ses w), []) w)"
| set_abnormal: "ws_step w (ws_issue (ws_SetOnAbnormalDisconnectCallback cb (w_ses w), []) w)"
| resolved: "Async_resolve h p \<in> set (w_ops w) \<Longrightarrow>
    ws_step w (ws_issue (ws_OnResolve ec (w_ses w)) (ws_take (Async_resolve h p) w))"
| tcp_connected: "Async_connect \<in> set (w_ops w) \<Longrightarrow>
    ws_step w (ws_issue (ws_OnConnect ec (w_ses w)) (ws_take Async_connect w))"
| handshaken: "Async_handshake h t \<in> set (w_ops w) \<Longrightarrow>
    ws_step w (ws_issue (ws_OnHandshake ec (w_ses w)) (ws_take (Async_handshake h t) w))"
| read_done: "Async_read \<in> set (w_ops w) \<Longrightarrow>
    ws_step w (ws_issue (ws_OnRead ec msg (w_ses w)) (ws_take Async_read w))"
| run_close: "Post_DoClose \<in> set (w_ops w) \<Longrightarrow>
    ws_step w (ws_issue (ws_DoClose is_open (w_ses w)) (ws_take Post_DoClose w))"
| callback: "c \<in> set (w_ops w) \<Longrightarrow> c \<in> {Call_ready cb, Call_receive cb m, Call_abnormal cb m, Close m} \<Longrightarrow>
    ws_step w (ws_take c w)"
| run_send: "Post_OnSend msg \<in> set (w_ops w) \<Longrightarrow>
    ws_step w ((ws_issue (ws_OnSend msg (w_ses w)) (ws_take (Post_OnSend msg) w))
                 \<lparr>w_sent := w_sent w @ [msg]\<rparr>)"
| write_ok: "Async_write m \<in> set (w_ops w) \<Longrightarrow> ws_OnWrite None (w_ses w) = Inr r \<Longrightarrow>
    ws_step w ((ws_issue r (ws_take (Async_write m) w))\<lparr>w_written := w_written w @ [m]\<rparr>)"
| write_failed: "Async_write m \<in> set (w_ops w) \<Longrightarrow> ws_OnWrite (Some reason) (w_ses w) = Inr r \<Longrightarrow>
    ws_step w ((ws_issue r (ws_take (Async_write m) w))\<lparr>w_failed := True\<rparr>)"

fun write_of :: "'c ws_call \<Rightarrow> string list" where
  "write_of (Async_write m) = [m]"
| "write_of _ = []"

definition w_writes :: "'c ws_world \<Rightarrow> string list" where
  "w_writes w = concat (map write_of (w_ops w))"

definition ws_inv :: "'c ws_world \<Rightarrow> bool" where
  "ws_inv w \<longleftrightarrow>
     w_sent w = w_written w @ ws_queue (w_ses w) \<and>
     w_writes w = (if w_failed w \<or> ws_queue (w_ses w) = [] then [] else [hd (ws_queue (w_ses w))]) \<and>
     (w_failed w \<longrightarrow> ws_queue (w_ses w) \<noteq> [])"

text \<open>Every handler but the two of the write queue leaves the queue alone and writes nothing.\<close>

definition ws_quiet :: "'c ws_session \<Rightarrow> 'c ws_session \<times> 'c ws_call list \<Rightarrow> bool" where
  "ws_quiet s r \<longleftrightarrow> ws_queue (fst r) = ws_queue s \<and> concat (map write_of (snd r)) = []"

lemma ws_quiet_simp: "ws_quiet s (s', cs) \<longleftrightarrow> ws_queue s' = ws_queue s \<and> concat (map write_of cs) = []"
  by (simp add: ws_quiet_def)

lemma ws_quiet_client:
  "ws_quiet s (ws_Connect s)" "ws_quiet s (ws_Disconnect s)" "ws_quiet s (ws_SendMsg msg s)"
  "ws_quiet s (ws_SetOnReadyCallback cb s, [])" "ws_quiet s (ws_SetOnReceiveMsgCallback cb s, [])"
  "ws_quiet s (ws_SetOnAbnormalDisconnectCallback cb s, [])" "ws_quiet s (ws_DoClose b s)"
  by (simp_all add: ws_quiet_def ws_handler_defs)

lemma ws_quiet_disconnect: "ws_quiet s (ws_ProcessDisconnect m s)"
  by (cases "ws_do_disconnect s"; cases "ws_abnormal s"; simp add: ws_quiet_simp ws_ProcessDisconnect_def)

lemma ws_quiet_completion:
  "ws_quiet s (ws_OnResolve ec s)" "ws_quiet s (ws_OnConnect ec s)"
  "ws_quiet s (ws_OnHandshake ec s)" "ws_quiet s (ws_OnRead ec msg s)"
proof -
  show "ws_quiet s (ws_OnResolve ec s)" "ws_quiet s (ws_OnConnect ec s)"
    by (cases ec; simp add: ws_quiet_disconnect ws_quiet_simp ws_OnResolve_def ws_OnConnect_def)+
  show "ws_quiet s (ws_OnHandshake ec s)"
    by (cases ec; cases "ws_ready s")
       (simp_all add: ws_quiet_disconnect ws_quiet_simp ws_OnHandshake_def ws_DoRead_def)
  show "ws_quiet s (ws_OnRead ec msg s)"
    by (cases ec; cases "ws_receive s")
       (simp_all add: ws_quiet_disconnect ws_quiet_simp ws_OnRead_def ws_DoRead_def)
qed

lemmas ws_quiet_handlers = ws_quiet_client ws_quiet_completion

lemma writes_remove1: "write_of c = [] \<Longrightarrow> concat (map write_of (remove1 c xs)) = concat (map write_of xs)"
  by (induction xs) auto

lemma writes_remove1_write:
  "Async_write m \<in> set xs \<Longrightarrow> concat (map write_of xs) = [k] \<Longrightarrow>
     m = k \<and> concat (map write_of (remove1 (Async_write m) xs)) = []"
proof (induction xs)
  case (Cons x xs)
  show ?case
  proof (cases "write_of x")
    case Nil
    with Cons show ?thesis by auto
  next
    case (Cons a list)
    then have x: "x = Async_write a" by (cases x) simp_all
    with \<open>concat (map write_of (x # xs)) = [k]\<close> have "a = k" and none: "concat (map write_of xs) = []"
      by simp_all
    from none have "Async_write m \<notin> set xs" by (auto simp: concat_eq_Nil_conv) 
    with \<open>Async_write m \<in> set (x # xs)\<close> x have "m = a" by simp
    with x \<open>a = k\<close> none show ?thesis by simp
  qed
qed simp

lemma pending_writes: "Async_write m \<in> set (w_ops w) \<Longrightarrow> m \<in> set (w_writes w)"
  by (force simp: w_writes_def)

lemma ws_inv_pending:
  assumes "ws_inv w" "Async_write m \<in> set (w_ops w)"
  shows "\<not> w_failed w" "\<exists>q. ws_queue (w_ses w) = m # q" "w_writes w = [m]"
  using assms pending_writes [OF assms(2)]
  by (auto simp: ws_inv_def neq_Nil_conv split: if_splits)

lemma ws_inv_issue: "ws_inv w \<Longrightarrow> ws_quiet (w_ses w) r \<Longrightarrow> ws_inv (ws_issue r w)"
  by (simp add: ws_inv_def ws_quiet_def ws_issue_def w_writes_def)

lemma ws_inv_quiet:
  assumes "ws_inv w" "ws_quiet (w_ses w) r" "write_of c = []"
  shows "ws_inv (ws_issue r (ws_take c w))" "ws_inv (ws_take c w)"
  using assms by (simp_all add: ws_inv_def ws_quiet_def ws_issue_def ws_take_def w_writes_def writes_remove1)

lemma ws_inv_send:
  assumes "ws_inv w"
  shows "ws_inv ((ws_issue (ws_OnSend msg (w_ses w)) (ws_take (Post_OnSend msg) w))
           \<lparr>w_sent := w_sent w @ [msg]\<rparr>)"
  using assms
  by (cases "ws_queue (w_ses w)")
     (simp_all add: ws_inv_def ws_OnSend_def ws_issue_def ws_take_def w_writes_def writes_remove1)

lemma ws_inv_write_ok:
  assumes inv: "ws_inv w" and m: "Async_write m \<in> set (w_ops w)"
    and r: "ws_OnWrite None (w_ses w) = Inr r"
  shows "ws_inv ((ws_issue r (ws_take (Async_write m) w))\<lparr>w_written := w_written w @ [m]\<rparr>)"
proof -
  obtain q where q: "ws_queue (w_ses w) = m # q" using ws_inv_pending(2) [OF inv m] by blast
  have "concat (map write_of (remove1 (Async_write m) (w_ops w))) = []"
    using writes_remove1_write [OF m] ws_inv_pending(3) [OF inv m] by (simp add: w_writes_def)
  moreover have "r = ((w_ses w)\<lparr>ws_queue := q\<rparr>, if q \<noteq> [] then [Async_write (hd q)] else [])"
    using r by (auto simp: ws_OnWrite_def q Let_def)
  ultimately show ?thesis
    using inv ws_inv_pending(1) [OF inv m]
    by (simp add: ws_inv_def ws_issue_def ws_take_def w_writes_def q)
qed

lemma ws_inv_write_failed:
  assumes inv: "ws_inv w" and m: "Async_write m \<in> set (w_ops w)"
    and r: "ws_OnWrite (Some reason) (w_ses w) = Inr r"
  shows "ws_inv ((ws_issue r (ws_take (Async_write m) w))\<lparr>w_failed := True\<rparr>)"
proof -
  have "concat (map write_of (remove1 (Async_write m) (w_ops w))) = []"
    using writes_remove1_write [OF m] ws_inv_pending(3) [OF inv m] by (simp add: w_writes_def)
  with inv ws_inv_pending(2) [OF inv m] r show ?thesis
    by (auto simp: ws_inv_def ws_issue_def ws_take_def w_writes_def ws_OnWrite_def)
qed

lemma ws_step_inv: "ws_step w w' \<Longrightarrow> ws_inv w \<Longrightarrow> ws_inv w'"
proof (induction rule: ws_step.induct)
  case (callback c w cb m)
  then have "write_of c = []" by auto
  with callback ws_quiet_handlers(1) show ?case by (intro ws_inv_quiet(2))
next
  case run_send
  then show ?case by (intro ws_inv_send)
next
  case write_ok
  then show ?case by (intro ws_inv_write_ok)
next
  case write_failed
  then show ?case by (intro ws_inv_write_failed)
qed (auto intro!: ws_inv_issue ws_inv_quiet ws_quiet_handlers)

lemma ws_start_inv: "ws_queue s = [] \<Longrightarrow> ws_inv (ws_start s)"
  by (simp add: ws_inv_def ws_start_def w_writes_def)

interpretation ws_runs: transition_system ws_step ws_inv
  by unfold_locales (rule ws_step_inv)

lemma write_ofD: "m \<in> set (write_of c) \<Longrightarrow> c = Async_write m"
  by (cases c) simp_all

lemma writes_pending: "m \<in> set (w_writes w) \<Longrightarrow> Async_write m \<in> set (w_ops w)"
  unfolding w_writes_def by (auto dest: write_ofD)

text \<open>As long as the writes succeed, every accepted message gets written.\<close>

lemma ws_write_front:
  assumes "ws_inv w" "\<not> w_failed w" "ws_queue (w_ses w) \<noteq> []"
  shows "\<exists>w'. ws_step w w' \<and> \<not> w_failed w' \<and> w_sent w' = w_sent w \<and> ws_queue (w_ses w') = tl (ws_queue (w_ses w))"
proof -
  obtain m q where q: "ws_queue (w_ses w) = m # q" using assms(3) by (cases "ws_queue (w_ses w)") auto
  then have "w_writes w = [m]" using assms(1,2) by (simp add: ws_inv_def)
  then have pend: "Async_write m \<in> set (w_ops w)" by (intro writes_pending) simp
  define r where "r = ((w_ses w)\<lparr>ws_queue := q\<rparr>, if q \<noteq> [] then [Async_write (hd q)] else [] :: 'a ws_call list)"
  have wr: "ws_OnWrite None (w_ses w) = Inr r"
    by (auto simp: ws_OnWrite_def q r_def Let_def)
  define w1 where "w1 = (ws_issue r (ws_take (Async_write m) w))\<lparr>w_written := w_written w @ [m]\<rparr>"
  have "ws_step w w1" unfolding w1_def using pend wr by (rule ws_step.write_ok)
  moreover have "\<not> w_failed w1" "w_sent w1 = w_sent w" "ws_queue (w_ses w1) = q"
    using assms(2) by (simp_all add: w1_def r_def ws_issue_def)
  ultimately show ?thesis using q by auto
qed

lemma ws_drain:
  assumes "ws_inv w" "\<not> w_failed w"
  shows "\<exists>w'. ws_step\<^sup>*\<^sup>* w w' \<and> w_sent w' = w_sent w \<and> w_written w' = w_sent w \<and> w_writes w' = []"
proof -
  have "\<exists>w'. ws_step\<^sup>*\<^sup>* w w' \<and> ws_inv w' \<and> (\<not> w_failed w' \<and> w_sent w' = w_sent w) \<and> ws_queue (w_ses w') = []"
  proof (rule ws_runs.reaches [where rank = "\<lambda>v. length (ws_queue (w_ses v))"])
    fix v
    assume "ws_inv v" "\<not> w_failed v \<and> w_sent v = w_sent w" "ws_queue (w_ses v) \<noteq> []"
    with ws_write_front [of v] obtain v' where "ws_step v v'" "\<not> w_failed v'" "w_sent v' = w_sent w"
      "ws_queue (w_ses v') = tl (ws_queue (w_ses v))" by auto
    with \<open>ws_queue (w_ses v) \<noteq> []\<close> show
      "\<exists>v'. ws_step v v' \<and> (\<not> w_failed v' \<and> w_sent v' = w_sent w) \<and> length (ws_queue (w_ses v')) < length (ws_queue (w_ses v))"
      by (intro exI [of _ v']) (simp add: length_greater_0_conv)
  qed (use assms in simp_all)
  then show ?thesis by (auto simp: ws_inv_def)
qed

text \<open>After a failed write nothing is written any more, on whatever connection.\<close>

lemma ws_stall_step:
  assumes "ws_step w w'" "ws_inv w" "w_failed w"
  shows "w_failed w' \<and> w_written w' = w_written w"
  using assms
  by (induction rule: ws_step.induct) (auto simp: ws_issue_def dest: ws_inv_pending(1))

lemma ws_stall:
  "ws_step\<^sup>*\<^sup>* w w' \<Longrightarrow> ws_inv w \<Longrightarrow> w_failed w \<Longrightarrow> w_failed w' \<and> w_written w' = w_written w"
  by (rule ws_runs.stable_reach [where P = "\<lambda>v. w_failed v \<and> w_written v = w_written w"])
    (auto dest: ws_stall_step)

lemma ws_stalled_writes: "ws_inv w \<Longrightarrow> w_failed w \<Longrightarrow> w_writes w = []"
  by (simp add: ws_inv_def)

section \<open>Properties\<close>

definition ws_example :: "string \<Rightarrow> nat ws_session" where
  "ws_example url = \<lparr>ws_url = url, ws_scheme = [], ws_host = [], ws_port = - 1, ws_target = [],
     ws_do_disconnect = False, ws_connected = True, ws_queue = [],
     ws_ready = None, ws_receive = None, ws_abnormal = None\<rparr>"

text \<open>The world in which the messages \<open>a\<close> and \<open>b\<close> were accepted and nothing was written yet.\<close>

definition ws_example_world :: "nat ws_world" where
  "ws_example_world = \<lparr>w_ses = (ws_example [])\<lparr>ws_queue := [''a'', ''b'']\<rparr>, w_ops = [Async_write ''a''],
     w_sent = [''a'', ''b''], w_written = [], w_failed = False\<rparr>"

lemma ws_reach_step: "ws_step w w1 \<Longrightarrow> ws_step\<^sup>*\<^sup>* w1 w2 \<Longrightarrow> ws_step\<^sup>*\<^sup>* w w2"
  by (rule converse_rtranclp_into_rtranclp)

lemma ws_example_reach: "ws_step\<^sup>*\<^sup>* (ws_start (ws_example [])) ws_example_world"
proof -
  let ?w0 = "ws_start (ws_example [])"
  let ?w1 = "ws_issue (ws_SendMsg ''a'' (w_ses ?w0)) ?w0"
  let ?w2 = "(ws_issue (ws_OnSend ''a'' (w_ses ?w1)) (ws_take (Post_OnSend ''a'') ?w1))
               \<lparr>w_sent := w_sent ?w1 @ [''a'']\<rparr>"
  let ?w3 = "ws_issue (ws_SendMsg ''b'' (w_ses ?w2)) ?w2"
  let ?w4 = "(ws_issue (ws_OnSend ''b'' (w_ses ?w3)) (ws_take (Post_OnSend ''b'') ?w3))
               \<lparr>w_sent := w_sent ?w3 @ [''b'']\<rparr>"
  note ev = ws_issue_def ws_take_def ws_start_def ws_example_def ws_SendMsg_def ws_OnSend_def
  have s1: "ws_step ?w0 ?w1" and s3: "ws_step ?w2 ?w3" by (rule ws_step.send_msg)+
  have s2: "ws_step ?w1 ?w2" by (rule ws_step.run_send) (simp add: ev)
  have s4: "ws_step ?w3 ?w4" by (rule ws_step.run_send) (simp add: ev)
  have "ws_step\<^sup>*\<^sup>* ?w0 ?w4"
    by (rule ws_reach_step [OF s1 ws_reach_step [OF s2 ws_reach_step [OF s3 ws_reach_step
          [OF s4 rtranclp.rtrancl_refl]]]])
  moreover have "?w4 = ws_example_world" by (simp add: ev ws_example_world_def)
  ultimately show ?thesis by simp
qed

text \<open>
  C14: In every run of the event loop, whatever the order of handlers and outcomes, the
  messages written so far followed by the queue are the messages accepted so far, in the same
  order; at most one write is outstanding, it is that of the queue's front, and its
  completion handler never erases from an empty queue.
\<close>

theorem write_queue_fifo:
  assumes "ws_queue s = []" "ws_step\<^sup>*\<^sup>* (ws_start s) w"
  shows "w_sent w = w_written w @ ws_queue (w_ses w) \<and> length (w_writes w) \<le> 1 \<and>
    (\<forall>m ec. Async_write m \<in> set (w_ops w) \<longrightarrow>
       (\<exists>q r. ws_queue (w_ses w) = m # q \<and> ws_OnWrite ec (w_ses w) = Inr r))"
proof -
  have inv: "ws_inv w" using ws_runs.invar_reach [OF assms(2)] ws_start_inv [OF assms(1)] .
  have "\<exists>q r. ws_queue (w_ses w) = m # q \<and> ws_OnWrite ec (w_ses w) = Inr r"
    if "Async_write m \<in> set (w_ops w)" for m ec
    using ws_inv_pending(2) [OF inv that] by (cases ec) (auto simp: ws_OnWrite_def Let_def)
  with inv show ?thesis by (simp add: ws_inv_def)
qed

theorem write_queue_fifo_witness:
  "w_sent ws_example_world = w_written ws_example_world @ [''a'', ''b''] \<and>
   ws_step\<^sup>*\<^sup>* (ws_start (ws_example [])) ws_example_world"
  using write_queue_fifo [OF _ ws_example_reach] ws_example_reach
  by (simp add: ws_example_def ws_example_world_def)

text \<open>
  From every reachable state in which no write has failed, the event loop can run on,
  with successful writes only, until all accepted messages are written, in order.
\<close>

theorem write_queue_drains:
  assumes "ws_queue s = []" "ws_step\<^sup>*\<^sup>* (ws_start s) w" "\<not> w_failed w"
  shows "\<exists>w'. ws_step\<^sup>*\<^sup>* w w' \<and> w_sent w' = w_sent w \<and> w_written w' = w_sent w \<and> w_writes w' = []"
  by (rule ws_drain [OF ws_runs.invar_reach [OF assms(2) ws_start_inv [OF assms(1)]] assms(3)])

theorem write_queue_drains_witness:
  "\<exists>w'. ws_step\<^sup>*\<^sup>* ws_example_world w' \<and> w_written w' = [''a'', ''b'']"
  using write_queue_drains [OF _ ws_example_reach]
  by (auto simp: ws_example_def ws_example_world_def)

text \<open>
  Once a write has failed, no message is written in any continuation of the run, new
  connections included, although \<^verbatim>\<open>SendMsg\<close> keeps accepting messages: the failed message
  stays at the front and \<^verbatim>\<open>OnSend\<close> starts a write for an empty queue only.
\<close>

theorem write_error_stalls:
  assumes "ws_queue s = []" "ws_step\<^sup>*\<^sup>* (ws_start s) w" "w_failed w" "ws_step\<^sup>*\<^sup>* w w'"
  shows "w_written w' = w_written w \<and> w_writes w' = []"
proof -
  have inv: "ws_inv w" by (rule ws_runs.invar_reach [OF assms(2) ws_start_inv [OF assms(1)]])
  have "w_failed w' \<and> w_written w' = w_written w" by (rule ws_stall [OF assms(4) inv assms(3)])
  moreover have "ws_inv w'" by (rule ws_runs.invar_reach [OF assms(4) inv])
  ultimately show ?thesis by (simp add: ws_stalled_writes)
qed

theorem write_error_stalls_witness:
  "\<exists>w :: nat ws_world. ws_step\<^sup>*\<^sup>* (ws_start (ws_example [])) w \<and> w_failed w \<and>
     w_written (ws_issue (ws_SendMsg ''c'' (w_ses w)) w) = []"
proof -
  let ?w = "ws_example_world\<lparr>w_ops := [], w_failed := True\<rparr>"
  have "ws_step ws_example_world ((ws_issue (w_ses ws_example_world, [])
          (ws_take (Async_write ''a'') ws_example_world))\<lparr>w_failed := True\<rparr>)"
    by (rule ws_step.write_failed) (simp_all add: ws_example_world_def ws_OnWrite_def)
  moreover have "(ws_issue (w_ses ws_example_world, []) (ws_take (Async_write ''a'') ws_example_world))
      \<lparr>w_failed := True\<rparr> = ?w" by (simp add: ws_example_world_def ws_issue_def ws_take_def)
  ultimately have r: "ws_step\<^sup>*\<^sup>* (ws_start (ws_example [])) ?w"
    using ws_example_reach by (simp add: rtranclp.rtrancl_into_rtrancl)
  moreover have "ws_step\<^sup>*\<^sup>* ?w (ws_issue (ws_SendMsg ''c'' (w_ses ?w)) ?w)"
    by (rule r_into_rtranclp) (rule ws_step.send_msg)
  then have "w_written (ws_issue (ws_SendMsg ''c'' (w_ses ?w)) ?w) = []"
    using write_error_stalls [OF _ r] by (simp add: ws_example_def ws_example_world_def)
  ultimately show ?thesis by (intro exI [of _ ?w]) (simp add: ws_example_world_def)
qed

text \<open>
  \<^verbatim>\<open>ParseUrl\<close> of \<^verbatim>\<open>ws://host:port/target\<close> (scheme in any case, \<^verbatim>\<open>wss\<close> too) finds
  host and target; the port is reduced to a signed 16-bit value, so a port above 32767
  is resolved as a negative number.
\<close>

theorem ParseUrl_parts:
  assumes "map tolower sch = ''ws'' \<or> map tolower sch = ''wss''" "CHR '':'' \<notin> set sch"
    and "CHR '':'' \<notin> set host" "CHR ''/'' \<notin> set host" "n \<le> 65535"
    and "ws_url s = sch @ ''://'' @ host @ '':'' @ show_nat n @ ''/'' @ t" "str_ok (ws_url s)"
  shows "ws_ParseUrl s = (Inr True, s\<lparr>ws_scheme := map tolower sch, ws_host := host,
           ws_port := (if n \<le> 32767 then int n else int n - 65536), ws_target := ''/'' @ t\<rparr>)"
proof -
  have "to_int16 (int n) = (if n \<le> 32767 then int n else int n - 65536)"
  proof (cases "n \<le> 32767")
    case True
    then show ?thesis by (simp add: to_int16_id)
  next
    case False
    have "word_of_int (int n) = (word_of_int (int n - 65536) :: 16 word)"
      by (simp add: word_of_int_eq_iff take_bit_eq_mod mod_eq_dvd_iff)
    then have "to_int16 (int n) = to_int16 (int n - 65536)"
      unfolding to_int16_def by (rule arg_cong)
    also have "\<dots> = int n - 65536" using False assms(5) by (intro to_int16_id) auto
    finally show ?thesis using False by simp
  qed
  moreover have "int n \<le> int32_max" using assms(5) by (simp add: int32_max_def)
  ultimately show ?thesis using ws_ParseUrl_lemma [OF assms(1-4) _ assms(6,7)] by simp
qed

theorem ParseUrl_parts_witness:
  "ws_port (snd (ws_ParseUrl (ws_example ''WS://h:40000/x''))) = - 25536 \<and>
   ws_target (snd (ws_ParseUrl (ws_example ''WS://h:40000/x''))) = ''/x''"
proof -
  have n: "show_nat 40000 = ''40000''" by (simp add: show_nat.simps)
  have l: "tolower CHR ''W'' = CHR ''w''" "tolower CHR ''S'' = CHR ''s''" by (simp_all add: tolower_def) (simp_all add: char_of_def bit_Suc_0_iff)
  have "ws_ParseUrl (ws_example ''WS://h:40000/x'') =
      (Inr True, (ws_example ''WS://h:40000/x'')\<lparr>ws_scheme := map tolower ''WS'', ws_host := ''h'',
         ws_port := (if 40000 \<le> (32767 :: nat) then int 40000 else int 40000 - 65536), ws_target := ''/'' @ ''x''\<rparr>)"
    by (rule ParseUrl_parts) (simp_all add: l n ws_example_def npos_def size_max_def)
  then show ?thesis by simp
qed

text \<open>
  No URL makes the constructor throw: every \<^verbatim>\<open>substr\<close> of \<^verbatim>\<open>ParseUrl\<close> stays in
  range, the wrapped indices included.
\<close>

theorem session_new_no_throw:
  assumes "str_ok url"
  shows "(ws_new url :: 'c ws_session res) \<noteq> Inl (Exn e)"
proof -
  define s0 :: "'c ws_session" where "s0 = \<lparr>ws_url = url, ws_scheme = [], ws_host = [], ws_port = - 1,
     ws_target = [], ws_do_disconnect = False, ws_connected = False, ws_queue = [],
     ws_ready = None, ws_receive = None, ws_abnormal = None\<rparr>"
  obtain r s where p: "ws_ParseUrl s0 = (r, s)" by (cases "ws_ParseUrl s0")
  have "r \<noteq> Inl (Exn e)" using ws_ParseUrl_nothrow [of s0 e] assms p by (simp add: s0_def)
  moreover have "ws_new url = (case r of Inl e \<Rightarrow> Inl e | Inr _ \<Rightarrow> Inr s)"
    unfolding ws_new_def s0_def [symmetric] p by simp
  ultimately show ?thesis by (cases r) simp_all
qed

theorem session_new_no_throw_witness:
  "(ws_new ''ws:/'' :: nat ws_session res) \<noteq> Inl (Exn OutOfRange)"
  by (rule session_new_no_throw) (simp add: npos_def size_max_def)

end
