(* ===== verification/Json_Api.thy ===== *)
theory Json_Api
  imports Cpp_String
begin

text \<open>
  The interface of \<^verbatim>\<open>nlohmann::json\<close>, which is not part of the repository: the operations
  the program calls, as one record that the components take as an argument, and the
  documented behaviour of the library that the proofs rely on, as a locale. \<open>'j\<close> are JSON
  values up to the library's \<^verbatim>\<open>operator==\<close> (which compares numbers by value).
\<close>

section \<open>The operations\<close>

text \<open>
  The two forms of \<^verbatim>\<open>operator[]\<close> differ: the one on a non-const value creates what is
  missing (\<open>j_at\<close> and \<open>j_get\<close> give the value read, \<open>j_touch\<close> the container afterwards), the
  one on a const value (\<open>j_get_c\<close>) requires the key to be there.
\<close>

record 'j json_api =
  j_parse :: "string \<Rightarrow> 'j res"
  j_dump :: "'j \<Rightarrow> string res"
  j_null :: 'j
  j_object :: 'j
  j_array :: "'j list \<Rightarrow> 'j"
  j_bool :: "bool \<Rightarrow> 'j"
  j_int :: "int \<Rightarrow> 'j"
  j_uint :: "uint64 \<Rightarrow> 'j"
  j_string :: "string \<Rightarrow> 'j"
  j_set_at :: "nat \<Rightarrow> 'j \<Rightarrow> 'j \<Rightarrow> 'j res"
  j_set :: "string \<Rightarrow> 'j \<Rightarrow> 'j \<Rightarrow> 'j res"
  j_at :: "nat \<Rightarrow> 'j \<Rightarrow> 'j res"
  j_get :: "string \<Rightarrow> 'j \<Rightarrow> 'j res"
  j_touch :: "string \<Rightarrow> 'j \<Rightarrow> 'j"
  j_at_c :: "nat \<Rightarrow> 'j \<Rightarrow> 'j res"
  j_get_c :: "string \<Rightarrow> 'j \<Rightarrow> 'j res"
  j_elems :: "'j \<Rightarrow> 'j list"
  j_contains :: "string \<Rightarrow> 'j \<Rightarrow> bool"
  j_as_string :: "'j \<Rightarrow> string res"
  j_as_bool :: "'j \<Rightarrow> bool res"
  j_as_int :: "'j \<Rightarrow> int res"
  j_as_uint :: "'j \<Rightarrow> uint64 res"
  j_value_string :: "string \<Rightarrow> string \<Rightarrow> 'j \<Rightarrow> string res"
  j_value_int :: "string \<Rightarrow> int \<Rightarrow> 'j \<Rightarrow> int res"
  j_value_bool :: "string \<Rightarrow> bool \<Rightarrow> 'j \<Rightarrow> bool res"
  j_eq_string :: "'j \<Rightarrow> string \<Rightarrow> bool"
  j_is_null :: "'j \<Rightarrow> bool"
  j_is_string :: "'j \<Rightarrow> bool"
  j_is_object :: "'j \<Rightarrow> bool"

text \<open>
  \<^verbatim>\<open>nlohmann::json o; o["k1"] = v1; o["k2"] = v2; \<dots>\<close> and
  \<^verbatim>\<open>auto a = nlohmann::json::array(); a[0] = v0; a[1] = v1; \<dots>\<close>
\<close>

definition j_assigns :: "'j json_api \<Rightarrow> (string \<times> 'j) list \<Rightarrow> 'j res" where
  "j_assigns J kvs = foldl (\<lambda>r (k, v). rbind r (j_set J k v)) (Inr (j_null J)) kvs"

definition j_items :: "'j json_api \<Rightarrow> 'j list \<Rightarrow> 'j res" where
  "j_items J vs = foldl (\<lambda>r (i, v). rbind r (j_set_at J i v)) (Inr (j_array J [])) (enumerate 0 vs)"

section \<open>What is assumed of the library\<close>

definition ascii :: "string \<Rightarrow> bool" where
  "ascii s \<longleftrightarrow> (\<forall>c \<in> set s. (of_char c :: nat) < 128)"

text \<open>
  \<open>obj\<close> and \<open>arr\<close> give the content of an object and of an array; \<open>plain\<close> are the values
  whose strings are all ASCII (the documentation guarantees that \<^verbatim>\<open>dump\<close> succeeds, and that
  its result parses to an equal value, for UTF-8 strings).
\<close>

locale nlohmann =
  fixes J :: "'j json_api"
    and obj :: "'j \<Rightarrow> (string \<rightharpoonup> 'j) option"
    and arr :: "'j \<Rightarrow> 'j list option"
    and plain :: "'j \<Rightarrow> bool"
  assumes obj_object: "obj (j_object J) = Some Map.empty"
    and arr_array: "arr (j_array J vs) = Some vs"
    and set_null: "\<exists>j. j_set J k v (j_null J) = Inr j \<and> obj j = Some [k \<mapsto> v] \<and>
        (ascii k \<longrightarrow> plain v \<longrightarrow> plain j)"
    and set_obj: "obj j = Some m \<Longrightarrow> \<exists>j'. j_set J k v j = Inr j' \<and> obj j' = Some (m(k \<mapsto> v)) \<and>
        (ascii k \<longrightarrow> plain j \<longrightarrow> plain v \<longrightarrow> plain j')"
    and set_at_end: "arr j = Some vs \<Longrightarrow> \<exists>j'. j_set_at J (length vs) v j = Inr j' \<and>
        arr j' = Some (vs @ [v]) \<and> (plain j \<longrightarrow> plain v \<longrightarrow> plain j')"
    and get_obj: "obj j = Some m \<Longrightarrow> m k = Some v \<Longrightarrow> j_get J k j = Inr v"
    and at_arr: "arr j = Some vs \<Longrightarrow> i < length vs \<Longrightarrow> j_at J i j = Inr (vs ! i)"
    and get_c_obj: "obj j = Some m \<Longrightarrow> m k = Some v \<Longrightarrow> j_get_c J k j = Inr v"
    and at_c_arr: "arr j = Some vs \<Longrightarrow> i < length vs \<Longrightarrow> j_at_c J i j = Inr (vs ! i)"
    and get_missing: "obj j = Some m \<Longrightarrow> m k = None \<Longrightarrow> j_get J k j = Inr (j_null J)"
    and touch_obj: "obj j = Some m \<Longrightarrow> obj (j_touch J k j) = Some (if m k = None then m(k \<mapsto> j_null J) else m)"
    and elems_arr: "arr j = Some vs \<Longrightarrow> j_elems J j = vs"
    and contains_obj: "obj j = Some m \<Longrightarrow> j_contains J k j \<longleftrightarrow> k \<in> dom m"
    and is_null: "j_is_null J (j_null J)" "\<not> j_is_null J (j_string J s)" "obj j \<noteq> None \<Longrightarrow> \<not> j_is_null J j"
    and is_string: "j_is_string J (j_string J s)" "\<not> j_is_string J (j_null J)"
    and is_object: "j_is_object J j \<longleftrightarrow> obj j \<noteq> None"
    and null_string: "j_as_string J (j_null J) = Inl (Exn TypeError)"
    and as_string: "j_as_string J (j_string J s) = Inr s"
    and as_bool: "j_as_bool J (j_bool J b) = Inr b"
    and as_int: "int32_min \<le> n \<Longrightarrow> n \<le> int32_max \<Longrightarrow> j_as_int J (j_int J n) = Inr n"
    and as_uint: "j_as_uint J (j_uint J w) = Inr w"
    and eq_string: "j_eq_string J (j_string J s) t \<longleftrightarrow> s = t"
    and value_missing: "obj j = Some m \<Longrightarrow> m k = None \<Longrightarrow> j_value_string J k s j = Inr s"
        "obj j = Some m \<Longrightarrow> m k = None \<Longrightarrow> j_value_int J k n j = Inr n"
        "obj j = Some m \<Longrightarrow> m k = None \<Longrightarrow> j_value_bool J k b j = Inr b"
    and value_present: "obj j = Some m \<Longrightarrow> m k = Some v \<Longrightarrow> j_value_string J k s j = j_as_string J v"
        "obj j = Some m \<Longrightarrow> m k = Some v \<Longrightarrow> j_value_int J k n j = j_as_int J v"
        "obj j = Some m \<Longrightarrow> m k = Some v \<Longrightarrow> j_value_bool J k b j = j_as_bool J v"
    and plain_values: "plain (j_null J)" "plain (j_object J)" "plain (j_bool J b)" "plain (j_int J n)"
        "plain (j_uint J w)"
    and plain_string: "ascii s \<Longrightarrow> plain (j_string J s)"
    and plain_array: "list_all plain vs \<Longrightarrow> plain (j_array J vs)"
    and parse_dump: "plain j \<Longrightarrow> \<exists>s. j_dump J j = Inr s \<and> j_parse J s = Inr j"
    and dump_array: "arr j = Some vs \<Longrightarrow> j_dump J j = Inr s \<Longrightarrow> \<exists>t. s = CHR ''['' # t"
begin

lemma assigns_from:
  assumes "obj j = Some m"
  shows "\<exists>j'. foldl (\<lambda>r (k, v). rbind r (j_set J k v)) (Inr j) kvs = Inr j' \<and>
    obj j' = Some (m ++ map_of (rev kvs)) \<and>
    (plain j \<longrightarrow> list_all (\<lambda>(k, v). ascii k \<and> plain v) kvs \<longrightarrow> plain j')"
  using assms
proof (induction kvs arbitrary: j m)
  case Nil
  then show ?case by simp
next
  case (Cons kv kvs)
  obtain k v where kv: "kv = (k, v)" by (cases kv)
  obtain j1 where j1: "j_set J k v j = Inr j1" "obj j1 = Some (m(k \<mapsto> v))"
    "ascii k \<longrightarrow> plain j \<longrightarrow> plain v \<longrightarrow> plain j1"
    using set_obj [OF Cons.prems] by blast
  have m: "m ++ map_of (rev (kv # kvs)) = m(k \<mapsto> v) ++ map_of (rev kvs)" by (simp add: kv)
  obtain j' where j': "foldl (\<lambda>r (k, v). rbind r (j_set J k v)) (Inr j1) kvs = Inr j'"
    "obj j' = Some (m(k \<mapsto> v) ++ map_of (rev kvs))"
    "plain j1 \<longrightarrow> list_all (\<lambda>(k, v). ascii k \<and> plain v) kvs \<longrightarrow> plain j'"
    using Cons.IH [OF j1(2)] by blast
  from j'(3) j1(3) show ?case
    unfolding m by (intro exI [of _ j'] conjI) (simp_all only: j'(2), simp_all add: kv j1(1) j'(1))
qed

lemma assigns:
  assumes "kvs \<noteq> []"
  shows "\<exists>j. j_assigns J kvs = Inr j \<and> obj j = Some (map_of (rev kvs)) \<and>
    (list_all (\<lambda>(k, v). ascii k \<and> plain v) kvs \<longrightarrow> plain j)"
proof -
  obtain k v r where kvs: "kvs = (k, v) # r" using assms by (cases kvs) auto
  obtain j where j: "j_set J k v (j_null J) = Inr j" "obj j = Some [k \<mapsto> v]"
    "ascii k \<longrightarrow> plain v \<longrightarrow> plain j" using set_null by blast
  have m: "map_of (rev kvs) = [k \<mapsto> v] ++ map_of (rev r)" by (simp add: kvs)
  from assigns_from [OF j(2), of r] j(3) show ?thesis unfolding m by (force simp: j_assigns_def kvs j(1))
qed

lemma items_from:
  assumes "arr j = Some ws"
  shows "\<exists>j'. foldl (\<lambda>r (i, v). rbind r (j_set_at J i v)) (Inr j) (enumerate (length ws) vs) = Inr j' \<and>
    arr j' = Some (ws @ vs) \<and> (plain j \<longrightarrow> list_all plain vs \<longrightarrow> plain j')"
  using assms
proof (induction vs arbitrary: j ws)
  case Nil
  then show ?case by simp
next
  case (Cons v vs)
  obtain j1 where j1: "j_set_at J (length ws) v j = Inr j1" "arr j1 = Some (ws @ [v])"
    "plain j \<longrightarrow> plain v \<longrightarrow> plain j1"
    using set_at_end [OF Cons.prems] by blast
  from Cons.IH [OF j1(2)] j1 show ?case by auto
qed

lemma items:
  "\<exists>j. j_items J vs = Inr j \<and> arr j = Some vs \<and> (list_all plain vs \<longrightarrow> plain j)"
proof -
  have "plain (j_array J [])" by (rule plain_array) simp
  with items_from [of "j_array J []" "[]" vs] show ?thesis by (simp add: j_items_def arr_array)
qed

text \<open>The value that was built is read back from the text it is sent as.\<close>

lemma items_dump:
  assumes "list_all plain vs"
  shows "\<exists>j s. j_items J vs = Inr j \<and> arr j = Some vs \<and> j_dump J j = Inr s \<and> j_parse J s = Inr j \<and>
    (\<exists>t. s = CHR ''['' # t)"
proof -
  obtain j where j: "j_items J vs = Inr j" "arr j = Some vs" "plain j" using items assms by blast
  moreover obtain s where s: "j_dump J j = Inr s" "j_parse J s = Inr j" using parse_dump [OF j(3)] by blast
  ultimately show ?thesis using dump_array by blast
qed

end

end
