(* ===== verification/Json_Ref.thy ===== *)
theory Json_Ref
  imports Json_Api Ordered
begin

text \<open>
  A concrete JSON: values, printer, parser and the operations of the interface, for ASCII
  strings and integers. It is what the witnesses run on, and it shows that the behaviour the
  locale \<open>nlohmann\<close> states can be had: the printer and the parser are inverse to each other.
\<close>

section \<open>Values and text\<close>

datatype json =
    JNull
  | JBool bool
  | JNum int
  | JStr string
  | JArr "json list"
  | JObj "(string \<times> json) list"

fun commas :: "string list \<Rightarrow> string" where
  "commas [] = []"
| "commas [t] = t"
| "commas (t # ts) = t @ '','' @ commas ts"

text \<open>The escapes: the control characters \<open>b\<close>, \<open>t\<close>, \<open>n\<close>, \<open>f\<close>, \<open>r\<close>, the quote and the backslash.\<close>

definition escapes :: "(nat \<times> char) list" where
  "escapes = [(8, CHR ''b''), (9, CHR ''t''), (10, CHR ''n''), (12, CHR ''f''), (13, CHR ''r''),
     (34, CHR 0x22), (92, CHR 0x5C)]"

definition escape :: "char \<Rightarrow> string" where
  "escape c = (case map_of escapes (of_char c) of None \<Rightarrow> [c] | Some e \<Rightarrow> [CHR 0x5C, e])"

definition unescape :: "char \<Rightarrow> char option" where
  "unescape e = map_option char_of (map_of (map (\<lambda>(n, e). (e, n)) escapes) e)"

definition dump_str :: "string \<Rightarrow> string" where
  "dump_str s = CHR 0x22 # concat (map escape s) @ [CHR 0x22]"

fun dump :: "json \<Rightarrow> string" where
  "dump JNull = ''null''"
| "dump (JBool b) = (if b then ''true'' else ''false'')"
| "dump (JNum i) = show_int i"
| "dump (JStr s) = dump_str s"
| "dump (JArr js) = ''['' @ commas (map dump js) @ '']''"
| "dump (JObj m) = ''{'' @ commas (map (\<lambda>(k, v). dump_str k @ '':'' @ dump v) m) @ ''}''"

definition json_space :: "char \<Rightarrow> bool" where
  "json_space c \<longleftrightarrow> (of_char c :: nat) \<in> {9, 10, 13, 32}"

fun lit :: "string \<Rightarrow> string \<Rightarrow> string option" where
  "lit [] s = Some s"
| "lit (c # cs) (d # s) = (if c = d then lit cs s else None)"
| "lit (c # cs) [] = None"

fun pstr :: "string \<Rightarrow> (string \<times> string) option" where
  "pstr [] = None"
| "pstr (c # s) =
     (if c = CHR 0x22 then Some ([], s)
      else if c = CHR 0x5C then
        (case s of
           [] \<Rightarrow> None
         | e # r \<Rightarrow> (case unescape e of
                       None \<Rightarrow> None
                     | Some d \<Rightarrow> map_option (\<lambda>(t, r). (d # t, r)) (pstr r)))
      else map_option (\<lambda>(t, r). (c # t, r)) (pstr s))"

definition pnum :: "string \<Rightarrow> (json \<times> string) option" where
  "pnum s =
     (let neg = (s \<noteq> [] \<and> hd s = CHR ''-''); t = (if neg then tl s else s); ds = takeWhile is_digit t
      in if ds = [] then None
         else Some (JNum (if neg then - int (val_of 0 ds) else int (val_of 0 ds)), dropWhile is_digit t))"

fun pval :: "nat \<Rightarrow> string \<Rightarrow> (json \<times> string) option"
  and pelems :: "nat \<Rightarrow> string \<Rightarrow> (json list \<times> string) option"
  and pmembers :: "nat \<Rightarrow> string \<Rightarrow> ((string \<times> json) list \<times> string) option" where
  "pval 0 s = None"
| "pval (Suc n) s =
     (case dropWhile json_space s of
        [] \<Rightarrow> None
      | c # r \<Rightarrow>
          if c = CHR ''n'' then map_option (Pair JNull) (lit ''ull'' r)
          else if c = CHR ''t'' then map_option (Pair (JBool True)) (lit ''rue'' r)
          else if c = CHR ''f'' then map_option (Pair (JBool False)) (lit ''alse'' r)
          else if c = CHR 0x22 then map_option (\<lambda>(t, r). (JStr t, r)) (pstr r)
          else if c = CHR ''['' then
            (case lit '']'' (dropWhile json_space r) of
               Some r' \<Rightarrow> Some (JArr [], r')
             | None \<Rightarrow> map_option (\<lambda>(js, r). (JArr js, r)) (pelems n r))
          else if c = CHR ''{'' then
            (case lit ''}'' (dropWhile json_space r) of
               Some r' \<Rightarrow> Some (JObj [], r')
             | None \<Rightarrow> map_option (\<lambda>(m, r). (JObj (foldl (\<lambda>m (k, v). omap_put k v m) [] m), r)) (pmembers n r))
          else pnum (c # r))"
| "pelems 0 s = None"
| "pelems (Suc n) s =
     (case pval n s of
        None \<Rightarrow> None
      | Some (j, r) \<Rightarrow>
          (case dropWhile json_space r of
             [] \<Rightarrow> None
           | c # r' \<Rightarrow>
               if c = CHR '','' then map_option (\<lambda>(js, r). (j # js, r)) (pelems n r')
               else if c = CHR '']'' then Some ([j], r') else None))"
| "pmembers 0 s = None"
| "pmembers (Suc n) s =
     (case lit [CHR 0x22] (dropWhile json_space s) of
        None \<Rightarrow> None
      | Some r0 \<Rightarrow>
     (case pstr r0 of
        None \<Rightarrow> None
      | Some (k, r1) \<Rightarrow>
     (case lit '':'' (dropWhile json_space r1) of
        None \<Rightarrow> None
      | Some r2 \<Rightarrow>
     (case pval n r2 of
        None \<Rightarrow> None
      | Some (j, r) \<Rightarrow>
          (case dropWhile json_space r of
             [] \<Rightarrow> None
           | c # r' \<Rightarrow>
               if c = CHR '','' then map_option (\<lambda>(js, r). ((k, j) # js, r)) (pmembers n r')
               else if c = CHR ''}'' then Some ([(k, j)], r') else None)))))"

definition parse :: "string \<Rightarrow> json option" where
  "parse s =
     (case pval (length s) s of
        Some (j, r) \<Rightarrow> if dropWhile json_space r = [] then Some j else None
      | None \<Rightarrow> None)"

fun json_plain :: "json \<Rightarrow> bool" where
  "json_plain (JStr s) = ascii s"
| "json_plain (JArr js) = (\<forall>j \<in> set js. json_plain j)"
| "json_plain (JObj m) = (omap_inv m \<and> (\<forall>(k, v) \<in> set m. ascii k \<and> json_plain v))"
| "json_plain _ = True"

section \<open>Reading back what was printed\<close>

lemma escapes_inverse:
  "map_of escapes n = Some e \<Longrightarrow> map_of (map (\<lambda>(n, e). (e, n)) escapes) e = Some n"
  by (auto simp: escapes_def split: if_splits)

lemma pstr_escape:
  "pstr (concat (map escape s) @ CHR 0x22 # r) = Some (s, r)"
proof (induction s)
  case Nil
  then show ?case by simp
next
  case (Cons c s)
  note IH = Cons.IH
  show ?case
  proof (cases "map_of escapes (of_char c)")
    case None
    then have "of_char c \<noteq> (34 :: nat)" "of_char c \<noteq> (92 :: nat)" by (auto simp: escapes_def)
    then have "c \<noteq> CHR 0x22" "c \<noteq> CHR 0x5C" by auto
    moreover from None have "escape c = [c]" by (simp add: escape_def)
    ultimately show ?thesis using IH by simp
  next
    case (Some e)
    have "unescape e = Some (char_of (of_char c :: nat))"
      using escapes_inverse [OF Some] by (simp add: unescape_def)
    moreover from Some have "escape c = [CHR 0x5C, e]" by (simp add: escape_def)
    ultimately show ?thesis using IH by simp
  qed
qed

lemma pstr_dump: "pstr (concat (map escape s) @ [CHR 0x22] @ r) = Some (s, r)"
  using pstr_escape [of s r] by simp

text \<open>What may follow a value: nothing, or a character that ends a number.\<close>

definition stops :: "string \<Rightarrow> bool" where
  "stops r \<longleftrightarrow> r = [] \<or> \<not> is_digit (hd r)"

lemma takeWhile_stops: "\<forall>c \<in> set ds. P c \<Longrightarrow> r = [] \<or> \<not> P (hd r) \<Longrightarrow>
    takeWhile P (ds @ r) = ds \<and> dropWhile P (ds @ r) = r"
  by (induction ds) (cases r, simp_all)+

lemma pnum_nat:
  assumes "stops r"
  shows "pnum (show_nat n @ r) = Some (JNum (int n), r)"
proof -
  have d: "\<forall>c \<in> set (show_nat n). is_digit c" by (rule show_nat_digits)
  have ne: "show_nat n \<noteq> []" by simp
  then have "is_digit (hd (show_nat n))" using d hd_in_set by blast
  then have "hd (show_nat n @ r) \<noteq> CHR ''-''" using ne digit_not_sign by simp
  moreover have "takeWhile is_digit (show_nat n @ r) = show_nat n \<and> dropWhile is_digit (show_nat n @ r) = r"
    using d assms by (intro takeWhile_stops) (auto simp: stops_def)
  ultimately show ?thesis by (simp add: pnum_def val_of_show_nat)
qed

lemma pnum_int:
  assumes "stops r"
  shows "pnum (show_int i @ r) = Some (JNum i, r)"
proof (cases "i < 0")
  case True
  have "takeWhile is_digit (show_nat (nat (- i)) @ r) = show_nat (nat (- i)) \<and>
      dropWhile is_digit (show_nat (nat (- i)) @ r) = r"
    using assms show_nat_digits by (intro takeWhile_stops) (auto simp: stops_def)
  with True show ?thesis by (simp add: show_int_def pnum_def val_of_show_nat)
next
  case False
  then show ?thesis using pnum_nat [OF assms, of "nat i"] by (simp add: show_int_def)
qed

text \<open>The first character of a number.\<close>

lemma show_int_Cons: "\<exists>c t. show_int i = c # t \<and> (c = CHR ''-'' \<or> is_digit c)"
proof (cases "i < 0")
  case False
  obtain c t where "show_nat (nat i) = c # t" by (cases "show_nat (nat i)") auto
  with False show_nat_digits [of "nat i"] show ?thesis by (auto simp: show_int_def)
qed (simp add: show_int_def)

lemma digit_not_lead:
  "c = CHR ''-'' \<or> is_digit c \<Longrightarrow>
     \<not> json_space c \<and> c \<noteq> CHR ''n'' \<and> c \<noteq> CHR ''t'' \<and> c \<noteq> CHR ''f'' \<and> c \<noteq> CHR 0x22 \<and> c \<noteq> CHR ''['' \<and>
     c \<noteq> CHR ''{'' \<and> c \<noteq> CHR '']''"
  by (auto simp: is_digit_def json_space_def)

lemma json_space_punct: "\<not> json_space CHR '',''" "\<not> json_space CHR '']''" "\<not> json_space CHR ''}''"
  "\<not> json_space CHR '':''" "\<not> json_space CHR 0x22" "\<not> json_space CHR ''[''" "\<not> json_space CHR ''{''"
  "\<not> json_space CHR ''n''" "\<not> json_space CHR ''t''" "\<not> json_space CHR ''f''"
  by (simp_all add: json_space_def)

lemma dump_lead: "\<exists>c t. dump j = c # t \<and> \<not> json_space c \<and> c \<noteq> CHR '']''"
proof (cases j)
  case (JNum i)
  obtain c t where ct: "show_int i = c # t" "c = CHR ''-'' \<or> is_digit c" using show_int_Cons by blast
  with digit_not_lead [OF ct(2)] show ?thesis by (simp add: JNum)
qed (simp_all add: dump_str_def json_space_punct)

lemma pval_num:
  assumes "stops r"
  shows "pval (Suc n) (show_int i @ r) = Some (JNum i, r)"
proof -
  obtain c t where ct: "show_int i = c # t" "c = CHR ''-'' \<or> is_digit c" using show_int_Cons by blast
  with digit_not_lead [OF ct(2)] have "pval (Suc n) (show_int i @ r) = pnum (c # t @ r)" by simp
  with pnum_int [OF assms, of i] ct(1) show ?thesis by simp
qed

text \<open>The length of a list of texts with the separators and the closing bracket.\<close>

lemma length_commas: "ts \<noteq> [] \<Longrightarrow> Suc (length (commas ts)) = (\<Sum>t \<leftarrow> ts. Suc (length t))"
  by (induction ts rule: commas.induct) simp_all

lemma commas_Cons: "ts \<noteq> [] \<Longrightarrow> commas (t # ts) = t @ '','' @ commas ts"
  by (cases ts) simp_all

definition reads :: "json \<Rightarrow> bool" where
  "reads j \<longleftrightarrow> (\<forall>n r. length (dump j) \<le> n \<longrightarrow> stops r \<longrightarrow> pval n (dump j @ r) = Some (j, r))"

lemma readsI:
  assumes "\<And>n r. length (dump j) \<le> Suc n \<Longrightarrow> stops r \<Longrightarrow> pval (Suc n) (dump j @ r) = Some (j, r)"
  shows "reads j"
  unfolding reads_def
proof (intro allI impI)
  fix n r assume n: "length (dump j) \<le> n" "stops r"
  obtain c t where "dump j = c # t" using dump_lead by blast
  with n(1) obtain m where "n = Suc m" by (cases n) auto
  with n assms show "pval n (dump j @ r) = Some (j, r)" by blast
qed

lemma stops_punct: "stops (CHR '','' # r)" "stops (CHR '']'' # r)" "stops (CHR ''}'' # r)"
  by (simp_all add: stops_def is_digit_def)

lemma pelems_dump:
  assumes "js \<noteq> []" "\<forall>j \<in> set js. reads j" "(\<Sum>j \<leftarrow> js. Suc (length (dump j))) \<le> n"
  shows "pelems n (commas (map dump js) @ CHR '']'' # r) = Some (js, r)"
  using assms
proof (induction js arbitrary: n)
  case (Cons j js)
  from Cons.prems(3) obtain m where n: "n = Suc m" by (cases n) auto
  have j: "reads j" and len: "length (dump j) \<le> m" using Cons.prems by (simp_all add: n)
  show ?case
  proof (cases "js = []")
    case True
    have "pval m (dump j @ CHR '']'' # r) = Some (j, CHR '']'' # r)"
      using j len stops_punct(2) by (simp add: reads_def)
    with True show ?thesis by (simp add: n json_space_punct)
  next
    case False
    have "pval m (dump j @ CHR '','' # commas (map dump js) @ CHR '']'' # r) =
        Some (j, CHR '','' # commas (map dump js) @ CHR '']'' # r)"
      using j len stops_punct(1) by (simp add: reads_def)
    moreover have "pelems m (commas (map dump js) @ CHR '']'' # r) = Some (js, r)"
      using Cons.IH [OF False, of m] Cons.prems by (simp add: n)
    ultimately show ?thesis using False by (simp add: n json_space_punct commas_Cons)
  qed
qed simp

definition dump_member :: "string \<times> json \<Rightarrow> string" where
  "dump_member kv = dump_str (fst kv) @ '':'' @ dump (snd kv)"

lemma pmembers_dump:
  assumes "m \<noteq> []" "\<forall>kv \<in> set m. reads (snd kv)" "(\<Sum>kv \<leftarrow> m. Suc (length (dump_member kv))) \<le> n"
  shows "pmembers n (commas (map dump_member m) @ CHR ''}'' # r) = Some (m, r)"
  using assms
proof (induction m arbitrary: n)
  case (Cons kv m)
  obtain k j where kv: "kv = (k, j)" by (cases kv)
  from Cons.prems(3) obtain n' where n: "n = Suc n'" by (cases n) auto
  have j: "reads j" and len: "length (dump j) \<le> n'" using Cons.prems by (simp_all add: n kv dump_member_def)
  have mem: "dump_member (k, j) @ s = CHR 0x22 # concat (map escape k) @ [CHR 0x22] @ CHR '':'' # dump j @ s" for s
    by (simp add: dump_member_def dump_str_def)
  show ?case
  proof (cases "m = []")
    case True
    have "pval n' (dump j @ CHR ''}'' # r) = Some (j, CHR ''}'' # r)"
      using j len stops_punct(3) by (simp add: reads_def)
    with True show ?thesis by (simp add: n json_space_punct kv mem pstr_dump [simplified])
  next
    case False
    have "pval n' (dump j @ CHR '','' # commas (map dump_member m) @ CHR ''}'' # r) =
        Some (j, CHR '','' # commas (map dump_member m) @ CHR ''}'' # r)"
      using j len stops_punct(1) by (simp add: reads_def)
    moreover have "pmembers n' (commas (map dump_member m) @ CHR ''}'' # r) = Some (m, r)"
      using Cons.IH [OF False, of n'] Cons.prems by (simp add: n)
    ultimately show ?thesis using False
      by (simp add: n json_space_punct commas_Cons kv mem pstr_dump [simplified])
  qed
qed simp

lemma dump_JObj: "dump (JObj m) = ''{'' @ commas (map dump_member m) @ ''}''"
  by (simp add: dump_member_def case_prod_beta' cong: map_cong)

lemma omap_rebuild:
  "omap_inv (m' @ m) \<Longrightarrow> foldl (\<lambda>m (k, v). omap_put k v m) m' m = m' @ m"
proof (induction m arbitrary: m')
  case (Cons kv m)
  obtain k v where kv: "kv = (k, v)" by (cases kv)
  have "\<forall>k' \<in> fst ` set m'. k' < k" using Cons.prems by (auto simp: kv sorted_wrt_append)
  then have "omap_put k v m' = m' @ [(k, v)]" by (rule omap_put_last)
  with Cons.IH [of "m' @ [(k, v)]"] Cons.prems show ?case by (simp add: kv)
qed simp

lemma reads_JArr:
  assumes "\<forall>j \<in> set js. reads j"
  shows "reads (JArr js)"
proof (cases "js = []")
  case True
  then show ?thesis by (intro readsI) (simp add: json_space_punct)
next
  case False
  show ?thesis
  proof (rule readsI)
    fix n r assume len: "length (dump (JArr js)) \<le> Suc n"
    have l: "(\<Sum>j \<leftarrow> js. Suc (length (dump j))) = Suc (length (commas (map dump js)))"
      using length_commas [of "map dump js"] False by (simp add: comp_def)
    have "pelems n (commas (map dump js) @ CHR '']'' # r) = Some (js, r)"
      using False assms len l by (intro pelems_dump) simp_all
    moreover obtain j js' where js: "js = j # js'" using False by (cases js) auto
    moreover obtain c t where ct: "dump j = c # t" "\<not> json_space c" "c \<noteq> CHR '']''" using dump_lead by blast
    moreover have "\<exists>u. commas (map dump js) = c # u" using js ct(1) by (cases js') simp_all
    ultimately show "pval (Suc n) (dump (JArr js) @ r) = Some (JArr js, r)" by (auto simp: json_space_punct)
  qed
qed

lemma reads_JObj:
  assumes "\<forall>kv \<in> set m. reads (snd kv)" "omap_inv m"
  shows "reads (JObj m)"
proof (cases "m = []")
  case True
  then show ?thesis by (intro readsI) (simp add: json_space_punct)
next
  case False
  show ?thesis
  proof (rule readsI)
    fix n r assume len: "length (dump (JObj m)) \<le> Suc n"
    have l: "(\<Sum>kv \<leftarrow> m. Suc (length (dump_member kv))) = Suc (length (commas (map dump_member m)))"
      using length_commas [of "map dump_member m"] False by (simp add: comp_def)
    have "pmembers n (commas (map dump_member m) @ CHR ''}'' # r) = Some (m, r)"
      using False assms(1) len l unfolding dump_JObj by (intro pmembers_dump) simp_all
    moreover obtain kv m' where m: "m = kv # m'" using False by (cases m) auto
    moreover have "\<exists>u. commas (map dump_member m) = CHR 0x22 # u"
      by (cases m') (simp_all add: m dump_member_def dump_str_def)
    moreover have "foldl (\<lambda>m (k, v). omap_put k v m) [] m = m" using omap_rebuild [of "[]" m] assms(2) by simp
    ultimately show "pval (Suc n) (dump (JObj m) @ r) = Some (JObj m, r)"
      unfolding dump_JObj by (auto simp: json_space_punct)
  qed
qed

lemma reads_plain: "json_plain j \<Longrightarrow> reads j"
proof (induction j)
  case (JNum i)
  show ?case by (intro readsI) (simp add: pval_num del: pval.simps)
next
  case (JStr s)
  show ?case by (intro readsI) (simp add: dump_str_def json_space_punct pstr_dump [simplified])
next
  case (JArr js)
  then show ?case by (intro reads_JArr) simp
next
  case (JObj m)
  have "reads (snd kv)" if "kv \<in> set m" for kv
    using JObj.IH [OF that, of "snd kv"] JObj.prems that by (cases kv) auto
  with JObj.prems show ?case by (intro reads_JObj) simp_all
next
  case JNull
  show ?case by (intro readsI) (simp add: json_space_punct)
next
  case (JBool b)
  show ?case by (intro readsI) (cases b; simp add: json_space_punct)
qed

lemma parse_dump: "json_plain j \<Longrightarrow> parse (dump j) = Some j"
  using reads_plain [of j] by (auto simp: reads_def parse_def stops_def dest!: spec [of _ "length (dump j)"] spec [of _ "[]"])

section \<open>The operations of the interface\<close>

definition ref_set :: "string \<Rightarrow> json \<Rightarrow> json \<Rightarrow> json res" where
  "ref_set k v j =
     (case j of JNull \<Rightarrow> Inr (JObj [(k, v)]) | JObj m \<Rightarrow> Inr (JObj (omap_put k v m)) | _ \<Rightarrow> Inl (Exn TypeError))"

definition ref_fill :: "nat \<Rightarrow> json list \<Rightarrow> json list" where
  "ref_fill i xs = xs @ replicate (Suc i - length xs) JNull"

definition ref_set_at :: "nat \<Rightarrow> json \<Rightarrow> json \<Rightarrow> json res" where
  "ref_set_at i v j =
     (case j of
        JNull \<Rightarrow> Inr (JArr ((ref_fill i [])[i := v]))
      | JArr xs \<Rightarrow> Inr (JArr ((ref_fill i xs)[i := v]))
      | _ \<Rightarrow> Inl (Exn TypeError))"

definition ref_at :: "nat \<Rightarrow> json \<Rightarrow> json res" where
  "ref_at i j =
     (case j of JNull \<Rightarrow> Inr JNull | JArr xs \<Rightarrow> Inr (if i < length xs then xs ! i else JNull)
      | _ \<Rightarrow> Inl (Exn TypeError))"

definition ref_get :: "string \<Rightarrow> json \<Rightarrow> json res" where
  "ref_get k j =
     (case j of JNull \<Rightarrow> Inr JNull | JObj m \<Rightarrow> Inr (case map_of m k of None \<Rightarrow> JNull | Some v \<Rightarrow> v)
      | _ \<Rightarrow> Inl (Exn TypeError))"

definition ref_touch :: "string \<Rightarrow> json \<Rightarrow> json" where
  "ref_touch k j =
     (case j of
        JNull \<Rightarrow> JObj [(k, JNull)]
      | JObj m \<Rightarrow> (case map_of m k of None \<Rightarrow> JObj (omap_put k JNull m) | Some _ \<Rightarrow> j)
      | _ \<Rightarrow> j)"

definition ref_at_c :: "nat \<Rightarrow> json \<Rightarrow> json res" where
  "ref_at_c i j =
     (case j of JArr xs \<Rightarrow> if i < length xs then Inr (xs ! i) else Inl (UB BadRead) | _ \<Rightarrow> Inl (Exn TypeError))"

definition ref_get_c :: "string \<Rightarrow> json \<Rightarrow> json res" where
  "ref_get_c k j =
     (case j of
        JObj m \<Rightarrow> (case map_of m k of None \<Rightarrow> Inl (UB BadRead) | Some v \<Rightarrow> Inr v)
      | _ \<Rightarrow> Inl (Exn TypeError))"

definition ref_elems :: "json \<Rightarrow> json list" where
  "ref_elems j = (case j of JNull \<Rightarrow> [] | JArr xs \<Rightarrow> xs | JObj m \<Rightarrow> map snd m | _ \<Rightarrow> [j])"

definition ref_contains :: "string \<Rightarrow> json \<Rightarrow> bool" where
  "ref_contains k j = (case j of JObj m \<Rightarrow> map_of m k \<noteq> None | _ \<Rightarrow> False)"

definition ref_as_string :: "json \<Rightarrow> string res" where
  "ref_as_string j = (case j of JStr s \<Rightarrow> Inr s | _ \<Rightarrow> Inl (Exn TypeError))"

definition ref_as_bool :: "json \<Rightarrow> bool res" where
  "ref_as_bool j = (case j of JBool b \<Rightarrow> Inr b | _ \<Rightarrow> Inl (Exn TypeError))"

definition ref_as_int :: "json \<Rightarrow> int res" where
  "ref_as_int j =
     (case j of JNum i \<Rightarrow> Inr (sint (word_of_int i :: 32 word)) | JBool b \<Rightarrow> Inr (of_bool b)
      | _ \<Rightarrow> Inl (Exn TypeError))"

definition ref_as_uint :: "json \<Rightarrow> uint64 res" where
  "ref_as_uint j = (case j of JNum i \<Rightarrow> Inr (word_of_int i) | _ \<Rightarrow> Inl (Exn TypeError))"

definition ref_value :: "(json \<Rightarrow> 'a res) \<Rightarrow> string \<Rightarrow> 'a \<Rightarrow> json \<Rightarrow> 'a res" where
  "ref_value as k d j =
     (case j of
        JObj m \<Rightarrow> (case map_of m k of None \<Rightarrow> Inr d | Some v \<Rightarrow> as v)
      | _ \<Rightarrow> Inl (Exn TypeError))"

definition ref_eq_string :: "json \<Rightarrow> string \<Rightarrow> bool" where
  "ref_eq_string j s \<longleftrightarrow> j = JStr s"

definition ref_parse :: "string \<Rightarrow> json res" where
  "ref_parse s = (case parse s of None \<Rightarrow> Inl (Exn ParseError) | Some j \<Rightarrow> Inr j)"

definition json_ref :: "json json_api" where
  "json_ref = \<lparr>
     j_parse = ref_parse, j_dump = \<lambda>j. Inr (dump j), j_null = JNull, j_object = JObj [], j_array = JArr,
     j_bool = JBool, j_int = JNum, j_uint = \<lambda>w. JNum (uint w), j_string = JStr,
     j_set_at = ref_set_at, j_set = ref_set, j_at = ref_at, j_get = ref_get, j_touch = ref_touch,
     j_at_c = ref_at_c, j_get_c = ref_get_c, j_elems = ref_elems, j_contains = ref_contains,
     j_as_string = ref_as_string, j_as_bool = ref_as_bool, j_as_int = ref_as_int, j_as_uint = ref_as_uint,
     j_value_string = ref_value ref_as_string, j_value_int = ref_value ref_as_int,
     j_value_bool = ref_value ref_as_bool, j_eq_string = ref_eq_string,
     j_is_null = \<lambda>j. j = JNull, j_is_string = \<lambda>j. (case j of JStr _ \<Rightarrow> True | _ \<Rightarrow> False),
     j_is_object = \<lambda>j. (case j of JObj _ \<Rightarrow> True | _ \<Rightarrow> False)\<rparr>"

lemmas json_ref_defs =
  json_ref_def ref_set_def ref_set_at_def ref_at_def ref_get_def ref_touch_def ref_at_c_def ref_get_c_def
  ref_elems_def ref_contains_def ref_as_string_def ref_as_bool_def ref_as_int_def ref_as_uint_def
  ref_value_def ref_eq_string_def ref_fill_def

definition obj_of :: "json \<Rightarrow> (string \<rightharpoonup> json) option" where
  "obj_of j = (case j of JObj m \<Rightarrow> Some (map_of m) | _ \<Rightarrow> None)"

definition arr_of :: "json \<Rightarrow> json list option" where
  "arr_of j = (case j of JArr xs \<Rightarrow> Some xs | _ \<Rightarrow> None)"

lemma map_of_omap_put: "map_of (omap_put k v m) = (map_of m)(k \<mapsto> v)"
  by (rule ext) (simp add: omap_find_put)

lemma set_omap_put_subset: "set (omap_put k v m) \<subseteq> insert (k, v) (set m)"
  by (induction m) (auto split: if_splits)

lemma plain_put: "json_plain (JObj m) \<Longrightarrow> ascii k \<Longrightarrow> json_plain v \<Longrightarrow> json_plain (JObj (omap_put k v m))"
  using set_omap_put_subset [of k v m] by (auto simp: omap_put_inv)

lemma obj_of_Some: "obj_of j = Some m \<longleftrightarrow> (\<exists>l. j = JObj l \<and> m = map_of l)"
  by (cases j) (auto simp: obj_of_def)

lemma arr_of_Some: "arr_of j = Some vs \<longleftrightarrow> j = JArr vs"
  by (cases j) (auto simp: arr_of_def)

lemma int32_wrap_id: "int32_min \<le> n \<Longrightarrow> n \<le> int32_max \<Longrightarrow> sint (word_of_int n :: 32 word) = n"
  by (simp add: int32_min_def int32_max_def sint_sbintrunc' signed_take_bit_int_eq_self)

interpretation ref: nlohmann json_ref obj_of arr_of json_plain
proof unfold_locales
  fix j k v m
  assume "obj_of j = Some m"
  then show "\<exists>j'. j_set json_ref k v j = Inr j' \<and> obj_of j' = Some (m(k \<mapsto> v)) \<and>
      (ascii k \<longrightarrow> json_plain j \<longrightarrow> json_plain v \<longrightarrow> json_plain j')"
    using plain_put by (auto simp: obj_of_Some json_ref_defs map_of_omap_put simp del: json_plain.simps)
next
  fix j vs v
  assume "arr_of j = Some vs"
  then show "\<exists>j'. j_set_at json_ref (length vs) v j = Inr j' \<and> arr_of j' = Some (vs @ [v]) \<and>
      (json_plain j \<longrightarrow> json_plain v \<longrightarrow> json_plain j')"
    by (simp add: arr_of_Some json_ref_defs)
next
  fix j
  assume "json_plain j"
  then show "\<exists>s. j_dump json_ref j = Inr s \<and> j_parse json_ref s = Inr j"
    by (simp add: json_ref_def ref_parse_def parse_dump)
next
  fix j m k
  assume "obj_of j = Some m"
  then show "obj_of (j_touch json_ref k j) = Some (if m k = None then m(k \<mapsto> j_null json_ref) else m)"
    by (auto simp: obj_of_Some json_ref_defs map_of_omap_put split: option.split)
next
  fix j
  show "j_is_object json_ref j \<longleftrightarrow> obj_of j \<noteq> None"
    by (cases j) (simp_all add: obj_of_def json_ref_defs)
qed (auto simp: obj_of_Some arr_of_Some json_ref_defs int32_wrap_id list_all_iff)

end
