(* ===== verification/Licode_Types.thy ===== *)
theory Licode_Types
  imports Cpp_String
begin

text \<open>
  The value classes of \<^verbatim>\<open>core/\<close>: the token of a room, the description of a stream, of a room
  and of an ICE server, and the events.
\<close>

record licode_token =
  tk_tokenId :: string
  tk_host :: string
  tk_secure :: bool
  tk_signature :: string

definition LicodeToken_eq :: "licode_token \<Rightarrow> licode_token \<Rightarrow> bool" where
  "LicodeToken_eq a b \<longleftrightarrow>
     tk_tokenId a = tk_tokenId b \<and> tk_host a = tk_host b \<and> tk_secure a = tk_secure b \<and>
     tk_signature a = tk_signature b"

definition LicodeToken_ne :: "licode_token \<Rightarrow> licode_token \<Rightarrow> bool" where
  "LicodeToken_ne a b \<longleftrightarrow> \<not> LicodeToken_eq b a"

definition LicodeToken_Isvalid :: "licode_token \<Rightarrow> bool" where
  "LicodeToken_Isvalid t \<longleftrightarrow> tk_tokenId t \<noteq> [] \<and> tk_host t \<noteq> [] \<and> tk_signature t \<noteq> []"

record stream_info =
  si_id :: uint64
  si_has_video :: bool
  si_has_audio :: bool
  si_has_data :: bool
  si_label :: string
  si_screen :: bool
  si_attributes :: string
  si_connection_id :: string
  si_connected :: bool

definition LicodeStreamInfo_new ::
    "uint64 \<Rightarrow> bool \<Rightarrow> bool \<Rightarrow> bool \<Rightarrow> string \<Rightarrow> bool \<Rightarrow> string \<Rightarrow> stream_info" where
  "LicodeStreamInfo_new i hasVideo hasAudio hasData label screen attributes =
     \<lparr>si_id = i, si_has_video = hasVideo, si_has_audio = hasAudio, si_has_data = hasData,
      si_label = label, si_screen = screen, si_attributes = attributes,
      si_connection_id = [], si_connected = False\<rparr>"

text \<open>The constructor without an id passes \<^verbatim>\<open>hasAudio\<close> twice.\<close>

definition LicodeStreamInfo_new_local ::
    "bool \<Rightarrow> bool \<Rightarrow> bool \<Rightarrow> string \<Rightarrow> bool \<Rightarrow> string \<Rightarrow> stream_info" where
  "LicodeStreamInfo_new_local hasVideo hasAudio hasData label screen attributes =
     LicodeStreamInfo_new 0 hasAudio hasAudio hasData label screen attributes"

definition LicodeStreamInfo_default :: stream_info where
  "LicodeStreamInfo_default = LicodeStreamInfo_new 0 False False False [] False []"

definition si_SetId :: "uint64 \<Rightarrow> stream_info \<Rightarrow> stream_info" where
  "si_SetId i s = s\<lparr>si_id := i\<rparr>"

definition si_SetConnectionId :: "string \<Rightarrow> stream_info \<Rightarrow> stream_info" where
  "si_SetConnectionId c s = s\<lparr>si_connection_id := c\<rparr>"

definition si_SetConnected :: "bool \<Rightarrow> stream_info \<Rightarrow> stream_info" where
  "si_SetConnected b s = s\<lparr>si_connected := b\<rparr>"

record room_info =
  ri_id :: string
  ri_name :: string
  ri_data :: string
  ri_media_configuration :: string
  ri_p2p :: bool

definition LicodeRoomInfo_new :: "string \<Rightarrow> string \<Rightarrow> string \<Rightarrow> string \<Rightarrow> bool \<Rightarrow> room_info" where
  "LicodeRoomInfo_new i name data mediaConfiguration p2p =
     \<lparr>ri_id = i, ri_name = name, ri_data = data, ri_media_configuration = mediaConfiguration, ri_p2p = p2p\<rparr>"

record ice_server =
  ice_url :: string
  ice_username :: string
  ice_credential :: string

definition IceServer_eq :: "ice_server \<Rightarrow> ice_server \<Rightarrow> bool" where
  "IceServer_eq a b \<longleftrightarrow>
     ice_url a = ice_url b \<and> ice_username a = ice_username b \<and> ice_credential a = ice_credential b"

definition IceServer_ne :: "ice_server \<Rightarrow> ice_server \<Rightarrow> bool" where
  "IceServer_ne a b \<longleftrightarrow> \<not> IceServer_eq b a"

datatype licode_event =
    ConnectionEvent string
  | RoomEvent string
  | StreamEvent string
  | PublisherEvent string

text \<open>The comparison operators of the two structs are equality.\<close>

lemma LicodeToken_eq_iff [simp]: "LicodeToken_eq a b \<longleftrightarrow> a = b"
  by (auto simp: LicodeToken_eq_def)

lemma IceServer_eq_iff [simp]: "IceServer_eq a b \<longleftrightarrow> a = b"
  by (auto simp: IceServer_eq_def)

end
