(* ===== verification/Pkt_Builder.thy ===== *)
theory Pkt_Builder
  imports Json_Ref Licode_Types
begin

text \<open>
  \<^verbatim>\<open>core/licode_signaling_pkt_builder.cc\<close> and \<^verbatim>\<open>licode_signaling_pkt_parser.cc\<close>: the JSON
  packets of the signaling protocol. A builder is a record with the class's fields; its
  \<^verbatim>\<open>Build\<close> makes the same JSON assignments to each value, in the same order. Fields the class leaves
  uninitialised are \<open>None\<close> until they are set, and reading one is undefined. The values a packet
  is put together from are built one after the other, innermost first.
\<close>

section \<open>The builders\<close>

definition initialised :: "'a option \<Rightarrow> 'a res" where
  "initialised v = (case v of None \<Rightarrow> Inl (UB BadRead) | Some x \<Rightarrow> Inr x)"

record public_pkt =
  pu_state :: string
  pu_label :: string
  pu_video :: bool
  pu_audio :: bool
  pu_data :: bool
  pu_screen :: bool
  pu_mute_video :: bool
  pu_mute_audio :: bool
  pu_min_video_bw :: int
  pu_max_video_bw :: int

definition PublicStream_new :: public_pkt where
  "PublicStream_new = \<lparr>pu_state = [], pu_label = [], pu_video = True, pu_audio = True, pu_data = True,
     pu_screen = False, pu_mute_video = False, pu_mute_audio = False, pu_min_video_bw = 0,
     pu_max_video_bw = 300\<rparr>"

definition PublicStream_SetLabel :: "string \<Rightarrow> public_pkt \<Rightarrow> public_pkt" where
  "PublicStream_SetLabel l b = b\<lparr>pu_label := l\<rparr>"

definition PublicStream_SetState :: "string \<Rightarrow> public_pkt \<Rightarrow> public_pkt" where
  "PublicStream_SetState s b = b\<lparr>pu_state := s\<rparr>"

definition PublicStream_Build :: "'j json_api \<Rightarrow> public_pkt \<Rightarrow> string res" where
  "PublicStream_Build J b =
     rbind (j_assigns J [(''type'', j_string J ''publisher'')]) (\<lambda>metadata.
     rbind (j_assigns J [(''audio'', j_bool J (pu_mute_audio b)), (''video'', j_bool J (pu_mute_video b))]) (\<lambda>muteStream.
     rbind (j_assigns J
        [(''audio'', j_bool J (pu_audio b)), (''video'', j_bool J (pu_video b)), (''data'', j_bool J (pu_data b)),
         (''label'', j_string J (pu_label b)), (''screen'', j_bool J (pu_screen b)),
         (''minVideoBW'', j_int J (pu_min_video_bw b)), (''maxVideoBW'', j_int J (pu_max_video_bw b)),
         (''attributes'', j_object J), (''metadata'', metadata), (''muteStream'', muteStream)]) (\<lambda>config.
     rbind (j_items J [j_string J ''publish'', config, j_null J]) (j_dump J))))"

record update_attr_pkt =
  ua_stream_id :: "uint64 option"
  ua_type_attr :: string

definition UpdateStreamAttributes_new :: update_attr_pkt where
  "UpdateStreamAttributes_new = \<lparr>ua_stream_id = None, ua_type_attr = []\<rparr>"

definition UpdateStreamAttributes_SetStreamId :: "uint64 \<Rightarrow> update_attr_pkt \<Rightarrow> update_attr_pkt" where
  "UpdateStreamAttributes_SetStreamId i b = b\<lparr>ua_stream_id := Some i\<rparr>"

definition UpdateStreamAttributes_SetTypeAttr :: "string \<Rightarrow> update_attr_pkt \<Rightarrow> update_attr_pkt" where
  "UpdateStreamAttributes_SetTypeAttr t b = b\<lparr>ua_type_attr := t\<rparr>"

definition UpdateStreamAttributes_Build :: "'j json_api \<Rightarrow> update_attr_pkt \<Rightarrow> string res" where
  "UpdateStreamAttributes_Build J b =
     rbind (initialised (ua_stream_id b)) (\<lambda>stream_id.
     rbind (j_assigns J [(''type'', j_string J (ua_type_attr b))]) (\<lambda>attrs.
     rbind (j_assigns J [(''id'', j_uint J stream_id), (''attrs'', attrs)]) (\<lambda>config.
     rbind (j_items J [j_string J ''updateStreamAttributes'', config]) (j_dump J))))"

record subscribe_pkt =
  su_stream_id :: "uint64 option"
  su_video :: bool
  su_audio :: bool
  su_data :: bool
  su_mute_video :: bool
  su_mute_audio :: bool
  su_offer_from_erizo :: bool
  su_max_video_bw :: int
  su_browser :: string

definition SubscribeStream_new :: subscribe_pkt where
  "SubscribeStream_new = \<lparr>su_stream_id = None, su_video = True, su_audio = True, su_data = True,
     su_mute_video = False, su_mute_audio = False, su_offer_from_erizo = True, su_max_video_bw = 300,
     su_browser = ''cpp''\<rparr>"

definition SubscribeStream_SetStreamId :: "uint64 \<Rightarrow> subscribe_pkt \<Rightarrow> subscribe_pkt" where
  "SubscribeStream_SetStreamId i b = b\<lparr>su_stream_id := Some i\<rparr>"

definition SubscribeStream_SetOfferFromErizo :: "bool \<Rightarrow> subscribe_pkt \<Rightarrow> subscribe_pkt" where
  "SubscribeStream_SetOfferFromErizo e b = b\<lparr>su_offer_from_erizo := e\<rparr>"

definition SubscribeStream_Build :: "'j json_api \<Rightarrow> subscribe_pkt \<Rightarrow> string res" where
  "SubscribeStream_Build J b =
     rbind (initialised (su_stream_id b)) (\<lambda>stream_id.
     rbind (j_assigns J [(''type'', j_string J ''subscriber'')]) (\<lambda>metadata.
     rbind (j_assigns J [(''audio'', j_bool J (su_mute_audio b)), (''video'', j_bool J (su_mute_video b))]) (\<lambda>muteStream.
     rbind (j_assigns J
        [(''streamId'', j_uint J stream_id), (''audio'', j_bool J (su_audio b)), (''video'', j_bool J (su_video b)),
         (''data'', j_bool J (su_data b)), (''maxVideoBW'', j_int J (su_max_video_bw b)),
         (''offerFromErizo'', j_bool J (su_offer_from_erizo b)), (''browser'', j_string J (su_browser b)),
         (''metadata'', metadata), (''muteStream'', muteStream), (''slideShowMode'', j_bool J False)]) (\<lambda>stream.
     rbind (j_items J [j_string J ''subscribe'', stream, j_null J]) (j_dump J)))))"

record unsubscribe_pkt =
  un_stream_id :: uint64

definition UnsubscribeStream_new :: unsubscribe_pkt where
  "UnsubscribeStream_new = \<lparr>un_stream_id = 0\<rparr>"

definition UnsubscribeStream_SetStreamId :: "uint64 \<Rightarrow> unsubscribe_pkt \<Rightarrow> unsubscribe_pkt" where
  "UnsubscribeStream_SetStreamId i b = b\<lparr>un_stream_id := i\<rparr>"

definition UnsubscribeStream_Build :: "'j json_api \<Rightarrow> unsubscribe_pkt \<Rightarrow> string res" where
  "UnsubscribeStream_Build J b =
     rbind (j_items J [j_string J ''unsubscribe'', j_uint J (un_stream_id b), j_null J]) (j_dump J)"

record offer_answer_pkt =
  oa_browser :: string
  oa_erizo_id :: string
  oa_connection_id :: string
  oa_type :: string
  oa_sdp :: string
  oa_received_session_version :: int
  oa_max_video_bw :: int

definition OfferOrAnswer_new :: offer_answer_pkt where
  "OfferOrAnswer_new = \<lparr>oa_browser = ''cpp'', oa_erizo_id = [], oa_connection_id = [], oa_type = [],
     oa_sdp = [], oa_received_session_version = - 1, oa_max_video_bw = 300\<rparr>"

definition OfferOrAnswer_SetErizoId :: "string \<Rightarrow> offer_answer_pkt \<Rightarrow> offer_answer_pkt" where
  "OfferOrAnswer_SetErizoId i b = b\<lparr>oa_erizo_id := i\<rparr>"

definition OfferOrAnswer_SetConnId :: "string \<Rightarrow> offer_answer_pkt \<Rightarrow> offer_answer_pkt" where
  "OfferOrAnswer_SetConnId i b = b\<lparr>oa_connection_id := i\<rparr>"

definition OfferOrAnswer_SetType :: "string \<Rightarrow> offer_answer_pkt \<Rightarrow> offer_answer_pkt" where
  "OfferOrAnswer_SetType t b = b\<lparr>oa_type := t\<rparr>"

definition OfferOrAnswer_SetSdp :: "string \<Rightarrow> offer_answer_pkt \<Rightarrow> offer_answer_pkt" where
  "OfferOrAnswer_SetSdp s b = b\<lparr>oa_sdp := s\<rparr>"

definition OfferOrAnswer_Build :: "'j json_api \<Rightarrow> offer_answer_pkt \<Rightarrow> string res" where
  "OfferOrAnswer_Build J b =
     rbind (j_assigns J [(''maxVideoBW'', j_int J (oa_max_video_bw b))]) (\<lambda>config.
     rbind (j_assigns J
        [(''type'', j_string J (oa_type b)), (''sdp'', j_string J (oa_sdp b)),
         (''receivedSessionVersion'', j_int J (- 1)), (''config'', config)]) (\<lambda>msg.
     rbind (j_assigns J
        [(''browser'', j_string J (oa_browser b)), (''connectionId'', j_string J (oa_connection_id b)),
         (''erizoId'', j_string J (oa_erizo_id b)), (''msg'', msg)]) (\<lambda>info.
     rbind (j_items J [j_string J ''connectionMessage'', info, j_null J]) (j_dump J))))"

record connection_pkt =
  cn_browser :: string
  cn_erizo_id :: string
  cn_connection_id :: string
  cn_sdp_m_line_index :: "int option"
  cn_sdp_mid :: string
  cn_candidate :: string
  cn_received_session_version :: int

definition Connection_new :: connection_pkt where
  "Connection_new = \<lparr>cn_browser = ''cpp'', cn_erizo_id = [], cn_connection_id = [],
     cn_sdp_m_line_index = None, cn_sdp_mid = [], cn_candidate = [], cn_received_session_version = 0\<rparr>"

definition Connection_SetErizoId :: "string \<Rightarrow> connection_pkt \<Rightarrow> connection_pkt" where
  "Connection_SetErizoId i b = b\<lparr>cn_erizo_id := i\<rparr>"

definition Connection_SetConnId :: "string \<Rightarrow> connection_pkt \<Rightarrow> connection_pkt" where
  "Connection_SetConnId i b = b\<lparr>cn_connection_id := i\<rparr>"

definition Connection_SetSdpMLineIndex :: "int \<Rightarrow> connection_pkt \<Rightarrow> connection_pkt" where
  "Connection_SetSdpMLineIndex i b = b\<lparr>cn_sdp_m_line_index := Some i\<rparr>"

definition Connection_SetSdpMid :: "string \<Rightarrow> connection_pkt \<Rightarrow> connection_pkt" where
  "Connection_SetSdpMid m b = b\<lparr>cn_sdp_mid := m\<rparr>"

definition Connection_SetCandidate :: "string \<Rightarrow> connection_pkt \<Rightarrow> connection_pkt" where
  "Connection_SetCandidate c b = b\<lparr>cn_candidate := c\<rparr>"

definition Connection_Build :: "'j json_api \<Rightarrow> connection_pkt \<Rightarrow> string res" where
  "Connection_Build J b =
     rbind (initialised (cn_sdp_m_line_index b)) (\<lambda>sdp_m_line_index.
     rbind (j_assigns J
        [(''sdpMLineIndex'', j_int J sdp_m_line_index), (''sdpMid'', j_string J (cn_sdp_mid b)),
         (''candidate'', j_string J (cn_candidate b))]) (\<lambda>cand.
     rbind (j_assigns J
        [(''type'', j_string J ''candidate''), (''candidate'', cand),
         (''receivedSessionVersion'', j_int J (cn_received_session_version b))]) (\<lambda>msg.
     rbind (j_assigns J
        [(''connectionId'', j_string J (cn_connection_id b)), (''erizoId'', j_string J (cn_erizo_id b)),
         (''msg'', msg), (''browser'', j_string J (cn_browser b))]) (\<lambda>connection.
     rbind (j_items J [j_string J ''connectionMessage'', connection, j_null J]) (j_dump J)))))"

record create_token_pkt =
  ct_token_id :: string
  ct_host :: string
  ct_secure :: "bool option"
  ct_signature :: string
  ct_single_pc :: bool

definition CreateToken_new :: create_token_pkt where
  "CreateToken_new = \<lparr>ct_token_id = [], ct_host = [], ct_secure = None, ct_signature = [], ct_single_pc = False\<rparr>"

definition CreateToken_SetTokenId :: "string \<Rightarrow> create_token_pkt \<Rightarrow> create_token_pkt" where
  "CreateToken_SetTokenId i b = b\<lparr>ct_token_id := i\<rparr>"

definition CreateToken_SetHost :: "string \<Rightarrow> create_token_pkt \<Rightarrow> create_token_pkt" where
  "CreateToken_SetHost h b = b\<lparr>ct_host := h\<rparr>"

definition CreateToken_SetSecure :: "bool \<Rightarrow> create_token_pkt \<Rightarrow> create_token_pkt" where
  "CreateToken_SetSecure s b = b\<lparr>ct_secure := Some s\<rparr>"

definition CreateToken_SetSignature :: "string \<Rightarrow> create_token_pkt \<Rightarrow> create_token_pkt" where
  "CreateToken_SetSignature s b = b\<lparr>ct_signature := s\<rparr>"

definition CreateToken_SetSinglePC :: "bool \<Rightarrow> create_token_pkt \<Rightarrow> create_token_pkt" where
  "CreateToken_SetSinglePC s b = b\<lparr>ct_single_pc := s\<rparr>"

definition CreateToken_Build :: "'j json_api \<Rightarrow> create_token_pkt \<Rightarrow> string res" where
  "CreateToken_Build J b =
     rbind (initialised (ct_secure b)) (\<lambda>secure.
     rbind (j_assigns J
        [(''tokenId'', j_string J (ct_token_id b)), (''host'', j_string J (ct_host b)),
         (''signature'', j_string J (ct_signature b)), (''secure'', j_bool J secure)]) (\<lambda>tokenJson.
     rbind (j_assigns J [(''singlePC'', j_bool J (ct_single_pc b)), (''token'', tokenJson)]) (\<lambda>data.
     j_dump J (j_array J [j_string J ''token'', data]))))"

section \<open>The parser of the open message\<close>

text \<open>
  The three references are assigned one after the other; what was assigned before an
  exception stays assigned.
\<close>

record open_msg =
  om_sid :: string
  om_ping_interval :: int
  om_ping_timeout :: int

definition ParseOpenMsg :: "'j json_api \<Rightarrow> string \<Rightarrow> (open_msg, unit) stm" where
  "ParseOpenMsg J msg =
     scatch
       (sbind (slift (j_parse J msg)) (\<lambda>openMsg.
        sbind (slift (j_value_string J ''sid'' [] openMsg)) (\<lambda>sid.
        sbind (smodify (\<lambda>m. m\<lparr>om_sid := sid\<rparr>)) (\<lambda>_.
        sbind (slift (j_value_int J ''pingInterval'' 25000 openMsg)) (\<lambda>pi.
        sbind (smodify (\<lambda>m. m\<lparr>om_ping_interval := pi\<rparr>)) (\<lambda>_.
        sbind (slift (j_value_int J ''pingTimeout'' 60000 openMsg)) (\<lambda>pt.
        smodify (\<lambda>m. m\<lparr>om_ping_timeout := pt\<rparr>))))))))
       (sret ())"

section \<open>Reading a packet\<close>

text \<open>A path into a JSON value, and what a receiver finds there.\<close>

datatype path_step = Idx nat | Key string

fun j_path :: "'j json_api \<Rightarrow> path_step list \<Rightarrow> 'j \<Rightarrow> 'j res" where
  "j_path J [] j = Inr j"
| "j_path J (Idx i # p) j = rbind (j_at J i j) (j_path J p)"
| "j_path J (Key k # p) j = rbind (j_get J k j) (j_path J p)"

definition str_at :: "'j json_api \<Rightarrow> path_step list \<Rightarrow> 'j \<Rightarrow> string res" where
  "str_at J p j = rbind (j_path J p j) (j_as_string J)"

definition uint_at :: "'j json_api \<Rightarrow> path_step list \<Rightarrow> 'j \<Rightarrow> uint64 res" where
  "uint_at J p j = rbind (j_path J p j) (j_as_uint J)"

definition int_at :: "'j json_api \<Rightarrow> path_step list \<Rightarrow> 'j \<Rightarrow> int res" where
  "int_at J p j = rbind (j_path J p j) (j_as_int J)"

definition bool_at :: "'j json_api \<Rightarrow> path_step list \<Rightarrow> 'j \<Rightarrow> bool res" where
  "bool_at J p j = rbind (j_path J p j) (j_as_bool J)"

lemmas at_defs = str_at_def uint_at_def int_at_def bool_at_def

text \<open>A packet arrives when it was built, starts with a bracket and parses to \<open>j\<close>.\<close>

definition arrives :: "'j json_api \<Rightarrow> string res \<Rightarrow> 'j \<Rightarrow> bool" where
  "arrives J pkt j \<longleftrightarrow> (\<exists>s. pkt = Inr s \<and> j_parse J s = Inr j \<and> (\<exists>t. s = CHR ''['' # t))"

lemma ascii_literals [simp]: "ascii []" "ascii (c # s) \<longleftrightarrow> (of_char c :: nat) < 128 \<and> ascii s"
  by (simp_all add: ascii_def)

context nlohmann
begin

lemma path_Idx: "arr j = Some vs \<Longrightarrow> i < length vs \<Longrightarrow> j_path J (Idx i # p) j = j_path J p (vs ! i)"
  by (simp add: at_arr)

lemma path_Key: "obj j = Some m \<Longrightarrow> m k = Some v \<Longrightarrow> j_path J (Key k # p) j = j_path J p v"
  by (simp add: get_obj)

lemma object:
  assumes "kvs \<noteq> []" "list_all (\<lambda>(k, v). ascii k \<and> plain v) kvs"
  obtains j where "j_assigns J kvs = Inr j" "obj j = Some (map_of (rev kvs))" "plain j"
  using assigns [OF assms(1)] assms(2) by blast

lemma packet:
  assumes "list_all plain vs"
  obtains j where "arrives J (rbind (j_items J vs) (j_dump J)) j" "arr j = Some vs"
proof -
  obtain j s where "j_items J vs = Inr j" "arr j = Some vs" "j_dump J j = Inr s" "j_parse J s = Inr j"
    "\<exists>t. s = CHR ''['' # t" using items_dump [OF assms] by blast
  then show thesis by (intro that [of j]) (simp_all add: arrives_def)
qed

lemmas values_plain = plain_values plain_string

lemmas read_back = at_defs path_Idx path_Key as_string as_uint as_int as_bool

lemma UnsubscribeStream_arrives:
  "\<exists>j. arrives J (UnsubscribeStream_Build J b) j \<and>
     str_at J [Idx 0] j = Inr ''unsubscribe'' \<and> uint_at J [Idx 1] j = Inr (un_stream_id b)"
proof -
  have "list_all plain [j_string J ''unsubscribe'', j_uint J (un_stream_id b), j_null J]"
    by (simp add: values_plain)
  then obtain j where "arrives J (UnsubscribeStream_Build J b) j"
    "arr j = Some [j_string J ''unsubscribe'', j_uint J (un_stream_id b), j_null J]"
    unfolding UnsubscribeStream_Build_def by (rule packet) blast
  then show ?thesis by (intro exI [of _ j]) (simp add: at_defs at_arr as_string as_uint)
qed

lemma OfferOrAnswer_arrives:
  assumes "ascii (oa_browser b)" "ascii (oa_erizo_id b)" "ascii (oa_connection_id b)" "ascii (oa_type b)"
    "ascii (oa_sdp b)"
  shows "\<exists>j. arrives J (OfferOrAnswer_Build J b) j \<and> str_at J [Idx 0] j = Inr ''connectionMessage'' \<and>
     str_at J [Idx 1, Key ''connectionId''] j = Inr (oa_connection_id b) \<and>
     str_at J [Idx 1, Key ''erizoId''] j = Inr (oa_erizo_id b) \<and>
     str_at J [Idx 1, Key ''msg'', Key ''type''] j = Inr (oa_type b) \<and>
     str_at J [Idx 1, Key ''msg'', Key ''sdp''] j = Inr (oa_sdp b)"
proof -
  let ?c = "[(''maxVideoBW'', j_int J (oa_max_video_bw b))]"
  obtain c where c: "j_assigns J ?c = Inr c" "plain c" by (rule object [of ?c]) (simp_all add: values_plain)
  let ?m = "[(''type'', j_string J (oa_type b)), (''sdp'', j_string J (oa_sdp b)),
     (''receivedSessionVersion'', j_int J (- 1)), (''config'', c)]"
  obtain m where m: "j_assigns J ?m = Inr m" "obj m = Some (map_of (rev ?m))" "plain m"
    by (rule object [of ?m]) (simp_all add: values_plain assms c)
  let ?i = "[(''browser'', j_string J (oa_browser b)), (''connectionId'', j_string J (oa_connection_id b)),
     (''erizoId'', j_string J (oa_erizo_id b)), (''msg'', m)]"
  obtain i where i: "j_assigns J ?i = Inr i" "obj i = Some (map_of (rev ?i))" "plain i"
    by (rule object [of ?i]) (simp_all add: values_plain assms m)
  let ?p = "[j_string J ''connectionMessage'', i, j_null J]"
  obtain j where j: "arrives J (rbind (j_items J ?p) (j_dump J)) j" "arr j = Some ?p"
    by (rule packet [of ?p]) (simp_all add: values_plain i)
  have "arrives J (OfferOrAnswer_Build J b) j" using j(1) by (simp add: OfferOrAnswer_Build_def c m i)
  then show ?thesis
    by (intro exI [of _ j]) (simp add: at_defs path_Idx [OF j(2)] path_Key [OF i(2)] path_Key [OF m(2)]
        as_string del: j_path.simps(2,3))
qed

lemma Connection_arrives:
  assumes "ascii (cn_browser b)" "ascii (cn_erizo_id b)" "ascii (cn_connection_id b)" "ascii (cn_sdp_mid b)"
    "ascii (cn_candidate b)"
    and idx: "cn_sdp_m_line_index b = Some n" "int32_min \<le> n" "n \<le> int32_max"
  shows "\<exists>j. arrives J (Connection_Build J b) j \<and> str_at J [Idx 0] j = Inr ''connectionMessage'' \<and>
     str_at J [Idx 1, Key ''connectionId''] j = Inr (cn_connection_id b) \<and>
     str_at J [Idx 1, Key ''msg'', Key ''type''] j = Inr ''candidate'' \<and>
     int_at J [Idx 1, Key ''msg'', Key ''candidate'', Key ''sdpMLineIndex''] j = Inr n \<and>
     str_at J [Idx 1, Key ''msg'', Key ''candidate'', Key ''sdpMid''] j = Inr (cn_sdp_mid b) \<and>
     str_at J [Idx 1, Key ''msg'', Key ''candidate'', Key ''candidate''] j = Inr (cn_candidate b)"
proof -
  let ?c = "[(''sdpMLineIndex'', j_int J n), (''sdpMid'', j_string J (cn_sdp_mid b)),
     (''candidate'', j_string J (cn_candidate b))]"
  obtain c where c: "j_assigns J ?c = Inr c" "obj c = Some (map_of (rev ?c))" "plain c"
    by (rule object [of ?c]) (simp_all add: values_plain assms)
  let ?m = "[(''type'', j_string J ''candidate''), (''candidate'', c),
     (''receivedSessionVersion'', j_int J (cn_received_session_version b))]"
  obtain m where m: "j_assigns J ?m = Inr m" "obj m = Some (map_of (rev ?m))" "plain m"
    by (rule object [of ?m]) (simp_all add: values_plain c)
  let ?i = "[(''connectionId'', j_string J (cn_connection_id b)), (''erizoId'', j_string J (cn_erizo_id b)),
     (''msg'', m), (''browser'', j_string J (cn_browser b))]"
  obtain i where i: "j_assigns J ?i = Inr i" "obj i = Some (map_of (rev ?i))" "plain i"
    by (rule object [of ?i]) (simp_all add: values_plain assms m)
  let ?p = "[j_string J ''connectionMessage'', i, j_null J]"
  obtain j where j: "arrives J (rbind (j_items J ?p) (j_dump J)) j" "arr j = Some ?p"
    by (rule packet [of ?p]) (simp_all add: values_plain i)
  have "arrives J (Connection_Build J b) j"
    using j(1) by (simp add: Connection_Build_def initialised_def idx c m i)
  then show ?thesis
    by (intro exI [of _ j]) (simp add: at_defs path_Idx [OF j(2)] path_Key [OF i(2)] path_Key [OF m(2)]
        path_Key [OF c(2)] as_string as_int [OF idx(2,3)] del: j_path.simps(2,3))
qed

lemma SubscribeStream_arrives:
  assumes "ascii (su_browser b)" and sid: "su_stream_id b = Some w"
  shows "\<exists>j. arrives J (SubscribeStream_Build J b) j \<and> str_at J [Idx 0] j = Inr ''subscribe'' \<and>
     uint_at J [Idx 1, Key ''streamId''] j = Inr w \<and>
     bool_at J [Idx 1, Key ''offerFromErizo''] j = Inr (su_offer_from_erizo b) \<and>
     bool_at J [Idx 1, Key ''muteStream'', Key ''audio''] j = Inr (su_mute_audio b) \<and>
     bool_at J [Idx 1, Key ''muteStream'', Key ''video''] j = Inr (su_mute_video b)"
proof -
  let ?md = "[(''type'', j_string J ''subscriber'')]"
  obtain md where md: "j_assigns J ?md = Inr md" "plain md" by (rule object [of ?md]) (simp_all add: values_plain)
  let ?m = "[(''audio'', j_bool J (su_mute_audio b)), (''video'', j_bool J (su_mute_video b))]"
  obtain m where m: "j_assigns J ?m = Inr m" "obj m = Some (map_of (rev ?m))" "plain m"
    by (rule object [of ?m]) (simp_all add: values_plain)
  let ?i = "[(''streamId'', j_uint J w), (''audio'', j_bool J (su_audio b)), (''video'', j_bool J (su_video b)),
     (''data'', j_bool J (su_data b)), (''maxVideoBW'', j_int J (su_max_video_bw b)),
     (''offerFromErizo'', j_bool J (su_offer_from_erizo b)), (''browser'', j_string J (su_browser b)),
     (''metadata'', md), (''muteStream'', m), (''slideShowMode'', j_bool J False)]"
  obtain i where i: "j_assigns J ?i = Inr i" "obj i = Some (map_of (rev ?i))" "plain i"
    by (rule object [of ?i]) (simp_all add: values_plain assms m md)
  let ?p = "[j_string J ''subscribe'', i, j_null J]"
  obtain j where j: "arrives J (rbind (j_items J ?p) (j_dump J)) j" "arr j = Some ?p"
    by (rule packet [of ?p]) (simp_all add: values_plain i)
  have "arrives J (SubscribeStream_Build J b) j"
    using j(1) by (simp add: SubscribeStream_Build_def initialised_def sid md m i)
  then show ?thesis
    by (intro exI [of _ j]) (simp add: at_defs path_Idx [OF j(2)] path_Key [OF i(2)] path_Key [OF m(2)]
        as_string as_uint as_bool del: j_path.simps(2,3))
qed

lemma PublicStream_arrives:
  assumes "ascii (pu_label b)"
  shows "\<exists>j. arrives J (PublicStream_Build J b) j \<and> str_at J [Idx 0] j = Inr ''publish'' \<and>
     str_at J [Idx 1, Key ''label''] j = Inr (pu_label b) \<and>
     bool_at J [Idx 1, Key ''video''] j = Inr (pu_video b) \<and>
     bool_at J [Idx 1, Key ''audio''] j = Inr (pu_audio b)"
proof -
  let ?md = "[(''type'', j_string J ''publisher'')]"
  obtain md where md: "j_assigns J ?md = Inr md" "plain md" by (rule object [of ?md]) (simp_all add: values_plain)
  let ?m = "[(''audio'', j_bool J (pu_mute_audio b)), (''video'', j_bool J (pu_mute_video b))]"
  obtain m where m: "j_assigns J ?m = Inr m" "plain m" by (rule object [of ?m]) (simp_all add: values_plain)
  let ?i = "[(''audio'', j_bool J (pu_audio b)), (''video'', j_bool J (pu_video b)), (''data'', j_bool J (pu_data b)),
     (''label'', j_string J (pu_label b)), (''screen'', j_bool J (pu_screen b)),
     (''minVideoBW'', j_int J (pu_min_video_bw b)), (''maxVideoBW'', j_int J (pu_max_video_bw b)),
     (''attributes'', j_object J), (''metadata'', md), (''muteStream'', m)]"
  obtain i where i: "j_assigns J ?i = Inr i" "obj i = Some (map_of (rev ?i))" "plain i"
    by (rule object [of ?i]) (simp_all add: values_plain assms m md)
  let ?p = "[j_string J ''publish'', i, j_null J]"
  obtain j where j: "arrives J (rbind (j_items J ?p) (j_dump J)) j" "arr j = Some ?p"
    by (rule packet [of ?p]) (simp_all add: values_plain i)
  have "arrives J (PublicStream_Build J b) j" using j(1) by (simp add: PublicStream_Build_def md m i)
  then show ?thesis
    by (intro exI [of _ j]) (simp add: at_defs path_Idx [OF j(2)] path_Key [OF i(2)]
        as_string as_bool del: j_path.simps(2,3))
qed

lemma CreateToken_arrives:
  assumes "ascii (ct_token_id b)" "ascii (ct_host b)" "ascii (ct_signature b)" and sec: "ct_secure b = Some sc"
  shows "\<exists>j. arrives J (CreateToken_Build J b) j \<and> str_at J [Idx 0] j = Inr ''token'' \<and>
     str_at J [Idx 1, Key ''token'', Key ''tokenId''] j = Inr (ct_token_id b) \<and>
     str_at J [Idx 1, Key ''token'', Key ''host''] j = Inr (ct_host b) \<and>
     str_at J [Idx 1, Key ''token'', Key ''signature''] j = Inr (ct_signature b) \<and>
     bool_at J [Idx 1, Key ''token'', Key ''secure''] j = Inr sc \<and>
     bool_at J [Idx 1, Key ''singlePC''] j = Inr (ct_single_pc b)"
proof -
  let ?t = "[(''tokenId'', j_string J (ct_token_id b)), (''host'', j_string J (ct_host b)),
     (''signature'', j_string J (ct_signature b)), (''secure'', j_bool J sc)]"
  obtain t where t: "j_assigns J ?t = Inr t" "obj t = Some (map_of (rev ?t))" "plain t"
    by (rule object [of ?t]) (simp_all add: values_plain assms)
  let ?d = "[(''singlePC'', j_bool J (ct_single_pc b)), (''token'', t)]"
  obtain d where d: "j_assigns J ?d = Inr d" "obj d = Some (map_of (rev ?d))" "plain d"
    by (rule object [of ?d]) (simp_all add: values_plain t)
  let ?p = "[j_string J ''token'', d]"
  have "plain (j_array J ?p)" by (rule plain_array) (simp add: values_plain d)
  then obtain s where s: "j_dump J (j_array J ?p) = Inr s" "j_parse J s = Inr (j_array J ?p)"
    using parse_dump by blast
  then have "arrives J (CreateToken_Build J b) (j_array J ?p)"
    using dump_array [OF arr_array s(1)] by (simp add: CreateToken_Build_def initialised_def sec t d arrives_def)
  then show ?thesis
    by (intro exI [of _ "j_array J ?p"]) (simp add: at_defs path_Idx [OF arr_array] path_Key [OF d(2)]
        path_Key [OF t(2)] as_string as_bool del: j_path.simps(2,3))
qed

end

section \<open>Properties\<close>

text \<open>
  C30: The packets of the media negotiation arrive as they were meant: the offer or answer and
  the ICE candidate that a receiver parses out of the text carry the connection id, the type,
  the session description, and the line index, mid and candidate the builder was given.
\<close>

theorem negotiation_packets_arrive:
  assumes "nlohmann J obj arr plain"
    and "list_all ascii [oa_browser a, oa_erizo_id a, oa_connection_id a, oa_type a, oa_sdp a]"
    and "list_all ascii [cn_browser c, cn_erizo_id c, cn_connection_id c, cn_sdp_mid c, cn_candidate c]"
    and "cn_sdp_m_line_index c = Some n" "int32_min \<le> n" "n \<le> int32_max"
  shows "(\<exists>j. arrives J (OfferOrAnswer_Build J a) j \<and> str_at J [Idx 0] j = Inr ''connectionMessage'' \<and>
      str_at J [Idx 1, Key ''connectionId''] j = Inr (oa_connection_id a) \<and>
      str_at J [Idx 1, Key ''erizoId''] j = Inr (oa_erizo_id a) \<and>
      str_at J [Idx 1, Key ''msg'', Key ''type''] j = Inr (oa_type a) \<and>
      str_at J [Idx 1, Key ''msg'', Key ''sdp''] j = Inr (oa_sdp a)) \<and>
    (\<exists>j. arrives J (Connection_Build J c) j \<and> str_at J [Idx 0] j = Inr ''connectionMessage'' \<and>
      str_at J [Idx 1, Key ''connectionId''] j = Inr (cn_connection_id c) \<and>
      str_at J [Idx 1, Key ''msg'', Key ''type''] j = Inr ''candidate'' \<and>
      int_at J [Idx 1, Key ''msg'', Key ''candidate'', Key ''sdpMLineIndex''] j = Inr n \<and>
      str_at J [Idx 1, Key ''msg'', Key ''candidate'', Key ''sdpMid''] j = Inr (cn_sdp_mid c) \<and>
      str_at J [Idx 1, Key ''msg'', Key ''candidate'', Key ''candidate''] j = Inr (cn_candidate c))"
  using nlohmann.OfferOrAnswer_arrives [OF assms(1), of a] nlohmann.Connection_arrives [OF assms(1), of c n] assms(2-)
  by simp

theorem negotiation_packets_arrive_witness:
  "\<exists>j. arrives json_ref (OfferOrAnswer_Build json_ref
      (OfferOrAnswer_SetSdp ''v=0'' (OfferOrAnswer_SetType ''offer'' OfferOrAnswer_new))) j \<and>
    str_at json_ref [Idx 1, Key ''msg'', Key ''sdp''] j = Inr ''v=0''"
  using negotiation_packets_arrive [OF ref.nlohmann_axioms,
      of "OfferOrAnswer_SetSdp ''v=0'' (OfferOrAnswer_SetType ''offer'' OfferOrAnswer_new)"
         "Connection_SetSdpMLineIndex 0 Connection_new" 0]
  by (simp add: OfferOrAnswer_SetSdp_def OfferOrAnswer_SetType_def OfferOrAnswer_new_def
      Connection_SetSdpMLineIndex_def Connection_new_def int32_min_def int32_max_def) blast

text \<open>
  The stream packets arrive as they were meant: a receiver reads the kind of the packet,
  the full 64-bit stream id, the label and the flags the builder was given.
\<close>

theorem stream_packets_arrive:
  assumes "nlohmann J obj arr plain" "ascii (su_browser s)" "su_stream_id s = Some w" "ascii (pu_label p)"
  shows "(\<exists>j. arrives J (SubscribeStream_Build J s) j \<and> str_at J [Idx 0] j = Inr ''subscribe'' \<and>
      uint_at J [Idx 1, Key ''streamId''] j = Inr w \<and>
      bool_at J [Idx 1, Key ''offerFromErizo''] j = Inr (su_offer_from_erizo s) \<and>
      bool_at J [Idx 1, Key ''muteStream'', Key ''audio''] j = Inr (su_mute_audio s) \<and>
      bool_at J [Idx 1, Key ''muteStream'', Key ''video''] j = Inr (su_mute_video s)) \<and>
    (\<exists>j. arrives J (PublicStream_Build J p) j \<and> str_at J [Idx 0] j = Inr ''publish'' \<and>
      str_at J [Idx 1, Key ''label''] j = Inr (pu_label p) \<and>
      bool_at J [Idx 1, Key ''video''] j = Inr (pu_video p) \<and>
      bool_at J [Idx 1, Key ''audio''] j = Inr (pu_audio p)) \<and>
    (\<exists>j. arrives J (UnsubscribeStream_Build J u) j \<and> str_at J [Idx 0] j = Inr ''unsubscribe'' \<and>
      uint_at J [Idx 1] j = Inr (un_stream_id u))"
  by (intro conjI nlohmann.SubscribeStream_arrives [OF assms(1-3)] nlohmann.PublicStream_arrives [OF assms(1,4)]
      nlohmann.UnsubscribeStream_arrives [OF assms(1)])

theorem stream_packets_arrive_witness:
  "\<exists>j. arrives json_ref (SubscribeStream_Build json_ref (SubscribeStream_SetStreamId 7 SubscribeStream_new)) j \<and>
    uint_at json_ref [Idx 1, Key ''streamId''] j = Inr 7"
  using stream_packets_arrive [OF ref.nlohmann_axioms, of "SubscribeStream_SetStreamId 7 SubscribeStream_new" 7
      PublicStream_new UnsubscribeStream_new]
  by (simp add: SubscribeStream_SetStreamId_def SubscribeStream_new_def PublicStream_new_def) blast

text \<open>
  \<^verbatim>\<open>ParseOpenMsg\<close> never throws. On an object it assigns the three values or their
  defaults; where the text does not parse, it leaves all three as they were; where a value has
  the wrong type, the values before it are assigned and the rest are left.
\<close>

theorem ParseOpenMsg_total:
  assumes "nlohmann J obj arr plain"
  shows "fst (ParseOpenMsg J msg m) \<noteq> Inl (Exn x) \<and>
    (j_parse J msg = Inl (Exn e) \<longrightarrow> ParseOpenMsg J msg m = (Inr (), m)) \<and>
    (\<forall>j kv. j_parse J msg = Inr j \<and> obj j = Some kv \<and> kv ''sid'' = Some (j_string J s) \<and>
       kv ''pingInterval'' = None \<and> kv ''pingTimeout'' = None \<longrightarrow>
       ParseOpenMsg J msg m = (Inr (), \<lparr>om_sid = s, om_ping_interval = 25000, om_ping_timeout = 60000\<rparr>)) \<and>
    (\<forall>j kv v. j_parse J msg = Inr j \<and> obj j = Some kv \<and> kv ''sid'' = Some (j_string J s) \<and>
       kv ''pingInterval'' = Some v \<and> j_as_int J v = Inl (Exn TypeError) \<longrightarrow>
       ParseOpenMsg J msg m = (Inr (), m\<lparr>om_sid := s\<rparr>))"
proof -
  note v = nlohmann.value_missing [OF assms(1)] nlohmann.value_present [OF assms(1)] nlohmann.as_string [OF assms(1)]
  have "fst (ParseOpenMsg J msg m) \<noteq> Inl (Exn x)"
    by (simp add: ParseOpenMsg_def scatch_def split: prod.split sum.split cpp_error.split)
  then show ?thesis by (auto simp: ParseOpenMsg_def scatch_def v)
qed

theorem ParseOpenMsg_total_witness:
  "snd (ParseOpenMsg json_ref (dump (JObj [(''sid'', JStr ''a'')]))
     \<lparr>om_sid = [], om_ping_interval = 1, om_ping_timeout = 2\<rparr>) =
   \<lparr>om_sid = ''a'', om_ping_interval = 25000, om_ping_timeout = 60000\<rparr>"
proof -
  let ?j = "JObj [(''sid'', JStr ''a'')]" and ?m = "\<lparr>om_sid = [], om_ping_interval = 1, om_ping_timeout = 2\<rparr>"
  have p: "j_parse json_ref (dump ?j) = Inr ?j"
    using parse_dump [of ?j] by (simp add: json_ref_def ref_parse_def del: dump.simps)
  have s: "j_string json_ref ''a'' = JStr ''a''" by (simp add: json_ref_def)
  from ParseOpenMsg_total [OF ref.nlohmann_axioms, of "dump ?j" ?m OutOfRange ParseError "''a''"] p
  show ?thesis by (simp add: s obj_of_def del: dump.simps)
qed

end
