(* ===== verification/Scheduler.thy ===== *)
theory Scheduler
  imports Prelude "HOL-Library.Multiset"
begin

text \<open>
  \<^verbatim>\<open>thread/scheduler.cc\<close>: a queue of functions with the time each is due, served by a
  number of threads. All shared fields are read and written under \<^verbatim>\<open>queue_mutex_\<close>, so the
  code of a thread between two points where it gives up the mutex (a wait on the condition
  variable, the call of a function, its end) is one atomic step. Time is counted in
  nanoseconds. A thread that waits goes on when it was notified, when its time is up, or
  spuriously, as the C++ standard allows; \<^verbatim>\<open>Schedule\<close> and \<^verbatim>\<open>Stop\<close> notify after they have
  given up the mutex, so other threads may run before the notification.
\<close>

section \<open>The function queue\<close>

text \<open>
  \<^verbatim>\<open>std::multimap\<close> keyed by time: \<^verbatim>\<open>emplace\<close> puts an element behind those with the same
  key, \<^verbatim>\<open>begin()\<close> is the head of the list.
\<close>

fun mm_emplace :: "int \<Rightarrow> 'f \<Rightarrow> (int \<times> 'f) list \<Rightarrow> (int \<times> 'f) list" where
  "mm_emplace t f [] = [(t, f)]"
| "mm_emplace t f ((u, g) # q) = (if u \<le> t then (u, g) # mm_emplace t f q else (t, f) # (u, g) # q)"

text \<open>What the scheduler needs of its queue.\<close>

locale timed_queue =
  fixes emplace :: "int \<Rightarrow> 'f \<Rightarrow> 'q \<Rightarrow> 'q"
    and first :: "'q \<Rightarrow> (int \<times> 'f) option"
    and rest :: "'q \<Rightarrow> 'q"
    and invar :: "'q \<Rightarrow> bool"
    and bag :: "'q \<Rightarrow> (int \<times> 'f) multiset"
  assumes invar_emplace: "invar q \<Longrightarrow> invar (emplace t f q)"
    and invar_rest: "invar q \<Longrightarrow> invar (rest q)"
    and bag_emplace: "bag (emplace t f q) = add_mset (t, f) (bag q)"
    and first_None: "first q = None \<longleftrightarrow> bag q = {#}"
    and bag_first: "first q = Some x \<Longrightarrow> bag q = add_mset x (bag (rest q))"
    and first_least: "invar q \<Longrightarrow> first q = Some (t, f) \<Longrightarrow> (u, g) \<in># bag q \<Longrightarrow> t \<le> u"
begin

lemma emplace_not_empty: "first (emplace t f q) \<noteq> None"
  by (simp add: first_None bag_emplace)

lemma first_emplace_le:
  assumes "invar q" "first q = Some (u, g)"
  shows "\<exists>v h. first (emplace t f q) = Some (v, h) \<and> v \<le> u"
proof -
  obtain v h where v: "first (emplace t f q) = Some (v, h)"
    using emplace_not_empty [of t f q] by (cases "first (emplace t f q)") auto
  have "(u, g) \<in># bag (emplace t f q)" by (simp add: bag_emplace bag_first [OF assms(2)])
  with v first_least [OF invar_emplace [OF assms(1)] v] show ?thesis by blast
qed

end

definition mm_first :: "(int \<times> 'f) list \<Rightarrow> (int \<times> 'f) option" where
  "mm_first q = (case q of [] \<Rightarrow> None | x # _ \<Rightarrow> Some x)"

definition mm_sorted :: "(int \<times> 'f) list \<Rightarrow> bool" where
  "mm_sorted q \<longleftrightarrow> sorted (map fst q)"

lemma mm_emplace_mset: "mset (mm_emplace t f q) = add_mset (t, f) (mset q)"
  by (induction t f q rule: mm_emplace.induct) auto

lemma mm_emplace_sorted: "mm_sorted q \<Longrightarrow> mm_sorted (mm_emplace t f q)"
proof (induction t f q rule: mm_emplace.induct)
  case (2 t f u g q)
  have "x \<in> set (mm_emplace t f q) \<longleftrightarrow> x = (t, f) \<or> x \<in> set q" for x
    using mm_emplace_mset [of t f q] by (metis insert_iff set_mset_add_mset_insert set_mset_mset)
  with 2 show ?case by (auto simp: mm_sorted_def)
qed (simp add: mm_sorted_def)

interpretation mm: timed_queue mm_emplace mm_first tl mm_sorted mset
proof unfold_locales
  fix q :: "(int \<times> 'f) list" and t u :: int and f g :: 'f and x :: "int \<times> 'f"
  show "mm_sorted q \<Longrightarrow> mm_sorted (mm_emplace t f q)" by (rule mm_emplace_sorted)
  show "mm_sorted q \<Longrightarrow> mm_sorted (tl q)" by (cases q) (simp_all add: mm_sorted_def)
  show "mset (mm_emplace t f q) = add_mset (t, f) (mset q)" by (rule mm_emplace_mset)
  show "mm_first q = None \<longleftrightarrow> mset q = {#}" by (cases q) (simp_all add: mm_first_def)
  show "mm_first q = Some x \<Longrightarrow> mset q = add_mset x (mset (tl q))"
    by (cases q) (simp_all add: mm_first_def)
  show "mm_sorted q \<Longrightarrow> mm_first q = Some (t, f) \<Longrightarrow> (u, g) \<in># mset q \<Longrightarrow> t \<le> u"
    by (cases q) (force simp: mm_first_def mm_sorted_def)+
qed

text \<open>Elements with the same key keep the order in which they were put in.\<close>

lemma mm_emplace_stable:
  "mm_sorted q \<Longrightarrow> filter (\<lambda>x. fst x = u) (mm_emplace t f q) =
     filter (\<lambda>x. fst x = u) q @ (if t = u then [(t, f)] else [])"
proof (induction t f q rule: mm_emplace.induct)
  case (2 t f v g q)
  have "fst x \<noteq> t" if "\<not> v \<le> t" "x \<in> set ((v, g) # q)" for x
    using that "2.prems" by (force simp: mm_sorted_def)
  then have "\<not> v \<le> t \<Longrightarrow> filter (\<lambda>x. fst x = t) ((v, g) # q) = []" by (simp only: filter_empty_conv) blast
  with 2 show ?case by (auto simp: mm_sorted_def)
qed simp

section \<open>The scheduler\<close>

record 'f scheduler =
  thread_count :: int
  function_queue :: "(int \<times> 'f) list"
  stop_requested :: bool
  stop_when_empty :: bool

text \<open>Where a thread is while it does not hold the mutex.\<close>

datatype 'f sched_pc =
    Starting          \<comment> \<open>before the lock at the top of \<^verbatim>\<open>ProcessFunctionQueue\<close>\<close>
  | Waiting           \<comment> \<open>in \<^verbatim>\<open>wait(lk)\<close>\<close>
  | WaitingUntil int  \<comment> \<open>in \<^verbatim>\<open>wait_until(lk, time)\<close>\<close>
  | Running 'f        \<comment> \<open>in \<^verbatim>\<open>f()\<close>\<close>
  | Exited

definition Scheduler_new :: "int \<Rightarrow> 'f scheduler \<times> 'f sched_pc list" where
  "Scheduler_new threadCount =
     (\<lparr>thread_count = threadCount, function_queue = [], stop_requested = False, stop_when_empty = False\<rparr>,
      replicate (nat threadCount) Starting)"

text \<open>
  The calls on \<^verbatim>\<open>queue_schedule_cv_\<close>. An operation of a client is what it does under the
  mutex, and the call it makes after that.
\<close>

datatype cv_call = NotifyOne | NotifyAll

definition Scheduler_Stop :: "bool \<Rightarrow> 'f scheduler \<Rightarrow> 'f scheduler \<times> cv_call list" where
  "Scheduler_Stop drain s =
     ((if drain then s\<lparr>stop_when_empty := True\<rparr> else s\<lparr>stop_requested := True\<rparr>), [NotifyAll])"

text \<open>\<^verbatim>\<open>Stop\<close> returns when every thread can be joined.\<close>

definition Scheduler_Stop_returns :: "'f sched_pc list \<Rightarrow> bool" where
  "Scheduler_Stop_returns ths \<longleftrightarrow> (\<forall>p \<in> set ths. p = Exited)"

definition Scheduler_Schedule :: "'f \<Rightarrow> int \<Rightarrow> 'f scheduler \<Rightarrow> 'f scheduler \<times> cv_call list" where
  "Scheduler_Schedule f t s = (s\<lparr>function_queue := mm_emplace t f (function_queue s)\<rparr>, [NotifyOne])"

definition Scheduler_ScheduleFromNow :: "'f \<Rightarrow> int \<Rightarrow> int \<Rightarrow> 'f scheduler \<Rightarrow> 'f scheduler \<times> cv_call list" where
  "Scheduler_ScheduleFromNow f deltaMS now s = Scheduler_Schedule f (now + 1000000 * deltaMS) s"

text \<open>
  \<^verbatim>\<open>ProcessFunctionQueue\<close> from one of its labels, with the mutex held, up to the point
  where the thread gives it up: the loop head, the condition of the inner loop, the code
  behind the inner loop, and the condition of the outer loop (where \<^verbatim>\<open>continue\<close> goes).
\<close>

datatype sched_label = LTop | LInner int | LAfter | LCond

definition next_time :: "int \<Rightarrow> 'f scheduler \<Rightarrow> int" where
  "next_time now s = (case function_queue s of [] \<Rightarrow> now | (t, f) # _ \<Rightarrow> t)"

definition sched_exit :: "'f scheduler \<Rightarrow> 'f sched_pc \<times> 'f scheduler" where
  "sched_exit s = (Exited, s\<lparr>thread_count := thread_count s - 1\<rparr>)"

function ProcessFunctionQueue :: "int \<Rightarrow> sched_label \<Rightarrow> 'f scheduler \<Rightarrow> 'f sched_pc \<times> 'f scheduler" where
  "ProcessFunctionQueue now LTop s =
     (if \<not> stop_requested s \<and> \<not> stop_when_empty s \<and> function_queue s = [] then (Waiting, s)
      else ProcessFunctionQueue now (LInner (next_time now s)) s)"
| "ProcessFunctionQueue now (LInner time) s =
     (if \<not> stop_requested s \<and> function_queue s \<noteq> [] then (WaitingUntil time, s)
      else ProcessFunctionQueue now LAfter s)"
| "ProcessFunctionQueue now LAfter s =
     (if stop_requested s then sched_exit s
      else (case function_queue s of
              [] \<Rightarrow> ProcessFunctionQueue now LCond s
            | (t, f) # q \<Rightarrow> (Running f, s\<lparr>function_queue := q\<rparr>)))"
| "ProcessFunctionQueue now LCond s =
     (if \<not> stop_requested s \<and> \<not> (stop_when_empty s \<and> function_queue s = [])
      then ProcessFunctionQueue now LTop s else sched_exit s)"
  by pat_completeness auto

text \<open>
  The loops inside one such step end: \<^verbatim>\<open>continue\<close> is reached with an empty queue only, and
  then the thread waits at the loop head or leaves the outer loop.
\<close>

fun sched_rank :: "sched_label \<Rightarrow> 'f scheduler \<Rightarrow> nat" where
  "sched_rank LTop s =
     (if \<not> stop_requested s \<and> \<not> stop_when_empty s \<and> function_queue s = [] then 0 else 6)"
| "sched_rank (LInner t) s = 5"
| "sched_rank LAfter s = 4"
| "sched_rank LCond s = (if function_queue s = [] then 3 else 7)"

termination ProcessFunctionQueue
  by (relation "measure (\<lambda>(now, l, s). sched_rank l s)") auto

declare ProcessFunctionQueue.simps [simp del]

section \<open>Threads, clock and clients\<close>

text \<open>
  The ghost fields record what was scheduled and which functions were started, each with
  the time it was due and the time of the start. \<open>sw_calls\<close> holds the notifications that a
  client has still to make, and \<open>sw_notified\<close> the waiting threads that were notified and have
  not got the mutex yet.
\<close>

record 'f sched_world =
  sw_s :: "'f scheduler"
  sw_threads :: "'f sched_pc list"
  sw_now :: int
  sw_calls :: "cv_call list"
  sw_notified :: "nat set"
  sw_scheduled :: "(int \<times> 'f) list"
  sw_started :: "(int \<times> 'f \<times> int) list"

definition sched_start :: "nat \<Rightarrow> int \<Rightarrow> 'f sched_world" where
  "sched_start n now = \<lparr>sw_s = fst (Scheduler_new (int n)), sw_threads = snd (Scheduler_new (int n)),
     sw_now = now, sw_calls = [], sw_notified = {}, sw_scheduled = [], sw_started = []\<rparr>"

definition is_waiting :: "'f sched_pc \<Rightarrow> bool" where
  "is_waiting p \<longleftrightarrow> (case p of Waiting \<Rightarrow> True | WaitingUntil t \<Rightarrow> True | _ \<Rightarrow> False)"

definition waiting_threads :: "'f sched_world \<Rightarrow> nat set" where
  "waiting_threads w = set (filter (\<lambda>i. is_waiting (sw_threads w ! i)) [0..<length (sw_threads w)])"

text \<open>Thread \<open>i\<close> takes the mutex and runs on from the label.\<close>

definition sched_run :: "nat \<Rightarrow> sched_label \<Rightarrow> 'f sched_world \<Rightarrow> 'f sched_world" where
  "sched_run i l w =
     (case ProcessFunctionQueue (sw_now w) l (sw_s w) of
        (p, s) \<Rightarrow>
          w\<lparr>sw_s := s, sw_threads := (sw_threads w)[i := p], sw_notified := sw_notified w - {i},
            sw_started := sw_started w @
              (case p of Running f \<Rightarrow> [(next_time (sw_now w) (sw_s w), f, sw_now w)] | _ \<Rightarrow> [])\<rparr>)"

text \<open>
  The steps of the threads of the program. A client that has left the mutex makes its call:
  \<^verbatim>\<open>notify_all\<close> notifies every waiting thread, \<^verbatim>\<open>notify_one\<close> one that was not notified yet, if
  there is one. \<open>timeout\<close> is a \<^verbatim>\<open>wait_until\<close> that returns \<^verbatim>\<open>cv_status::timeout\<close>, \<open>notified\<close>
  one that returns \<^verbatim>\<open>no_timeout\<close> and makes the thread read the first time again. A function
  that throws ends the process (\<^verbatim>\<open>LOG(FATAL)\<close>), so \<open>finished\<close> is the only way on.
\<close>

inductive thread_step :: "'f sched_world \<Rightarrow> 'f sched_world \<Rightarrow> bool" where
  notify_all: "sw_calls w = us @ NotifyAll # vs \<Longrightarrow>
    thread_step w (w\<lparr>sw_calls := us @ vs, sw_notified := sw_notified w \<union> waiting_threads w\<rparr>)"
| notify_one: "sw_calls w = us @ NotifyOne # vs \<Longrightarrow> i \<in> waiting_threads w - sw_notified w \<Longrightarrow>
    thread_step w (w\<lparr>sw_calls := us @ vs, sw_notified := insert i (sw_notified w)\<rparr>)"
| notify_none: "sw_calls w = us @ NotifyOne # vs \<Longrightarrow> waiting_threads w \<subseteq> sw_notified w \<Longrightarrow>
    thread_step w (w\<lparr>sw_calls := us @ vs\<rparr>)"
| started: "i < length (sw_threads w) \<Longrightarrow> sw_threads w ! i = Starting \<Longrightarrow> thread_step w (sched_run i LTop w)"
| woken: "i < length (sw_threads w) \<Longrightarrow> sw_threads w ! i = Waiting \<Longrightarrow> i \<in> sw_notified w \<Longrightarrow>
    thread_step w (sched_run i LTop w)"
| timeout: "i < length (sw_threads w) \<Longrightarrow> sw_threads w ! i = WaitingUntil t \<Longrightarrow> t \<le> sw_now w \<Longrightarrow>
    thread_step w (sched_run i LAfter w)"
| notified: "i < length (sw_threads w) \<Longrightarrow> sw_threads w ! i = WaitingUntil t \<Longrightarrow> i \<in> sw_notified w \<Longrightarrow>
    thread_step w (sched_run i (LInner (next_time (sw_now w) (sw_s w))) w)"
| finished: "i < length (sw_threads w) \<Longrightarrow> sw_threads w ! i = Running f \<Longrightarrow>
    thread_step w (sched_run i LCond w)"

text \<open>All steps: those, the clock, new calls of clients, and waits that end spuriously.\<close>

inductive sched_step :: "'f sched_world \<Rightarrow> 'f sched_world \<Rightarrow> bool" where
  tick: "sw_now w \<le> now \<Longrightarrow> sched_step w (w\<lparr>sw_now := now\<rparr>)"
| schedule: "Scheduler_Schedule f t (sw_s w) = (s, cs) \<Longrightarrow>
    sched_step w (w\<lparr>sw_s := s, sw_calls := sw_calls w @ cs, sw_scheduled := sw_scheduled w @ [(t, f)]\<rparr>)"
| stop: "Scheduler_Stop drain (sw_s w) = (s, cs) \<Longrightarrow> sched_step w (w\<lparr>sw_s := s, sw_calls := sw_calls w @ cs\<rparr>)"
| spurious: "i \<in> waiting_threads w \<Longrightarrow> sched_step w (w\<lparr>sw_notified := insert i (sw_notified w)\<rparr>)"
| thread: "thread_step w w' \<Longrightarrow> sched_step w w'"

text \<open>
  Where a proof is about the queue, the threads and the log, a step is one of these three: it
  changes none of them, it is a call of a client, or one thread runs.
\<close>

definition same_core :: "'f sched_world \<Rightarrow> 'f sched_world \<Rightarrow> bool" where
  "same_core w w' \<longleftrightarrow> sw_s w' = sw_s w \<and> sw_threads w' = sw_threads w \<and> sw_scheduled w' = sw_scheduled w \<and> sw_started w' = sw_started w"

lemma sched_step_split:
  assumes "sched_step w w'"
  obtains (same) "same_core w w'"
        | (schedule) f t where "sw_s w' = fst (Scheduler_Schedule f t (sw_s w))" "sw_threads w' = sw_threads w"
              "sw_scheduled w' = sw_scheduled w @ [(t, f)]" "sw_started w' = sw_started w"
        | (stop) drain where "sw_s w' = fst (Scheduler_Stop drain (sw_s w))" "sw_threads w' = sw_threads w"
              "sw_scheduled w' = sw_scheduled w" "sw_started w' = sw_started w"
        | (run) i l where "w' = sched_run i l w" "i < length (sw_threads w)" "sw_threads w ! i \<noteq> Exited"
              "\<And>t. l = LInner t \<Longrightarrow> t = next_time (sw_now w) (sw_s w)"
              "l = LAfter \<Longrightarrow> \<exists>t. sw_threads w ! i = WaitingUntil t \<and> t \<le> sw_now w"
  using assms
proof cases
  case (schedule f t s cs)
  then show thesis using that(2) [of f t] by simp
next
  case (stop drain s cs)
  then show thesis using that(3) [of drain] by simp
next
  case thread
  then show thesis by cases (auto intro: that(1,4) simp: same_core_def)
qed (auto intro: that(1) simp: same_core_def)

section \<open>What a step does\<close>

lemma PFQ_cases:
  assumes "ProcessFunctionQueue now l s = (p, s')"
  obtains (exit) "p = Exited" "s' = s\<lparr>thread_count := thread_count s - 1\<rparr>"
              "stop_requested s \<or> stop_when_empty s \<and> function_queue s = []"
        | (wait) "p = Waiting" "s' = s" "function_queue s = []" "\<not> stop_requested s" "\<not> stop_when_empty s"
        | (wait_until) t where "p = WaitingUntil t" "s' = s" "function_queue s \<noteq> []"
              "l = LInner t \<or> t = next_time now s"
        | (run) f q t where "p = Running f" "l = LAfter" "function_queue s = (t, f) # q"
              "s' = s\<lparr>function_queue := q\<rparr>"
proof -
  have "p = Exited \<and> s' = s\<lparr>thread_count := thread_count s - 1\<rparr> \<and>
          (stop_requested s \<or> stop_when_empty s \<and> function_queue s = []) \<or>
        p = Waiting \<and> s' = s \<and> function_queue s = [] \<and> \<not> stop_requested s \<and> \<not> stop_when_empty s \<or>
        (\<exists>t. p = WaitingUntil t \<and> s' = s \<and> function_queue s \<noteq> [] \<and> (l = LInner t \<or> t = next_time now s)) \<or>
        (\<exists>f q t. p = Running f \<and> l = LAfter \<and> function_queue s = (t, f) # q \<and> s' = s\<lparr>function_queue := q\<rparr>)"
    using assms
    by (induction now l s rule: ProcessFunctionQueue.induct)
       (auto simp: ProcessFunctionQueue.simps sched_exit_def split: if_splits list.splits)
  with that show thesis by blast
qed

lemma length_filter_update:
  assumes "i < length xs" "P (xs ! i)"
  shows "int (length (filter P (xs[i := y]))) = int (length (filter P xs)) - (if P y then 0 else 1)"
proof -
  have xs: "xs = take i xs @ xs ! i # drop (Suc i) xs" using assms(1) by (rule id_take_nth_drop)
  have "xs[i := y] = take i xs @ y # drop (Suc i) xs" using assms(1) by (rule upd_conv_take_nth_drop)
  moreover have "length (filter P xs) = length (filter P (take i xs)) + 1 + length (filter P (drop (Suc i) xs))"
    using assms(2) by (subst xs) (simp del: append_take_drop_id)
  ultimately show ?thesis by simp
qed

text \<open>The due time and the function of an entry of the start log.\<close>

definition entry :: "int \<times> 'f \<times> int \<Rightarrow> int \<times> 'f" where
  "entry x = (fst x, fst (snd x))"

definition sched_inv :: "'f sched_world \<Rightarrow> bool" where
  "sched_inv w \<longleftrightarrow>
     mm_sorted (function_queue (sw_s w)) \<and>
     mset (sw_scheduled w) = mset (function_queue (sw_s w)) + mset (map entry (sw_started w)) \<and>
     thread_count (sw_s w) = int (length (filter (\<lambda>p. p \<noteq> Exited) (sw_threads w)))"

lemma sched_run_inv:
  assumes inv: "sched_inv w" and i: "i < length (sw_threads w)" "sw_threads w ! i \<noteq> Exited"
  shows "sched_inv (sched_run i l w)"
proof -
  obtain p s' where ps: "ProcessFunctionQueue (sw_now w) l (sw_s w) = (p, s')"
    by (cases "ProcessFunctionQueue (sw_now w) l (sw_s w)")
  note count = length_filter_update [where P = "\<lambda>p. p \<noteq> Exited", OF i]
  from ps show ?thesis
  proof (cases rule: PFQ_cases)
    case (run f q t)
    then show ?thesis using inv ps count
      by (simp add: sched_inv_def sched_run_def next_time_def entry_def mm_sorted_def)
  qed (use inv ps count in \<open>simp_all add: sched_inv_def sched_run_def\<close>)
qed

lemma sched_step_inv:
  assumes "sched_step w w'" "sched_inv w"
  shows "sched_inv w'"
  using assms(1)
proof (cases rule: sched_step_split)
  case (run i l)
  then show ?thesis using sched_run_inv [OF assms(2)] by simp
qed (use assms(2) in \<open>simp_all add: sched_inv_def same_core_def Scheduler_Schedule_def Scheduler_Stop_def mm.bag_emplace mm.invar_emplace\<close>)

lemma sched_start_inv: "sched_inv (sched_start n now)"
  by (simp add: sched_inv_def sched_start_def Scheduler_new_def mm_sorted_def)

interpretation sched_runs: transition_system sched_step sched_inv
  by unfold_locales (rule sched_step_inv)

section \<open>One thread\<close>

definition solo_inv :: "'f sched_world \<Rightarrow> bool" where
  "solo_inv w \<longleftrightarrow> sched_inv w \<and> length (sw_threads w) = 1 \<and>
     (\<forall>t. sw_threads w ! 0 = WaitingUntil t \<longrightarrow>
        (\<exists>u f q. function_queue (sw_s w) = (u, f) # q \<and> u \<le> t)) \<and>
     (\<forall>(t, f, now) \<in> set (sw_started w). t \<le> now)"

lemma solo_index: "solo_inv w \<Longrightarrow> i < length (sw_threads w) \<Longrightarrow> i = 0"
  by (simp add: solo_inv_def)

lemma solo_wait:
  "solo_inv w \<Longrightarrow> sw_threads w ! 0 = WaitingUntil t \<Longrightarrow>
     \<exists>u f q. function_queue (sw_s w) = (u, f) # q \<and> u \<le> t"
  by (simp add: solo_inv_def)

lemma next_time_hd: "function_queue s \<noteq> [] \<Longrightarrow> \<exists>f q. function_queue s = (next_time now s, f) # q"
  by (cases "function_queue s") (auto simp: next_time_def)

text \<open>A label from which the one thread may go on: the head of the queue is due where it pops.\<close>

lemma solo_run:
  assumes inv: "solo_inv w" and i: "i < length (sw_threads w)" and live: "sw_threads w ! i \<noteq> Exited"
    and inner: "\<And>t. l = LInner t \<Longrightarrow> t = next_time (sw_now w) (sw_s w)"
    and after: "l = LAfter \<Longrightarrow> \<exists>u f q. function_queue (sw_s w) = (u, f) # q \<and> u \<le> sw_now w"
  shows "solo_inv (sched_run i l w)"
proof -
  obtain p s' where ps: "ProcessFunctionQueue (sw_now w) l (sw_s w) = (p, s')"
    by (cases "ProcessFunctionQueue (sw_now w) l (sw_s w)")
  have [simp]: "i = 0" using solo_index [OF inv i] .
  have len: "length (sw_threads w) = 1" using inv by (simp add: solo_inv_def)
  have old: "\<forall>(t, f, now) \<in> set (sw_started w). t \<le> now" using inv by (simp add: solo_inv_def)
  have "sched_inv w" using inv by (simp add: solo_inv_def)
  then have si: "sched_inv (sched_run 0 l w)" using sched_run_inv [of w 0 l] len live by simp
  from ps show ?thesis
  proof (cases rule: PFQ_cases)
    case (wait_until t)
    with inner have "t = next_time (sw_now w) (sw_s w)" by blast
    with wait_until next_time_hd [of "sw_s w" "sw_now w"] ps si len old show ?thesis
      by (auto simp: solo_inv_def sched_run_def)
  next
    case (run f q t)
    with after have "next_time (sw_now w) (sw_s w) \<le> sw_now w" by (auto simp: next_time_def)
    with run ps si len old show ?thesis by (auto simp: solo_inv_def sched_run_def)
  qed (use ps si len old in \<open>simp_all add: solo_inv_def sched_run_def\<close>)
qed

lemma solo_schedule:
  assumes "function_queue s = (u, g) # q" "u \<le> k"
  shows "\<exists>v h r. function_queue (fst (Scheduler_Schedule f t s)) = (v, h) # r \<and> v \<le> k"
proof -
  have "\<exists>v h r. mm_emplace t f ((u, g) # q) = (v, h) # r \<and> v \<le> u" by simp
  with assms show ?thesis unfolding Scheduler_Schedule_def by fastforce
qed

lemma solo_step:
  assumes step: "sched_step w w'" and inv: "solo_inv w"
  shows "solo_inv w'"
  using step
proof (cases rule: sched_step_split)
  case (schedule f t)
  have "sched_inv w'" using inv sched_step_inv [OF step] by (simp add: solo_inv_def)
  moreover have "\<exists>v h r. function_queue (sw_s w') = (v, h) # r \<and> v \<le> k" if "sw_threads w ! 0 = WaitingUntil k" for k
    using solo_wait [OF inv that] solo_schedule [of "sw_s w" _ _ _ k f t] unfolding schedule(1) by metis
  ultimately show ?thesis using inv schedule(2-4) by (simp add: solo_inv_def)
next
  case (run i l)
  have "\<exists>u f q. function_queue (sw_s w) = (u, f) # q \<and> u \<le> sw_now w" if "l = LAfter"
    using run(5) [OF that] solo_wait [OF inv] solo_index [OF inv run(2)] order_trans by blast
  with run show ?thesis using solo_run [OF inv run(2,3)] by blast
qed (use inv in \<open>simp_all add: solo_inv_def sched_inv_def same_core_def Scheduler_Stop_def\<close>)

lemma solo_start: "solo_inv (sched_start 1 now)"
  using sched_start_inv [of 1 now] by (simp add: solo_inv_def sched_start_def Scheduler_new_def)

interpretation solo_runs: transition_system sched_step solo_inv
  by unfold_locales (rule solo_step)

section \<open>Stopping\<close>

lemma PFQ_stop: "stop_requested s \<Longrightarrow> ProcessFunctionQueue now l s = sched_exit s"
  by (cases l) (simp_all add: ProcessFunctionQueue.simps)

lemma sched_run_stop:
  "stop_requested (sw_s w) \<Longrightarrow>
     sched_run i l w = w\<lparr>sw_s := snd (sched_exit (sw_s w)), sw_threads := (sw_threads w)[i := Exited],
       sw_notified := sw_notified w - {i}\<rparr>"
  by (simp add: sched_run_def PFQ_stop sched_exit_def)

lemma stop_returns_count:
  "sched_inv w \<Longrightarrow> Scheduler_Stop_returns (sw_threads w) \<Longrightarrow> thread_count (sw_s w) = 0"
  by (simp add: sched_inv_def Scheduler_Stop_returns_def filter_empty_conv)

text \<open>
  Runs of a stopped scheduler, with the number of times that a thread got to run: clients and
  the clock may go on in between.
\<close>

definition live_threads :: "'f sched_pc list \<Rightarrow> nat" where
  "live_threads ths = length (filter (\<lambda>p. p \<noteq> Exited) ths)"

inductive stopping_run :: "nat \<Rightarrow> 'f sched_world \<Rightarrow> 'f sched_world \<Rightarrow> bool" where
  none: "stopping_run 0 w w"
| thread: "stopping_run k w w1 \<Longrightarrow> sched_step w1 w2 \<Longrightarrow> sw_threads w2 \<noteq> sw_threads w1 \<Longrightarrow> stopping_run (Suc k) w w2"
| other: "stopping_run k w w1 \<Longrightarrow> sched_step w1 w2 \<Longrightarrow> sw_threads w2 = sw_threads w1 \<Longrightarrow> stopping_run k w w2"

lemma live_threads_exit:
  "i < length ths \<Longrightarrow> ths ! i \<noteq> Exited \<Longrightarrow> live_threads ths = Suc (live_threads (ths[i := Exited]))"
  using length_filter_update [where P = "\<lambda>p. p \<noteq> Exited", of i ths Exited] by (simp add: live_threads_def)

lemma stopped_run:
  assumes "stop_requested (sw_s w)" and "i < length (sw_threads w)" and "sw_threads w ! i \<noteq> Exited"
  shows "stop_requested (sw_s (sched_run i l w))"
    and "Suc (live_threads (sw_threads (sched_run i l w))) = live_threads (sw_threads w)"
  using assms(1) live_threads_exit [OF assms(2,3)] by (simp_all add: sched_run_stop sched_exit_def)

lemma stopped_step:
  assumes "sched_step w w'" and "stop_requested (sw_s w)"
  shows "stop_requested (sw_s w') \<and>
    (sw_threads w' = sw_threads w \<or> live_threads (sw_threads w) = Suc (live_threads (sw_threads w')))"
  using assms(1)
  by (cases rule: sched_step_split)
    (use assms(2) in \<open>simp_all add: stopped_run same_core_def Scheduler_Schedule_def Scheduler_Stop_def\<close>)

lemma stopping_run_live:
  assumes "stopping_run k w w'" and "stop_requested (sw_s w)"
  shows "stop_requested (sw_s w') \<and> live_threads (sw_threads w) = k + live_threads (sw_threads w')"
  using assms by (induction rule: stopping_run.induct) (auto dest: stopped_step)

text \<open>No wake-up is lost: after a stop every waiting thread was notified, or its notification is still to come.\<close>

definition notify_inv :: "'f sched_world \<Rightarrow> bool" where
  "notify_inv w \<longleftrightarrow>
     (stop_requested (sw_s w) \<longrightarrow> NotifyAll \<in> set (sw_calls w) \<or> waiting_threads w \<subseteq> sw_notified w)"

lemma waiting_run:
  "waiting_threads (sched_run i l w) \<subseteq> (if stop_requested (sw_s w) then waiting_threads w - {i} else UNIV)"
proof -
  have "is_waiting ((sw_threads w)[i := Exited] ! j) \<Longrightarrow> j < length (sw_threads w) \<Longrightarrow> j \<noteq> i \<and> is_waiting (sw_threads w ! j)" for j
    by (cases "j = i") (simp_all add: is_waiting_def)
  then show ?thesis by (auto simp: waiting_threads_def sched_run_stop)
qed

lemma run_stop_requested: "stop_requested (sw_s (sched_run i l w)) \<longleftrightarrow> stop_requested (sw_s w)"
proof -
  obtain p s' where ps: "ProcessFunctionQueue (sw_now w) l (sw_s w) = (p, s')"
    by (cases "ProcessFunctionQueue (sw_now w) l (sw_s w)")
  then show ?thesis by (cases rule: PFQ_cases) (use ps in \<open>simp_all add: sched_run_def\<close>)
qed

lemma run_notify_inv: "notify_inv w \<Longrightarrow> notify_inv (sched_run i l w)"
  using waiting_run [of i l w] run_stop_requested [of i l w]
  by (auto simp: notify_inv_def sched_run_stop split: if_splits)

lemma thread_notify_inv: "thread_step w w' \<Longrightarrow> notify_inv w \<Longrightarrow> notify_inv w'"
  by (induction rule: thread_step.induct) (auto simp: run_notify_inv, auto simp: notify_inv_def waiting_threads_def)

lemma sched_notify_inv: "sched_step w w' \<Longrightarrow> notify_inv w \<Longrightarrow> notify_inv w'"
  by (induction rule: sched_step.induct)
    (auto simp: thread_notify_inv, auto simp: notify_inv_def waiting_threads_def Scheduler_Schedule_def Scheduler_Stop_def split: if_splits)

interpretation notify_runs: transition_system sched_step notify_inv
  by unfold_locales (rule sched_notify_inv)

lemma live_thread_steps:
  assumes inv: "notify_inv w" and stop: "stop_requested (sw_s w)" and left: "\<not> Scheduler_Stop_returns (sw_threads w)"
  shows "\<exists>w'. thread_step w w'"
proof (cases "NotifyAll \<in> set (sw_calls w)")
  case True
  then obtain us vs where "sw_calls w = us @ NotifyAll # vs" by (meson split_list)
  then show ?thesis by (blast intro: thread_step.notify_all)
next
  case False
  obtain i where i: "i < length (sw_threads w)" "sw_threads w ! i \<noteq> Exited"
    using left by (auto simp: Scheduler_Stop_returns_def in_set_conv_nth)
  have "i \<in> sw_notified w" if "is_waiting (sw_threads w ! i)"
    using inv stop False i(1) that by (auto simp: notify_inv_def waiting_threads_def)
  with i show ?thesis by (cases "sw_threads w ! i") (auto simp: is_waiting_def intro: thread_step.intros)
qed

text \<open>Every step of a thread makes a call that was due, or a thread leaves.\<close>

lemma stopped_thread_step:
  assumes "thread_step w w'" and "stop_requested (sw_s w)"
  shows "Suc (length (sw_calls w') + live_threads (sw_threads w')) = length (sw_calls w) + live_threads (sw_threads w)"
proof -
  have "sw_calls (sched_run i l w) = sw_calls w" for i l by (simp add: sched_run_stop assms(2))
  with assms show ?thesis by cases (simp_all add: stopped_run)
qed

lemma stopped_thread_steps:
  assumes "(thread_step ^^ k) w w'" and "stop_requested (sw_s w)"
  shows "sched_step\<^sup>*\<^sup>* w w' \<and> stop_requested (sw_s w') \<and>
    k + (length (sw_calls w') + live_threads (sw_threads w')) = length (sw_calls w) + live_threads (sw_threads w)"
  using assms(1)
proof (induction k arbitrary: w')
  case (Suc k)
  then obtain v where v: "(thread_step ^^ k) w v" "thread_step v w'" by auto
  note IH = Suc.IH [OF v(1)]
  have "sched_step v w'" using v(2) by (rule sched_step.thread)
  with IH stopped_step [of v w'] stopped_thread_step [OF v(2)] show ?case by (auto intro: rtranclp.rtrancl_into_rtrancl)
qed (use assms(2) in simp)

lemma live_threads_start: "live_threads (sw_threads (sched_start n now)) = n"
  by (simp add: live_threads_def sched_start_def Scheduler_new_def)

lemma live_threads_bound:
  assumes "sched_step\<^sup>*\<^sup>* (sched_start n now) w"
  shows "length (sw_threads w) = n" and "live_threads (sw_threads w) \<le> n"
proof -
  have "length (sw_threads w') = length (sw_threads w)" if "sched_step w w'" for w w' :: "'a sched_world"
    using that by (cases rule: sched_step_split)
      (auto simp: same_core_def sched_run_def split: prod.split)
  then show l: "length (sw_threads w) = n"
    using sched_runs.stable_reach [OF assms sched_start_inv, of "\<lambda>w. length (sw_threads w) = n"]
    by (simp add: sched_start_def Scheduler_new_def)
  show "live_threads (sw_threads w) \<le> n" using l length_filter_le by (auto simp: live_threads_def)
qed

lemma live_threads_0: "live_threads ths = 0 \<longleftrightarrow> Scheduler_Stop_returns ths"
  by (auto simp: live_threads_def Scheduler_Stop_returns_def filter_empty_conv)

text \<open>A thread leaves its loop after a plain stop, or when draining and nothing is queued.\<close>

lemma sched_run_exit:
  assumes "i < length (sw_threads w)" "sw_threads w ! j \<noteq> Exited" "sw_threads (sched_run i l w) ! j = Exited"
  shows "stop_requested (sw_s w) \<or> stop_when_empty (sw_s w) \<and> function_queue (sw_s w) = []"
proof -
  obtain p s' where ps: "ProcessFunctionQueue (sw_now w) l (sw_s w) = (p, s')"
    by (cases "ProcessFunctionQueue (sw_now w) l (sw_s w)")
  with assms have "p = Exited"
    by (cases "j = i") (simp_all add: sched_run_def)
  with ps show ?thesis by (cases rule: PFQ_cases) simp_all
qed

lemma sched_step_exit:
  assumes "sched_step w w'" "sw_threads w ! j \<noteq> Exited" "sw_threads w' ! j = Exited"
  shows "stop_requested (sw_s w) \<or> stop_when_empty (sw_s w) \<and> function_queue (sw_s w) = []"
  using assms(1)
proof (cases rule: sched_step_split)
  case (run i l)
  then show ?thesis using sched_run_exit [of i w j l] assms(2,3) by simp
qed (use assms(2,3) in \<open>simp_all add: same_core_def\<close>)

section \<open>Two threads\<close>

text \<open>
  The scenario of two threads that wait for the same first function: both time out when it
  is due, the first one takes it, and the second one takes whatever comes next.
\<close>

definition early_world :: "int \<Rightarrow> 'f scheduler \<Rightarrow> 'f sched_pc list \<Rightarrow> (int \<times> 'f) list \<Rightarrow> (int \<times> 'f \<times> int) list \<Rightarrow> 'f sched_world" where
  "early_world now s ths sch st =
     \<lparr>sw_s = s, sw_threads = ths, sw_now = now, sw_calls = [], sw_notified = {}, sw_scheduled = sch, sw_started = st\<rparr>"

definition early_sched :: "(int \<times> 'f) list \<Rightarrow> 'f scheduler" where
  "early_sched q = \<lparr>thread_count = 2, function_queue = q, stop_requested = False, stop_when_empty = False\<rparr>"

lemma PFQ_top_wait:
  "\<not> stop_requested s \<Longrightarrow> function_queue s = (t, f) # q \<Longrightarrow>
     ProcessFunctionQueue now LTop s = (WaitingUntil t, s)"
  by (simp add: ProcessFunctionQueue.simps next_time_def)

lemma PFQ_after_run:
  "\<not> stop_requested s \<Longrightarrow> function_queue s = (t, f) # q \<Longrightarrow>
     ProcessFunctionQueue now LAfter s = (Running f, s\<lparr>function_queue := q\<rparr>)"
  by (simp add: ProcessFunctionQueue.simps)

lemmas early_defs = early_world_def early_sched_def sched_run_def next_time_def PFQ_top_wait PFQ_after_run

lemma replicate_2: "replicate 2 x = [x, x]"
  by (simp only: numeral_2_eq_2 replicate_Suc replicate_0)

text \<open>When no thread waits, the notification of \<^verbatim>\<open>Schedule\<close> is lost.\<close>

lemma early_schedule:
  assumes "\<forall>p \<in> set ths. \<not> is_waiting p"
  shows "sched_step\<^sup>*\<^sup>* (early_world now s ths sch st) (early_world now (fst (Scheduler_Schedule f t s)) ths (sch @ [(t, f)]) st)"
proof -
  let ?w = "early_world now s ths sch st"
  let ?v = "?w\<lparr>sw_s := fst (Scheduler_Schedule f t s), sw_calls := [NotifyOne], sw_scheduled := sch @ [(t, f)]\<rparr>"
  have "sched_step ?w ?v"
    using sched_step.schedule [where w = ?w and f = f and t = t] by (simp add: early_world_def Scheduler_Schedule_def)
  moreover have "sched_step ?v (early_world now (fst (Scheduler_Schedule f t s)) ths (sch @ [(t, f)]) st)"
    using thread_step.notify_none [where w = ?v and us = "[]" and vs = "[]"] assms
    by (intro sched_step.thread) (auto simp: early_world_def waiting_threads_def)
  ultimately show ?thesis by (meson converse_rtranclp_into_rtranclp r_into_rtranclp)
qed

lemma early_start: "sched_start n now = early_world now (fst (Scheduler_new (int n))) (replicate n Starting) [] []"
  by (simp add: early_world_def sched_start_def Scheduler_new_def)

lemma two_threads_early:
  "\<exists>w. sched_step\<^sup>*\<^sup>* (sched_start 2 t) w \<and> sw_started w = [(t, f, t), (t + int d, g, t)]"
proof -
  let ?q = "[(t, f), (t + int d, g)]"
  let ?w1 = "early_world t (early_sched [(t, f)]) [Starting, Starting] [(t, f)] []"
  let ?w2 = "early_world t (early_sched ?q) [Starting, Starting] ?q []"
  let ?w3 = "early_world t (early_sched ?q) [WaitingUntil t, Starting] ?q []"
  let ?w4 = "early_world t (early_sched ?q) [WaitingUntil t, WaitingUntil t] ?q []"
  let ?w5 = "early_world t (early_sched [(t + int d, g)]) [Running f, WaitingUntil t] ?q [(t, f, t)]"
  let ?w6 = "early_world t (early_sched []) [Running f, Running g] ?q [(t, f, t), (t + int d, g, t)]"
  have s1: "sched_step\<^sup>*\<^sup>* (sched_start 2 t) ?w1"
    using early_schedule [where ths = "[Starting, Starting]" and f = f and t = t and now = t and s = "early_sched []" and sch = "[]" and st = "[]"]
    unfolding early_start by (simp add: Scheduler_new_def Scheduler_Schedule_def early_sched_def is_waiting_def replicate_2)
  have s2: "sched_step\<^sup>*\<^sup>* ?w1 ?w2"
    using early_schedule [where ths = "[Starting, Starting]" and f = g and t = "t + int d" and s = "early_sched [(t, f)]" and sch = "[(t, f)]"]
    by (simp add: Scheduler_Schedule_def early_sched_def is_waiting_def)
  have s3: "thread_step ?w2 ?w3" using thread_step.started [of 0 ?w2] by (simp add: early_defs)
  have s4: "thread_step ?w3 ?w4" using thread_step.started [of 1 ?w3] by (simp add: early_defs)
  have s5: "thread_step ?w4 ?w5" using thread_step.timeout [of 0 ?w4 t] by (simp add: early_defs)
  have s6: "thread_step ?w5 ?w6" using thread_step.timeout [of 1 ?w5 t] by (simp add: early_defs)
  have "sched_step\<^sup>*\<^sup>* ?w2 ?w6"
    using s3 s4 s5 s6 by (meson sched_step.thread converse_rtranclp_into_rtranclp rtranclp.rtrancl_refl)
  then have "sched_step\<^sup>*\<^sup>* (sched_start 2 t) ?w6" using s1 s2 by (meson rtranclp_trans)
  then show ?thesis by (intro exI [of _ ?w6]) (simp add: early_world_def)
qed

section \<open>Properties\<close>

text \<open>A run of one thread that executes one function.\<close>

lemma solo_example:
  "\<exists>w. sched_step\<^sup>*\<^sup>* (sched_start 1 0) w \<and> sw_started w = [(5, f, 7)] \<and> sw_scheduled w = [(5, f)]"
proof -
  let ?s = "\<lambda>q. \<lparr>thread_count = 1, function_queue = q, stop_requested = False, stop_when_empty = False\<rparr>"
  let ?w1 = "early_world 0 (?s [(5, f)]) [Starting] [(5, f)] []"
  let ?w2 = "early_world 0 (?s [(5, f)]) [WaitingUntil 5] [(5, f)] []"
  let ?w3 = "early_world 7 (?s [(5, f)]) [WaitingUntil 5] [(5, f)] []"
  let ?w4 = "early_world 7 (?s []) [Running f] [(5, f)] [(5, f, 7)]"
  have s1: "sched_step\<^sup>*\<^sup>* (sched_start 1 0) ?w1"
    using early_schedule [where ths = "[Starting]" and f = f and t = 5 and now = 0 and s = "?s []" and sch = "[]" and st = "[]"]
    unfolding early_start by (simp add: Scheduler_new_def Scheduler_Schedule_def is_waiting_def)
  have s2: "sched_step ?w1 ?w2" using thread_step.started [of 0 ?w1] by (intro sched_step.thread) (simp add: early_defs)
  have s3: "sched_step ?w2 ?w3" using sched_step.tick [of ?w2 7] by (simp add: early_defs)
  have s4: "sched_step ?w3 ?w4" using thread_step.timeout [of 0 ?w3 5] by (intro sched_step.thread) (simp add: early_defs)
  have "sched_step\<^sup>*\<^sup>* ?w1 ?w4" using s2 s3 s4 by (meson converse_rtranclp_into_rtranclp rtranclp.rtrancl_refl)
  then have "sched_step\<^sup>*\<^sup>* (sched_start 1 0) ?w4" using s1 by (meson rtranclp_trans)
  then show ?thesis by (intro exI [of _ ?w4]) (simp add: early_world_def)
qed

text \<open>
  C19: In every run, with any number of threads, each scheduled function is either still
  queued or was started, exactly once per \<^verbatim>\<open>Schedule\<close>; the queue is in order of due time,
  so the head is always a function that is due first.
\<close>

theorem scheduled_once:
  assumes "sched_step\<^sup>*\<^sup>* (sched_start n now) w"
  shows "mset (sw_scheduled w) = mset (function_queue (sw_s w)) + mset (map entry (sw_started w)) \<and>
    (\<forall>t f q u g. function_queue (sw_s w) = (t, f) # q \<and> (u, g) \<in> set q \<longrightarrow> t \<le> u)"
proof -
  have inv: "sched_inv w" using sched_runs.invar_reach [OF assms sched_start_inv] .
  then have srt: "mm_sorted (function_queue (sw_s w))" by (simp add: sched_inv_def)
  have "t \<le> u" if "function_queue (sw_s w) = (t, f) # q" "(u, g) \<in> set q" for t f q u g
    using mm.first_least [OF srt, of t f u g] that by (simp add: mm_first_def)
  with inv show ?thesis by (auto simp: sched_inv_def)
qed

theorem scheduled_once_witness:
  "\<exists>w. sched_step\<^sup>*\<^sup>* (sched_start 1 0) w \<and> mset (sw_scheduled w) = {#(5, 3 :: nat)#} \<and>
     function_queue (sw_s w) = []"
proof -
  obtain w :: "nat sched_world" where w: "sched_step\<^sup>*\<^sup>* (sched_start 1 0) w" "sw_started w = [(5, 3, 7)]"
    "sw_scheduled w = [(5, 3)]" using solo_example [of "3 :: nat"] by blast
  with scheduled_once [OF w(1)] have "function_queue (sw_s w) = []" by (simp add: entry_def)
  with w show ?thesis by (intro exI [of _ w]) simp
qed

text \<open>C20: A scheduler with one thread never starts a function before it is due.\<close>

theorem one_thread_not_early:
  assumes "sched_step\<^sup>*\<^sup>* (sched_start 1 now0) w" "(t, f, now) \<in> set (sw_started w)"
  shows "t \<le> now"
  using solo_runs.invar_reach [OF assms(1) solo_start] assms(2) by (auto simp: solo_inv_def)

theorem one_thread_not_early_witness:
  "\<exists>w. sched_step\<^sup>*\<^sup>* (sched_start 1 0) w \<and> (5, 3 :: nat, 7) \<in> set (sw_started w) \<and> (5 :: int) \<le> 7"
proof -
  obtain w :: "nat sched_world" where w: "sched_step\<^sup>*\<^sup>* (sched_start 1 0) w" "sw_started w = [(5, 3, 7)]"
    using solo_example [of "3 :: nat"] by blast
  then have "(5, 3 :: nat, 7) \<in> set (sw_started w)" by simp
  with one_thread_not_early [OF w(1) this] w(1) show ?thesis by blast
qed

text \<open>
  With two threads, the number \<^verbatim>\<open>ThreadPool\<close> uses, a function can start any time
  \<open>d\<close> before it is due: a thread that timed out pops the head without looking at its time.
\<close>

theorem two_threads_start_early:
  "\<exists>w. sched_step\<^sup>*\<^sup>* (sched_start 2 now) w \<and> (now + int d, g, now) \<in> set (sw_started w)"
proof -
  obtain w where "sched_step\<^sup>*\<^sup>* (sched_start 2 now) w" "sw_started w = [(now, g, now), (now + int d, g, now)]"
    using two_threads_early [of now g d g] by blast
  then show ?thesis by (intro exI [of _ w]) simp
qed

text \<open>
  C21: \<^verbatim>\<open>Stop()\<close> terminates, with any number \<open>n\<close> of threads and from whatever state it was called in. The threads
  then make at most as many steps as there are notifications still to be made and threads; when they
  can make no more, every thread has left its loop, the joins return and the thread count the destructor asserts is 0:
  no thread waits for a notification that nobody makes, neither the clock nor a spurious wake-up is needed. And however
  clients, the clock and spurious wake-ups come in between, a thread gets to run at most \<open>n\<close> times. (A function that a thread is
  executing is taken to return.)
\<close>

theorem stop_terminates:
  assumes "sched_step\<^sup>*\<^sup>* (sched_start n now) w" and "stop_requested (sw_s w)"
  shows "(\<forall>k w'. (thread_step ^^ k) w w' \<longrightarrow>
      k \<le> length (sw_calls w) + n \<and>
      ((\<nexists>w''. thread_step w' w'') \<longrightarrow> Scheduler_Stop_returns (sw_threads w') \<and> thread_count (sw_s w') = 0)) \<and>
    (\<forall>k w'. stopping_run k w w' \<longrightarrow>
      k \<le> n \<and> (k = live_threads (sw_threads w) \<longleftrightarrow> Scheduler_Stop_returns (sw_threads w')))"
proof (intro conjI allI impI)
  fix k w'
  note n = live_threads_bound(2) [OF assms(1)]
  show "k \<le> n" "k = live_threads (sw_threads w) \<longleftrightarrow> Scheduler_Stop_returns (sw_threads w')" if "stopping_run k w w'"
    using stopping_run_live [OF that assms(2)] n live_threads_0 [of "sw_threads w'"] by auto
  assume steps: "(thread_step ^^ k) w w'"
  note w' = stopped_thread_steps [OF steps assms(2)]
  then show "k \<le> length (sw_calls w) + n" using n by simp
  have reach: "sched_step\<^sup>*\<^sup>* (sched_start n now) w'" using assms(1) w' by (meson rtranclp_trans)
  have "notify_inv w'" by (rule notify_runs.invar_reach [OF reach]) (simp add: notify_inv_def sched_start_def Scheduler_new_def)
  moreover assume "\<nexists>w''. thread_step w' w''"
  ultimately show r: "Scheduler_Stop_returns (sw_threads w')" using live_thread_steps w' by blast
  show "thread_count (sw_s w') = 0" using stop_returns_count [OF sched_runs.invar_reach [OF reach sched_start_inv] r] .
qed

theorem stop_terminates_witness:
  "\<exists>w :: nat sched_world. sched_step\<^sup>*\<^sup>* (sched_start 2 0) w \<and> stop_requested (sw_s w) \<and> (\<exists>w''. thread_step w w'')"
proof -
  let ?w = "(sched_start 2 0 :: nat sched_world)\<lparr>sw_s := fst (Scheduler_Stop False (sw_s (sched_start 2 0))), sw_calls := [NotifyAll]\<rparr>"
  have r: "sched_step\<^sup>*\<^sup>* (sched_start 2 0) ?w"
    using sched_step.stop [of False "sched_start 2 0 :: nat sched_world"] by (auto simp: Scheduler_Stop_def sched_start_def)
  have s: "stop_requested (sw_s ?w)" "\<not> Scheduler_Stop_returns (sw_threads ?w)"
    by (simp_all add: Scheduler_Stop_def sched_start_def Scheduler_new_def Scheduler_Stop_returns_def)
  have "(thread_step ^^ 0) ?w ?w" by simp
  with stop_terminates [OF r s(1)] s r show ?thesis by blast
qed

text \<open>
  A draining scheduler loses nothing it holds: a thread ends only after a plain stop, or
  when a drain was requested and the queue is empty at that moment.
\<close>

theorem drain_exits_empty:
  assumes "sched_step w w'" "sw_threads w ! j \<noteq> Exited" "sw_threads w' ! j = Exited"
    and "\<not> stop_requested (sw_s w)"
  shows "stop_when_empty (sw_s w) \<and> function_queue (sw_s w) = []"
  using sched_step_exit [OF assms(1-3)] assms(4) by blast

theorem drain_exits_empty_witness:
  "let w = (sched_start 1 0 :: nat sched_world)\<lparr>sw_s := fst (Scheduler_Stop True (sw_s (sched_start 1 0)))\<rparr>
   in sw_threads (sched_run 0 LTop w) ! 0 = Exited \<and> stop_when_empty (sw_s w) \<and> function_queue (sw_s w) = []"
proof -
  define w where "w = (sched_start 1 0 :: nat sched_world)\<lparr>sw_s := fst (Scheduler_Stop True (sw_s (sched_start 1 0)))\<rparr>"
  note ev = w_def sched_start_def Scheduler_new_def Scheduler_Stop_def sched_run_def
    ProcessFunctionQueue.simps sched_exit_def
  have "sched_step w (sched_run 0 LTop w)" by (intro sched_step.thread thread_step.started) (simp_all add: ev)
  moreover have "sw_threads w ! 0 \<noteq> Exited" "sw_threads (sched_run 0 LTop w) ! 0 = Exited"
    "\<not> stop_requested (sw_s w)" by (simp_all add: ev)
  ultimately show ?thesis using drain_exits_empty [of w "sched_run 0 LTop w" 0]
    unfolding w_def [symmetric] Let_def by blast
qed

end
