(* ===== verification/Worker.thy ===== *)
theory Worker
  imports Scheduler
begin

text \<open>
  \<^verbatim>\<open>thread/worker.cc\<close>: a thread that runs the tasks posted to it, with delayed and periodic
  tasks through the scheduler. Boost.Asio's \<^verbatim>\<open>io_context\<close> is not part of the repository; the
  calls on it are recorded in order. The closures the code builds are values of a datatype,
  one constructor per lambda, with the captured variables as arguments; what a closure
  does when it is called is a function of its value.
\<close>

section \<open>Life cycle\<close>

datatype ioc_call =
    Ioc_reset
  | Make_guard
  | Spawn_run      \<comment> \<open>start the thread and wait until it has stored its id\<close>
  | Guard_reset
  | Join
  | Ioc_stop

record worker =
  wk_running :: bool
  wk_guard :: bool
  wk_thread :: "nat option"     \<comment> \<open>the id of \<^verbatim>\<open>work_thread_\<close>\<close>
  wk_joinable :: bool
  wk_thread_id :: "nat option"  \<comment> \<open>\<^verbatim>\<open>work_thread_id_\<close>\<close>

definition Worker_new :: worker where
  "Worker_new = \<lparr>wk_running = False, wk_guard = False, wk_thread = None, wk_joinable = False,
     wk_thread_id = None\<rparr>"

text \<open>\<open>tid\<close> is the id of the new thread.\<close>

definition Worker_Start :: "nat \<Rightarrow> worker \<Rightarrow> worker \<times> ioc_call list" where
  "Worker_Start tid w =
     (if wk_running w then (w, [])
      else (w\<lparr>wk_running := True, wk_guard := True, wk_thread := Some tid, wk_joinable := True,
              wk_thread_id := Some tid\<rparr>,
            [Ioc_reset, Make_guard, Spawn_run]))"

definition Worker_Stop :: "worker \<Rightarrow> worker \<times> ioc_call list" where
  "Worker_Stop w =
     (if \<not> wk_running w then (w, [])
      else (let joins = wk_thread w \<noteq> None \<and> wk_joinable w
            in (w\<lparr>wk_running := False, wk_joinable := wk_joinable w \<and> \<not> joins\<rparr>,
                (if wk_guard w then [Guard_reset] else []) @ (if joins then [Join] else []) @ [Ioc_stop])))"

definition Worker_Running :: "worker \<Rightarrow> bool" where "Worker_Running w = wk_running w"

definition Worker_ThreadId :: "worker \<Rightarrow> nat option" where "Worker_ThreadId w = wk_thread_id w"

section \<open>Tasks\<close>

text \<open>
  \<open>'u\<close> are the client's tasks. \<open>RunPeriodic\<close> is the closure \<^verbatim>\<open>ScheduleEvery\<close> hands to
  \<^verbatim>\<open>ScheduleFromNow\<close>; \<open>PostChecked\<close> is the function given to the scheduler, which posts
  \<open>Checked\<close>. All three are wrapped by \<^verbatim>\<open>SafeTask\<close>: they do nothing when the worker is gone.
  Times and durations are in nanoseconds.
\<close>

datatype 'u wtask =
    UserTask 'u
  | RunPeriodic 'u int int int      \<comment> \<open>task, start, period, nextDelay\<close>

datatype 'u sfun = PostChecked nat "'u wtask"

datatype 'u posted = Posted "'u wtask" | Checked nat "'u wtask"

text \<open>
  The references handed out: the objects are numbered, \<open>cancelled\<close> are the numbers whose
  flag is set. \<open>scheduled\<close> is what the scheduler was given (function, milliseconds, and the
  time of the call), \<open>posted\<close> what was dispatched to the \<^verbatim>\<open>io_context\<close>.
\<close>

record 'u worker_env =
  we_alive :: bool             \<comment> \<open>the worker object exists\<close>
  we_scheduler :: bool         \<comment> \<open>\<^verbatim>\<open>scheduler_.lock()\<close> succeeds\<close>
  we_refs :: nat
  we_cancelled :: "nat set"
  we_scheduled :: "('u sfun \<times> int \<times> int) list"
  we_posted :: "'u posted list"

text \<open>\<^verbatim>\<open>std::chrono::duration_cast\<close> to milliseconds rounds towards zero.\<close>

definition to_ms :: "int \<Rightarrow> int" where
  "to_ms d = (if 0 \<le> d then d div 1000000 else - ((- d) div 1000000))"

definition ScheduledTaskReference_new :: "'u worker_env \<Rightarrow> nat \<times> 'u worker_env" where
  "ScheduledTaskReference_new e = (we_refs e, e\<lparr>we_refs := Suc (we_refs e)\<rparr>)"

definition ref_IsCancelled :: "nat \<Rightarrow> 'u worker_env \<Rightarrow> bool" where
  "ref_IsCancelled r e \<longleftrightarrow> r \<in> we_cancelled e"

definition ref_Cancel :: "nat \<Rightarrow> 'u worker_env \<Rightarrow> 'u worker_env" where
  "ref_Cancel r e = e\<lparr>we_cancelled := insert r (we_cancelled e)\<rparr>"

definition Worker_PostTask :: "'u posted \<Rightarrow> 'u worker_env \<Rightarrow> 'u worker_env" where
  "Worker_PostTask t e = e\<lparr>we_posted := we_posted e @ [t]\<rparr>"

text \<open>The result is a \<^verbatim>\<open>shared_ptr\<close>: \<open>None\<close> is null.\<close>

definition Worker_ScheduleFromNow ::
    "'u wtask \<Rightarrow> int \<Rightarrow> int \<Rightarrow> 'u worker_env \<Rightarrow> nat option \<times> 'u worker_env" where
  "Worker_ScheduleFromNow task duration now e =
     (let (ref, e) = ScheduledTaskReference_new e
      in if \<not> we_scheduler e then (Some ref, e)
         else (None, e\<lparr>we_scheduled := we_scheduled e @ [(PostChecked ref task, to_ms duration, now)]\<rparr>))"

definition Worker_Unschedule :: "nat option \<Rightarrow> 'u worker_env \<Rightarrow> 'u worker_env res" where
  "Worker_Unschedule ref e =
     (case ref of None \<Rightarrow> Inl (UB NullDeref) | Some r \<Rightarrow> Inr (ref_Cancel r e))"

definition Worker_SafeTask :: "('u worker_env \<Rightarrow> 'u worker_env) \<Rightarrow> 'u worker_env \<Rightarrow> 'u worker_env" where
  "Worker_SafeTask f e = (if we_alive e then f e else e)"

definition Worker_ScheduleEvery3 ::
    "'u \<Rightarrow> int \<Rightarrow> int \<Rightarrow> int \<Rightarrow> int \<Rightarrow> 'u worker_env \<Rightarrow> 'u worker_env" where
  "Worker_ScheduleEvery3 task period nextDelay now now' e =
     snd (Worker_ScheduleFromNow (RunPeriodic task now period nextDelay) (max nextDelay 0) now' e)"

definition Worker_ScheduleEvery ::
    "'u \<Rightarrow> int \<Rightarrow> int \<Rightarrow> int \<Rightarrow> 'u worker_env \<Rightarrow> 'u worker_env" where
  "Worker_ScheduleEvery task duration now now' e = Worker_ScheduleEvery3 task duration duration now now' e"

text \<open>The scheduler calls the function it was given: the checked task is posted.\<close>

definition run_sfun :: "'u sfun \<Rightarrow> 'u worker_env \<Rightarrow> 'u worker_env" where
  "run_sfun f = (case f of PostChecked ref task \<Rightarrow> Worker_SafeTask (Worker_PostTask (Checked ref task)))"

text \<open>
  What running a task does: the client's tasks that were called, and the new state. For a
  periodic task, \<open>go\<close> is what \<^verbatim>\<open>task()\<close> returns (\<open>Inl\<close> when it throws, which is caught and
  logged), and \<open>now1 \<le> now2 \<le> now3\<close> are the clock readings after it: the one for the delay,
  that of the new start, and that of the scheduler.
\<close>

definition run_wtask ::
    "'u wtask \<Rightarrow> unit + bool \<Rightarrow> int \<Rightarrow> int \<Rightarrow> int \<Rightarrow> 'u worker_env \<Rightarrow> 'u list \<times> 'u worker_env" where
  "run_wtask task go now1 now2 now3 e =
     (case task of
        UserTask u \<Rightarrow> ([u], e)
      | RunPeriodic u start period nextDelay \<Rightarrow>
          if we_alive e then
            (case go of
               Inr True \<Rightarrow>
                 let delay = period - (now1 - start - nextDelay)
                 in ([u], Worker_ScheduleEvery3 u period delay now2 now3 e)
             | _ \<Rightarrow> ([u], e))
          else ([], e))"

definition run_posted ::
    "'u posted \<Rightarrow> unit + bool \<Rightarrow> int \<Rightarrow> int \<Rightarrow> int \<Rightarrow> 'u worker_env \<Rightarrow> 'u list \<times> 'u worker_env" where
  "run_posted p go now1 now2 now3 e =
     (case p of
        Posted task \<Rightarrow> run_wtask task go now1 now2 now3 e
      | Checked ref task \<Rightarrow>
          if \<not> we_alive e \<or> ref_IsCancelled ref e then ([], e)
          else run_wtask task go now1 now2 now3 e)"

section \<open>Start and stop\<close>

text \<open>A client's calls, \<open>Some tid\<close> for \<^verbatim>\<open>Start\<close> and \<open>None\<close> for \<^verbatim>\<open>Stop\<close>.\<close>

definition worker_call :: "nat option \<Rightarrow> worker \<times> ioc_call list \<Rightarrow> worker \<times> ioc_call list" where
  "worker_call c wl =
     (let (w, l) = (case c of Some tid \<Rightarrow> Worker_Start tid (fst wl) | None \<Rightarrow> Worker_Stop (fst wl))
      in (w, snd wl @ l))"

definition worker_calls :: "nat option list \<Rightarrow> worker \<times> ioc_call list" where
  "worker_calls cs = fold worker_call cs (Worker_new, [])"

definition up_calls :: "ioc_call list" where "up_calls = [Ioc_reset, Make_guard, Spawn_run]"
definition down_calls :: "ioc_call list" where "down_calls = [Guard_reset, Join, Ioc_stop]"

definition worker_inv :: "worker \<times> ioc_call list \<Rightarrow> bool" where
  "worker_inv wl \<longleftrightarrow>
     (\<exists>n. snd wl = concat (replicate n (up_calls @ down_calls)) @ (if wk_running (fst wl) then up_calls else [])) \<and>
     (wk_running (fst wl) \<longrightarrow> wk_guard (fst wl) \<and> wk_thread (fst wl) \<noteq> None \<and> wk_joinable (fst wl))"

lemma worker_inv_call: "worker_inv wl \<Longrightarrow> worker_inv (worker_call c wl)"
proof -
  assume inv: "worker_inv wl"
  then obtain n where n: "snd wl = concat (replicate n (up_calls @ down_calls)) @
      (if wk_running (fst wl) then up_calls else [])" by (auto simp: worker_inv_def)
  show ?thesis
  proof (cases c)
    case None
    have "concat (replicate n (up_calls @ down_calls)) @ up_calls @ down_calls =
        concat (replicate (Suc n) (up_calls @ down_calls))"
      by (simp only: replicate_Suc replicate_append_same [symmetric] concat_append) simp
    with inv n None show ?thesis
      by (auto simp: worker_inv_def worker_call_def Worker_Stop_def Let_def down_calls_def
          simp del: replicate_Suc intro: exI [of _ "Suc n"])
  next
    case (Some tid)
    with inv n show ?thesis
      by (auto simp: worker_inv_def worker_call_def Worker_Start_def up_calls_def)
  qed
qed

lemma worker_inv_calls: "worker_inv (worker_calls cs)"
proof -
  have "worker_inv (fold worker_call cs wl)" if "worker_inv wl" for wl
    using that by (induction cs arbitrary: wl) (simp_all add: worker_inv_call)
  moreover have "worker_inv (Worker_new, [])"
    by (auto simp: worker_inv_def Worker_new_def intro: exI [of _ 0])
  ultimately show ?thesis by (simp add: worker_calls_def)
qed

section \<open>Cancelling\<close>

text \<open>The client's and the library's steps; \<open>R\<close> are the references the client was given.\<close>

inductive worker_step :: "'u worker_env \<times> nat set \<Rightarrow> 'u worker_env \<times> nat set \<Rightarrow> bool" where
  schedule: "Worker_ScheduleFromNow (UserTask u) d now e = (r, e') \<Longrightarrow> worker_step (e, R) (e', R \<union> set_option r)"
| every: "worker_step (e, R) (Worker_ScheduleEvery u d now now' e, R)"
| unschedule: "r \<in> R \<Longrightarrow> Worker_Unschedule (Some r) e = Inr e' \<Longrightarrow> worker_step (e, R) (e', R)"
| post: "worker_step (e, R) (Worker_PostTask (Posted (UserTask u)) e, R)"
| fire: "(f, ms, t) \<in> set (we_scheduled e) \<Longrightarrow> worker_step (e, R) (run_sfun f e, R)"
| run: "p \<in> set (we_posted e) \<Longrightarrow> run_posted p go now1 now2 now3 e = (us, e') \<Longrightarrow> worker_step (e, R) (e', R)"
| scheduler_gone: "worker_step (e, R) (e\<lparr>we_scheduler := False\<rparr>, R)"
| worker_gone: "worker_step (e, R) (e\<lparr>we_alive := False\<rparr>, R)"

definition env_start :: "'u worker_env" where
  "env_start = \<lparr>we_alive = True, we_scheduler = True, we_refs = 0, we_cancelled = {},
     we_scheduled = [], we_posted = []\<rparr>"

definition task_refs :: "'u worker_env \<Rightarrow> nat set" where
  "task_refs e = {r. \<exists>task ms t. (PostChecked r task, ms, t) \<in> set (we_scheduled e)} \<union>
                 {r. \<exists>task. Checked r task \<in> set (we_posted e)}"

definition ref_inv :: "'u worker_env \<times> nat set \<Rightarrow> bool" where
  "ref_inv eR \<longleftrightarrow> (case eR of (e, R) \<Rightarrow>
     task_refs e \<inter> R = {} \<and> we_cancelled e \<subseteq> R \<and> (\<forall>r \<in> task_refs e \<union> R. r < we_refs e))"

lemma ScheduleFromNow_cases:
  assumes "Worker_ScheduleFromNow task d now e = (r, e')"
  obtains (gone) "\<not> we_scheduler e" "r = Some (we_refs e)" "e' = e\<lparr>we_refs := Suc (we_refs e)\<rparr>"
        | (alive) "we_scheduler e" "r = None"
            "e' = e\<lparr>we_refs := Suc (we_refs e),
                    we_scheduled := we_scheduled e @ [(PostChecked (we_refs e) task, to_ms d, now)]\<rparr>"
  using assms
  by (auto simp: Worker_ScheduleFromNow_def ScheduledTaskReference_new_def split: if_splits)

lemma task_refs_upd [simp]:
  "task_refs (e\<lparr>we_cancelled := c\<rparr>) = task_refs e" "task_refs (e\<lparr>we_scheduler := b\<rparr>) = task_refs e"
  "task_refs (e\<lparr>we_alive := b\<rparr>) = task_refs e" "task_refs (e\<lparr>we_refs := n\<rparr>) = task_refs e"
  by (simp_all add: task_refs_def)

lemma task_refs_post: "task_refs (Worker_PostTask (Posted task) e) = task_refs e"
  by (simp add: task_refs_def Worker_PostTask_def)

lemma ref_inv_same:
  "ref_inv (e, R) \<Longrightarrow> task_refs e' = task_refs e \<Longrightarrow> we_cancelled e' = we_cancelled e \<Longrightarrow>
     we_refs e' = we_refs e \<Longrightarrow> ref_inv (e', R)"
  by (simp add: ref_inv_def)

lemma ref_inv_schedule_both:
  assumes "ref_inv (e, R)" "Worker_ScheduleFromNow task d now e = (r, e')"
  shows "ref_inv (e', R \<union> set_option r) \<and> ref_inv (e', R)"
  using assms(2)
proof (cases rule: ScheduleFromNow_cases)
  case gone
  from assms(1) show ?thesis by (auto simp: ref_inv_def gone less_Suc_eq)
next
  case alive
  have t: "task_refs e' = insert (we_refs e) (task_refs e)" by (auto simp: alive task_refs_def)
  have c: "we_cancelled e' = we_cancelled e" "we_refs e' = Suc (we_refs e)" by (simp_all add: alive)
  from assms(1) show ?thesis by (auto simp: ref_inv_def t c alive(2) less_Suc_eq)
qed

lemmas ref_inv_schedule = ref_inv_schedule_both [THEN conjunct1] ref_inv_schedule_both [THEN conjunct2]

lemma ref_inv_every:
  "ref_inv (e, R) \<Longrightarrow> ref_inv (Worker_ScheduleEvery3 u p d now now' e, R)"
  unfolding Worker_ScheduleEvery3_def
  by (cases "Worker_ScheduleFromNow (RunPeriodic u now p d) (max d 0) now' e")
     (simp add: ref_inv_schedule(2))

lemma ref_inv_run:
  assumes "ref_inv (e, R)" "run_posted p go now1 now2 now3 e = (us, e')"
  shows "ref_inv (e', R)"
proof -
  have "ref_inv (snd (run_wtask task go now1 now2 now3 e), R)" for task
    using assms(1) ref_inv_every
    by (auto simp: run_wtask_def Let_def split: wtask.split sum.split bool.split)
  then have "ref_inv (e', R)" if "run_wtask task go now1 now2 now3 e = (us, e')" for task
    using that by (metis snd_conv)
  with assms show ?thesis by (cases p) (auto simp: run_posted_def split: if_splits)
qed

lemma ref_inv_step: "worker_step eR eR' \<Longrightarrow> ref_inv eR \<Longrightarrow> ref_inv eR'"
proof (induction rule: worker_step.induct)
  case (schedule u d now e r e' R)
  from schedule.prems schedule.hyps show ?case by (rule ref_inv_schedule(1))
next
  case (every e R u d now now')
  then show ?case unfolding Worker_ScheduleEvery_def by (rule ref_inv_every)
next
  case (unschedule r R e e')
  then have "e' = ref_Cancel r e" by (simp add: Worker_Unschedule_def)
  with unschedule show ?case by (simp add: ref_inv_def ref_Cancel_def)
next
  case (post e R u)
  then show ?case by (rule ref_inv_same) (simp_all add: task_refs_post, simp_all add: Worker_PostTask_def)
next
  case (fire f ms t e R)
  obtain ref task where f: "f = PostChecked ref task" by (cases f)
  have "task_refs (Worker_PostTask (Checked ref task) e) = task_refs e"
    using fire.hyps f by (auto simp: Worker_PostTask_def task_refs_def)
  then have "ref_inv (Worker_PostTask (Checked ref task) e, R)"
    by (intro ref_inv_same [OF fire.prems]) (simp_all add: Worker_PostTask_def)
  with fire.prems show ?case by (simp add: f run_sfun_def Worker_SafeTask_def)
next
  case run
  from run.prems run.hyps(2) show ?case by (rule ref_inv_run)
qed (erule ref_inv_same; simp)+

interpretation worker_runs: transition_system worker_step ref_inv
  by unfold_locales (rule ref_inv_step)

lemma ref_inv_start: "ref_inv (env_start, {})"
  by (simp add: ref_inv_def env_start_def task_refs_def)

section \<open>Periods\<close>

text \<open>When a periodic task is meant to run: its start and delay, with nothing rounded.\<close>

fun deadline :: "'u wtask \<Rightarrow> int" where
  "deadline (RunPeriodic u start period nextDelay) = start + nextDelay"
| "deadline (UserTask u) = 0"

definition rescheduled :: "'u wtask \<Rightarrow> int \<times> int \<times> int \<Rightarrow> 'u worker_env \<Rightarrow> 'u sfun \<times> int \<times> int" where
  "rescheduled task now e =
     (case now of (now1, now2, now3) \<Rightarrow>
        last (we_scheduled (snd (run_wtask task (Inr True) now1 now2 now3 e))))"

definition sfun_task :: "'u sfun \<Rightarrow> 'u wtask" where
  "sfun_task f = (case f of PostChecked r t \<Rightarrow> t)"

lemma rescheduled_eq:
  assumes "we_alive e" "we_scheduler e"
  shows "rescheduled (RunPeriodic u start period nextDelay) (now1, now2, now3) e =
    (PostChecked (we_refs e) (RunPeriodic u now2 period (period - (now1 - start - nextDelay))),
     to_ms (max (period - (now1 - start - nextDelay)) 0), now3)"
  using assms
  by (simp add: rescheduled_def run_wtask_def Worker_ScheduleEvery3_def Worker_ScheduleFromNow_def
      ScheduledTaskReference_new_def Let_def)

definition periodic_run :: "'u worker_env \<Rightarrow> 'u wtask \<Rightarrow> (int \<times> int \<times> int) list \<Rightarrow> 'u wtask" where
  "periodic_run e task nows = foldl (\<lambda>t now. sfun_task (fst (rescheduled t now e))) task nows"

lemma periodic_run_deadline:
  assumes "we_alive e" "we_scheduler e"
  shows "deadline (periodic_run e (RunPeriodic u start period nextDelay) nows) =
    start + nextDelay + int (length nows) * period + (\<Sum>(now1, now2, now3) \<leftarrow> nows. now2 - now1)"
proof (induction nows arbitrary: start nextDelay)
  case Nil
  then show ?case by (simp add: periodic_run_def)
next
  case (Cons n nows)
  obtain n1 n2 n3 where n: "n = (n1, n2, n3)" by (cases n)
  have "periodic_run e (RunPeriodic u start period nextDelay) (n # nows) =
      periodic_run e (RunPeriodic u n2 period (period - (n1 - start - nextDelay))) nows"
    by (simp add: periodic_run_def n rescheduled_eq [OF assms] sfun_task_def)
  with Cons.IH show ?case by (simp add: n algebra_simps)
qed

lemma to_ms_bounds: "0 \<le> d \<Longrightarrow> d - 1000000 < 1000000 * to_ms d \<and> 1000000 * to_ms d \<le> d"
  using pos_mod_bound [of 1000000 d] pos_mod_sign [of 1000000 d]
  by (simp add: to_ms_def minus_mod_eq_mult_div [symmetric])

section \<open>Properties\<close>

text \<open>
  Whatever the sequence of \<^verbatim>\<open>Start\<close> and \<^verbatim>\<open>Stop\<close> calls, the calls on the
  \<^verbatim>\<open>io_context\<close> are full rounds of starting and stopping, followed by a start if the worker
  runs: every thread that was started is joined before the next one, and the context is
  never reset while a thread runs it.
\<close>

theorem start_stop_rounds:
  "\<exists>n. snd (worker_calls cs) =
     concat (replicate n ([Ioc_reset, Make_guard, Spawn_run] @ [Guard_reset, Join, Ioc_stop])) @
     (if Worker_Running (fst (worker_calls cs)) then [Ioc_reset, Make_guard, Spawn_run] else [])"
  using worker_inv_calls [of cs] by (auto simp: worker_inv_def up_calls_def down_calls_def Worker_Running_def)

text \<open>
  A delayed task cannot be cancelled. \<^verbatim>\<open>ScheduleFromNow\<close> returns a null reference
  exactly when it has scheduled the task, and \<^verbatim>\<open>Unschedule\<close> of that reference is a null
  dereference; with the references it does return, a client never cancels a scheduled task:
  every posted task of a living worker runs.
\<close>

theorem scheduled_not_cancelled:
  assumes "worker_step\<^sup>*\<^sup>* (env_start, {}) (e, R)" "Worker_ScheduleFromNow t d now e = (r, e')"
  shows "(r = None \<longleftrightarrow> we_scheduled e' \<noteq> we_scheduled e) \<and>
    (r = None \<longrightarrow> Worker_Unschedule r e' = Inl (UB NullDeref)) \<and>
    (\<forall>ref task. Checked ref task \<in> set (we_posted e) \<and> we_alive e \<longrightarrow>
       run_posted (Checked ref task) go now1 now2 now3 e = run_wtask task go now1 now2 now3 e)"
proof -
  have "ref \<notin> we_cancelled e" if "Checked ref task \<in> set (we_posted e)" for ref task
  proof -
    have "ref \<in> task_refs e" using that by (auto simp: task_refs_def)
    then show ?thesis using worker_runs.invar_reach [OF assms(1) ref_inv_start] by (auto simp: ref_inv_def)
  qed
  then have "\<forall>ref task. Checked ref task \<in> set (we_posted e) \<and> we_alive e \<longrightarrow>
       run_posted (Checked ref task) go now1 now2 now3 e = run_wtask task go now1 now2 now3 e"
    by (auto simp: run_posted_def ref_IsCancelled_def)
  moreover have "r = None \<longleftrightarrow> we_scheduled e' \<noteq> we_scheduled e"
    using assms(2) by (cases rule: ScheduleFromNow_cases) simp_all
  moreover have "r = None \<longrightarrow> Worker_Unschedule r e' = Inl (UB NullDeref)"
    by (simp add: Worker_Unschedule_def)
  ultimately show ?thesis by blast
qed

theorem scheduled_not_cancelled_witness:
  "fst (Worker_ScheduleFromNow (UserTask (0 :: nat)) 5000000 0 env_start) = None"
proof -
  obtain r e' where p: "Worker_ScheduleFromNow (UserTask (0 :: nat)) 5000000 0 env_start = (r, e')"
    by (cases "Worker_ScheduleFromNow (UserTask (0 :: nat)) 5000000 0 env_start")
  moreover from p have "we_scheduled e' \<noteq> we_scheduled env_start"
    by (auto simp: Worker_ScheduleFromNow_def ScheduledTaskReference_new_def env_start_def)
  ultimately show ?thesis
    using scheduled_not_cancelled [OF rtranclp.rtrancl_refl p] by simp
qed

text \<open>
  A periodic task does not drift with its own run time: after \<open>n\<close> rounds its deadline is
  the first one plus \<open>n\<close> periods plus only the time between the two clock readings of each
  round, however late the rounds ran. Each round asks the scheduler for the remaining delay
  rounded down to a millisecond, never for a negative one.
\<close>

theorem periodic_no_drift:
  assumes "we_alive e" "we_scheduler e"
  shows "deadline (periodic_run e (RunPeriodic u start period nextDelay) nows) =
      start + nextDelay + int (length nows) * period + (\<Sum>(now1, now2, now3) \<leftarrow> nows. now2 - now1) \<and>
    (let delay = period - (now1 - start - nextDelay);
         (f, ms, t) = rescheduled (RunPeriodic u start period nextDelay) (now1, now2, now3) e
     in t = now3 \<and> 0 \<le> ms \<and> max delay 0 - 1000000 < 1000000 * ms \<and> 1000000 * ms \<le> max delay 0)"
proof -
  let ?d = "max (period - (now1 - start - nextDelay)) 0"
  have "0 \<le> to_ms ?d" by (simp add: to_ms_def)
  with to_ms_bounds [of ?d] show ?thesis
    unfolding rescheduled_eq [OF assms] periodic_run_deadline [OF assms] Let_def by simp
qed

theorem periodic_no_drift_witness:
  "deadline (periodic_run env_start (RunPeriodic (0 :: nat) 0 100 100) [(150, 150, 150), (230, 230, 231)]) = 300"
  using periodic_no_drift [of "env_start :: nat worker_env" 0 0 100 100 "[(150, 150, 150), (230, 230, 231)]" 0 0 0]
  by (simp add: env_start_def)

end
