(* ===== verification/Signaling.thy ===== *)
theory Signaling
  imports Websocket_Session Pkt_Builder Worker
begin

text \<open>
  \<^verbatim>\<open>core/licode_signaling.cc\<close>: the socket.io protocol over the websocket session. A member
  function is a computation on the object's state; the calls that leave the object (on the
  websocket session, on the worker, on the callbacks the room has installed) are appended to a
  list, in order. The worker passed to the constructor is not null.
\<close>

section \<open>Codes\<close>

definition SOCKET_IO_OPEN :: string where "SOCKET_IO_OPEN = ''0''"
definition SOCKET_IO_PING :: string where "SOCKET_IO_PING = ''2''"
definition SOCKET_IO_PONG :: string where "SOCKET_IO_PONG = ''3''"
definition SOCKET_IO_MESSAGE :: string where "SOCKET_IO_MESSAGE = ''4''"
definition SOCKET_IO_PACKET_CONNECT :: string where "SOCKET_IO_PACKET_CONNECT = ''0''"
definition SOCKET_IO_PACKET_DISCONNECT :: string where "SOCKET_IO_PACKET_DISCONNECT = ''1''"
definition SOCKET_IO_PACKET_EVENT :: string where "SOCKET_IO_PACKET_EVENT = ''2''"
definition SOCKET_IO_PACKET_ACK :: string where "SOCKET_IO_PACKET_ACK = ''3''"

definition SOCKET_IO_WEBSOCKET_CONNECT :: string where
  "SOCKET_IO_WEBSOCKET_CONNECT = SOCKET_IO_MESSAGE @ SOCKET_IO_PACKET_CONNECT"
definition SOCKET_IO_WEBSOCKET_DISCONNECT :: string where
  "SOCKET_IO_WEBSOCKET_DISCONNECT = SOCKET_IO_MESSAGE @ SOCKET_IO_PACKET_DISCONNECT"
definition SOCKET_IO_WEBSOCKET_EVENT :: string where
  "SOCKET_IO_WEBSOCKET_EVENT = SOCKET_IO_MESSAGE @ SOCKET_IO_PACKET_EVENT"

definition INIT_TOKEN_TRANS_ID :: nat where "INIT_TOKEN_TRANS_ID = 111"
definition SUBSCRIBE_STREAM_TRANS_IS :: nat where "SUBSCRIBE_STREAM_TRANS_IS = 222"
definition PUBLISH_STREAM_TRANS_IS :: nat where "PUBLISH_STREAM_TRANS_IS = 333"

definition TOKEN_INIT_RESPONSE :: string where
  "TOKEN_INIT_RESPONSE = SOCKET_IO_MESSAGE @ SOCKET_IO_PACKET_ACK @ show_nat INIT_TOKEN_TRANS_ID"
definition SUBSCRIBE_STREAM_RESPONSE :: string where
  "SUBSCRIBE_STREAM_RESPONSE = SOCKET_IO_MESSAGE @ SOCKET_IO_PACKET_ACK @ show_nat SUBSCRIBE_STREAM_TRANS_IS"
definition PUBLISH_STREAM_RESPONSE :: string where
  "PUBLISH_STREAM_RESPONSE = SOCKET_IO_MESSAGE @ SOCKET_IO_PACKET_ACK @ show_nat PUBLISH_STREAM_TRANS_IS"

section \<open>State and calls\<close>

datatype sig_state = SDisconnect | SConnecting | SConnected

text \<open>The three lambdas that \<^verbatim>\<open>Init\<close> installs in the session.\<close>

datatype sig_cb = OnConnectCb | OnMsgCb | OnDisconnectCb

text \<open>\<open>'r\<close> are the callbacks the room installs.\<close>

datatype 'r sig_call =
    Ws "sig_cb ws_call"
  | SchedulePing int               \<comment> \<open>\<^verbatim>\<open>worker_->ScheduleEvery(ping, _)\<close>, in nanoseconds\<close>
  | Call_init_token 'r string
  | Call_disconnect 'r
  | Call_event 'r string string
  | Call_subscribe 'r string
  | Call_publish 'r string

record 'r signaling =
  sg_state :: sig_state
  sg_token :: licode_token
  sg_url :: string
  sg_open :: open_msg             \<comment> \<open>\<^verbatim>\<open>sid_\<close>, \<^verbatim>\<open>ping_interval_ms_\<close>, \<^verbatim>\<open>ping_timeout_ms_\<close>\<close>
  sg_websocket :: "sig_cb ws_session option"
  sg_init_token_cb :: "'r option"
  sg_disconnect_cb :: "'r option"
  sg_event_cb :: "'r option"
  sg_subscribe_cb :: "'r option"
  sg_publish_cb :: "'r option"
  sg_calls :: "'r sig_call list"

type_synonym ('r, 'a) sigm = "('r signaling, 'a) stm"

definition no_token :: licode_token where
  "no_token = \<lparr>tk_tokenId = [], tk_host = [], tk_secure = False, tk_signature = []\<rparr>"

definition LicodeSignaling_new :: "'r signaling" where
  "LicodeSignaling_new = \<lparr>sg_state = SDisconnect, sg_token = no_token, sg_url = [],
     sg_open = \<lparr>om_sid = [], om_ping_interval = 25000, om_ping_timeout = 60000\<rparr>,
     sg_websocket = None, sg_init_token_cb = None, sg_disconnect_cb = None, sg_event_cb = None,
     sg_subscribe_cb = None, sg_publish_cb = None, sg_calls = []\<rparr>"

definition sg_emit :: "'r sig_call list \<Rightarrow> ('r, unit) sigm" where
  "sg_emit cs = smodify (\<lambda>s. s\<lparr>sg_calls := sg_calls s @ cs\<rparr>)"

text \<open>A call of a member function of \<^verbatim>\<open>*websocket_\<close>.\<close>

definition on_websocket :: "sig_cb ws_handler \<Rightarrow> ('r, unit) sigm" where
  "on_websocket f s =
     (case sg_websocket s of
        None \<Rightarrow> (Inl (UB NullDeref), s)
      | Some ws \<Rightarrow> (case f ws of (ws', cs) \<Rightarrow>
          (Inr (), s\<lparr>sg_websocket := Some ws', sg_calls := sg_calls s @ map Ws cs\<rparr>)))"

section \<open>Operations\<close>

definition sg_CurrentState :: "'r signaling \<Rightarrow> sig_state" where "sg_CurrentState s = sg_state s"

definition sg_UpdateState :: "sig_state \<Rightarrow> ('r, unit) sigm" where
  "sg_UpdateState st = smodify (\<lambda>s. s\<lparr>sg_state := st\<rparr>)"

definition LicodeSignaling_destroy :: "('r, unit) sigm" where
  "LicodeSignaling_destroy =
     sbind (on_websocket (\<lambda>w. (ws_SetOnReadyCallback None w, []))) (\<lambda>_.
     sbind (on_websocket (\<lambda>w. (ws_SetOnReceiveMsgCallback None w, []))) (\<lambda>_.
     on_websocket (\<lambda>w. (ws_SetOnAbnormalDisconnectCallback None w, []))))"

definition LicodeSignaling_Init :: "licode_token \<Rightarrow> ('r, bool) sigm" where
  "LicodeSignaling_Init token s =
     (if sg_CurrentState s \<noteq> SDisconnect then (Inr False, s)
      else
        sbind (smodify (\<lambda>s. s\<lparr>sg_token := token\<rparr>)) (\<lambda>_.
        let url = ''ws://'' @ tk_host token @ ''/socket.io/?EIO=3&transport=websocket'' in
        sbind (smodify (\<lambda>s. s\<lparr>sg_url := url\<rparr>)) (\<lambda>_.
        sbind (slift (ws_new url)) (\<lambda>ws.
        sbind (smodify (\<lambda>s. s\<lparr>sg_websocket := Some ws\<rparr>)) (\<lambda>_.
        sbind (on_websocket (\<lambda>w. (ws_SetOnReadyCallback (Some OnConnectCb) w, []))) (\<lambda>_.
        sbind (on_websocket (\<lambda>w. (ws_SetOnReceiveMsgCallback (Some OnMsgCb) w, []))) (\<lambda>_.
        sbind (on_websocket (\<lambda>w. (ws_SetOnAbnormalDisconnectCallback (Some OnDisconnectCb) w, []))) (\<lambda>_.
        sbind (sg_UpdateState SConnecting) (\<lambda>_.
        sbind (on_websocket ws_Connect) (\<lambda>_. sret True))))))))) s)"

definition LicodeSignaling_Dispose :: "('r, unit) sigm" where
  "LicodeSignaling_Dispose s =
     (case sg_websocket s of
        None \<Rightarrow> (Inl (UB NullDeref), s)
      | Some ws \<Rightarrow> if ws_IsConnected ws then on_websocket ws_Disconnect s else (Inr (), s))"

definition sg_SetOnInitTokenCallback :: "'r option \<Rightarrow> 'r signaling \<Rightarrow> 'r signaling" where
  "sg_SetOnInitTokenCallback cb s = s\<lparr>sg_init_token_cb := cb\<rparr>"
definition sg_SetOnSignalingDisconnectCallback :: "'r option \<Rightarrow> 'r signaling \<Rightarrow> 'r signaling" where
  "sg_SetOnSignalingDisconnectCallback cb s = s\<lparr>sg_disconnect_cb := cb\<rparr>"
definition sg_SetOnEventCallback :: "'r option \<Rightarrow> 'r signaling \<Rightarrow> 'r signaling" where
  "sg_SetOnEventCallback cb s = s\<lparr>sg_event_cb := cb\<rparr>"
definition sg_SetOnSubscribeCallback :: "'r option \<Rightarrow> 'r signaling \<Rightarrow> 'r signaling" where
  "sg_SetOnSubscribeCallback cb s = s\<lparr>sg_subscribe_cb := cb\<rparr>"
definition sg_SetOnPublishCallback :: "'r option \<Rightarrow> 'r signaling \<Rightarrow> 'r signaling" where
  "sg_SetOnPublishCallback cb s = s\<lparr>sg_publish_cb := cb\<rparr>"

definition sg_OnWebsocketConnectCallback :: "('r, unit) sigm" where
  "sg_OnWebsocketConnectCallback = sret ()"

definition sg_OnWebsocketDisconnect :: "string \<Rightarrow> ('r, unit) sigm" where
  "sg_OnWebsocketDisconnect reason = sg_UpdateState SDisconnect"

definition sg_ProcessSubscribeStream :: "string \<Rightarrow> ('r, unit) sigm" where
  "sg_ProcessSubscribeStream msg s =
     (case sg_subscribe_cb s of None \<Rightarrow> (Inr (), s) | Some cb \<Rightarrow> sg_emit [Call_subscribe cb msg] s)"

definition sg_ProcessPublishStream :: "string \<Rightarrow> ('r, unit) sigm" where
  "sg_ProcessPublishStream msg s =
     (case sg_publish_cb s of None \<Rightarrow> (Inr (), s) | Some cb \<Rightarrow> sg_emit [Call_publish cb msg] s)"

definition sg_ProcessInitTokenResponse :: "string \<Rightarrow> ('r, unit) sigm" where
  "sg_ProcessInitTokenResponse msg s =
     (case sg_init_token_cb s of None \<Rightarrow> (Inr (), s) | Some cb \<Rightarrow> sg_emit [Call_init_token cb msg] s)"

definition sg_InitToken :: "'j json_api \<Rightarrow> bool \<Rightarrow> ('r, unit) sigm" where
  "sg_InitToken J singlePC s =
     (let t = sg_token s;
          builder = CreateToken_SetSinglePC singlePC (CreateToken_SetSignature (tk_signature t)
            (CreateToken_SetSecure (tk_secure t) (CreateToken_SetHost (tk_host t)
            (CreateToken_SetTokenId (tk_tokenId t) CreateToken_new))))
      in sbind (slift (CreateToken_Build J builder)) (\<lambda>pkt.
         on_websocket (ws_SendMsg (SOCKET_IO_MESSAGE @ SOCKET_IO_PACKET_EVENT @ show_nat INIT_TOKEN_TRANS_ID @ pkt))) s)"

definition sg_KeepAlive :: "('r, unit) sigm" where
  "sg_KeepAlive s = sg_emit [SchedulePing (1000000 * om_ping_interval (sg_open s))] s"

definition sg_SocketIoPing :: "('r, bool) sigm" where
  "sg_SocketIoPing s =
     (if sg_CurrentState s = SConnected then sbind (on_websocket (ws_SendMsg SOCKET_IO_PING)) (\<lambda>_. sret True) s
      else (Inr False, s))"

definition sg_ProcessSocketIOOpen :: "'j json_api \<Rightarrow> string \<Rightarrow> ('r, unit) sigm" where
  "sg_ProcessSocketIOOpen J msg s =
     (case ParseOpenMsg J msg (sg_open s) of (r, m) \<Rightarrow> (r, s\<lparr>sg_open := m\<rparr>))"

text \<open>The disconnect callback is called without a test; an empty one throws.\<close>

definition sg_ProcessDisconnect :: "('r, unit) sigm" where
  "sg_ProcessDisconnect s =
     (let needCallback = (sg_CurrentState s = SConnected)
      in sbind (sg_UpdateState SDisconnect) (\<lambda>_.
         sbind LicodeSignaling_Dispose (\<lambda>_ s.
         if needCallback then
           (case sg_disconnect_cb s of
              None \<Rightarrow> (Inl (Exn BadFunctionCall), s)
            | Some cb \<Rightarrow> sg_emit [Call_disconnect cb] s)
         else (Inr (), s))) s)"

definition sg_ProcessPong :: "('r, unit) sigm" where
  "sg_ProcessPong = sret ()"

text \<open>The callback runs inside the \<^verbatim>\<open>try\<close> block: see \<open>Room\<close> for what it does.\<close>

definition sg_ProcessEvent :: "'j json_api \<Rightarrow> string \<Rightarrow> ('r, unit) sigm" where
  "sg_ProcessEvent J msg =
     scatch
       (sbind (slift (j_parse J msg)) (\<lambda>event s.
          case sg_event_cb s of
            None \<Rightarrow> (Inr (), s)
          | Some cb \<Rightarrow>
              sbind (slift (rbind (j_at J 0 event) (j_as_string J))) (\<lambda>e.
              sbind (slift (rbind (j_at J 1 event) (j_dump J))) (\<lambda>body.
              sg_emit [Call_event cb e body])) s))
       (sret ())"

definition LicodeSignaling_SendMsg :: "string \<Rightarrow> ('r, unit) sigm" where
  "LicodeSignaling_SendMsg msg s =
     (if sg_CurrentState s = SConnected then on_websocket (ws_SendMsg msg) s else (Inr (), s))"

definition SubscribeStreamMsgHeader :: string where
  "SubscribeStreamMsgHeader = SOCKET_IO_MESSAGE @ SOCKET_IO_PACKET_EVENT @ show_nat SUBSCRIBE_STREAM_TRANS_IS"
definition PublishStreamMsgHeader :: string where
  "PublishStreamMsgHeader = SOCKET_IO_MESSAGE @ SOCKET_IO_PACKET_EVENT @ show_nat PUBLISH_STREAM_TRANS_IS"
definition EventHeader :: string where
  "EventHeader = SOCKET_IO_WEBSOCKET_EVENT"

text \<open>
  The dispatcher: the digits at the start of the message decide. The regular expression
  \<^verbatim>\<open>^\d+\<close> matches the longest run of digits; no match gives the empty string.
\<close>

definition leading_digits :: "string \<Rightarrow> string" where
  "leading_digits msg = takeWhile is_digit msg"

definition sg_OnWebsocketMsg :: "'j json_api \<Rightarrow> string \<Rightarrow> ('r, unit) sigm" where
  "sg_OnWebsocketMsg J msg =
     (let number = leading_digits msg
      in if number = SOCKET_IO_OPEN then
           sbind (slift (substr_from msg (length SOCKET_IO_OPEN))) (sg_ProcessSocketIOOpen J)
         else if number = SOCKET_IO_PONG then sg_ProcessPong
         else if number = SOCKET_IO_WEBSOCKET_CONNECT then
           sbind (sg_UpdateState SConnected) (\<lambda>_. sbind sg_KeepAlive (\<lambda>_. sg_InitToken J False))
         else if number = TOKEN_INIT_RESPONSE then
           sbind (slift (substr_from msg (length TOKEN_INIT_RESPONSE))) sg_ProcessInitTokenResponse
         else if number = SOCKET_IO_WEBSOCKET_DISCONNECT then sg_ProcessDisconnect
         else if number = SUBSCRIBE_STREAM_RESPONSE then
           sbind (slift (substr_from msg (length SUBSCRIBE_STREAM_RESPONSE))) sg_ProcessSubscribeStream
         else if number = PUBLISH_STREAM_RESPONSE then
           sbind (slift (substr_from msg (length PUBLISH_STREAM_RESPONSE))) sg_ProcessPublishStream
         else if number = SOCKET_IO_WEBSOCKET_EVENT then
           sbind (slift (substr_from msg (length SOCKET_IO_WEBSOCKET_EVENT))) (sg_ProcessEvent J)
         else sret ())"

text \<open>What the session's callbacks do.\<close>

fun sg_callback :: "'j json_api \<Rightarrow> sig_cb ws_call \<Rightarrow> ('r, unit) sigm" where
  "sg_callback J (Call_ready OnConnectCb) = sg_OnWebsocketConnectCallback"
| "sg_callback J (Call_receive OnMsgCb msg) = sg_OnWebsocketMsg J msg"
| "sg_callback J (Call_abnormal OnDisconnectCb reason) = sg_OnWebsocketDisconnect reason"
| "sg_callback J _ = sret ()"

section \<open>Dispatch\<close>

lemma code_strings:
  "SOCKET_IO_OPEN = ''0''" "SOCKET_IO_PONG = ''3''" "SOCKET_IO_WEBSOCKET_CONNECT = ''40''"
  "SOCKET_IO_WEBSOCKET_DISCONNECT = ''41''" "SOCKET_IO_WEBSOCKET_EVENT = ''42''"
  "TOKEN_INIT_RESPONSE = ''43111''" "SUBSCRIBE_STREAM_RESPONSE = ''43222''"
  "PUBLISH_STREAM_RESPONSE = ''43333''"
  by (simp_all add: SOCKET_IO_OPEN_def SOCKET_IO_PONG_def SOCKET_IO_WEBSOCKET_CONNECT_def
      SOCKET_IO_WEBSOCKET_DISCONNECT_def SOCKET_IO_WEBSOCKET_EVENT_def TOKEN_INIT_RESPONSE_def
      SUBSCRIBE_STREAM_RESPONSE_def PUBLISH_STREAM_RESPONSE_def SOCKET_IO_MESSAGE_def
      SOCKET_IO_PACKET_CONNECT_def SOCKET_IO_PACKET_DISCONNECT_def SOCKET_IO_PACKET_EVENT_def
      SOCKET_IO_PACKET_ACK_def INIT_TOKEN_TRANS_ID_def SUBSCRIBE_STREAM_TRANS_IS_def
      PUBLISH_STREAM_TRANS_IS_def show_nat.simps)

definition no_digit :: "string \<Rightarrow> bool" where
  "no_digit body \<longleftrightarrow> body = [] \<or> \<not> is_digit (hd body)"

lemma leading_digits_code:
  assumes "\<forall>c \<in> set code. is_digit c" "no_digit body"
  shows "leading_digits (code @ body) = code"
  using takeWhile_stops [of code is_digit body] assms by (auto simp: leading_digits_def no_digit_def)

text \<open>The body of a message, cut off behind its code.\<close>

lemma body_of: "str_ok (code @ body) \<Longrightarrow> substr_from (code @ body) (length code) = Inr body"
  by (rule substr_from_append)

lemma is_digit_codes: "is_digit CHR ''0''" "is_digit CHR ''1''" "is_digit CHR ''2''" "is_digit CHR ''3''"
  "is_digit CHR ''4''"
  by (simp_all add: is_digit_def)

lemma sbind_slift_fun: "sbind (slift (Inr x)) f = f x"
  by (rule ext) simp

lemma dispatch_code:
  assumes "no_digit body" "str_ok (''43333'' @ body)"
  shows "sg_OnWebsocketMsg J (''0'' @ body) = sg_ProcessSocketIOOpen J body"
    "sg_OnWebsocketMsg J (''3'' @ body) = sg_ProcessPong"
    "sg_OnWebsocketMsg J (''40'' @ body) =
       sbind (sg_UpdateState SConnected) (\<lambda>_. sbind sg_KeepAlive (\<lambda>_. sg_InitToken J False))"
    "sg_OnWebsocketMsg J (''43111'' @ body) = sg_ProcessInitTokenResponse body"
    "sg_OnWebsocketMsg J (''41'' @ body) = sg_ProcessDisconnect"
    "sg_OnWebsocketMsg J (''43222'' @ body) = sg_ProcessSubscribeStream body"
    "sg_OnWebsocketMsg J (''43333'' @ body) = sg_ProcessPublishStream body"
    "sg_OnWebsocketMsg J (''42'' @ body) = sg_ProcessEvent J body"
proof -
  have n: "leading_digits (code @ body) = code" if "\<forall>c \<in> set code. is_digit c" for code
    using leading_digits_code [OF that assms(1)] .
  have b: "substr_from (code @ body) (length code) = Inr body" if "length code \<le> 5" for code
    using assms(2) that by (intro body_of) simp
  note l = sbind_slift_fun
  note ev = sg_OnWebsocketMsg_def code_strings
  have num: "leading_digits (''0'' @ body) = ''0''" "leading_digits (''3'' @ body) = ''3''"
    "leading_digits (''40'' @ body) = ''40''" "leading_digits (''43111'' @ body) = ''43111''"
    "leading_digits (''41'' @ body) = ''41''" "leading_digits (''43222'' @ body) = ''43222''"
    "leading_digits (''43333'' @ body) = ''43333''" "leading_digits (''42'' @ body) = ''42''"
    by (rule n; simp add: is_digit_codes)+
  show "sg_OnWebsocketMsg J (''0'' @ body) = sg_ProcessSocketIOOpen J body"
    using b [of "''0''"] unfolding ev num Let_def by (simp add: l)
  show "sg_OnWebsocketMsg J (''3'' @ body) = sg_ProcessPong" unfolding ev num Let_def by simp
  show "sg_OnWebsocketMsg J (''40'' @ body) =
       sbind (sg_UpdateState SConnected) (\<lambda>_. sbind sg_KeepAlive (\<lambda>_. sg_InitToken J False))"
    unfolding ev num Let_def by simp
  show "sg_OnWebsocketMsg J (''43111'' @ body) = sg_ProcessInitTokenResponse body"
    using b [of "''43111''"] unfolding ev num Let_def by (simp add: l)
  show "sg_OnWebsocketMsg J (''41'' @ body) = sg_ProcessDisconnect" unfolding ev num Let_def by simp
  show "sg_OnWebsocketMsg J (''43222'' @ body) = sg_ProcessSubscribeStream body"
    using b [of "''43222''"] unfolding ev num Let_def by (simp add: l)
  show "sg_OnWebsocketMsg J (''43333'' @ body) = sg_ProcessPublishStream body"
    using b [of "''43333''"] unfolding ev num Let_def by (simp add: l)
  show "sg_OnWebsocketMsg J (''42'' @ body) = sg_ProcessEvent J body"
    using b [of "''42''"] unfolding ev num Let_def by (simp add: l)
qed

lemma dispatch_other:
  assumes "leading_digits msg \<notin> set [''0'', ''3'', ''40'', ''41'', ''42'', ''43111'', ''43222'', ''43333'']"
  shows "sg_OnWebsocketMsg J msg s = (Inr (), s)"
  using assms by (simp add: sg_OnWebsocketMsg_def code_strings)

section \<open>Connecting\<close>

lemma on_websocket_Some:
  "sg_websocket s = Some ws \<Longrightarrow> f ws = (ws', cs) \<Longrightarrow>
     on_websocket f s = (Inr (), s\<lparr>sg_websocket := Some ws', sg_calls := sg_calls s @ map Ws cs\<rparr>)"
  by (simp add: on_websocket_def)

lemma on_websocket_ok: "sg_websocket s = Some ws \<Longrightarrow> \<exists>s'. on_websocket f s = (Inr (), s')"
  by (cases "f ws") (simp add: on_websocket_def)

definition socketio_url :: "string \<Rightarrow> string" where
  "socketio_url host = ''ws://'' @ host @ ''/socket.io/?EIO=3&transport=websocket''"

lemma ws_new_host:
  assumes "CHR '':'' \<notin> set h" "CHR ''/'' \<notin> set h" "int n \<le> int32_max"
    and ok: "str_ok (socketio_url (h @ '':'' @ show_nat n))"
  shows "(ws_new (socketio_url (h @ '':'' @ show_nat n)) :: 'c ws_session res) =
    Inr \<lparr>ws_url = socketio_url (h @ '':'' @ show_nat n), ws_scheme = ''ws'', ws_host = h,
         ws_port = to_int16 (int n), ws_target = ''/socket.io/?EIO=3&transport=websocket'',
         ws_do_disconnect = False, ws_connected = False, ws_queue = [],
         ws_ready = None, ws_receive = None, ws_abnormal = None\<rparr>"
proof -
  let ?url = "socketio_url (h @ '':'' @ show_nat n)"
  define s0 :: "'c ws_session" where "s0 = \<lparr>ws_url = ?url, ws_scheme = [], ws_host = [], ws_port = - 1,
     ws_target = [], ws_do_disconnect = False, ws_connected = False, ws_queue = [],
     ws_ready = None, ws_receive = None, ws_abnormal = None\<rparr>"
  have l: "map tolower ''ws'' = ''ws''" by (simp add: tolower_def)
  have "ws_ParseUrl s0 = (Inr True, s0\<lparr>ws_scheme := map tolower ''ws'', ws_host := h,
      ws_port := to_int16 (int n), ws_target := ''/'' @ ''socket.io/?EIO=3&transport=websocket''\<rparr>)"
    using assms by (intro ws_ParseUrl_lemma) (simp_all add: s0_def socketio_url_def tolower_def)
  then show ?thesis unfolding ws_new_def s0_def [symmetric] l by (simp add: s0_def)
qed

lemma Init_connects:
  assumes "sg_state s = SDisconnect" "tk_host t = h @ '':'' @ show_nat n"
    and "CHR '':'' \<notin> set h" "CHR ''/'' \<notin> set h" "int n \<le> int32_max"
    and "str_ok (socketio_url (tk_host t))"
  shows "\<exists>ws. LicodeSignaling_Init t s = (Inr True, s\<lparr>sg_token := t,
      sg_url := socketio_url (tk_host t), sg_state := SConnecting, sg_websocket := Some ws,
      sg_calls := sg_calls s @ [Ws (Async_resolve h (show_int (to_int16 (int n))))]\<rparr>) \<and>
    ws_target ws = ''/socket.io/?EIO=3&transport=websocket'' \<and> ws_queue ws = [] \<and>
    ws_ready ws = Some OnConnectCb \<and> ws_receive ws = Some OnMsgCb \<and> ws_abnormal ws = Some OnDisconnectCb"
proof -
  note w = ws_new_host [OF assms(3-5), folded assms(2), OF assms(6), unfolded socketio_url_def]
  show ?thesis
    using assms(1) unfolding LicodeSignaling_Init_def Let_def w
    by (simp add: sg_CurrentState_def sbind_def on_websocket_def ws_SetOnReadyCallback_def
        ws_SetOnReceiveMsgCallback_def ws_SetOnAbnormalDisconnectCallback_def ws_Connect_def
        sg_UpdateState_def socketio_url_def) fastforce
qed

lemma connect_sends_token_lemma:
  assumes J: "nlohmann J obj arr plain" and ws: "sg_websocket s = Some ws" "ws_connected ws"
    and tk: "ascii (tk_tokenId (sg_token s))" "ascii (tk_host (sg_token s))" "ascii (tk_signature (sg_token s))"
  shows "\<exists>pkt j. sg_OnWebsocketMsg J ''40'' s = (Inr (), s\<lparr>sg_state := SConnected, sg_calls := sg_calls s @
      [SchedulePing (1000000 * om_ping_interval (sg_open s)), Ws (Post_OnSend (''42111'' @ pkt))]\<rparr>) \<and>
    arrives J (Inr pkt) j \<and> str_at J [Idx 0] j = Inr ''token'' \<and>
    str_at J [Idx 1, Key ''token'', Key ''tokenId''] j = Inr (tk_tokenId (sg_token s)) \<and>
    str_at J [Idx 1, Key ''token'', Key ''host''] j = Inr (tk_host (sg_token s)) \<and>
    str_at J [Idx 1, Key ''token'', Key ''signature''] j = Inr (tk_signature (sg_token s)) \<and>
    bool_at J [Idx 1, Key ''token'', Key ''secure''] j = Inr (tk_secure (sg_token s))"
proof -
  let ?t = "sg_token s"
  define b where "b = CreateToken_SetSinglePC False (CreateToken_SetSignature (tk_signature ?t)
     (CreateToken_SetSecure (tk_secure ?t) (CreateToken_SetHost (tk_host ?t)
     (CreateToken_SetTokenId (tk_tokenId ?t) CreateToken_new))))"
  have b: "ct_token_id b = tk_tokenId ?t" "ct_host b = tk_host ?t" "ct_signature b = tk_signature ?t"
    "ct_secure b = Some (tk_secure ?t)"
    by (simp_all add: b_def CreateToken_SetSinglePC_def CreateToken_SetSignature_def CreateToken_SetSecure_def
        CreateToken_SetHost_def CreateToken_SetTokenId_def)
  obtain j where j: "arrives J (CreateToken_Build J b) j" "str_at J [Idx 0] j = Inr ''token''"
    "str_at J [Idx 1, Key ''token'', Key ''tokenId''] j = Inr (tk_tokenId ?t)"
    "str_at J [Idx 1, Key ''token'', Key ''host''] j = Inr (tk_host ?t)"
    "str_at J [Idx 1, Key ''token'', Key ''signature''] j = Inr (tk_signature ?t)"
    "bool_at J [Idx 1, Key ''token'', Key ''secure''] j = Inr (tk_secure ?t)"
    using nlohmann.CreateToken_arrives [OF J, of b "tk_secure ?t"] tk unfolding b by blast
  obtain pkt where pkt: "CreateToken_Build J b = Inr pkt" using j(1) by (auto simp: arrives_def)
  have h: "SOCKET_IO_MESSAGE @ SOCKET_IO_PACKET_EVENT @ show_nat INIT_TOKEN_TRANS_ID @ pkt = ''42111'' @ pkt"
    by (simp add: SOCKET_IO_MESSAGE_def SOCKET_IO_PACKET_EVENT_def INIT_TOKEN_TRANS_ID_def show_nat.simps)
  have "sg_OnWebsocketMsg J (''40'' @ []) s = sbind (sg_UpdateState SConnected) (\<lambda>_. sbind sg_KeepAlive (\<lambda>_. sg_InitToken J False)) s"
    by (subst dispatch_code(3)) (simp_all add: no_digit_def npos_def size_max_def)
  also have "\<dots> = (Inr (), s\<lparr>sg_state := SConnected, sg_calls := sg_calls s @
      [SchedulePing (1000000 * om_ping_interval (sg_open s)), Ws (Post_OnSend (''42111'' @ pkt))]\<rparr>)"
    unfolding sg_InitToken_def Let_def h
    by (simp add: sbind_def sg_UpdateState_def sg_KeepAlive_def sg_emit_def b_def [symmetric] pkt
        on_websocket_def ws ws_SendMsg_def h [simplified])
  finally have "sg_OnWebsocketMsg J ''40'' s = (Inr (), s\<lparr>sg_state := SConnected, sg_calls := sg_calls s @
      [SchedulePing (1000000 * om_ping_interval (sg_open s)), Ws (Post_OnSend (''42111'' @ pkt))]\<rparr>)" by simp
  with j pkt show ?thesis by (intro exI [of _ pkt] exI [of _ j]) simp
qed

section \<open>Runs\<close>

text \<open>
  The states a signaling object goes through: the calls of the room, and the callbacks of the
  session, which exist once there is a session.
\<close>

inductive sg_reach :: "'j json_api \<Rightarrow> 'r signaling \<Rightarrow> bool" for J where
  new: "sg_reach J LicodeSignaling_new"
| init: "sg_reach J s \<Longrightarrow> LicodeSignaling_Init t s = (r, s') \<Longrightarrow> sg_reach J s'"
| dispose: "sg_reach J s \<Longrightarrow> LicodeSignaling_Dispose s = (r, s') \<Longrightarrow> sg_reach J s'"
| send: "sg_reach J s \<Longrightarrow> LicodeSignaling_SendMsg m s = (r, s') \<Longrightarrow> sg_reach J s'"
| ping: "sg_reach J s \<Longrightarrow> sg_SocketIoPing s = (r', s') \<Longrightarrow> sg_reach J s'"
| set_cb: "sg_reach J s \<Longrightarrow> sg_reach J (s\<lparr>sg_init_token_cb := a, sg_disconnect_cb := b, sg_event_cb := c,
             sg_subscribe_cb := d, sg_publish_cb := e\<rparr>)"
| callback: "sg_reach J s \<Longrightarrow> sg_websocket s \<noteq> None \<Longrightarrow> sg_callback J c s = (r, s') \<Longrightarrow> sg_reach J s'"

definition has_session :: "'r signaling \<Rightarrow> bool" where
  "has_session s \<longleftrightarrow> sg_websocket s \<noteq> None"

lemma keeps_session_basic [keeps_intros]:
  "skeeps has_session (sg_emit cs)" "skeeps has_session (sg_UpdateState st)" "skeeps has_session (on_websocket f)"
  by (auto simp: skeeps_def has_session_def sg_emit_def sg_UpdateState_def on_websocket_def
      split: option.splits prod.splits)

lemma keeps_session_Dispose [keeps_intros]: "skeeps has_session LicodeSignaling_Dispose"
  unfolding skeeps_def LicodeSignaling_Dispose_def
  using keeps_session_basic(3) [unfolded skeeps_def] by (auto split: option.split)

lemma skeeps_at_sbind: "skeeps I (sbind m f) \<Longrightarrow> I s \<Longrightarrow> I (snd (sbind m f s))"
  by (simp add: skeeps_def)

lemma keeps_session_handlers [keeps_intros]:
  "skeeps has_session (sg_ProcessSubscribeStream msg)" "skeeps has_session (sg_ProcessPublishStream msg)"
  "skeeps has_session (sg_ProcessInitTokenResponse msg)" "skeeps has_session sg_KeepAlive"
  "skeeps has_session sg_ProcessPong" "skeeps has_session (sg_ProcessSocketIOOpen J msg)"
  unfolding skeeps_def
  by (auto simp: sg_ProcessSubscribeStream_def sg_ProcessPublishStream_def sg_ProcessInitTokenResponse_def
      sg_KeepAlive_def sg_ProcessPong_def sg_ProcessSocketIOOpen_def has_session_def sg_emit_def
      split: option.split prod.split)

lemma keeps_session_InitToken [keeps_intros]: "skeeps has_session (sg_InitToken J b)"
  unfolding skeeps_def sg_InitToken_def Let_def
  by (intro allI impI skeeps_at_sbind [where I = has_session] keeps_intros)

lemma keeps_session_Disconnect [keeps_intros]: "skeeps has_session sg_ProcessDisconnect"
proof -
  have "skeeps has_session (\<lambda>s. if b then (case sg_disconnect_cb s of None \<Rightarrow> (Inl (Exn BadFunctionCall), s)
      | Some cb \<Rightarrow> sg_emit [Call_disconnect cb] s) else (Inr (), s))" for b
    by (auto simp: skeeps_def has_session_def sg_emit_def split: option.split)
  then show ?thesis
    unfolding skeeps_def [of _ sg_ProcessDisconnect] sg_ProcessDisconnect_def Let_def
    by (intro allI impI skeeps_at_sbind [where I = has_session] keeps_intros)
qed

lemma keeps_session_Event [keeps_intros]: "skeeps has_session (sg_ProcessEvent J msg)"
proof -
  have "skeeps has_session (\<lambda>s. case sg_event_cb s of None \<Rightarrow> (Inr (), s)
      | Some cb \<Rightarrow> sbind (slift (rbind (j_at J 0 event) (j_as_string J))) (\<lambda>e.
          sbind (slift (rbind (j_at J 1 event) (j_dump J))) (\<lambda>body. sg_emit [Call_event cb e body])) s)" for event
    unfolding skeeps_def
    by (auto split: option.split intro!: skeeps_at_sbind [where I = has_session] keeps_intros)
  then show ?thesis unfolding sg_ProcessEvent_def by (intro keeps_intros)
qed

lemma keeps_session_Msg: "skeeps has_session (sg_OnWebsocketMsg J msg)"
  unfolding sg_OnWebsocketMsg_def Let_def by (intro keeps_intros)

lemma keeps_session_callback: "skeeps has_session (sg_callback J c)"
  by (cases "(J, c)" rule: sg_callback.cases)
     (simp_all add: keeps_session_Msg sg_OnWebsocketConnectCallback_def sg_OnWebsocketDisconnect_def
        keeps_intros)

definition session_inv :: "'r signaling \<Rightarrow> bool" where
  "session_inv s \<longleftrightarrow> (sg_state s \<noteq> SDisconnect \<longrightarrow> has_session s)"

lemma Init_session_inv:
  assumes "session_inv s" "LicodeSignaling_Init t s = (r, s')"
  shows "session_inv s'"
proof (cases "sg_state s = SDisconnect")
  case False
  with assms show ?thesis by (simp add: LicodeSignaling_Init_def sg_CurrentState_def)
next
  case True
  show ?thesis
  proof (cases "ws_new (''ws://'' @ tk_host t @ ''/socket.io/?EIO=3&transport=websocket'') :: sig_cb ws_session res")
    case (Inl e)
    with True assms(2) show ?thesis
      by (auto simp: LicodeSignaling_Init_def sg_CurrentState_def session_inv_def)
  next
    case (Inr ws)
    with True assms(2) show ?thesis
      by (auto simp: LicodeSignaling_Init_def sg_CurrentState_def session_inv_def has_session_def
          sbind_def on_websocket_def sg_UpdateState_def split: prod.splits)
  qed
qed

lemma sg_reach_inv: "sg_reach J s \<Longrightarrow> session_inv s"
proof (induction rule: sg_reach.induct)
  case new
  then show ?case by (simp add: session_inv_def LicodeSignaling_new_def)
next
  case (init s t r s')
  from init.IH init.hyps(2) show ?case by (rule Init_session_inv)
next
  case (dispose s r s')
  have "sg_state s' = sg_state s"
    using dispose.hyps(2) by (auto simp: LicodeSignaling_Dispose_def on_websocket_def split: option.splits if_splits prod.splits)
  with dispose skeepsD [OF keeps_session_Dispose] show ?case by (auto simp: session_inv_def)
next
  case (send s m r s')
  then show ?case
    by (auto simp: session_inv_def LicodeSignaling_SendMsg_def has_session_def on_websocket_def
        split: if_splits option.splits prod.splits)
next
  case (ping s r' s')
  then show ?case
    by (auto simp: session_inv_def sg_SocketIoPing_def has_session_def sbind_def on_websocket_def
        split: if_splits option.splits prod.splits)
next
  case (set_cb s a b c d e)
  then show ?case by (simp add: session_inv_def has_session_def)
next
  case (callback s c r s')
  then have "has_session s'" using skeepsD [OF keeps_session_callback] by (simp add: has_session_def)
  then show ?case by (simp add: session_inv_def)
qed

section \<open>Properties\<close>

text \<open>
  C29: A message from the server with one of the codes 0, 3, 41, 42, 43111, 43222 and 43333 reaches the handler of its code with
  exactly the text behind
  the code, for every body that does not start with a digit; a message with a code that is neither one of these nor 40 (which
  makes the client send its token)
  changes nothing.
\<close>

theorem messages_dispatched:
  assumes "no_digit body" "str_ok (''43333'' @ body)"
    and "leading_digits other \<notin> set [''0'', ''3'', ''40'', ''41'', ''42'', ''43111'', ''43222'', ''43333'']"
  shows "sg_OnWebsocketMsg J (''0'' @ body) s = sg_ProcessSocketIOOpen J body s \<and>
    sg_OnWebsocketMsg J (''3'' @ body) s = (Inr (), s) \<and>
    sg_OnWebsocketMsg J (''41'' @ body) s = sg_ProcessDisconnect s \<and>
    sg_OnWebsocketMsg J (''42'' @ body) s = sg_ProcessEvent J body s \<and>
    sg_OnWebsocketMsg J (''43111'' @ body) s = sg_ProcessInitTokenResponse body s \<and>
    sg_OnWebsocketMsg J (''43222'' @ body) s = sg_ProcessSubscribeStream body s \<and>
    sg_OnWebsocketMsg J (''43333'' @ body) s = sg_ProcessPublishStream body s \<and>
    sg_OnWebsocketMsg J other s = (Inr (), s)"
  unfolding dispatch_code [OF assms(1,2)] dispatch_other [OF assms(3)]
  by (simp add: sg_ProcessPong_def)

definition sig_example :: "nat signaling" where
  "sig_example = LicodeSignaling_new\<lparr>sg_subscribe_cb := Some 7\<rparr>"

theorem messages_dispatched_witness:
  "sg_calls (snd (sg_OnWebsocketMsg json_ref (''43222'' @ ''[1]'') sig_example)) = [Call_subscribe 7 ''[1]'']"
proof -
  have "no_digit ''[1]''" by (simp add: no_digit_def is_digit_def)
  moreover have "str_ok (''43333'' @ ''[1]'')" by (simp add: npos_def size_max_def)
  moreover have "leading_digits ''x'' \<notin> set [''0'', ''3'', ''40'', ''41'', ''42'', ''43111'', ''43222'', ''43333'']"
    by (simp add: leading_digits_def is_digit_def)
  ultimately have "sg_OnWebsocketMsg json_ref (''43222'' @ ''[1]'') sig_example =
      sg_ProcessSubscribeStream ''[1]'' sig_example"
    using messages_dispatched by blast
  then show ?thesis
    by (simp add: sg_ProcessSubscribeStream_def sig_example_def LicodeSignaling_new_def sg_emit_def)
qed

text \<open>
  \<^verbatim>\<open>Init\<close> of a disconnected object with a token whose host is \<^verbatim>\<open>h:n\<close> installs the three
  callbacks in a new session, goes to \<^verbatim>\<open>kConnecting\<close> and resolves \<^verbatim>\<open>h\<close> and the port, for a
  request target that asks for the websocket transport. The order of the setters matters:
  the last one clears the flag the first one has set, without which \<^verbatim>\<open>Connect\<close> would return.
\<close>

theorem Init_resolves_host:
  assumes "sg_state s = SDisconnect" "tk_host t = h @ '':'' @ show_nat n"
    and "CHR '':'' \<notin> set h" "CHR ''/'' \<notin> set h" "n \<le> 32767" "str_ok (socketio_url (tk_host t))"
  shows "\<exists>ws. LicodeSignaling_Init t s = (Inr True, s\<lparr>sg_token := t, sg_url := socketio_url (tk_host t),
      sg_state := SConnecting, sg_websocket := Some ws,
      sg_calls := sg_calls s @ [Ws (Async_resolve h (show_nat n))]\<rparr>) \<and>
    ws_target ws = ''/socket.io/?EIO=3&transport=websocket'' \<and> ws_receive ws = Some OnMsgCb \<and>
    ws_abnormal ws = Some OnDisconnectCb"
proof -
  have "int n \<le> int32_max" using assms(5) by (simp add: int32_max_def)
  moreover have "show_int (to_int16 (int n)) = show_nat n"
    using assms(5) by (simp add: to_int16_id show_int_def)
  ultimately show ?thesis using Init_connects [OF assms(1-4) _ assms(6)] by auto
qed

theorem Init_resolves_host_witness:
  "sg_calls (snd (LicodeSignaling_Init \<lparr>tk_tokenId = ''i'', tk_host = ''h:8080'', tk_secure = False,
     tk_signature = ''s''\<rparr> sig_example)) = [Ws (Async_resolve ''h'' ''8080'')]"
proof -
  let ?t = "\<lparr>tk_tokenId = ''i'', tk_host = ''h:8080'', tk_secure = False, tk_signature = ''s''\<rparr>"
  have n: "show_nat 8080 = ''8080''" by (simp add: show_nat.simps)
  have "\<exists>ws. LicodeSignaling_Init ?t sig_example = (Inr True, sig_example\<lparr>sg_token := ?t,
      sg_url := socketio_url (tk_host ?t), sg_state := SConnecting, sg_websocket := Some ws,
      sg_calls := sg_calls sig_example @ [Ws (Async_resolve ''h'' (show_nat 8080))]\<rparr>) \<and>
    ws_target ws = ''/socket.io/?EIO=3&transport=websocket'' \<and> ws_receive ws = Some OnMsgCb \<and>
    ws_abnormal ws = Some OnDisconnectCb"
    by (rule Init_resolves_host)
       (simp_all add: n sig_example_def LicodeSignaling_new_def socketio_url_def npos_def size_max_def)
  then show ?thesis by (auto simp: n sig_example_def LicodeSignaling_new_def)
qed

text \<open>
  C32: When the server accepts the connection, the object goes to \<^verbatim>\<open>kConnected\<close>, starts the
  periodic ping with the interval of the open message, and sends the token: the server reads
  the token's fields unchanged out of the packet behind the code.
\<close>

theorem connect_sends_token:
  assumes "nlohmann J obj arr plain" "sg_websocket s = Some ws" "ws_connected ws"
    and "ascii (tk_tokenId (sg_token s))" "ascii (tk_host (sg_token s))" "ascii (tk_signature (sg_token s))"
  shows "\<exists>pkt j. sg_OnWebsocketMsg J ''40'' s = (Inr (), s\<lparr>sg_state := SConnected, sg_calls := sg_calls s @
      [SchedulePing (1000000 * om_ping_interval (sg_open s)), Ws (Post_OnSend (''42111'' @ pkt))]\<rparr>) \<and>
    arrives J (Inr pkt) j \<and> str_at J [Idx 0] j = Inr ''token'' \<and>
    str_at J [Idx 1, Key ''token'', Key ''tokenId''] j = Inr (tk_tokenId (sg_token s)) \<and>
    str_at J [Idx 1, Key ''token'', Key ''host''] j = Inr (tk_host (sg_token s)) \<and>
    str_at J [Idx 1, Key ''token'', Key ''signature''] j = Inr (tk_signature (sg_token s)) \<and>
    bool_at J [Idx 1, Key ''token'', Key ''secure''] j = Inr (tk_secure (sg_token s))"
  using assms by (rule connect_sends_token_lemma)

definition connected_session :: "sig_cb ws_session" where
  "connected_session = \<lparr>ws_url = [], ws_scheme = [], ws_host = [], ws_port = 0, ws_target = [],
     ws_do_disconnect = False, ws_connected = True, ws_queue = [],
     ws_ready = None, ws_receive = None, ws_abnormal = None\<rparr>"

theorem connect_sends_token_witness:
  "sg_state (snd (sg_OnWebsocketMsg json_ref ''40''
     (LicodeSignaling_new\<lparr>sg_websocket := Some connected_session\<rparr> :: nat signaling))) = SConnected"
  using connect_sends_token [OF ref.nlohmann_axioms,
      of "LicodeSignaling_new\<lparr>sg_websocket := Some connected_session\<rparr> :: nat signaling" connected_session]
  by (auto simp: connected_session_def LicodeSignaling_new_def no_token_def)

text \<open>
  In every state a signaling object reaches, \<^verbatim>\<open>SendMsg\<close> and the ping never dereference a
  null session; \<^verbatim>\<open>Dispose\<close> and the destructor of an object that was never initialised do.
\<close>

theorem send_never_null:
  assumes "sg_reach J s"
  shows "fst (LicodeSignaling_SendMsg m s) = Inr () \<and> fst (sg_SocketIoPing s) = Inr (sg_state s = SConnected) \<and>
    fst (LicodeSignaling_Dispose (LicodeSignaling_new :: 'r signaling)) = Inl (UB NullDeref) \<and>
    fst (LicodeSignaling_destroy (LicodeSignaling_new :: 'r signaling)) = Inl (UB NullDeref)"
proof -
  have "sg_state s = SConnected \<Longrightarrow> \<exists>ws. sg_websocket s = Some ws"
    using sg_reach_inv [OF assms] by (auto simp: session_inv_def has_session_def)
  then have ok: "\<exists>s'. on_websocket f s = (Inr (), s')" if "sg_state s = SConnected" for f
    using that on_websocket_ok by blast
  have "fst (LicodeSignaling_SendMsg m s) = Inr ()"
    using ok [of "ws_SendMsg m"] by (auto simp: LicodeSignaling_SendMsg_def sg_CurrentState_def)
  moreover have "fst (sg_SocketIoPing s) = Inr (sg_state s = SConnected)"
    using ok [of "ws_SendMsg SOCKET_IO_PING"] by (auto simp: sg_SocketIoPing_def sg_CurrentState_def sbind_def)
  ultimately show ?thesis
    by (simp add: LicodeSignaling_Dispose_def LicodeSignaling_destroy_def LicodeSignaling_new_def
        on_websocket_def sbind_def)
qed

theorem send_never_null_witness:
  "fst (LicodeSignaling_SendMsg ''x'' (LicodeSignaling_new :: nat signaling)) = Inr ()"
  using send_never_null [OF sg_reach.new [of json_ref]] by blast

end
