(* ===== verification/Room.thy ===== *)
theory Room
  imports Signaling "HOL-Library.AList"
begin

text \<open>
  \<^verbatim>\<open>core/licode_room.cc\<close>: the client's side of a room. The stream descriptions are shared
  objects (\<^verbatim>\<open>shared_ptr<LicodeStreamInfo>\<close>), so they live in a store and the room holds their
  addresses. A lambda that the room posts to its worker is a value of a datatype, one constructor
  per lambda, with the captured variables as arguments; what it does when the worker calls
  it is a function of that value. Calls on the observer are recorded in order. Logging is
  left out.
\<close>

section \<open>State\<close>

datatype room_state = RDisconnected | RConnecting | RConnected

text \<open>The five lambdas that the constructor installs in the signaling object.\<close>

datatype room_cb = InitTokenCb | DisconnectCb | EventCb | SubscribeCb | PublishCb

type_synonym addr = nat

datatype 'j room_task =
    TPublish string addr            \<comment> \<open>\<^verbatim>\<open>PublishStream\<close>: packet, info\<close>
  | TUnPublish string               \<comment> \<open>\<^verbatim>\<open>UnPublishStream\<close>: packet\<close>
  | TSubscribe uint64
  | TUnSubscribe uint64
  | TJoined                         \<comment> \<open>\<^verbatim>\<open>OnJoinRoom\<close>, the observer's call\<close>
  | TExistStream addr               \<comment> \<open>\<^verbatim>\<open>OnJoinRoom\<close>, one stream that exists already\<close>
  | TAddStream addr
  | TRemoveStream uint64
  | TSubscribed 'j                  \<comment> \<open>\<^verbatim>\<open>OnSubscribeStream\<close>: the parsed response\<close>
  | TPublished string               \<comment> \<open>\<^verbatim>\<open>OnPublishStream\<close>: the text of the response\<close>
  | TReady string                   \<comment> \<open>\<^verbatim>\<open>OnPeerConnectionConnectErizoReady\<close>\<close>
  | TOffer string string            \<comment> \<open>\<^verbatim>\<open>receiveOffer\<close>\<close>
  | TSendAnswer uint64 string
  | TSendOffer uint64 string
  | TSendIce uint64 string int string

datatype obs_call =
    Obs_OnJoinRoom string
  | Obs_OnAddRemoteStream addr
  | Obs_OnSubscribeStreamAllocateConnId "addr option"
  | Obs_OnStreamConnectReady "addr option"
  | Obs_OnReceiveOffer "addr option" string

text \<open>
  \<^verbatim>\<open>std::unordered_map<uint64_t, std::shared_ptr<LicodeStreamInfo>>\<close>: a list of entries with
  distinct keys; \<open>None\<close> is a null pointer. The order in which a loop visits the entries is not
  specified: the code that loops takes it as a parameter.
\<close>

type_synonym infos = "(uint64 \<times> addr option) list"

record 'j room =
  rm_token :: licode_token
  rm_id :: string
  rm_client_id :: string
  rm_erizo_id :: string
  rm_state :: room_state
  rm_p2p :: bool
  rm_single_pc :: bool
  rm_default_video_bw :: int
  rm_max_video_bw :: int
  rm_ice_server_list :: "ice_server list"
  rm_local :: infos
  rm_remote :: infos
  rm_pending_subscribe :: "uint64 list"
  rm_pending_publish :: "addr list"
  rm_sig :: "room_cb signaling"
  rm_heap :: "stream_info list"      \<comment> \<open>the objects, by address\<close>
  rm_posted :: "'j room_task list"   \<comment> \<open>what the worker has not run yet\<close>
  rm_observed :: "obs_call list"

type_synonym ('j, 'a) roomm = "('j room, 'a) stm"

text \<open>\<^verbatim>\<open>operator[]\<close> (which inserts a null pointer for a missing key), \<^verbatim>\<open>emplace\<close>, \<^verbatim>\<open>erase\<close>.\<close>

definition um_index :: "uint64 \<Rightarrow> infos \<Rightarrow> addr option \<times> infos" where
  "um_index k m = (case map_of m k of Some p \<Rightarrow> (p, m) | None \<Rightarrow> (None, (k, None) # m))"

definition um_emplace :: "uint64 \<Rightarrow> addr option \<Rightarrow> infos \<Rightarrow> infos" where
  "um_emplace k p m = (case map_of m k of Some _ \<Rightarrow> m | None \<Rightarrow> (k, p) # m)"

definition index_remote :: "uint64 \<Rightarrow> ('j, addr option) roomm" where
  "index_remote k r = (case um_index k (rm_remote r) of (p, m) \<Rightarrow> (Inr p, r\<lparr>rm_remote := m\<rparr>))"

definition index_local :: "uint64 \<Rightarrow> ('j, addr option) roomm" where
  "index_local k r = (case um_index k (rm_local r) of (p, m) \<Rightarrow> (Inr p, r\<lparr>rm_local := m\<rparr>))"

definition deref :: "stream_info list \<Rightarrow> addr option \<Rightarrow> stream_info res" where
  "deref heap p =
     (case p of
        None \<Rightarrow> Inl (UB NullDeref)
      | Some a \<Rightarrow> if a < length heap then Inr (heap ! a) else Inl (UB BadRead))"

definition rm_deref :: "addr option \<Rightarrow> ('j, stream_info) roomm" where
  "rm_deref p r = (deref (rm_heap r) p, r)"

definition rm_modify :: "addr option \<Rightarrow> (stream_info \<Rightarrow> stream_info) \<Rightarrow> ('j, unit) roomm" where
  "rm_modify p f =
     sbind (rm_deref p) (\<lambda>i. smodify (\<lambda>r. r\<lparr>rm_heap := (rm_heap r)[the p := f i]\<rparr>))"

definition rm_make_shared :: "stream_info \<Rightarrow> ('j, addr) roomm" where
  "rm_make_shared i r = (Inr (length (rm_heap r)), r\<lparr>rm_heap := rm_heap r @ [i]\<rparr>)"

definition rm_PostTask :: "'j room_task \<Rightarrow> ('j, unit) roomm" where
  "rm_PostTask t = smodify (\<lambda>r. r\<lparr>rm_posted := rm_posted r @ [t]\<rparr>)"

definition rm_observer :: "obs_call \<Rightarrow> ('j, unit) roomm" where
  "rm_observer c = smodify (\<lambda>r. r\<lparr>rm_observed := rm_observed r @ [c]\<rparr>)"

definition on_signaling :: "(room_cb, 'a) sigm \<Rightarrow> ('j, 'a) roomm" where
  "on_signaling f r = (case f (rm_sig r) of (x, s) \<Rightarrow> (x, r\<lparr>rm_sig := s\<rparr>))"

section \<open>Calls of the client\<close>

definition LicodeRoom_new :: "licode_token \<Rightarrow> 'j room" where
  "LicodeRoom_new token =
     \<lparr>rm_token = token, rm_id = [], rm_client_id = [], rm_erizo_id = [], rm_state = RDisconnected,
      rm_p2p = False, rm_single_pc = False, rm_default_video_bw = 0, rm_max_video_bw = 0,
      rm_ice_server_list = [], rm_local = [], rm_remote = [], rm_pending_subscribe = [],
      rm_pending_publish = [],
      rm_sig = sg_SetOnPublishCallback (Some PublishCb) (sg_SetOnSubscribeCallback (Some SubscribeCb)
        (sg_SetOnEventCallback (Some EventCb) (sg_SetOnSignalingDisconnectCallback (Some DisconnectCb)
        (sg_SetOnInitTokenCallback (Some InitTokenCb) LicodeSignaling_new)))),
      rm_heap = [], rm_posted = [], rm_observed = []\<rparr>"

definition rm_CurrentState :: "'j room \<Rightarrow> room_state" where "rm_CurrentState r = rm_state r"
definition rm_Id :: "'j room \<Rightarrow> string" where "rm_Id r = rm_id r"
definition rm_RoomId :: "'j room \<Rightarrow> string" where "rm_RoomId r = rm_id r"
definition rm_IceServers :: "'j room \<Rightarrow> ice_server list" where "rm_IceServers r = rm_ice_server_list r"
definition rm_P2p :: "'j room \<Rightarrow> bool" where "rm_P2p r = rm_p2p r"
definition rm_SinglePC :: "'j room \<Rightarrow> bool" where "rm_SinglePC r = rm_single_pc r"
definition rm_MaxVideoBW :: "'j room \<Rightarrow> int" where "rm_MaxVideoBW r = rm_max_video_bw r"
definition rm_DefaultVideoBW :: "'j room \<Rightarrow> int" where "rm_DefaultVideoBW r = rm_default_video_bw r"

definition rm_Update :: "room_state \<Rightarrow> ('j, unit) roomm" where
  "rm_Update st = smodify (\<lambda>r. r\<lparr>rm_state := st\<rparr>)"

definition rm_Join :: "('j, unit) roomm" where
  "rm_Join r =
     (if rm_CurrentState r \<noteq> RDisconnected then (Inr (), r)
      else sbind (rm_Update RConnecting) (\<lambda>_.
           sbind (on_signaling (LicodeSignaling_Init (rm_token r))) (\<lambda>_. sret ())) r)"

definition rm_Leave :: "('j, unit) roomm" where
  "rm_Leave r =
     (if rm_CurrentState r = RDisconnected then (Inr (), r) else on_signaling LicodeSignaling_Dispose r)"

definition rm_PublishStream :: "'j json_api \<Rightarrow> addr option \<Rightarrow> ('j, unit) roomm" where
  "rm_PublishStream J info =
     sbind (rm_deref info) (\<lambda>i.
     sbind (slift (PublicStream_Build J (PublicStream_SetState ''erizo''
        (PublicStream_SetLabel (si_label i) PublicStream_new)))) (\<lambda>pkt.
     rm_PostTask (TPublish pkt (the info))))"

definition rm_UnPublishStream :: "'j json_api \<Rightarrow> uint64 \<Rightarrow> ('j, unit) roomm" where
  "rm_UnPublishStream J streamId =
     sbind (slift (UnsubscribeStream_Build J (UnsubscribeStream_SetStreamId streamId UnsubscribeStream_new)))
       (\<lambda>pkt. rm_PostTask (TUnPublish pkt))"

definition rm_SubscribeStream :: "uint64 \<Rightarrow> ('j, unit) roomm" where
  "rm_SubscribeStream streamId = rm_PostTask (TSubscribe streamId)"

definition rm_UnSubscriberStream :: "uint64 \<Rightarrow> ('j, unit) roomm" where
  "rm_UnSubscriberStream streamId = rm_PostTask (TUnSubscribe streamId)"

definition rm_SendAnswer :: "uint64 \<Rightarrow> string \<Rightarrow> ('j, unit) roomm" where
  "rm_SendAnswer streamId sdp = rm_PostTask (TSendAnswer streamId sdp)"

definition rm_SendOffer :: "uint64 \<Rightarrow> string \<Rightarrow> ('j, unit) roomm" where
  "rm_SendOffer streamId sdp = rm_PostTask (TSendOffer streamId sdp)"

definition rm_SendIceCandidate :: "uint64 \<Rightarrow> string \<Rightarrow> int \<Rightarrow> string \<Rightarrow> ('j, unit) roomm" where
  "rm_SendIceCandidate streamId sdpMid sdpMLineIndex candidate =
     rm_PostTask (TSendIce streamId sdpMid sdpMLineIndex candidate)"

section \<open>Messages of the server\<close>

text \<open>
  A stream description out of JSON. \<^verbatim>\<open>OnAddStream\<close> indexes a non-const value, which gives
  null for a missing key; \<^verbatim>\<open>OnJoinRoom\<close> indexes a const one. The six values and the attributes'
  text are the arguments of \<^verbatim>\<open>make_shared\<close>; they are converted when it calls the constructor.
\<close>

definition stream_of_json :: "'j json_api \<Rightarrow> (string \<Rightarrow> 'j \<Rightarrow> 'j res) \<Rightarrow> 'j \<Rightarrow> stream_info res" where
  "stream_of_json J get stream =
     rbind (get ''id'' stream) (\<lambda>i. rbind (get ''video'' stream) (\<lambda>v.
     rbind (get ''audio'' stream) (\<lambda>a. rbind (get ''data'' stream) (\<lambda>d.
     rbind (get ''label'' stream) (\<lambda>l. rbind (get ''screen'' stream) (\<lambda>s.
     rbind (rbind (get ''attributes'' stream) (j_dump J)) (\<lambda>attributes.
     rbind (j_as_uint J i) (\<lambda>i. rbind (j_as_bool J v) (\<lambda>v. rbind (j_as_bool J a) (\<lambda>a.
     rbind (j_as_bool J d) (\<lambda>d. rbind (j_as_string J l) (\<lambda>l. rbind (j_as_bool J s) (\<lambda>s.
     Inr (LicodeStreamInfo_new i v a d l s attributes))))))))))))))"

text \<open>The loop over \<^verbatim>\<open>body["streams"]\<close>.\<close>

fun exist_streams :: "'j json_api \<Rightarrow> 'j list \<Rightarrow> ('j, addr list) roomm" where
  "exist_streams J [] = sret []"
| "exist_streams J (stream # streams) =
     sbind (slift (stream_of_json J (j_get_c J) stream)) (\<lambda>i.
     sbind (rm_make_shared i) (\<lambda>a.
     sbind (exist_streams J streams) (\<lambda>as. sret (a # as))))"

text \<open>The loop over \<^verbatim>\<open>body["iceServers"]\<close>.\<close>

definition ice_of_json :: "'j json_api \<Rightarrow> 'j \<Rightarrow> ice_server res" where
  "ice_of_json J ice =
     rbind (j_value_string J ''url'' [] ice) (\<lambda>url.
     rbind (j_value_string J ''username'' [] ice) (\<lambda>username.
     rbind (j_value_string J ''credential'' [] ice) (\<lambda>credential.
     Inr \<lparr>ice_url = url, ice_username = username, ice_credential = credential\<rparr>)))"

fun push_ice_servers :: "'j json_api \<Rightarrow> 'j list \<Rightarrow> ('j, unit) roomm" where
  "push_ice_servers J [] = sret ()"
| "push_ice_servers J (ice # ices) =
     sbind (slift (ice_of_json J ice)) (\<lambda>s.
     sbind (smodify (\<lambda>r. r\<lparr>rm_ice_server_list := rm_ice_server_list r @ [s]\<rparr>)) (\<lambda>_.
     push_ice_servers J ices))"

fun post_exist_streams :: "addr list \<Rightarrow> ('j, unit) roomm" where
  "post_exist_streams [] = sret ()"
| "post_exist_streams (a # as) = sbind (rm_PostTask (TExistStream a)) (\<lambda>_. post_exist_streams as)"

definition field :: "'j json_api \<Rightarrow> ('j \<Rightarrow> 'a res) \<Rightarrow> string \<Rightarrow> 'j \<Rightarrow> ('j, 'a) roomm" where
  "field J as k j = slift (rbind (j_get J k j) as)"

text \<open>The branch of \<^verbatim>\<open>OnJoinRoom\<close> for a response that starts with \<^verbatim>\<open>success\<close>.\<close>

definition join_success :: "'j json_api \<Rightarrow> 'j \<Rightarrow> ('j, unit) roomm" where
  "join_success J body =
     sbind (field J (j_as_string J) ''id'' body) (\<lambda>i.
     sbind (smodify (\<lambda>r. r\<lparr>rm_id := i\<rparr>)) (\<lambda>_.
     sbind (field J (j_as_string J) ''clientId'' body) (\<lambda>c.
     sbind (smodify (\<lambda>r. r\<lparr>rm_client_id := c, rm_remote := []\<rparr>)) (\<lambda>_.
     sbind (slift (j_get J ''streams'' body)) (\<lambda>streams.
     sbind (exist_streams J (j_elems J streams)) (\<lambda>existStreams.
     sbind (if j_contains J ''p2p'' body
            then sbind (field J (j_as_bool J) ''p2p'' body) (\<lambda>b. smodify (\<lambda>r. r\<lparr>rm_p2p := b\<rparr>))
            else sret ()) (\<lambda>_.
     sbind (field J (j_as_int J) ''defaultVideoBW'' body) (\<lambda>n.
     sbind (smodify (\<lambda>r. r\<lparr>rm_default_video_bw := n\<rparr>)) (\<lambda>_.
     sbind (field J (j_as_int J) ''maxVideoBW'' body) (\<lambda>n.
     sbind (smodify (\<lambda>r. r\<lparr>rm_max_video_bw := n\<rparr>)) (\<lambda>_.
     sbind (field J (j_as_bool J) ''singlePC'' body) (\<lambda>b.
     sbind (smodify (\<lambda>r. r\<lparr>rm_single_pc := b\<rparr>)) (\<lambda>_.
     sbind (slift (j_get J ''iceServers'' body)) (\<lambda>iceServers.
     sbind (smodify (\<lambda>r. r\<lparr>rm_ice_server_list := []\<rparr>)) (\<lambda>_.
     sbind (push_ice_servers J (j_elems J iceServers)) (\<lambda>_.
     sbind (rm_Update RConnected) (\<lambda>_.
     sbind (rm_PostTask TJoined) (\<lambda>_.
     post_exist_streams existStreams))))))))))))))))))"

definition rm_OnJoinRoom :: "'j json_api \<Rightarrow> string \<Rightarrow> ('j, unit) roomm" where
  "rm_OnJoinRoom J msg =
     scatch
       (sbind (slift (j_parse J msg)) (\<lambda>json.
        sbind (slift (j_at J 0 json)) (\<lambda>status.
        if j_eq_string J status ''success''
        then sbind (slift (j_at J 1 json)) (join_success J)
        else rm_Update RDisconnected)))
       (rm_Update RDisconnected)"

definition rm_OnLeaveRoom :: "('j, unit) roomm" where
  "rm_OnLeaveRoom = rm_Update RDisconnected"

definition rm_OnAddStream :: "'j json_api \<Rightarrow> string \<Rightarrow> ('j, unit) roomm" where
  "rm_OnAddStream J msg =
     scatch
       (sbind (slift (j_parse J msg)) (\<lambda>stream.
        sbind (slift (stream_of_json J (j_get J) stream)) (\<lambda>i.
        sbind (rm_make_shared i) (\<lambda>info. rm_PostTask (TAddStream info)))))
       (sret ())"

definition rm_OnRemoveStream :: "'j json_api \<Rightarrow> string \<Rightarrow> ('j, unit) roomm" where
  "rm_OnRemoveStream J msg =
     scatch
       (sbind (slift (j_parse J msg)) (\<lambda>body.
        sbind (field J (j_as_uint J) ''id'' body) (\<lambda>removeStreamId. rm_PostTask (TRemoveStream removeStreamId))))
       (sret ())"

definition rm_OnSubscribeStream :: "'j json_api \<Rightarrow> string \<Rightarrow> ('j, unit) roomm" where
  "rm_OnSubscribeStream J msg = sbind (slift (j_parse J msg)) (\<lambda>json. rm_PostTask (TSubscribed json))"

definition rm_OnPublishStream :: "string \<Rightarrow> ('j, unit) roomm" where
  "rm_OnPublishStream msg = rm_PostTask (TPublished msg)"

definition rm_receiveOffer :: "string \<Rightarrow> string \<Rightarrow> ('j, unit) roomm" where
  "rm_receiveOffer connId sdp = rm_PostTask (TOffer connId sdp)"

definition rm_receiveAnswer :: "string \<Rightarrow> string \<Rightarrow> ('j, unit) roomm" where
  "rm_receiveAnswer connId sdp = sret ()"

definition rm_OnPeerConnectionConnectErizoReady :: "string \<Rightarrow> ('j, unit) roomm" where
  "rm_OnPeerConnectionConnectErizoReady connId = rm_PostTask (TReady connId)"

definition rm_OnErizoConnectionEvent :: "'j json_api \<Rightarrow> string \<Rightarrow> ('j, unit) roomm" where
  "rm_OnErizoConnectionEvent J msg =
     sbind (slift (j_parse J msg)) (\<lambda>event.
     sbind (field J (j_as_string J) ''connectionId'' event) (\<lambda>connectionId.
     sbind (field J (j_as_int J) ''info'' event) (\<lambda>info.
     sbind (slift (j_get J ''evt'' event)) (\<lambda>evt.
     if info = 202 then
       sbind (slift (j_get J ''type'' evt)) (\<lambda>type.
       if j_eq_string J type ''offer'' then
         sbind (field J (j_as_string J) ''sdp'' evt) (rm_receiveOffer connectionId)
       else if j_eq_string J type ''answer'' then
         sbind (field J (j_as_string J) ''sdp'' evt) (rm_receiveAnswer connectionId)
       else sret ())
     else if info = 150 then sret ()
     else if info = 104 then rm_OnPeerConnectionConnectErizoReady connectionId
     else sret ()))))"

definition rm_OnEvent :: "'j json_api \<Rightarrow> string \<Rightarrow> string \<Rightarrow> ('j, unit) roomm" where
  "rm_OnEvent J event msg =
     (if event = ''connection_message_erizo'' then rm_OnErizoConnectionEvent J msg
      else if event = ''onAddStream'' then rm_OnAddStream J msg
      else if event = ''onRemoveStream'' then rm_OnRemoveStream J msg
      else sret ())"

text \<open>
  What the installed lambdas do. \<^verbatim>\<open>LicodeSignaling::ProcessEvent\<close> calls the event callback
  inside its \<^verbatim>\<open>try\<close> block, so that what \<^verbatim>\<open>OnEvent\<close> throws ends there.
\<close>

fun room_callback :: "'j json_api \<Rightarrow> room_cb sig_call \<Rightarrow> ('j, unit) roomm" where
  "room_callback J (Call_init_token InitTokenCb msg) = rm_OnJoinRoom J msg"
| "room_callback J (Call_disconnect DisconnectCb) = rm_OnLeaveRoom"
| "room_callback J (Call_event EventCb event body) = scatch (rm_OnEvent J event body) (sret ())"
| "room_callback J (Call_subscribe SubscribeCb msg) = rm_OnSubscribeStream J msg"
| "room_callback J (Call_publish PublishCb msg) = rm_OnPublishStream msg"
| "room_callback J _ = sret ()"

fun room_callbacks :: "'j json_api \<Rightarrow> room_cb sig_call list \<Rightarrow> ('j, unit) roomm" where
  "room_callbacks J [] = sret ()"
| "room_callbacks J (c # cs) = sbind (room_callback J c) (\<lambda>_. room_callbacks J cs)"

text \<open>
  A message of the session: the signaling object handles it and calls back (each of its
  handlers calls back last).
\<close>

definition room_message :: "'j json_api \<Rightarrow> string \<Rightarrow> ('j, unit) roomm" where
  "room_message J msg r =
     sbind (on_signaling (sg_OnWebsocketMsg J msg)) (\<lambda>_ r'.
       room_callbacks J (drop (length (sg_calls (rm_sig r))) (sg_calls (rm_sig r'))) r') r"

section \<open>The lambdas that run on the worker\<close>

definition task_publish :: "string \<Rightarrow> addr \<Rightarrow> ('j, unit) roomm" where
  "task_publish pkt info =
     sbind (smodify (\<lambda>r. r\<lparr>rm_pending_publish := rm_pending_publish r @ [info]\<rparr>)) (\<lambda>_.
     on_signaling (LicodeSignaling_SendMsg (PublishStreamMsgHeader @ pkt)))"

definition task_unpublish :: "string \<Rightarrow> ('j, unit) roomm" where
  "task_unpublish pkt = on_signaling (LicodeSignaling_SendMsg (EventHeader @ pkt))"

definition task_subscribe :: "'j json_api \<Rightarrow> uint64 \<Rightarrow> ('j, unit) roomm" where
  "task_subscribe J streamId =
     sbind (slift (SubscribeStream_Build J (SubscribeStream_SetOfferFromErizo True
        (SubscribeStream_SetStreamId streamId SubscribeStream_new)))) (\<lambda>pkt.
     sbind (smodify (\<lambda>r. r\<lparr>rm_pending_subscribe := rm_pending_subscribe r @ [streamId]\<rparr>)) (\<lambda>_.
     on_signaling (LicodeSignaling_SendMsg (SubscribeStreamMsgHeader @ pkt))))"

definition task_unsubscribe :: "'j json_api \<Rightarrow> uint64 \<Rightarrow> ('j, unit) roomm" where
  "task_unsubscribe J streamId =
     sbind (slift (UnsubscribeStream_Build J (UnsubscribeStream_SetStreamId streamId UnsubscribeStream_new)))
       (\<lambda>pkt. on_signaling (LicodeSignaling_SendMsg (EventHeader @ pkt)))"

definition task_joined :: "('j, unit) roomm" where
  "task_joined r = rm_observer (Obs_OnJoinRoom (rm_id r)) r"

definition task_exist_stream :: "addr \<Rightarrow> ('j, unit) roomm" where
  "task_exist_stream info =
     sbind (rm_deref (Some info)) (\<lambda>i.
     sbind (smodify (\<lambda>r. r\<lparr>rm_remote := um_emplace (si_id i) (Some info) (rm_remote r)\<rparr>)) (\<lambda>_.
     rm_observer (Obs_OnAddRemoteStream info)))"

definition task_add_stream :: "addr \<Rightarrow> ('j, unit) roomm" where
  "task_add_stream info =
     sbind (rm_deref (Some info)) (\<lambda>i.
     sbind (index_local (si_id i)) (\<lambda>localStreamInfo.
     if localStreamInfo \<noteq> None then
       sbind (rm_deref localStreamInfo) (\<lambda>l.
       sbind (rm_modify (Some info) (si_SetConnectionId (si_connection_id l))) (\<lambda>_.
       smodify (\<lambda>r. r\<lparr>rm_local := AList.update (si_id i) (Some info) (rm_local r)\<rparr>)))
     else
       sbind (smodify (\<lambda>r. r\<lparr>rm_remote := AList.update (si_id i) (Some info) (rm_remote r)\<rparr>)) (\<lambda>_.
       rm_observer (Obs_OnAddRemoteStream info))))"

definition task_remove_stream :: "uint64 \<Rightarrow> ('j, unit) roomm" where
  "task_remove_stream removeStreamId =
     smodify (\<lambda>r. r\<lparr>rm_remote := AList.delete removeStreamId (rm_remote r)\<rparr>)"

text \<open>
  Both responses: the first erizo id is kept, a different one later is only logged. The
  captured \<^verbatim>\<open>json\<close> of \<^verbatim>\<open>OnSubscribeStream\<close> is const, the local one of \<^verbatim>\<open>OnPublishStream\<close> is not.
\<close>

definition note_erizo_id :: "'j json_api \<Rightarrow> (nat \<Rightarrow> 'j \<Rightarrow> 'j res) \<Rightarrow> 'j \<Rightarrow> ('j, unit) roomm" where
  "note_erizo_id J at json =
     sbind (slift (at 1 json)) (\<lambda>e r.
     if rm_erizo_id r = [] then
       sbind (slift (j_as_string J e)) (\<lambda>s. smodify (\<lambda>r. r\<lparr>rm_erizo_id := s\<rparr>)) r
     else (Inr (), r))"

definition task_subscribed :: "'j json_api \<Rightarrow> 'j \<Rightarrow> ('j, unit) roomm" where
  "task_subscribed J json r =
     (case rm_pending_subscribe r of
        [] \<Rightarrow> (Inl (UB EmptyFront), r)
      | streamId # rest \<Rightarrow>
          sbind (smodify (\<lambda>r. r\<lparr>rm_pending_subscribe := rest\<rparr>)) (\<lambda>_.
          sbind (note_erizo_id J (j_at_c J) json) (\<lambda>_.
          sbind (index_remote streamId) (\<lambda>p.
          sbind (rm_deref p) (\<lambda>_.
          sbind (slift (rbind (j_at_c J 2 json) (j_as_string J))) (\<lambda>c.
          sbind (rm_modify p (si_SetConnectionId c)) (\<lambda>_.
          sbind (index_remote streamId) (\<lambda>p.
          rm_observer (Obs_OnSubscribeStreamAllocateConnId p)))))))) r)"

definition task_published :: "'j json_api \<Rightarrow> string \<Rightarrow> ('j, unit) roomm" where
  "task_published J msg r =
     (case rm_pending_publish r of
        [] \<Rightarrow> (Inl (UB EmptyFront), r)
      | streamInfo # rest \<Rightarrow>
          sbind (smodify (\<lambda>r. r\<lparr>rm_pending_publish := rest\<rparr>)) (\<lambda>_.
          sbind (slift (j_parse J msg)) (\<lambda>json.
          sbind (note_erizo_id J (j_at J) json) (\<lambda>_.
          sbind (slift (rbind (j_at J 0 json) (j_as_uint J))) (\<lambda>streamId.
          sbind (rm_modify (Some streamInfo) (si_SetId streamId)) (\<lambda>_.
          sbind (slift (rbind (j_at J 2 json) (j_as_string J))) (\<lambda>c.
          sbind (rm_modify (Some streamInfo) (si_SetConnectionId c)) (\<lambda>_.
          smodify (\<lambda>r. r\<lparr>rm_local := AList.update streamId (Some streamInfo) (rm_local r)\<rparr>)))))))) r)"

text \<open>The loops that look for a connection id; \<open>order\<close> is the order in which they run.\<close>

fun find_connection :: "stream_info list \<Rightarrow> string \<Rightarrow> infos \<Rightarrow> addr option res" where
  "find_connection heap connId [] = Inr None"
| "find_connection heap connId ((k, p) # m) =
     rbind (deref heap p) (\<lambda>i. if si_connection_id i = connId then Inr p else find_connection heap connId m)"

definition find_remote :: "(infos \<Rightarrow> infos) \<Rightarrow> string \<Rightarrow> ('j, addr option) roomm" where
  "find_remote order connId r = (find_connection (rm_heap r) connId (order (rm_remote r)), r)"

definition find_local :: "(infos \<Rightarrow> infos) \<Rightarrow> string \<Rightarrow> ('j, addr option) roomm" where
  "find_local order connId r = (find_connection (rm_heap r) connId (order (rm_local r)), r)"

definition task_ready :: "(infos \<Rightarrow> infos) \<Rightarrow> string \<Rightarrow> ('j, unit) roomm" where
  "task_ready order connId =
     sbind (find_remote order connId) (\<lambda>p.
     sbind (if p \<noteq> None then sret p else find_local order connId) (\<lambda>streamInfo.
     sbind (if streamInfo \<noteq> None then rm_modify streamInfo (si_SetConnected True) else sret ()) (\<lambda>_.
     rm_observer (Obs_OnStreamConnectReady streamInfo))))"

definition task_offer :: "(infos \<Rightarrow> infos) \<Rightarrow> string \<Rightarrow> string \<Rightarrow> ('j, unit) roomm" where
  "task_offer order connId sdp =
     sbind (find_remote order connId) (\<lambda>streamInfo. rm_observer (Obs_OnReceiveOffer streamInfo sdp))"

definition send_sdp :: "'j json_api \<Rightarrow> string \<Rightarrow> uint64 \<Rightarrow> string \<Rightarrow> ('j, unit) roomm" where
  "send_sdp J type streamId sdp =
     sbind (index_remote streamId) (\<lambda>p.
     sbind (rm_deref p) (\<lambda>i r.
     sbind (slift (OfferOrAnswer_Build J (OfferOrAnswer_SetSdp sdp (OfferOrAnswer_SetErizoId (rm_erizo_id r)
        (OfferOrAnswer_SetConnId (si_connection_id i) (OfferOrAnswer_SetType type OfferOrAnswer_new)))))) (\<lambda>pkt.
     on_signaling (LicodeSignaling_SendMsg (EventHeader @ pkt))) r))"

definition task_send_answer :: "'j json_api \<Rightarrow> uint64 \<Rightarrow> string \<Rightarrow> ('j, unit) roomm" where
  "task_send_answer J = send_sdp J ''answer''"

definition task_send_offer :: "'j json_api \<Rightarrow> uint64 \<Rightarrow> string \<Rightarrow> ('j, unit) roomm" where
  "task_send_offer J = send_sdp J ''offer''"

definition task_send_ice :: "'j json_api \<Rightarrow> uint64 \<Rightarrow> string \<Rightarrow> int \<Rightarrow> string \<Rightarrow> ('j, unit) roomm" where
  "task_send_ice J streamId sdpMid sdpMLineIndex candidate =
     sbind (index_remote streamId) (\<lambda>p.
     sbind (if p = None then index_local streamId else sret p) (\<lambda>info.
     sbind (rm_deref info) (\<lambda>i r.
     sbind (slift (Connection_Build J (Connection_SetCandidate candidate
        (Connection_SetSdpMLineIndex sdpMLineIndex (Connection_SetSdpMid sdpMid
        (Connection_SetConnId (si_connection_id i) (Connection_SetErizoId (rm_erizo_id r) Connection_new))))))) (\<lambda>pkt.
     on_signaling (LicodeSignaling_SendMsg (EventHeader @ pkt))) r)))"

fun run_task :: "'j json_api \<Rightarrow> (infos \<Rightarrow> infos) \<Rightarrow> 'j room_task \<Rightarrow> ('j, unit) roomm" where
  "run_task J order (TPublish pkt info) = task_publish pkt info"
| "run_task J order (TUnPublish pkt) = task_unpublish pkt"
| "run_task J order (TSubscribe i) = task_subscribe J i"
| "run_task J order (TUnSubscribe i) = task_unsubscribe J i"
| "run_task J order TJoined = task_joined"
| "run_task J order (TExistStream info) = task_exist_stream info"
| "run_task J order (TAddStream info) = task_add_stream info"
| "run_task J order (TRemoveStream i) = task_remove_stream i"
| "run_task J order (TSubscribed json) = task_subscribed J json"
| "run_task J order (TPublished msg) = task_published J msg"
| "run_task J order (TReady connId) = task_ready order connId"
| "run_task J order (TOffer connId sdp) = task_offer order connId sdp"
| "run_task J order (TSendAnswer i sdp) = task_send_answer J i sdp"
| "run_task J order (TSendOffer i sdp) = task_send_offer J i sdp"
| "run_task J order (TSendIce i mid idx cand) = task_send_ice J i mid idx cand"

text \<open>\<^verbatim>\<open>alive\<close>: the room still exists when the worker calls the closure.\<close>

definition rm_SafeTask :: "bool \<Rightarrow> ('j, unit) roomm \<Rightarrow> ('j, unit) roomm" where
  "rm_SafeTask alive f = (if alive then f else sret ())"

end
