(* ===== verification/Room_Props.thy ===== *)
theory Room_Props
  imports Room
begin

text \<open>
  What holds of a room: its runs (messages of the server, calls of the client, the worker), the
  invariant of its stream tables, the answers to requests, joining, and two ways in
  which the tables break.
\<close>

section \<open>What a room holds\<close>

definition ptrs :: "infos \<Rightarrow> addr multiset" where
  "ptrs m = mset (List.map_filter snd m)"

fun task_addrs :: "'j room_task \<Rightarrow> addr list" where
  "task_addrs (TPublish pkt a) = [a]"
| "task_addrs (TExistStream a) = [a]"
| "task_addrs (TAddStream a) = [a]"
| "task_addrs t = []"

text \<open>Every reference to a stream object the room holds; \<open>X\<close> are those of running code.\<close>

definition held :: "addr list \<Rightarrow> 'j room \<Rightarrow> addr multiset" where
  "held X r = mset X + ptrs (rm_remote r) + ptrs (rm_local r) + mset (rm_pending_publish r) +
     mset (concat (map task_addrs (rm_posted r)))"

section \<open>Runs\<close>

text \<open>
  The worker runs the posted lambdas in order; one that is posted on the worker's own thread
  is dispatched at once (\<open>inline\<close>). \<open>create\<close>: the client makes a stream object. A client publishes a stream
  object, made just now or earlier, published before or not, as long as the room does not hold a pointer to it at
  the time. (\<^verbatim>\<open>PublishStream\<close> takes any pointer; one that is already published gets a second id,
  \<open>published_twice\<close> below.) A step that throws on the worker or on the session's thread ends the program, so
  only steps with a normal outcome have a successor.
\<close>

inductive room_step :: "'j json_api \<Rightarrow> 'j room \<Rightarrow> 'j room \<Rightarrow> bool" for J where
  message: "room_message J msg r = (Inr (), r') \<Longrightarrow> room_step J r r'"
| worker: "rm_posted r = t # ts \<Longrightarrow> rm_SafeTask alive (run_task J order t) (r\<lparr>rm_posted := ts\<rparr>) = (Inr (), r') \<Longrightarrow>
    room_step J r r'"
| inline: "rm_posted r = ts @ [t] \<Longrightarrow> run_task J order t (r\<lparr>rm_posted := ts\<rparr>) = (Inr (), r') \<Longrightarrow> room_step J r r'"
| join: "rm_Join r = (Inr (), r') \<Longrightarrow> room_step J r r'"
| leave: "rm_Leave r = (Inr (), r') \<Longrightarrow> room_step J r r'"
| create: "rm_make_shared i r = (Inr a, r') \<Longrightarrow> room_step J r r'"
| publish: "a \<notin># held [] r \<Longrightarrow> rm_PublishStream J (Some a) r = (Inr (), r') \<Longrightarrow> room_step J r r'"
| unpublish: "rm_UnPublishStream J k r = (Inr (), r') \<Longrightarrow> room_step J r r'"
| subscribe: "rm_SubscribeStream k r = (Inr (), r') \<Longrightarrow> room_step J r r'"
| unsubscribe: "rm_UnSubscriberStream k r = (Inr (), r') \<Longrightarrow> room_step J r r'"
| answer: "rm_SendAnswer k sdp r = (Inr (), r') \<Longrightarrow> room_step J r r'"
| offer: "rm_SendOffer k sdp r = (Inr (), r') \<Longrightarrow> room_step J r r'"
| ice: "rm_SendIceCandidate k mid n cand r = (Inr (), r') \<Longrightarrow> room_step J r r'"

section \<open>The invariant\<close>

definition keyed :: "stream_info list \<Rightarrow> infos \<Rightarrow> bool" where
  "keyed h m \<longleftrightarrow> distinct (map fst m) \<and> (\<forall>k a. (k, Some a) \<in> set m \<longrightarrow> si_id (h ! a) = k)"

definition rinv :: "addr list \<Rightarrow> 'j room \<Rightarrow> bool" where
  "rinv X r \<longleftrightarrow> (\<forall>a. count (held X r) a \<le> 1) \<and> (\<forall>a \<in># held X r. a < length (rm_heap r)) \<and>
     keyed (rm_heap r) (rm_remote r) \<and> keyed (rm_heap r) (rm_local r)"

lemma ptrs_simps [simp]:
  "ptrs [] = {#}" "ptrs ((k, None) # m) = ptrs m" "ptrs ((k, Some a) # m) = add_mset a (ptrs m)"
  by (simp_all add: ptrs_def List.map_filter_def)

lemma ptrs_mem: "a \<in># ptrs m \<longleftrightarrow> (\<exists>k. (k, Some a) \<in> set m)"
  by (induction m rule: list.induct) (auto simp: ptrs_def List.map_filter_def split: option.splits)

lemma rinv_mono:
  assumes "rinv X r" "held Y r' \<subseteq># held X r" "rm_heap r' = rm_heap r"
    and "keyed (rm_heap r) (rm_remote r')" "keyed (rm_heap r) (rm_local r')"
  shows "rinv Y r'"
proof -
  have "count (held Y r') a \<le> 1" for a
    using assms(1,2) mset_subset_eq_count [of "held Y r'" "held X r" a] order_trans
    by (fastforce simp: rinv_def)
  moreover have "a < length (rm_heap r')" if "a \<in># held Y r'" for a
    using that assms(1-3) mset_subset_eqD by (fastforce simp: rinv_def)
  ultimately show ?thesis using assms(3-5) by (simp add: rinv_def)
qed

lemma rinv_drop: "rinv X r \<Longrightarrow> mset Y \<subseteq># mset X \<Longrightarrow> rinv Y r"
  by (rule rinv_mono) (auto simp: held_def rinv_def)

lemma rinv_Nil: "rinv X r \<Longrightarrow> rinv [] r"
  by (erule rinv_drop) simp

text \<open>Tables.\<close>

lemma ptrs_update: "ptrs (AList.update k (Some a) m) \<subseteq># add_mset a (ptrs m)"
proof (induction m)
  case (Cons e m)
  obtain k' p where e: "e = (k', p)" by (cases e)
  with Cons show ?case by (cases p) (auto simp: subset_mset.add_increasing2 add_mset_commute)
qed simp

lemma ptrs_delete: "ptrs (AList.delete k m) \<subseteq># ptrs m"
proof (induction m)
  case (Cons e m)
  obtain k' p where e: "e = (k', p)" by (cases e)
  have "M \<subseteq># N \<Longrightarrow> M \<subseteq># add_mset a N" for M N and a :: addr
    by (metis add_mset_add_single mset_subset_eq_add_left subset_mset.trans)
  with Cons e show ?case by (cases p) auto
qed simp

lemma set_update_subset: "set (AList.update k v m) \<subseteq> insert (k, v) (set m)"
  by (induction m) auto

lemma keyed_update: "keyed h m \<Longrightarrow> si_id (h ! a) = k \<Longrightarrow> keyed h (AList.update k (Some a) m)"
  using set_update_subset [of k "Some a" m] by (auto simp: keyed_def distinct_update)

lemma keyed_delete: "keyed h m \<Longrightarrow> keyed h (AList.delete k m)"
  by (auto simp: keyed_def AList.delete_eq distinct_map_filter)

lemma keyed_Cons_None: "keyed h m \<Longrightarrow> map_of m k = None \<Longrightarrow> keyed h ((k, None) # m)"
  by (auto simp: keyed_def map_of_eq_None_iff)

lemma keyed_Cons: "keyed h m \<Longrightarrow> map_of m k = None \<Longrightarrow> si_id (h ! a) = k \<Longrightarrow> keyed h ((k, Some a) # m)"
  by (auto simp: keyed_def map_of_eq_None_iff)

lemma um_index_ptrs: "um_index k m = (p, m') \<Longrightarrow> ptrs m' = ptrs m"
  by (auto simp: um_index_def split: option.splits)

lemma um_index_keyed: "um_index k m = (p, m') \<Longrightarrow> keyed h m \<Longrightarrow> keyed h m'"
  by (auto simp: um_index_def keyed_Cons_None split: option.splits)

lemma um_index_fst: "um_index k m = (p, m') \<Longrightarrow> p = (case map_of m k of Some p \<Rightarrow> p | None \<Rightarrow> None)"
  by (auto simp: um_index_def split: option.splits)


lemma um_emplace_ptrs: "ptrs (um_emplace k (Some a) m) \<subseteq># add_mset a (ptrs m)"
  by (auto simp: um_emplace_def split: option.split)

lemma um_emplace_keyed: "keyed h m \<Longrightarrow> si_id (h ! a) = k \<Longrightarrow> keyed h (um_emplace k (Some a) m)"
  by (auto simp: um_emplace_def keyed_Cons split: option.split)

text \<open>Steps on the state.\<close>

text \<open>
  The two tables have the same operations and the same part in the invariant: \<open>tab\<close> is one of
  them, \<open>other\<close> the other one.
\<close>

locale stream_table =
  fixes tab other :: "'j room \<Rightarrow> infos" and put :: "infos \<Rightarrow> 'j room \<Rightarrow> 'j room"
    and index :: "uint64 \<Rightarrow> ('j, addr option) roomm"
  assumes held_tab: "held X r = mset X + ptrs (tab r) + ptrs (other r) + mset (rm_pending_publish r) +
      mset (concat (map task_addrs (rm_posted r)))"
    and keyed_tab: "keyed h (rm_remote r) \<and> keyed h (rm_local r) \<longleftrightarrow> keyed h (tab r) \<and> keyed h (other r)"
    and put: "tab (put m r) = m" "other (put m r) = other r" "rm_heap (put m r) = rm_heap r"
      "rm_pending_publish (put m r) = rm_pending_publish r" "rm_posted (put m r) = rm_posted r"
    and index: "index k r = (case um_index k (tab r) of (p, m) \<Rightarrow> (Inr p, put m r))"
begin

lemma rinv_put:
  assumes "rinv (a # X) r" "ptrs m \<subseteq># add_mset a (ptrs (tab r))" "keyed (rm_heap r) m"
  shows "rinv X (put m r)"
proof (rule rinv_mono [OF assms(1)])
  show "held X (put m r) \<subseteq># held (a # X) r"
    using subset_mset.add_mono [OF assms(2) subset_mset.order_refl
        [of "mset X + ptrs (other r) + mset (rm_pending_publish r) + mset (concat (map task_addrs (rm_posted r)))"]]
    by (simp add: held_tab put ac_simps)
qed (use assms keyed_tab [of "rm_heap r" r] keyed_tab [of "rm_heap r" "put m r"] put in \<open>auto simp: rinv_def\<close>)

lemma rinv_put_less:
  assumes "rinv X r" "ptrs m \<subseteq># ptrs (tab r)" "keyed (rm_heap r) m"
  shows "rinv X (put m r)"
proof (rule rinv_mono [OF assms(1)])
  show "held X (put m r) \<subseteq># held X r" using assms(2) by (simp add: held_tab put)
qed (use assms keyed_tab [of "rm_heap r" r] keyed_tab [of "rm_heap r" "put m r"] put in \<open>auto simp: rinv_def\<close>)

lemma keeps_index: "valid (rinv X) (index k) (\<lambda>_. rinv X) E"
proof -
  have "um_index k m = (p, m') \<Longrightarrow> keyed h m \<Longrightarrow> ptrs m' \<subseteq># ptrs m \<and> keyed h m'" for m p m' h
    using um_index_ptrs um_index_keyed by fastforce
  moreover have "rinv X r \<Longrightarrow> keyed (rm_heap r) (tab r)" for r using keyed_tab by (auto simp: rinv_def)
  ultimately have "ptrs m' \<subseteq># ptrs (tab r) \<and> keyed (rm_heap r) m'" if "rinv X r" "um_index k (tab r) = (p, m')" for r p m'
    using that by blast
  then show ?thesis
    by (auto simp: valid_def index split: prod.splits intro!: rinv_put_less)
qed

end

interpretation remote_table: stream_table rm_remote rm_local "\<lambda>m r. r\<lparr>rm_remote := m\<rparr>" index_remote
  by unfold_locales (simp_all add: held_def index_remote_def)

interpretation local_table: stream_table rm_local rm_remote "\<lambda>m r. r\<lparr>rm_local := m\<rparr>" index_local
  by unfold_locales (auto simp: held_def index_local_def)

text \<open>An object keeps its id, or is held by running code only.\<close>

lemma keyed_heap: "keyed h m \<Longrightarrow> (\<And>a. a \<in># ptrs m \<Longrightarrow> si_id (h' ! a) = si_id (h ! a)) \<Longrightarrow> keyed h' m"
  by (auto simp: keyed_def ptrs_mem)

lemma rinv_heap:
  assumes "rinv X r" "length h = length (rm_heap r)"
    and "\<And>a. a \<in># ptrs (rm_remote r) + ptrs (rm_local r) \<Longrightarrow> si_id (h ! a) = si_id (rm_heap r ! a)"
  shows "rinv X (r\<lparr>rm_heap := h\<rparr>)"
  using assms keyed_heap [of "rm_heap r" "rm_remote r" h] keyed_heap [of "rm_heap r" "rm_local r" h]
  by (auto simp: rinv_def held_def)

lemma rinv_heap_same:
  assumes "rinv X r" "\<And>i. si_id (f i) = si_id i"
  shows "rinv X (r\<lparr>rm_heap := (rm_heap r)[b := f (rm_heap r ! b)]\<rparr>)"
proof (rule rinv_heap [OF assms(1)])
  have "b < length (rm_heap r) \<or> (rm_heap r)[b := f (rm_heap r ! b)] = rm_heap r"
    by (cases "b < length (rm_heap r)") (simp_all add: list_update_beyond)
  then show "si_id ((rm_heap r)[b := f (rm_heap r ! b)] ! a) = si_id (rm_heap r ! a)" for a
    using assms(2) by (cases "a = b") auto
qed simp

lemma held_once: "rinv (a # X) r \<Longrightarrow> a \<notin># ptrs (rm_remote r) + ptrs (rm_local r)"
proof
  assume r: "rinv (a # X) r" and "a \<in># ptrs (rm_remote r) + ptrs (rm_local r)"
  moreover have "count (held (a # X) r) a \<le> 1" using r by (simp add: rinv_def)
  then have "count (ptrs (rm_remote r)) a = 0" "count (ptrs (rm_local r)) a = 0" by (simp_all add: held_def)
  ultimately show False by (simp add: count_eq_zero_iff)
qed

lemma rinv_heap_own:
  assumes "rinv (a # X) r"
  shows "rinv (a # X) (r\<lparr>rm_heap := (rm_heap r)[a := i]\<rparr>)"
proof (rule rinv_heap [OF assms])
  fix b
  assume "b \<in># ptrs (rm_remote r) + ptrs (rm_local r)"
  then have "b \<noteq> a" using held_once [OF assms] by metis
  then show "si_id ((rm_heap r)[a := i] ! b) = si_id (rm_heap r ! b)" by simp
qed simp

lemma rinv_make_shared: "rinv X r \<Longrightarrow> rinv (length (rm_heap r) # X) (r\<lparr>rm_heap := rm_heap r @ [i]\<rparr>)"
proof -
  assume r: "rinv X r"
  have lt: "a < length (rm_heap r)" if "a \<in># held X r" for a using r that by (simp add: rinv_def)
  then have "length (rm_heap r) \<notin># held X r" by blast
  then have c: "count (held X r) (length (rm_heap r)) = 0" by (simp add: not_in_iff)
  have p: "a < length (rm_heap r)" if "a \<in># ptrs (rm_remote r) + ptrs (rm_local r)" for a
    using that by (intro lt) (auto simp: held_def)
  have h: "held (length (rm_heap r) # X) (r\<lparr>rm_heap := rm_heap r @ [i]\<rparr>) = add_mset (length (rm_heap r)) (held X r)"
    by (simp add: held_def)
  have k: "keyed (rm_heap r @ [i]) (rm_remote r)" "keyed (rm_heap r @ [i]) (rm_local r)"
    using r p by (auto intro!: keyed_heap [where h = "rm_heap r"] simp: rinv_def nth_append)
  show ?thesis unfolding rinv_def h using r c lt k by (auto simp: rinv_def intro: less_SucI)
qed

lemma rinv_post: "rinv (task_addrs t @ X) r \<Longrightarrow> rinv X (r\<lparr>rm_posted := rm_posted r @ [t]\<rparr>)"
  by (simp add: rinv_def held_def ac_simps)

lemma rinv_pop: "rm_posted r = ts @ t # us \<Longrightarrow> rinv X r \<Longrightarrow> rinv (task_addrs t @ X) (r\<lparr>rm_posted := ts @ us\<rparr>)"
  by (simp add: rinv_def held_def ac_simps)

lemma rinv_push: "rinv (a # X) r \<Longrightarrow> rinv X (r\<lparr>rm_pending_publish := rm_pending_publish r @ [a]\<rparr>)"
  by (simp add: rinv_def held_def ac_simps)

lemma rinv_front: "rm_pending_publish r = a # rest \<Longrightarrow> rinv X r \<Longrightarrow> rinv (a # X) (r\<lparr>rm_pending_publish := rest\<rparr>)"
  by (simp add: rinv_def held_def ac_simps)


section \<open>Every operation keeps the invariant\<close>

abbreviation keeps_rinv :: "addr list \<Rightarrow> ('j, 'a) roomm \<Rightarrow> bool" where
  "keeps_rinv X m \<equiv> valid (rinv X) m (\<lambda>_. rinv X) (rinv [])"

named_theorems rinv_intros

lemma rinv_frame:
  assumes "\<And>r. rm_heap (g r) = rm_heap r" "\<And>r. rm_remote (g r) = rm_remote r" "\<And>r. rm_local (g r) = rm_local r"
    "\<And>r. rm_pending_publish (g r) = rm_pending_publish r" "\<And>r. rm_posted (g r) = rm_posted r"
  shows "rinv X (g r) = rinv X r"
  by (simp add: rinv_def held_def assms)

lemma keeps_modify:
  assumes "\<And>r. rm_heap (g r) = rm_heap r" "\<And>r. rm_remote (g r) = rm_remote r" "\<And>r. rm_local (g r) = rm_local r"
    "\<And>r. rm_pending_publish (g r) = rm_pending_publish r" "\<And>r. rm_posted (g r) = rm_posted r"
  shows "keeps_rinv X (smodify g)"
  using rinv_frame [of g X] assms by (simp add: valid_def)

lemma keeps_sret [rinv_intros]: "keeps_rinv X (sret x)"
  by (simp add: valid_def)

lemma keeps_slift [rinv_intros]: "keeps_rinv X (slift x)"
  by (auto simp: valid_def rinv_Nil split: sum.split)

lemma keeps_field [rinv_intros]: "keeps_rinv X (field J as k j)"
  unfolding field_def by (rule keeps_slift)

lemma keeps_deref [rinv_intros]: "keeps_rinv X (rm_deref p)"
  by (auto simp: valid_def rm_deref_def rinv_Nil split: sum.split)

lemma keeps_observer [rinv_intros]: "keeps_rinv X (rm_observer c)"
  unfolding rm_observer_def by (rule keeps_modify) simp_all

lemma keeps_Update [rinv_intros]: "keeps_rinv X (rm_Update st)"
  unfolding rm_Update_def by (rule keeps_modify) simp_all

lemma keeps_signaling [rinv_intros]: "keeps_rinv X (on_signaling f)"
proof (rule validI)
  fix r :: "'a room" and x t
  assume "rinv X r" "on_signaling f r = (Inr x, t)"
  then show "rinv X t" by (auto simp: on_signaling_def rinv_def held_def split: prod.splits)
next
  fix r :: "'a room" and e t
  assume "rinv X r" "on_signaling f r = (Inl e, t)"
  then have "rinv X t" by (auto simp: on_signaling_def rinv_def held_def split: prod.splits)
  then show "rinv [] t" by (rule rinv_Nil)
qed

lemma keeps_post: "valid (rinv (task_addrs t @ X)) (rm_PostTask t) (\<lambda>_. rinv X) (rinv [])"
  by (auto simp: valid_def rm_PostTask_def intro: rinv_post)

lemma keeps_post_plain: "task_addrs t = [] \<Longrightarrow> keeps_rinv X (rm_PostTask t)"
  using keeps_post [of t X] by simp

lemma keeps_make_shared [rinv_intros]: "valid (rinv X) (rm_make_shared i) (\<lambda>a. rinv (a # X)) (rinv [])"
  by (auto simp: valid_def rm_make_shared_def intro: rinv_make_shared)

lemmas keeps_index [rinv_intros] = remote_table.keeps_index local_table.keeps_index

lemma keeps_modify_same:
  assumes "\<And>i. si_id (f i) = si_id i"
  shows "keeps_rinv X (rm_modify p f)"
proof (rule validI)
  fix r x t
  assume r: "rinv X r" and "rm_modify p f r = (Inr x, t)"
  then have "t = r\<lparr>rm_heap := (rm_heap r)[the p := f (rm_heap r ! the p)]\<rparr>"
    by (auto simp: rm_modify_def rm_deref_def deref_def sbind_def split: option.splits if_splits)
  then show "rinv X t" using rinv_heap_same [OF r assms] by simp
next
  fix r e t
  assume "rinv X r" "rm_modify p f r = (Inl e, t)"
  then show "rinv [] t"
    by (auto simp: rm_modify_def rm_deref_def deref_def sbind_def rinv_Nil split: option.splits if_splits)
qed

lemma keeps_modify_own: "valid (rinv (a # X)) (rm_modify (Some a) f) (\<lambda>_. rinv (a # X)) (rinv [])"
  by (auto simp: valid_def rm_modify_def rm_deref_def deref_def sbind_def rinv_Nil intro: rinv_heap_own split: if_splits)


text \<open>Handlers of messages.\<close>

lemma keeps_exist_streams: "valid (rinv X) (exist_streams J js) (\<lambda>as. rinv (as @ X)) (rinv [])"
proof (induction js arbitrary: X)
  case Nil
  show ?case by (simp add: valid_def)
next
  case (Cons j js)
  have ret: "valid (rinv (as @ a # X)) (sret (a # as)) (\<lambda>as. rinv (as @ X)) (rinv [])" for a :: addr and as
    by (auto simp: valid_def elim: rinv_drop)
  show ?case
    unfolding exist_streams.simps by (rule valid_sbind keeps_slift keeps_make_shared Cons.IH ret)+
qed

lemma keeps_post_exist_streams: "valid (rinv (as @ X)) (post_exist_streams as) (\<lambda>_. rinv X) (rinv [])"
proof (induction as)
  case Nil
  show ?case by (simp add: valid_def)
next
  case (Cons a as)
  have "valid (rinv (a # as @ X)) (rm_PostTask (TExistStream a)) (\<lambda>_. rinv (as @ X)) (rinv [])"
    using keeps_post [of "TExistStream a" "as @ X"] by simp
  with Cons show ?case unfolding post_exist_streams.simps append_Cons by (intro valid_sbind)
qed

lemma keeps_push_ice: "keeps_rinv X (push_ice_servers J js)"
proof (induction js)
  case Nil
  show ?case unfolding push_ice_servers.simps by (rule keeps_sret)
next
  case (Cons j js)
  show ?case
    unfolding push_ice_servers.simps
    by (rule valid_sbind keeps_slift Cons.IH keeps_modify | simp; fail)+
qed

lemma keeps_clear: "keeps_rinv X (smodify (\<lambda>r. r\<lparr>rm_client_id := c, rm_remote := []\<rparr>))"
proof -
  have "rinv X (r\<lparr>rm_client_id := c, rm_remote := []\<rparr>)" if "rinv X r" for r :: "'a room"
    by (rule rinv_mono [OF that]) (use that in \<open>simp_all add: held_def rinv_def keyed_def\<close>)
  then show ?thesis by (simp add: valid_def)
qed

lemma keeps_join_success: "keeps_rinv X (join_success J body)"
  unfolding join_success_def
  by (rule valid_sbind keeps_field keeps_clear keeps_exist_streams valid_if keeps_slift keeps_push_ice
      keeps_Update keeps_post_exist_streams keeps_post_plain keeps_sret keeps_modify | simp; fail)+

lemma keeps_OnJoinRoom: "keeps_rinv [] (rm_OnJoinRoom J msg)"
  unfolding rm_OnJoinRoom_def
  by (rule valid_scatch valid_sbind valid_if keeps_slift keeps_join_success keeps_Update | assumption)+

lemma keeps_OnAddStream: "keeps_rinv [] (rm_OnAddStream J msg)"
proof -
  have post: "valid (rinv [a]) (rm_PostTask (TAddStream a)) (\<lambda>_. rinv []) (rinv [])" for a
    using keeps_post [of "TAddStream a" "[]"] by simp
  show ?thesis
    unfolding rm_OnAddStream_def
    by (rule valid_scatch valid_sbind keeps_slift keeps_make_shared post keeps_sret | assumption)+
qed

lemma keeps_OnEvent: "keeps_rinv [] (rm_OnEvent J event msg)"
proof -
  have "keeps_rinv [] (rm_OnRemoveStream J msg)"
    unfolding rm_OnRemoveStream_def
    by (rule valid_scatch valid_sbind keeps_slift keeps_field keeps_post_plain keeps_sret task_addrs.simps | assumption)+
  moreover have "keeps_rinv [] (rm_OnErizoConnectionEvent J msg)"
    unfolding rm_OnErizoConnectionEvent_def rm_receiveOffer_def rm_receiveAnswer_def
      rm_OnPeerConnectionConnectErizoReady_def
    by (rule valid_sbind valid_if keeps_slift keeps_field keeps_post_plain keeps_sret task_addrs.simps)+
  ultimately show ?thesis
    unfolding rm_OnEvent_def by (intro valid_if keeps_OnAddStream keeps_sret)
qed

lemma keeps_callback: "keeps_rinv [] (room_callback J c)"
proof -
  have "keeps_rinv [] (scatch (rm_OnEvent J event body) (sret ()))" for event body
    by (rule valid_scatch keeps_OnEvent keeps_sret | assumption)+
  moreover have "keeps_rinv [] (rm_OnSubscribeStream J msg)" "keeps_rinv [] (rm_OnPublishStream msg :: ('a, unit) roomm)" for msg
    unfolding rm_OnSubscribeStream_def rm_OnPublishStream_def
    by (rule valid_sbind keeps_slift keeps_post_plain task_addrs.simps)+
  ultimately show ?thesis
    by (cases "(J, c)" rule: room_callback.cases)
       (simp_all add: rm_OnLeaveRoom_def keeps_OnJoinRoom keeps_Update keeps_sret del: stm_simps)
qed

lemma keeps_callbacks: "keeps_rinv [] (room_callbacks J cs)"
proof (induction cs)
  case Nil
  show ?case unfolding room_callbacks.simps by (rule keeps_sret)
next
  case (Cons c cs)
  show ?case unfolding room_callbacks.simps by (rule valid_sbind keeps_callback Cons.IH)+
qed

lemma keeps_message: "keeps_rinv [] (room_message J msg)"
proof -
  have cbs: "keeps_rinv [] (\<lambda>r'. room_callbacks J (drop n (sg_calls (rm_sig r'))) r')" for n
    by (rule valid_state [where f = "\<lambda>r'. room_callbacks J (drop n (sg_calls (rm_sig r')))"]) (rule keeps_callbacks)
  have "keeps_rinv [] (sbind (on_signaling (sg_OnWebsocketMsg J msg)) (\<lambda>_ r'.
       room_callbacks J (drop n (sg_calls (rm_sig r'))) r'))" for n
    by (rule valid_sbind keeps_signaling cbs)+
  then show ?thesis
    unfolding room_message_def [abs_def]
    by (intro valid_state [where f = "\<lambda>r. sbind (on_signaling (sg_OnWebsocketMsg J msg)) (\<lambda>_ r'.
       room_callbacks J (drop (length (sg_calls (rm_sig r))) (sg_calls (rm_sig r'))) r')"])
qed

text \<open>Lambdas on the worker.\<close>

lemma keeps_publish: "valid (rinv (a # X)) (task_publish pkt a) (\<lambda>_. rinv X) (rinv [])"
proof -
  have push: "valid (rinv (a # X)) (smodify (\<lambda>r. r\<lparr>rm_pending_publish := rm_pending_publish r @ [a]\<rparr>)) (\<lambda>_. rinv X) (rinv [])"
    by (simp add: valid_def rinv_push)
  show ?thesis unfolding task_publish_def by (rule valid_sbind keeps_signaling push)+
qed

lemma keeps_task_send:
  "keeps_rinv X (task_unpublish pkt)" "keeps_rinv X (task_subscribe J k)" "keeps_rinv X (task_unsubscribe J k)"
  unfolding task_unpublish_def task_subscribe_def task_unsubscribe_def
  by (rule keeps_signaling, (rule valid_sbind keeps_slift keeps_signaling keeps_modify | simp; fail)+)

lemma keeps_task_joined: "keeps_rinv X task_joined"
  using valid_state [where f = "\<lambda>r. rm_observer (Obs_OnJoinRoom (rm_id r))"] keeps_observer
  unfolding task_joined_def [abs_def] by blast

lemma keeps_send_sdp: "keeps_rinv X (send_sdp J type k sdp)"
proof -
  have send: "keeps_rinv X (\<lambda>r. sbind (slift (b r)) (\<lambda>pkt. on_signaling (f pkt)) r)"
    for b :: "'a room \<Rightarrow> string res" and f :: "string \<Rightarrow> (room_cb, unit) sigm"
    by (rule valid_state [where f = "\<lambda>r. sbind (slift (b r)) (\<lambda>pkt. on_signaling (f pkt))"])
       (rule valid_sbind keeps_slift keeps_signaling)+
  show ?thesis unfolding send_sdp_def by (rule valid_sbind keeps_index keeps_deref send)+
qed

lemma keeps_send_ice: "keeps_rinv X (task_send_ice J k mid n cand)"
proof -
  have send: "keeps_rinv X (\<lambda>r. sbind (slift (b r)) (\<lambda>pkt. on_signaling (f pkt)) r)"
    for b :: "'a room \<Rightarrow> string res" and f :: "string \<Rightarrow> (room_cb, unit) sigm"
    by (rule valid_state [where f = "\<lambda>r. sbind (slift (b r)) (\<lambda>pkt. on_signaling (f pkt))"])
       (rule valid_sbind keeps_slift keeps_signaling)+
  show ?thesis
    unfolding task_send_ice_def by (rule valid_sbind valid_if keeps_index keeps_sret keeps_deref send)+
qed

lemma keeps_find: "keeps_rinv X (find_remote order connId)" "keeps_rinv X (find_local order connId)"
  by (auto simp: valid_def find_remote_def find_local_def rinv_Nil split: sum.split)

lemma keeps_SetConnected: "keeps_rinv X (rm_modify p (si_SetConnected b))"
  by (rule keeps_modify_same) (simp add: si_SetConnected_def)

lemma keeps_SetConnectionId: "keeps_rinv X (rm_modify p (si_SetConnectionId c))"
  by (rule keeps_modify_same) (simp add: si_SetConnectionId_def)

lemma keeps_ready: "keeps_rinv X (task_ready order connId)"
  unfolding task_ready_def
  by (rule valid_sbind valid_if keeps_find keeps_sret keeps_SetConnected keeps_observer)+

lemma keeps_offer: "keeps_rinv X (task_offer order connId sdp)"
  unfolding task_offer_def by (rule valid_sbind keeps_find keeps_observer)+

lemma keeps_note_erizo_id: "keeps_rinv X (note_erizo_id J at json)"
proof -
  have "keeps_rinv X (if c then sbind (slift (j_as_string J e)) (\<lambda>s. smodify (\<lambda>r. r\<lparr>rm_erizo_id := s\<rparr>)) else sret ())" for c e
    by (rule valid_if valid_sbind keeps_slift keeps_modify keeps_sret | simp; fail)+
  from valid_state [OF this, of "\<lambda>r. rm_erizo_id r = []"]
  have set: "keeps_rinv X (\<lambda>r. if rm_erizo_id r = [] then
       sbind (slift (j_as_string J e)) (\<lambda>s. smodify (\<lambda>r. r\<lparr>rm_erizo_id := s\<rparr>)) r else (Inr (), r))" for e
    by (simp add: if_distribR sret_def cong: if_cong)
  show ?thesis unfolding note_erizo_id_def by (rule valid_sbind keeps_slift set)+
qed

lemma keeps_subscribed: "keeps_rinv X (task_subscribed J json)"
proof -
  have "keeps_rinv X (case q of [] \<Rightarrow> slift (Inl (UB EmptyFront)) | streamId # rest \<Rightarrow>
          sbind (smodify (\<lambda>r. r\<lparr>rm_pending_subscribe := rest\<rparr>)) (\<lambda>_.
          sbind (note_erizo_id J (j_at_c J) json) (\<lambda>_.
          sbind (index_remote streamId) (\<lambda>p.
          sbind (rm_deref p) (\<lambda>_.
          sbind (slift (rbind (j_at_c J 2 json) (j_as_string J))) (\<lambda>c.
          sbind (rm_modify p (si_SetConnectionId c)) (\<lambda>_.
          sbind (index_remote streamId) (\<lambda>p.
          rm_observer (Obs_OnSubscribeStreamAllocateConnId p)))))))))" for q
    by (cases q; simp only: list.case)
       (rule valid_sbind keeps_slift keeps_note_erizo_id keeps_index keeps_deref keeps_SetConnectionId
          keeps_observer keeps_modify | simp; fail)+
  then have "valid (rinv X) (\<lambda>r. (case rm_pending_subscribe r of [] \<Rightarrow> slift (Inl (UB EmptyFront)) | streamId # rest \<Rightarrow>
          sbind (smodify (\<lambda>r. r\<lparr>rm_pending_subscribe := rest\<rparr>)) (\<lambda>_.
          sbind (note_erizo_id J (j_at_c J) json) (\<lambda>_.
          sbind (index_remote streamId) (\<lambda>p.
          sbind (rm_deref p) (\<lambda>_.
          sbind (slift (rbind (j_at_c J 2 json) (j_as_string J))) (\<lambda>c.
          sbind (rm_modify p (si_SetConnectionId c)) (\<lambda>_.
          sbind (index_remote streamId) (\<lambda>p.
          rm_observer (Obs_OnSubscribeStreamAllocateConnId p))))))))) r) (\<lambda>_. rinv X) (rinv [])"
    by (rule valid_state)
  then show ?thesis by (simp add: valid_def task_subscribed_def split: list.splits)
qed


text \<open>Running code holds the object \<open>a\<close>, whose id is \<open>k\<close>, and files it under that id.\<close>

definition holds_id :: "addr \<Rightarrow> uint64 \<Rightarrow> 'j room \<Rightarrow> bool" where
  "holds_id a k r \<longleftrightarrow> rinv [a] r \<and> si_id (rm_heap r ! a) = k"

lemma holds_id_Nil: "holds_id a k r \<Longrightarrow> rinv [] r"
  by (auto simp: holds_id_def intro: rinv_Nil)

lemma id_deref_own: "valid (rinv [a]) (rm_deref (Some a)) (\<lambda>i. holds_id a (si_id i)) (rinv [])"
  by (auto simp: valid_def holds_id_def rm_deref_def deref_def rinv_Nil)

lemma id_deref: "valid (holds_id a k) (rm_deref p) (\<lambda>_. holds_id a k) (rinv [])"
  by (auto simp: valid_def rm_deref_def holds_id_Nil split: sum.split)

lemma id_slift: "valid (holds_id a k) (slift x) (\<lambda>_. holds_id a k) (rinv [])"
  by (auto simp: valid_def holds_id_Nil split: sum.split)

lemma id_index_local: "valid (holds_id a k) (index_local k') (\<lambda>_. holds_id a k) (rinv [])"
  using keeps_index(2) [of "[a]" k' "rinv []"]
  by (auto simp: valid_def holds_id_def index_local_def split: prod.splits sum.splits)

lemma id_SetConnectionId: "valid (holds_id a k) (rm_modify (Some b) (si_SetConnectionId c)) (\<lambda>_. holds_id a k) (rinv [])"
  using keeps_SetConnectionId [of "[a]" "Some b" c]
  by (auto simp: valid_def holds_id_def rm_modify_def rm_deref_def deref_def sbind_def si_SetConnectionId_def
      nth_list_update split: prod.splits sum.splits if_splits)

lemma id_SetId: "valid (rinv [a]) (rm_modify (Some a) (si_SetId k)) (\<lambda>_. holds_id a k) (rinv [])"
  using keeps_modify_own [of a "[]" "si_SetId k"]
  by (auto simp: valid_def holds_id_def rm_modify_def rm_deref_def deref_def sbind_def si_SetId_def
      split: prod.splits sum.splits if_splits)

lemma holds_id_heap: "holds_id a k r \<Longrightarrow> rinv [a] r \<and> si_id (rm_heap r ! a) = k \<and> keyed (rm_heap r) (rm_remote r) \<and>
    keyed (rm_heap r) (rm_local r)"
  by (simp add: holds_id_def rinv_def)

lemma id_update_local:
  "valid (holds_id a k) (smodify (\<lambda>r. r\<lparr>rm_local := AList.update k (Some a) (rm_local r)\<rparr>)) (\<lambda>_. rinv []) (rinv [])"
  by (auto simp: valid_def intro!: local_table.rinv_put [where X = "[]"] ptrs_update keyed_update dest!: holds_id_heap)

lemma id_update_remote:
  "valid (holds_id a k) (smodify (\<lambda>r. r\<lparr>rm_remote := AList.update k (Some a) (rm_remote r)\<rparr>)) (\<lambda>_. rinv []) (rinv [])"
  by (auto simp: valid_def intro!: remote_table.rinv_put [where X = "[]"] ptrs_update keyed_update dest!: holds_id_heap)

lemma id_emplace_remote:
  "valid (holds_id a k) (smodify (\<lambda>r. r\<lparr>rm_remote := um_emplace k (Some a) (rm_remote r)\<rparr>)) (\<lambda>_. rinv []) (rinv [])"
  by (auto simp: valid_def intro!: remote_table.rinv_put [where X = "[]"] um_emplace_ptrs um_emplace_keyed dest!: holds_id_heap)

lemma keeps_exist_stream: "valid (rinv [a]) (task_exist_stream a) (\<lambda>_. rinv []) (rinv [])"
  unfolding task_exist_stream_def by (rule valid_sbind id_deref_own id_emplace_remote keeps_observer)+

lemma keeps_add_stream: "valid (rinv [a]) (task_add_stream a) (\<lambda>_. rinv []) (rinv [])"
  unfolding task_add_stream_def
  by (rule valid_sbind id_deref_own id_index_local valid_if id_deref id_SetConnectionId id_update_local
      id_update_remote keeps_observer)+

lemma keeps_remove_stream: "keeps_rinv [] (task_remove_stream k)"
  by (auto simp: valid_def task_remove_stream_def intro!: remote_table.rinv_put_less ptrs_delete keyed_delete)
     (simp add: rinv_def)

lemma keeps_published: "keeps_rinv [] (task_published J msg)"
proof -
  have body: "valid (rinv [a]) (sbind (slift (j_parse J msg)) (\<lambda>json.
          sbind (note_erizo_id J (j_at J) json) (\<lambda>_.
          sbind (slift (rbind (j_at J 0 json) (j_as_uint J))) (\<lambda>streamId.
          sbind (rm_modify (Some a) (si_SetId streamId)) (\<lambda>_.
          sbind (slift (rbind (j_at J 2 json) (j_as_string J))) (\<lambda>c.
          sbind (rm_modify (Some a) (si_SetConnectionId c)) (\<lambda>_.
          smodify (\<lambda>r. r\<lparr>rm_local := AList.update streamId (Some a) (rm_local r)\<rparr>)))))))) (\<lambda>_. rinv []) (rinv [])" for a
    by (rule valid_sbind id_slift keeps_slift keeps_note_erizo_id id_SetId id_SetConnectionId id_update_local)+
  show ?thesis
  proof (rule validI)
    fix r x t
    assume "rinv [] r" "task_published J msg r = (Inr x, t)"
    then show "rinv [] t"
      using validD [OF body rinv_front] by (fastforce simp: task_published_def split: list.splits)
  next
    fix r e t
    assume "rinv [] r" "task_published J msg r = (Inl e, t)"
    then show "rinv [] t"
      using validD [OF body rinv_front] by (fastforce simp: task_published_def split: list.splits)
  qed
qed

lemma keeps_run_task: "valid (rinv (task_addrs t)) (run_task J order t) (\<lambda>_. rinv []) (rinv [])"
  by (cases t)
     (simp_all add: keeps_publish keeps_task_send keeps_task_joined keeps_exist_stream keeps_add_stream
        keeps_remove_stream keeps_subscribed keeps_published keeps_ready keeps_offer keeps_send_ice
        keeps_send_sdp task_send_answer_def task_send_offer_def)

section \<open>Reachable rooms\<close>

lemma keeps_Join: "keeps_rinv [] rm_Join"
proof -
  have "keeps_rinv [] (if c then sret () else
      sbind (rm_Update RConnecting) (\<lambda>_. sbind (on_signaling f) (\<lambda>_. sret ())))" for c and f :: "(room_cb, bool) sigm"
    by (rule valid_if valid_sbind keeps_Update keeps_signaling keeps_sret)+
  from valid_state [OF this, of "\<lambda>r. rm_CurrentState r \<noteq> RDisconnected" "\<lambda>r. LicodeSignaling_Init (rm_token r)"]
  show ?thesis unfolding rm_Join_def [abs_def] by (simp add: if_distribR sret_def cong: if_cong)
qed

lemma keeps_Leave: "keeps_rinv [] rm_Leave"
proof -
  have "keeps_rinv [] (if c then sret () else on_signaling LicodeSignaling_Dispose)" for c
    by (rule valid_if keeps_signaling keeps_sret)+
  from valid_state [OF this, of "\<lambda>r. rm_CurrentState r = RDisconnected"]
  show ?thesis unfolding rm_Leave_def [abs_def] by (simp add: if_distribR sret_def cong: if_cong)
qed

lemma keeps_client_post: "keeps_rinv [] (rm_SubscribeStream k)" "keeps_rinv [] (rm_UnSubscriberStream k)"
  "keeps_rinv [] (rm_SendAnswer k sdp)" "keeps_rinv [] (rm_SendOffer k sdp)"
  "keeps_rinv [] (rm_SendIceCandidate k mid n cand)"
  unfolding rm_SubscribeStream_def rm_UnSubscriberStream_def rm_SendAnswer_def rm_SendOffer_def rm_SendIceCandidate_def
  by (rule keeps_post_plain; simp)+

lemma keeps_client_publish: "valid (rinv [a]) (rm_PublishStream J (Some a)) (\<lambda>_. rinv []) (rinv [])"
proof -
  have post: "valid (rinv [a]) (rm_PostTask (TPublish pkt (the (Some a)))) (\<lambda>_. rinv []) (rinv [])" for pkt
    using keeps_post [of "TPublish pkt a" "[]"] by simp
  show ?thesis unfolding rm_PublishStream_def by (rule valid_sbind keeps_deref keeps_slift post)+
qed

lemma rinv_take: "rinv [] r \<Longrightarrow> a \<notin># held [] r \<Longrightarrow> a < length (rm_heap r) \<Longrightarrow> rinv [a] r"
  by (auto simp: rinv_def held_def not_in_iff)

lemma PublishStream_object: "rm_PublishStream J (Some a) r = (Inr (), r') \<Longrightarrow> a < length (rm_heap r)"
  by (auto simp: rm_PublishStream_def rm_deref_def deref_def sbind_def split: if_splits)

lemma keeps_UnPublish: "keeps_rinv [] (rm_UnPublishStream J k)"
  unfolding rm_UnPublishStream_def by (rule valid_sbind keeps_slift keeps_post_plain task_addrs.simps)+

lemma rinv_new: "rinv [] (LicodeRoom_new token)"
  by (simp add: rinv_def held_def keyed_def LicodeRoom_new_def)

lemma valid_run: "valid P m (\<lambda>_. Q) E \<Longrightarrow> P s \<Longrightarrow> m s = (Inr x, t) \<Longrightarrow> Q t"
  using validD by fastforce

lemmas keeps_step = keeps_message keeps_Join keeps_Leave keeps_UnPublish keeps_client_post

lemma room_step_rinv: "room_step J r r' \<Longrightarrow> rinv [] r \<Longrightarrow> rinv [] r'"
proof (induction rule: room_step.induct)
  case (worker r t ts alive order r')
  have p: "rinv (task_addrs t) (r\<lparr>rm_posted := ts\<rparr>)"
    using rinv_pop [of r "[]" t ts "[]"] worker by simp
  show ?case
  proof (cases alive)
    case True
    with worker have "run_task J order t (r\<lparr>rm_posted := ts\<rparr>) = (Inr (), r')" by (simp add: rm_SafeTask_def)
    with p show ?thesis by (rule valid_run [OF keeps_run_task])
  next
    case False
    with worker have "r' = r\<lparr>rm_posted := ts\<rparr>" by (simp add: rm_SafeTask_def)
    with rinv_Nil [OF p] show ?thesis by simp
  qed
next
  case (inline r ts t order r')
  have "rinv (task_addrs t) (r\<lparr>rm_posted := ts\<rparr>)"
    using rinv_pop [of r ts t "[]" "[]"] inline by simp
  with inline show ?case by (blast intro: valid_run [OF keeps_run_task])
next
  case (create i r a r')
  have "rinv [a] r'" using validD [OF keeps_make_shared [of "[]" i] create.prems create.hyps] by simp
  then show ?case by (rule rinv_Nil)
next
  case (publish a r r')
  have "rinv [a] r" using publish.prems publish.hyps(1) PublishStream_object [OF publish.hyps(2)] by (rule rinv_take)
  then show ?case using publish.hyps(2) by (rule valid_run [OF keeps_client_publish])
qed (erule valid_run [OF keeps_step(1), rotated] valid_run [OF keeps_step(2), rotated]
      valid_run [OF keeps_step(3), rotated] valid_run [OF keeps_step(4), rotated]
      valid_run [OF keeps_step(5), rotated] valid_run [OF keeps_step(6), rotated]
      valid_run [OF keeps_step(7), rotated] valid_run [OF keeps_step(8), rotated]
      valid_run [OF keeps_step(9), rotated], assumption)+

interpretation room_runs: transition_system "room_step J" "rinv []" for J
  by unfold_locales (rule room_step_rinv)


section \<open>Answers to requests\<close>

fun run_tasks :: "'j json_api \<Rightarrow> (infos \<Rightarrow> infos) \<Rightarrow> 'j room_task list \<Rightarrow> ('j, unit) roomm" where
  "run_tasks J order [] = sret ()"
| "run_tasks J order (t # ts) = sbind (run_task J order t) (\<lambda>_. run_tasks J order ts)"

context nlohmann
begin

lemma note_erizo_id_const:
  assumes "arr json = Some [s, j_string J e, c]"
  shows "note_erizo_id J (j_at_c J) json r = (Inr (), r\<lparr>rm_erizo_id := (if rm_erizo_id r = [] then e else rm_erizo_id r)\<rparr>)"
  using at_c_arr [OF assms, of 1] by (simp add: note_erizo_id_def as_string)

lemma subscribed_step:
  assumes "arr json = Some [s, j_string J e, j_string J c]" "rm_pending_subscribe r = k # rest"
    and "map_of (rm_remote r) k = Some (Some a)" "a < length (rm_heap r)"
  shows "task_subscribed J json r = (Inr (), r\<lparr>rm_pending_subscribe := rest,
      rm_erizo_id := (if rm_erizo_id r = [] then e else rm_erizo_id r),
      rm_heap := (rm_heap r)[a := si_SetConnectionId c (rm_heap r ! a)],
      rm_observed := rm_observed r @ [Obs_OnSubscribeStreamAllocateConnId (Some a)]\<rparr>)"
  using assms(2-4) at_c_arr [OF assms(1), of 2]
  by (simp add: task_subscribed_def sbind_def note_erizo_id_const [OF assms(1)] index_remote_def um_index_def
      rm_deref_def deref_def as_string rm_modify_def rm_observer_def)

lemma subscribed_steps:
  assumes "list_all2 (\<lambda>json (k, a, c). \<exists>s e. arr json = Some [s, j_string J e, j_string J c]) js xs"
    and "rm_pending_subscribe r = map fst xs @ rest"
    and "\<forall>(k, a, c) \<in> set xs. map_of (rm_remote r) k = Some (Some a) \<and> a < length (rm_heap r)"
    and "distinct (map (fst \<circ> snd) xs)"
  shows "\<exists>r'. run_tasks J order (map TSubscribed js) r = (Inr (), r') \<and> rm_pending_subscribe r' = rest \<and>
    (\<forall>(k, a, c) \<in> set xs. si_connection_id (rm_heap r' ! a) = c) \<and>
    (\<forall>b. b \<notin> set (map (fst \<circ> snd) xs) \<longrightarrow> rm_heap r' ! b = rm_heap r ! b) \<and>
    rm_observed r' = rm_observed r @ map (\<lambda>(k, a, c). Obs_OnSubscribeStreamAllocateConnId (Some a)) xs"
  using assms
proof (induction js xs arbitrary: r rule: list_all2_induct)
  case (Cons json js x xs)
  obtain k a c where x: "x = (k, a, c)" by (cases x)
  obtain s e where j: "arr json = Some [s, j_string J e, j_string J c]" using Cons.hyps(1) x by auto
  define r1 where "r1 = r\<lparr>rm_pending_subscribe := map fst xs @ rest,
      rm_erizo_id := (if rm_erizo_id r = [] then e else rm_erizo_id r),
      rm_heap := (rm_heap r)[a := si_SetConnectionId c (rm_heap r ! a)],
      rm_observed := rm_observed r @ [Obs_OnSubscribeStreamAllocateConnId (Some a)]\<rparr>"
  have a: "map_of (rm_remote r) k = Some (Some a)" "a < length (rm_heap r)" using Cons.prems(2) x by auto
  have step: "task_subscribed J json r = (Inr (), r1)"
    using subscribed_step [OF j _ a, of "map fst xs @ rest"] Cons.prems(1) x by (simp add: r1_def)
  have "rm_pending_subscribe r1 = map fst xs @ rest"
    "\<forall>(k, a, c) \<in> set xs. map_of (rm_remote r1) k = Some (Some a) \<and> a < length (rm_heap r1)"
    using Cons.prems(2) by (auto simp: r1_def)
  moreover have "distinct (map (fst \<circ> snd) xs)" using Cons.prems(3) by (simp add: comp_def)
  ultimately have "\<exists>r'. run_tasks J order (map TSubscribed js) r1 = (Inr (), r') \<and> rm_pending_subscribe r' = rest \<and>
    (\<forall>(k, a, c) \<in> set xs. si_connection_id (rm_heap r' ! a) = c) \<and>
    (\<forall>b. b \<notin> set (map (fst \<circ> snd) xs) \<longrightarrow> rm_heap r' ! b = rm_heap r1 ! b) \<and>
    rm_observed r' = rm_observed r1 @ map (\<lambda>(k, a, c). Obs_OnSubscribeStreamAllocateConnId (Some a)) xs"
    by (rule Cons.IH)
  then obtain r' where r': "run_tasks J order (map TSubscribed js) r1 = (Inr (), r')"
    "rm_pending_subscribe r' = rest" "\<forall>(k, a, c) \<in> set xs. si_connection_id (rm_heap r' ! a) = c"
    "\<forall>b. b \<notin> set (map (fst \<circ> snd) xs) \<longrightarrow> rm_heap r' ! b = rm_heap r1 ! b"
    "rm_observed r' = rm_observed r1 @ map (\<lambda>(k, a, c). Obs_OnSubscribeStreamAllocateConnId (Some a)) xs"
    by blast
  have "a \<notin> set (map (fst \<circ> snd) xs)" using Cons.prems(3) x by simp
  with r'(4) a(2) have "si_connection_id (rm_heap r' ! a) = c" by (simp add: r1_def si_SetConnectionId_def)
  with r' step x show ?case by (intro exI [of _ r']) (auto simp: sbind_def r1_def)
qed (simp add: sret_def)

end

section \<open>Joining\<close>

lemma exist_streams_ok:
  assumes "rmap (stream_of_json J (j_get_c J)) js = Inr infos"
  shows "exist_streams J js r = (Inr [length (rm_heap r)..<length (rm_heap r) + length infos], r\<lparr>rm_heap := rm_heap r @ infos\<rparr>)"
  using assms
proof (induction js arbitrary: infos r)
  case (Cons j js)
  obtain i rest where i: "stream_of_json J (j_get_c J) j = Inr i" "rmap (stream_of_json J (j_get_c J)) js = Inr rest"
    "infos = i # rest" using Cons.prems by (auto simp: rbind_Inr_iff)
  have "[length (rm_heap r)..<length (rm_heap r) + length infos] =
      length (rm_heap r) # [Suc (length (rm_heap r))..<Suc (length (rm_heap r)) + length rest]"
    unfolding i(3) by (subst upt_conv_Cons) simp_all
  with i Cons.IH [OF i(2), of "r\<lparr>rm_heap := rm_heap r @ [i]\<rparr>"] show ?case
    by (simp add: sbind_def rm_make_shared_def)
qed (simp add: sret_def)

lemma push_ice_ok:
  "rmap (ice_of_json J) js = Inr ices \<Longrightarrow>
     push_ice_servers J js r = (Inr (), r\<lparr>rm_ice_server_list := rm_ice_server_list r @ ices\<rparr>)"
proof (induction js arbitrary: ices r)
  case (Cons j js)
  obtain i rest where i: "ice_of_json J j = Inr i" "rmap (ice_of_json J) js = Inr rest" "ices = i # rest"
    using Cons.prems by (auto simp: rbind_Inr_iff)
  with Cons.IH [OF i(2), of "r\<lparr>rm_ice_server_list := rm_ice_server_list r @ [i]\<rparr>"] show ?case by simp
qed (simp add: sret_def)

lemma post_exist_ok: "post_exist_streams as r = (Inr (), r\<lparr>rm_posted := rm_posted r @ map TExistStream as\<rparr>)"
  by (induction as arbitrary: r) (simp_all add: rm_PostTask_def)


text \<open>
  The response to a token that is complete: a success with all values of the right types. \<^verbatim>\<open>p2p\<close> may
  be there or not.
\<close>

record 'j join_msg =
  jm_id :: string
  jm_client :: string
  jm_streams :: "stream_info list"
  jm_p2p :: "bool option"
  jm_default_bw :: int
  jm_max_bw :: int
  jm_single_pc :: bool
  jm_ice :: "ice_server list"

definition join_body :: "'j json_api \<Rightarrow> ('j \<Rightarrow> (string \<rightharpoonup> 'j) option) \<Rightarrow> ('j \<Rightarrow> 'j list option) \<Rightarrow>
    'j join_msg \<Rightarrow> 'j \<Rightarrow> bool" where
  "join_body J obj arr b body \<longleftrightarrow> (\<exists>m sj ss ij is.
     obj body = Some m \<and> m ''id'' = Some (j_string J (jm_id b)) \<and> m ''clientId'' = Some (j_string J (jm_client b)) \<and>
     m ''streams'' = Some sj \<and> arr sj = Some ss \<and> rmap (stream_of_json J (j_get_c J)) ss = Inr (jm_streams b) \<and>
     m ''p2p'' = map_option (j_bool J) (jm_p2p b) \<and>
     m ''defaultVideoBW'' = Some (j_int J (jm_default_bw b)) \<and> m ''maxVideoBW'' = Some (j_int J (jm_max_bw b)) \<and>
     int32_min \<le> jm_default_bw b \<and> jm_default_bw b \<le> int32_max \<and>
     int32_min \<le> jm_max_bw b \<and> jm_max_bw b \<le> int32_max \<and>
     m ''singlePC'' = Some (j_bool J (jm_single_pc b)) \<and>
     m ''iceServers'' = Some ij \<and> arr ij = Some is \<and> rmap (ice_of_json J) is = Inr (jm_ice b))"

definition joined :: "'j join_msg \<Rightarrow> 'j room \<Rightarrow> 'j room" where
  "joined b r = r\<lparr>rm_id := jm_id b, rm_client_id := jm_client b, rm_remote := [],
     rm_heap := rm_heap r @ jm_streams b, rm_p2p := (case jm_p2p b of None \<Rightarrow> rm_p2p r | Some p \<Rightarrow> p), rm_default_video_bw := jm_default_bw b,
     rm_max_video_bw := jm_max_bw b, rm_single_pc := jm_single_pc b, rm_ice_server_list := jm_ice b,
     rm_state := RConnected, rm_posted := rm_posted r @ TJoined #
       map TExistStream [length (rm_heap r)..<length (rm_heap r) + length (jm_streams b)]\<rparr>"

context nlohmann
begin

lemma field_present: "obj j = Some m \<Longrightarrow> m k = Some v \<Longrightarrow> field J as k j = slift (as v)"
  by (simp add: field_def get_obj)

lemma join_success_ok:
  assumes "join_body J obj arr b body"
  shows "join_success J body r = (Inr (), joined b r)"
proof -
  obtain m sj ss ij is' where body: "obj body = Some m" and v: "m ''id'' = Some (j_string J (jm_id b))"
    "m ''clientId'' = Some (j_string J (jm_client b))" "m ''streams'' = Some sj" "m ''p2p'' = map_option (j_bool J) (jm_p2p b)"
    "m ''defaultVideoBW'' = Some (j_int J (jm_default_bw b))" "m ''maxVideoBW'' = Some (j_int J (jm_max_bw b))"
    "m ''singlePC'' = Some (j_bool J (jm_single_pc b))" "m ''iceServers'' = Some ij"
    and e: "j_elems J sj = ss" "rmap (stream_of_json J (j_get_c J)) ss = Inr (jm_streams b)"
    "j_elems J ij = is'" "rmap (ice_of_json J) is' = Inr (jm_ice b)"
    and n: "j_as_int J (j_int J (jm_default_bw b)) = Inr (jm_default_bw b)"
    "j_as_int J (j_int J (jm_max_bw b)) = Inr (jm_max_bw b)"
    using assms elems_arr as_int unfolding join_body_def by blast
  note f = field_present [OF body]
  have p2p: "(if j_contains J ''p2p'' body then sbind (field J (j_as_bool J) ''p2p'' body) (\<lambda>b. smodify (\<lambda>r. r\<lparr>rm_p2p := b\<rparr>)) else sret ()) =
      smodify (\<lambda>r. r\<lparr>rm_p2p := (case jm_p2p b of None \<Rightarrow> rm_p2p r | Some p \<Rightarrow> p)\<rparr>)"
    using contains_obj [OF body] v(4) by (cases "jm_p2p b") (auto simp: f as_bool fun_eq_iff sret_def smodify_def)
  show ?thesis
    unfolding join_success_def
    by (simp add: f [OF v(1)] f [OF v(2)] f [OF v(5)] f [OF v(6)] f [OF v(7)] get_obj [OF body v(3)]
        get_obj [OF body v(8)] as_string as_bool n e sbind_simps(2) [OF exist_streams_ok [OF e(2)]] p2p
        sbind_simps(2) [OF push_ice_ok [OF e(4)]] rm_Update_def rm_PostTask_def post_exist_ok joined_def
        cong: option.case_cong)
qed

lemma OnJoinRoom_success:
  assumes "j_parse J msg = Inr json" "arr json = Some [j_string J ''success'', body]" "join_body J obj arr b body"
  shows "rm_OnJoinRoom J msg r = (Inr (), joined b r)"
  using at_arr [OF assms(2), of 0] at_arr [OF assms(2), of 1]
  by (simp add: rm_OnJoinRoom_def scatch_def assms(1) eq_string join_success_ok [OF assms(3)])

end

lemma OnJoinRoom_nothrow: "nothrow (rm_OnJoinRoom J msg)"
  by (auto simp: nothrow_def rm_OnJoinRoom_def scatch_def rm_Update_def split: prod.splits sum.splits cpp_error.splits)


text \<open>Up to the point where it reports success, \<^verbatim>\<open>OnJoinRoom\<close> posts nothing.\<close>

definition posts :: "'j room_task list \<Rightarrow> 'j room \<Rightarrow> bool" where
  "posts ts r \<longleftrightarrow> rm_posted r = ts"

abbreviation posts_nothing :: "'j room_task list \<Rightarrow> ('j, 'a) roomm \<Rightarrow> bool" where
  "posts_nothing ts m \<equiv> valid (posts ts) m (\<lambda>_. posts ts) (posts ts)"

lemma posts_nothing_basic:
  "posts_nothing ts (slift x)" "posts_nothing ts (field J as k j)" "posts_nothing ts (rm_Update st)"
  "posts_nothing ts (rm_make_shared i)" "posts_nothing ts (sret y)"
  by (auto simp: valid_def posts_def field_def rm_Update_def rm_make_shared_def split: sum.split)

lemma posts_nothing_modify: "(\<And>r. rm_posted (g r) = rm_posted r) \<Longrightarrow> posts_nothing ts (smodify g)"
  by (simp add: valid_def posts_def)

lemma posts_nothing_exist: "posts_nothing ts (exist_streams J js)"
proof (induction js)
  case (Cons j js)
  show ?case unfolding exist_streams.simps by (rule valid_sbind posts_nothing_basic Cons.IH)+
qed (simp add: valid_def)

lemma posts_nothing_ice: "posts_nothing ts (push_ice_servers J js)"
proof (induction js)
  case (Cons j js)
  show ?case
    unfolding push_ice_servers.simps
    by (rule valid_sbind posts_nothing_basic posts_nothing_modify Cons.IH | simp; fail)+
qed (simp add: valid_def)

lemma join_success_connects:
  "valid (posts ts) (join_success J body) (\<lambda>_ r. rm_state r = RConnected) (posts ts)"
proof -
  have up: "valid (posts ts) (rm_Update RConnected) (\<lambda>_ r. rm_state r = RConnected) (posts ts)"
    and post: "valid (\<lambda>r. rm_state r = RConnected) (rm_PostTask TJoined) (\<lambda>_ r. rm_state r = RConnected) (posts ts)"
    by (simp_all add: valid_def rm_Update_def rm_PostTask_def)
  have posts: "valid (\<lambda>r. rm_state r = RConnected) (post_exist_streams as) (\<lambda>_ r. rm_state r = RConnected) (posts ts)" for as
    by (simp add: valid_def post_exist_ok)
  show ?thesis
    unfolding join_success_def
    by (rule valid_sbind up post posts posts_nothing_exist posts_nothing_ice valid_if posts_nothing_basic
        posts_nothing_modify | simp; fail)+
qed

lemma OnJoinRoom_outcome:
  assumes "rm_OnJoinRoom J msg r = (Inr (), r')"
  shows "rm_state r' = RConnected \<or> rm_state r' = RDisconnected \<and> rm_posted r' = rm_posted r"
proof -
  let ?Q = "\<lambda>_ r'. rm_state r' = RConnected \<or> rm_state r' = RDisconnected \<and> posts (rm_posted r) r'"
  have up: "valid (posts (rm_posted r)) (rm_Update RDisconnected) ?Q (posts (rm_posted r))"
    by (simp add: valid_def rm_Update_def posts_def)
  have ok: "valid (posts (rm_posted r)) (join_success J body) ?Q (posts (rm_posted r))" for body
    using join_success_connects [of "rm_posted r" J body] by (auto simp: valid_def split: prod.splits sum.splits)
  have "valid (posts (rm_posted r)) (rm_OnJoinRoom J msg) ?Q (posts (rm_posted r))"
    unfolding rm_OnJoinRoom_def
    by (rule valid_scatch valid_sbind valid_if up ok posts_nothing_basic | assumption)+
  from validD [OF this _ assms] show ?thesis by (simp add: posts_def)
qed

section \<open>Ready events\<close>

lemma find_connection_skips:
  assumes "\<forall>(k, p) \<in> set m. \<exists>i. deref h p = Inr i \<and> si_connection_id i \<noteq> connId"
  shows "find_connection h connId (m @ m') = find_connection h connId m'"
  using assms by (induction m) auto

lemma add_stream_leaves_null:
  assumes "run_task J order (TAddStream a) r = (Inr (), r')" "map_of (rm_local r) (si_id (rm_heap r ! a)) = None"
  shows "(si_id (rm_heap r ! a), None) \<in> set (rm_local r')"
  using assms
  by (auto simp: task_add_stream_def sbind_def rm_deref_def deref_def index_local_def um_index_def rm_observer_def
      split: if_splits)


section \<open>Properties\<close>

text \<open>
  C17: In every room that messages, calls and the worker can lead to, in any order, provided the client publishes no stream object
  that the room holds at the time, the keys of each stream table are distinct, every entry that is not null
  points to a living object that has the entry's key as its id, and no object is in both tables or has two entries,
  so that a connection id set for one stream never reaches another. (Null entries exist: a lookup with
  \<^verbatim>\<open>operator[]\<close> makes them.)
\<close>

theorem streams_keyed_by_id:
  assumes "(room_step J)\<^sup>*\<^sup>* (LicodeRoom_new token) r" "(k, Some a) \<in> set (rm_remote r) \<union> set (rm_local r)"
  shows "a < length (rm_heap r) \<and> si_id (rm_heap r ! a) = k \<and>
    (\<forall>k'. (k', Some a) \<in> set (rm_remote r) \<union> set (rm_local r) \<longrightarrow> k' = k) \<and>
    \<not> ((k, Some a) \<in> set (rm_remote r) \<and> (k, Some a) \<in> set (rm_local r)) \<and>
    distinct (map fst (rm_remote r)) \<and> distinct (map fst (rm_local r))"
proof -
  have r: "rinv [] r" by (rule room_runs.invar_reach [OF assms(1) rinv_new])
  have k: "si_id (rm_heap r ! a) = k'" if "(k', Some a) \<in> set (rm_remote r) \<union> set (rm_local r)" for k'
    using r that by (auto simp: rinv_def keyed_def)
  have "a \<in># held [] r" using assms(2) by (auto simp: held_def ptrs_mem)
  with r have "a < length (rm_heap r)" by (simp add: rinv_def)
  moreover have "\<not> (a \<in># ptrs (rm_remote r) \<and> a \<in># ptrs (rm_local r))"
  proof -
    have "count (held [] r) a \<le> 1" using r by (simp add: rinv_def)
    then have "count (ptrs (rm_remote r)) a = 0 \<or> count (ptrs (rm_local r)) a = 0"
      unfolding held_def by (simp only: count_union) linarith
    then show ?thesis by (simp add: count_eq_zero_iff)
  qed
  then have "\<not> ((k, Some a) \<in> set (rm_remote r) \<and> (k, Some a) \<in> set (rm_local r))" by (auto simp: ptrs_mem)
  moreover have "k' = k" if "(k', Some a) \<in> set (rm_remote r) \<union> set (rm_local r)" for k'
    using k [OF that] k [OF assms(2)] by simp
  moreover have "distinct (map fst (rm_remote r))" "distinct (map fst (rm_local r))"
    using r by (simp_all add: rinv_def keyed_def)
  ultimately show ?thesis using k [OF assms(2)] by blast
qed

definition own_stream :: stream_info where
  "own_stream = LicodeStreamInfo_new_local True True False ''me'' False []"

definition publish_answer :: string where
  "publish_answer = dump (JArr [JNum 5, JStr ''e'', JStr ''c''])"

lemma publish_answer_arrives:
  "ref_parse publish_answer = Inr (JArr [JNum 5, JStr ''e'', JStr ''c''])"
  "no_digit publish_answer" "str_ok (''43333'' @ publish_answer)"
proof -
  have "parse publish_answer = Some (JArr [JNum 5, JStr ''e'', JStr ''c''])"
    unfolding publish_answer_def by (rule parse_dump) simp
  then show "ref_parse publish_answer = Inr (JArr [JNum 5, JStr ''e'', JStr ''c''])"
    by (simp add: ref_parse_def)
  show "no_digit publish_answer" by (simp add: publish_answer_def no_digit_def is_digit_def)
  show "str_ok (''43333'' @ publish_answer)"
    by (simp add: publish_answer_def dump_str_def escape_def escapes_def show_int_def show_nat.simps npos_def size_max_def)
qed

text \<open>
  A stream that is published while it is in the table of local streams is in it under two keys, one of which is not its id.
\<close>

lemma published_twice:
  assumes "rm_heap r = [i]" "rm_local r = [(4, Some 0)]" "rm_pending_publish r = [0]"
  shows "\<exists>r'. run_task json_ref order (TPublished publish_answer) r = (Inr (), r') \<and>
    set (rm_local r') = {(4, Some 0), (5, Some 0)} \<and> si_id (rm_heap r' ! 0) = 5"
  using assms by (simp add: task_published_def sbind_def publish_answer_arrives(1) note_erizo_id_def rm_modify_def rm_deref_def
      deref_def json_ref_defs insert_commute) (simp add: si_SetConnectionId_def si_SetId_def)

lemma publish_run:
  "\<exists>r. (room_step json_ref)\<^sup>*\<^sup>* (LicodeRoom_new no_token) r \<and> rm_local r = [(5, Some 0)] \<and> rm_remote r = [] \<and>
     rm_heap r = [si_SetConnectionId ''c'' (si_SetId 5 own_stream)] \<and> rm_posted r = []"
proof -
  define r0 :: "json room" where "r0 = LicodeRoom_new no_token"
  obtain pkt where pkt: "PublicStream_Build json_ref (PublicStream_SetState ''erizo''
      (PublicStream_SetLabel (si_label own_stream) PublicStream_new)) = Inr pkt"
    using ref.PublicStream_arrives [of "PublicStream_SetState ''erizo'' (PublicStream_SetLabel (si_label own_stream) PublicStream_new)"]
    by (auto simp: arrives_def PublicStream_SetState_def PublicStream_SetLabel_def own_stream_def
        LicodeStreamInfo_new_local_def LicodeStreamInfo_new_def)
  have "room_step json_ref r0 (r0\<lparr>rm_heap := [own_stream]\<rparr>)"
    by (rule room_step.create [where i = own_stream and a = 0]) (simp add: rm_make_shared_def r0_def LicodeRoom_new_def)
  moreover have "room_step json_ref (r0\<lparr>rm_heap := [own_stream]\<rparr>) (r0\<lparr>rm_heap := [own_stream], rm_posted := [TPublish pkt 0]\<rparr>)"
    by (rule room_step.publish [where a = 0])
       (simp_all add: held_def sbind_def rm_PublishStream_def rm_deref_def deref_def pkt rm_PostTask_def r0_def LicodeRoom_new_def)
  moreover have "room_step json_ref (r0\<lparr>rm_heap := [own_stream], rm_posted := [TPublish pkt 0]\<rparr>)
      (r0\<lparr>rm_heap := [own_stream], rm_posted := [], rm_pending_publish := [0]\<rparr>)"
    by (rule room_step.worker [where t = "TPublish pkt 0" and ts = "[]" and alive = True])
       (simp_all add: rm_SafeTask_def task_publish_def on_signaling_def LicodeSignaling_SendMsg_def
          sg_CurrentState_def r0_def LicodeRoom_new_def LicodeSignaling_new_def sg_SetOnPublishCallback_def
          sg_SetOnSubscribeCallback_def sg_SetOnEventCallback_def sg_SetOnSignalingDisconnectCallback_def
          sg_SetOnInitTokenCallback_def)
  moreover have "\<exists>sg. room_step json_ref (r0\<lparr>rm_heap := [own_stream], rm_posted := [], rm_pending_publish := [0]\<rparr>)
      (r0\<lparr>rm_heap := [own_stream], rm_posted := [TPublished publish_answer], rm_pending_publish := [0], rm_sig := sg\<rparr>)"
    by (intro exI, rule room_step.message [where msg = "''43333'' @ publish_answer"])
       (simp only: room_message_def on_signaling_def dispatch_code(7) [OF publish_answer_arrives(2,3)] sbind_def,
        simp add: sg_ProcessPublishStream_def sg_emit_def rm_OnPublishStream_def rm_PostTask_def sbind_def
          r0_def LicodeRoom_new_def LicodeSignaling_new_def sg_SetOnPublishCallback_def
          sg_SetOnSubscribeCallback_def sg_SetOnEventCallback_def sg_SetOnSignalingDisconnectCallback_def
          sg_SetOnInitTokenCallback_def)
  moreover have "room_step json_ref
      (r0\<lparr>rm_heap := [own_stream], rm_posted := [TPublished publish_answer], rm_pending_publish := [0], rm_sig := sg\<rparr>)
      (r0\<lparr>rm_heap := [si_SetConnectionId ''c'' (si_SetId 5 own_stream)], rm_posted := [], rm_pending_publish := [],
          rm_sig := sg, rm_erizo_id := ''e'', rm_local := [(5, Some 0)]\<rparr>)" for sg
    by (rule room_step.worker [where t = "TPublished publish_answer" and ts = "[]" and alive = True])
       (simp_all add: rm_SafeTask_def task_published_def sbind_def publish_answer_arrives(1) note_erizo_id_def
          rm_modify_def rm_deref_def deref_def json_ref_defs r0_def LicodeRoom_new_def)
  ultimately have "\<exists>sg. (room_step json_ref)\<^sup>*\<^sup>* r0 (r0\<lparr>rm_heap := [si_SetConnectionId ''c'' (si_SetId 5 own_stream)],
      rm_posted := [], rm_pending_publish := [], rm_sig := sg, rm_erizo_id := ''e'', rm_local := [(5, Some 0)]\<rparr>)"
    by (meson rtranclp.rtrancl_into_rtrancl rtranclp.rtrancl_refl)
  then obtain sg where "(room_step json_ref)\<^sup>*\<^sup>* r0 (r0\<lparr>rm_heap := [si_SetConnectionId ''c'' (si_SetId 5 own_stream)],
      rm_posted := [], rm_pending_publish := [], rm_sig := sg, rm_erizo_id := ''e'', rm_local := [(5, Some 0)]\<rparr>)" ..
  then show ?thesis unfolding r0_def by (intro exI conjI) (assumption | simp add: LicodeRoom_new_def)+
qed

theorem streams_keyed_by_id_witness:
  "\<exists>r. (room_step json_ref)\<^sup>*\<^sup>* (LicodeRoom_new no_token) r \<and> (5, Some 0) \<in> set (rm_local r) \<and>
     si_id (rm_heap r ! 0) = 5 \<and> (5, Some 0) \<notin> set (rm_remote r)"
proof -
  obtain r where r: "(room_step json_ref)\<^sup>*\<^sup>* (LicodeRoom_new no_token) r" "rm_local r = [(5, Some 0)]"
    using publish_run by blast
  then have "(5, Some 0) \<in> set (rm_remote r) \<union> set (rm_local r)" by simp
  from streams_keyed_by_id [OF r(1) this] r show ?thesis by (intro exI [of _ r]) auto
qed

text \<open>
  C18: Responses to subscriptions are matched in the order of the requests: the requests append
  to the queue, and the responses give each queued stream its own connection id,
  change no other stream, and reach the observer in that order.
\<close>

theorem subscribe_answers_in_order:
  assumes "nlohmann J obj arr plain"
    and "list_all2 (\<lambda>json (k, a, c). \<exists>s e. arr json = Some [s, j_string J e, j_string J c]) js xs"
    and "rm_pending_subscribe r = map fst xs @ rest"
    and "\<forall>(k, a, c) \<in> set xs. map_of (rm_remote r) k = Some (Some a) \<and> a < length (rm_heap r)"
    and "distinct (map (fst \<circ> snd) xs)"
  shows "(\<forall>k q q'. run_task J order (TSubscribe k) q = (Inr (), q') \<longrightarrow>
      rm_pending_subscribe q' = rm_pending_subscribe q @ [k]) \<and>
    (\<exists>r'. run_tasks J order (map TSubscribed js) r = (Inr (), r') \<and> rm_pending_subscribe r' = rest \<and>
      (\<forall>(k, a, c) \<in> set xs. si_connection_id (rm_heap r' ! a) = c) \<and>
      (\<forall>b. b \<notin> set (map (fst \<circ> snd) xs) \<longrightarrow> rm_heap r' ! b = rm_heap r ! b) \<and>
      rm_observed r' = rm_observed r @ map (\<lambda>(k, a, c). Obs_OnSubscribeStreamAllocateConnId (Some a)) xs)"
proof
  show "\<forall>k q q'. run_task J order (TSubscribe k) q = (Inr (), q') \<longrightarrow>
      rm_pending_subscribe q' = rm_pending_subscribe q @ [k]"
    by (auto simp: task_subscribe_def sbind_def on_signaling_def split: sum.splits prod.splits)
qed (rule nlohmann.subscribed_steps [OF assms])

definition two_streams :: "json room" where
  "two_streams = (LicodeRoom_new no_token)\<lparr>rm_heap := [own_stream, own_stream],
     rm_remote := [(7, Some 0), (9, Some 1)], rm_pending_subscribe := [9, 7]\<rparr>"

theorem subscribe_answers_in_order_witness:
  "\<exists>r'. run_tasks json_ref id (map TSubscribed [JArr [JBool True, JStr ''e'', JStr ''c9''],
        JArr [JBool True, JStr ''e'', JStr ''c7'']]) two_streams = (Inr (), r') \<and>
     si_connection_id (rm_heap r' ! 1) = ''c9'' \<and> si_connection_id (rm_heap r' ! 0) = ''c7''"
proof -
  have "list_all2 (\<lambda>json (k, a, c). \<exists>s e. arr_of json = Some [s, j_string json_ref e, j_string json_ref c])
      [JArr [JBool True, JStr ''e'', JStr ''c9''], JArr [JBool True, JStr ''e'', JStr ''c7'']]
      [(9, 1, ''c9''), (7, 0, ''c7'')]"
    by (simp add: arr_of_def json_ref_def)
  from subscribe_answers_in_order [OF ref.nlohmann_axioms this, of two_streams "[]" id] show ?thesis
    by (auto simp: two_streams_def)
qed


text \<open>
  C33: \<^verbatim>\<open>OnJoinRoom\<close> throws nothing, and when it returns the room is connected, or disconnected with
  nothing posted. A complete success response takes over the room's values (\<^verbatim>\<open>p2p\<close> where the response has
  it), clears the remote table, and posts the report of the join followed by one task per existing stream.
\<close>

theorem join_outcome:
  assumes "nlohmann J obj arr plain"
  shows "fst (rm_OnJoinRoom J msg r) \<noteq> Inl (Exn e) \<and>
    (\<forall>r'. rm_OnJoinRoom J msg r = (Inr (), r') \<longrightarrow>
       rm_state r' = RConnected \<or> rm_state r' = RDisconnected \<and> rm_posted r' = rm_posted r) \<and>
    (\<forall>json body b. j_parse J msg = Inr json \<and> arr json = Some [j_string J ''success'', body] \<and>
       join_body J obj arr b body \<longrightarrow> rm_OnJoinRoom J msg r = (Inr (), joined b r))"
proof (intro conjI allI impI)
  show "fst (rm_OnJoinRoom J msg r) \<noteq> Inl (Exn e)"
    using OnJoinRoom_nothrow unfolding nothrow_def by blast
next
  fix r'
  assume "rm_OnJoinRoom J msg r = (Inr (), r')"
  then show "rm_state r' = RConnected \<or> rm_state r' = RDisconnected \<and> rm_posted r' = rm_posted r"
    by (rule OnJoinRoom_outcome)
next
  fix json body b
  assume "j_parse J msg = Inr json \<and> arr json = Some [j_string J ''success'', body] \<and> join_body J obj arr b body"
  then show "rm_OnJoinRoom J msg r = (Inr (), joined b r)"
    using nlohmann.OnJoinRoom_success [OF assms] by blast
qed

definition join_json :: json where
  "join_json = JObj [(''clientId'', JStr ''c1''), (''defaultVideoBW'', JNum 300),
     (''iceServers'', JArr [JObj [(''url'', JStr ''stun:s'')]]), (''id'', JStr ''r1''), (''maxVideoBW'', JNum 300),
     (''p2p'', JBool True), (''singlePC'', JBool False),
     (''streams'', JArr [JObj [(''attributes'', JNull), (''audio'', JBool True), (''data'', JBool False),
        (''id'', JNum 7), (''label'', JStr ''l''), (''screen'', JBool False), (''video'', JBool True)]])]"

definition join_answer :: string where
  "join_answer = dump (JArr [JStr ''success'', join_json])"

definition join_values :: "json join_msg" where
  "join_values = \<lparr>jm_id = ''r1'', jm_client = ''c1'',
     jm_streams = [LicodeStreamInfo_new 7 True True False ''l'' False ''null''],
     jm_p2p = Some True, jm_default_bw = 300, jm_max_bw = 300, jm_single_pc = False,
     jm_ice = [\<lparr>ice_url = ''stun:s'', ice_username = [], ice_credential = []\<rparr>]\<rparr>"

lemma join_answer_arrives: "j_parse json_ref join_answer = Inr (JArr [JStr ''success'', join_json])"
proof -
  have "parse join_answer = Some (JArr [JStr ''success'', join_json])"
    unfolding join_answer_def
    by (rule parse_dump) code_simp
  then show ?thesis by (simp add: json_ref_def ref_parse_def)
qed

lemma join_values_body: "join_body json_ref obj_of arr_of join_values join_json"
  unfolding join_body_def
  by (rule exI, rule exI, rule exI, rule exI, rule exI, intro conjI)
     (simp add: join_json_def join_values_def obj_of_def arr_of_def json_ref_defs stream_of_json_def ice_of_json_def
        int32_min_def int32_max_def; fail)+


theorem join_outcome_witness:
  "rm_OnJoinRoom json_ref join_answer (LicodeRoom_new no_token) = (Inr (), joined join_values (LicodeRoom_new no_token)) \<and>
   rm_posted (joined join_values (LicodeRoom_new no_token)) = [TJoined, TExistStream 0]"
proof -
  have "arr_of (JArr [JStr ''success'', join_json]) = Some [j_string json_ref ''success'', join_json]"
    by (simp add: arr_of_def json_ref_def)
  with join_outcome [OF ref.nlohmann_axioms, of join_answer "LicodeRoom_new no_token"] join_answer_arrives
    join_values_body
  have "rm_OnJoinRoom json_ref join_answer (LicodeRoom_new no_token) = (Inr (), joined join_values (LicodeRoom_new no_token))"
    by blast
  then show ?thesis by (simp add: joined_def LicodeRoom_new_def join_values_def)
qed

text \<open>
  A stream of another client leaves a null entry in the table of local streams. From then on a
  ready event for a connection that no remote stream has dereferences null, unless the loop over
  the local streams meets a stream with that connection before such an entry.
\<close>

theorem added_stream_breaks_ready:
  assumes "run_task J order (TAddStream a) r = (Inr (), r')" "map_of (rm_local r) (si_id (rm_heap r ! a)) = None"
    and "order (rm_local r') = before @ (k, None) # after"
    and "\<forall>(k, p) \<in> set (order (rm_remote r') @ before). \<exists>i. deref (rm_heap r') p = Inr i \<and> si_connection_id i \<noteq> connId"
  shows "(si_id (rm_heap r ! a), None) \<in> set (rm_local r') \<and>
    run_task J order (TReady connId) r' = (Inl (UB NullDeref), r')"
proof -
  have "find_connection (rm_heap r') connId (order (rm_remote r') @ []) = Inr None"
    using assms(4) by (subst find_connection_skips) auto
  moreover have "find_connection (rm_heap r') connId (order (rm_local r')) = Inl (UB NullDeref)"
    unfolding assms(3) using assms(4) by (subst find_connection_skips) (auto simp: deref_def)
  ultimately show ?thesis
    using add_stream_leaves_null [OF assms(1,2)]
    by (simp add: task_ready_def sbind_def find_remote_def find_local_def)
qed

definition one_published :: "json room" where
  "one_published = (LicodeRoom_new no_token)\<lparr>rm_heap := [si_SetConnectionId ''c'' (si_SetId 5 own_stream),
     LicodeStreamInfo_new 7 True True False ''l'' False []], rm_local := [(5, Some 0)]\<rparr>"

theorem added_stream_breaks_ready_witness:
  "\<exists>r'. run_task json_ref id (TAddStream 1) one_published = (Inr (), r') \<and>
     run_task json_ref id (TReady ''c'') r' = (Inl (UB NullDeref), r')"
proof -
  let ?r' = "one_published\<lparr>rm_local := [(7, None), (5, Some 0)], rm_remote := [(7, Some 1)],
     rm_observed := [Obs_OnAddRemoteStream 1]\<rparr>"
  have run: "run_task json_ref id (TAddStream 1) one_published = (Inr (), ?r')"
    by (simp add: task_add_stream_def sbind_def rm_deref_def deref_def index_local_def um_index_def rm_observer_def
        one_published_def LicodeRoom_new_def LicodeStreamInfo_new_def)
  have "run_task json_ref id (TReady ''c'') ?r' = (Inl (UB NullDeref), ?r')"
    using added_stream_breaks_ready [OF run, of "[]" 7 "[(5, Some 0)]" "''c''"]
    by (simp add: one_published_def LicodeRoom_new_def LicodeStreamInfo_new_def deref_def)
  with run show ?thesis by blast
qed

end
