(* ===== verification/Webrtc.thy ===== *)
theory Webrtc
  imports Prelude
begin

text \<open>
  \<^verbatim>\<open>core/webrtc_wrapper.cc\<close>, \<^verbatim>\<open>core/webrtc_connection.cc\<close>, \<^verbatim>\<open>core/video_render.cc\<close>: the client's
  use of WebRTC. The peer connection itself is behind an interface: the model records the calls
  made on it, and what the callbacks tell the client's observer. Session
  descriptions are their type and text.
\<close>

section \<open>Enumerations and their names\<close>

datatype signaling_state =
  Stable | HaveLocalOffer | HaveLocalPrAnswer | HaveRemoteOffer | HaveRemotePrAnswer | SigClosed

datatype ice_gathering_state = IceGatheringNew | IceGatheringGathering | IceGatheringComplete

datatype peer_connection_state = PcNew | PcConnecting | PcConnected | PcDisconnected | PcFailed | PcClosed

datatype ice_connection_state =
  IceNew | IceChecking | IceConnected | IceCompleted | IceFailed | IceDisconnected | IceClosed | IceMax

datatype sdp_type = Offer | PrAnswer | Answer | Rollback

text \<open>The numbers of the enumerators, in the order of their declaration.\<close>

primrec signaling_state_int :: "signaling_state \<Rightarrow> int" where
  "signaling_state_int Stable = 0"
| "signaling_state_int HaveLocalOffer = 1"
| "signaling_state_int HaveLocalPrAnswer = 2"
| "signaling_state_int HaveRemoteOffer = 3"
| "signaling_state_int HaveRemotePrAnswer = 4"
| "signaling_state_int SigClosed = 5"

primrec ice_gathering_state_int :: "ice_gathering_state \<Rightarrow> int" where
  "ice_gathering_state_int IceGatheringNew = 0"
| "ice_gathering_state_int IceGatheringGathering = 1"
| "ice_gathering_state_int IceGatheringComplete = 2"

primrec peer_connection_state_int :: "peer_connection_state \<Rightarrow> int" where
  "peer_connection_state_int PcNew = 0"
| "peer_connection_state_int PcConnecting = 1"
| "peer_connection_state_int PcConnected = 2"
| "peer_connection_state_int PcDisconnected = 3"
| "peer_connection_state_int PcFailed = 4"
| "peer_connection_state_int PcClosed = 5"

primrec ice_connection_state_int :: "ice_connection_state \<Rightarrow> int" where
  "ice_connection_state_int IceNew = 0"
| "ice_connection_state_int IceChecking = 1"
| "ice_connection_state_int IceConnected = 2"
| "ice_connection_state_int IceCompleted = 3"
| "ice_connection_state_int IceFailed = 4"
| "ice_connection_state_int IceDisconnected = 5"
| "ice_connection_state_int IceClosed = 6"
| "ice_connection_state_int IceMax = 7"

definition SignalingStateToString :: "int \<Rightarrow> string" where
  "SignalingStateToString state =
     (if state = signaling_state_int Stable then ''Stable''
      else if state = signaling_state_int HaveLocalOffer then ''HaveLocalOffer''
      else if state = signaling_state_int HaveLocalPrAnswer then ''HaveLocalPrAnswer''
      else if state = signaling_state_int HaveRemoteOffer then ''HaveRemoteOffer''
      else if state = signaling_state_int HaveRemotePrAnswer then ''HaveRemotePrAnswer''
      else if state = signaling_state_int SigClosed then ''Closed''
      else ''Unknown'')"

definition IceGatheringStateToString :: "int \<Rightarrow> string" where
  "IceGatheringStateToString state =
     (if state = ice_gathering_state_int IceGatheringNew then ''IceGatheringNew''
      else if state = ice_gathering_state_int IceGatheringGathering then ''IceGatheringGathering''
      else if state = ice_gathering_state_int IceGatheringComplete then ''IceGatheringComplete''
      else ''Unknown'')"

definition IceConnectionStateToString :: "int \<Rightarrow> string" where
  "IceConnectionStateToString state =
     (if state = ice_connection_state_int IceNew then ''IceConnectionNew''
      else if state = ice_connection_state_int IceChecking then ''IceConnectionChecking''
      else if state = ice_connection_state_int IceConnected then ''IceConnectionConnected''
      else if state = ice_connection_state_int IceCompleted then ''IceConnectionConnected''
      else if state = ice_connection_state_int IceFailed then ''IceConnectionFailed''
      else if state = ice_connection_state_int IceDisconnected then ''IceConnectionDisconnected''
      else if state = ice_connection_state_int IceClosed then ''IceConnectionClosed''
      else ''Unknown'')"

definition PeerConnectionStateToString :: "int \<Rightarrow> string" where
  "PeerConnectionStateToString state =
     (if state = peer_connection_state_int PcNew then ''New''
      else if state = peer_connection_state_int PcConnecting then ''Connecting''
      else if state = peer_connection_state_int PcConnected then ''Connected''
      else if state = peer_connection_state_int PcDisconnected then ''Disconnected''
      else if state = peer_connection_state_int PcFailed then ''Failed''
      else if state = peer_connection_state_int PcClosed then ''Closed''
      else ''Unknown'')"

section \<open>The wrapper\<close>

text \<open>The one instance; \<open>ww_thread\<close>: the signaling thread exists.\<close>

record wrapper =
  ww_init :: bool
  ww_thread :: bool

datatype rtc_severity = LS_VERBOSE | LS_INFO | LS_WARNING | LS_ERROR | LS_NONE

datatype log_level = KVerbose | KInfo | KWarning | KError | KNone

datatype rtc_call =
    LogTimestamps bool
  | SetLogToStderr bool
  | LogThreads bool
  | LogToDebug rtc_severity
  | Thread_Create
  | Thread_Start

definition WebrtcWrapper_Instance :: wrapper where
  "WebrtcWrapper_Instance = \<lparr>ww_init = False, ww_thread = False\<rparr>"

definition WebrtcWrapper_Init :: "wrapper \<Rightarrow> wrapper \<times> rtc_call list" where
  "WebrtcWrapper_Init w =
     (if ww_init w then (w, [])
      else (w\<lparr>ww_init := True, ww_thread := True\<rparr>,
        [LogTimestamps True, SetLogToStderr True, LogThreads True, Thread_Create, Thread_Start]))"

definition SetWebrtcLogLevel :: "log_level \<Rightarrow> rtc_call list" where
  "SetWebrtcLogLevel level =
     (case level of
        KVerbose \<Rightarrow> [LogToDebug LS_VERBOSE]
      | KInfo \<Rightarrow> [LogToDebug LS_INFO]
      | KWarning \<Rightarrow> [LogToDebug LS_WARNING]
      | KError \<Rightarrow> [LogToDebug LS_ERROR]
      | KNone \<Rightarrow> [LogToDebug LS_NONE])"

definition SignalingThread :: "wrapper \<Rightarrow> bool" where
  "SignalingThread w = ww_thread w"

text \<open>
  \<open>mk_factory\<close> is \<^verbatim>\<open>webrtc::CreatePeerConnectionFactory\<close> on the signaling thread it is given; the
  result says whether the factory pointer is not null.
\<close>

definition CreatePCFactory :: "(bool \<Rightarrow> bool) \<Rightarrow> wrapper \<Rightarrow> bool" where
  "CreatePCFactory mk_factory w = (if \<not> ww_init w then False else mk_factory (SignalingThread w))"

text \<open>\<open>parse\<close> is \<^verbatim>\<open>webrtc::CreateSessionDescription\<close>: the description, or null.\<close>

definition CreateSessionDescription ::
    "(sdp_type \<Rightarrow> string \<Rightarrow> 'd option) \<Rightarrow> sdp_type \<Rightarrow> string \<Rightarrow> 'd option" where
  "CreateSessionDescription parse type sdp = parse type sdp"

section \<open>A connection\<close>

record rtc_ice_server =
  rs_uri :: string
  rs_username :: string
  rs_password :: string

datatype sdp_semantics = KPlanB | KUnifiedPlan
datatype ice_transports = TrNone | TrRelay | TrNoHost | TrAll

record rtc_config =
  rc_sdp_semantics :: sdp_semantics
  rc_enable_dtls_srtp :: bool
  rc_type :: ice_transports
  rc_servers :: "rtc_ice_server list"

record answer_options =
  ao_offer_to_receive_audio :: int
  ao_offer_to_receive_video :: int

datatype 'd pc_call =
    Pc_SetRemoteDescription bool 'd    \<comment> \<open>the flag of the observer that is passed along\<close>
  | Pc_SetLocalDescription bool 'd
  | Pc_CreateAnswer answer_options

datatype track_kind = VideoKind | AudioKind | OtherKind

text \<open>What a callback of the peer connection does: log, or tell the client's observer.\<close>

datatype 'c peer_event =
    Log string
  | OnSdpCreateSuccess uint64 sdp_type string
  | OnSdpCreateFailure uint64
  | OnIceCandidateEv uint64 'c
  | OnPeerConnect uint64
  | OnPeerDisconnect uint64
  | OnAddRemoteVideoTrack uint64
  | OnAddRemoteAudioTrack uint64
  | OnRemoveRemoteVideoTrack uint64
  | OnRemoveRemoteAudioTrack uint64

record 'd connection =
  wc_id :: uint64
  wc_observer :: bool              \<comment> \<open>\<^verbatim>\<open>webrtc_observer_\<close> is not null\<close>
  wc_config :: rtc_config
  wc_pc :: bool                    \<comment> \<open>\<^verbatim>\<open>pc_\<close> is not null\<close>
  wc_calls :: "'d pc_call list"    \<comment> \<open>the calls made on \<^verbatim>\<open>pc_\<close>\<close>

text \<open>\<open>mk_pc\<close>: whether the factory's \<^verbatim>\<open>CreatePeerConnection\<close> gives a connection.\<close>

definition WebrtcConnection_new ::
    "(bool \<Rightarrow> bool) \<Rightarrow> (rtc_config \<Rightarrow> bool) \<Rightarrow> wrapper \<Rightarrow> uint64 \<Rightarrow> bool \<Rightarrow> rtc_config \<Rightarrow> 'd connection res" where
  "WebrtcConnection_new mk_factory mk_pc w i observer config =
     (if CreatePCFactory mk_factory w
      then Inr \<lparr>wc_id = i, wc_observer = observer, wc_config = config, wc_pc = mk_pc config, wc_calls = []\<rparr>
      else Inl (UB NullDeref))"

definition wc_Id :: "'d connection \<Rightarrow> uint64" where "wc_Id c = wc_id c"

definition on_pc :: "'d pc_call \<Rightarrow> 'd connection \<Rightarrow> 'd connection res" where
  "on_pc call c = (if wc_pc c then Inr (c\<lparr>wc_calls := wc_calls c @ [call]\<rparr>) else Inl (UB NullDeref))"

definition wc_SetRemoteDescription :: "'d \<Rightarrow> 'd connection \<Rightarrow> 'd connection res" where
  "wc_SetRemoteDescription desc = on_pc (Pc_SetRemoteDescription True desc)"

definition wc_SetLocalDescription :: "'d \<Rightarrow> 'd connection \<Rightarrow> 'd connection res" where
  "wc_SetLocalDescription desc = on_pc (Pc_SetLocalDescription False desc)"

definition wc_CreateOffer :: "answer_options \<Rightarrow> 'd connection \<Rightarrow> 'd connection res" where
  "wc_CreateOffer options = on_pc (Pc_CreateAnswer options)"

definition wc_CreateAnswer :: "answer_options \<Rightarrow> 'd connection \<Rightarrow> 'd connection res" where
  "wc_CreateAnswer options = on_pc (Pc_CreateAnswer options)"


text \<open>The observers that are passed along with a description and with a request for one.\<close>

definition dummy_OnSuccess :: "bool \<Rightarrow> 'c peer_event list" where
  "dummy_OnSuccess remote =
     [Log (''>>>>>>>>>>>>>>>>>> SetSessionDescription '' @ (if remote then ''remote'' else ''local'') @ '' sdp success'')]"

definition dummy_OnFailure :: "string \<Rightarrow> string \<Rightarrow> bool \<Rightarrow> 'c peer_event list" where
  "dummy_OnFailure type message remote =
     [Log (''>>>>>>>>>>>>>>>>>> SetSessionDescription '' @ (if remote then ''remote'' else ''local'') @
        '' sdp failed.'' @ type @ '': '' @ message)]"

definition sdp_OnSuccess :: "sdp_type \<Rightarrow> string \<Rightarrow> string \<Rightarrow> 'd connection \<Rightarrow> 'c peer_event list" where
  "sdp_OnSuccess type type_text out c =
     Log (''>>>>>>WebrtcConnection OnSuccess:'' @ type_text @ [CHR 0x0A] @ out) #
     (if wc_observer c then [OnSdpCreateSuccess (wc_id c) type out] else [])"

definition sdp_OnFailure :: "string \<Rightarrow> 'd connection \<Rightarrow> 'c peer_event list" where
  "sdp_OnFailure message c =
     Log (''>>>>>>WebrtcConnection OnFailure:'' @ message) #
     (if wc_observer c then [OnSdpCreateFailure (wc_id c)] else [])"

section \<open>Callbacks of the peer connection\<close>

definition wc_OnSignalingChange :: "signaling_state \<Rightarrow> 'c peer_event list" where
  "wc_OnSignalingChange new_state =
     [Log (''>>>>>>WebrtcConnection OnSignalingChange:'' @ SignalingStateToString (signaling_state_int new_state))]"

definition wc_OnDataChannel :: "string \<Rightarrow> 'c peer_event list" where
  "wc_OnDataChannel label = [Log (''>>>>>>WebrtcConnection OnDataChannel label:'' @ label)]"

definition wc_OnIceGatheringChange :: "ice_gathering_state \<Rightarrow> 'c peer_event list" where
  "wc_OnIceGatheringChange new_state =
     [Log (''>>>>>>WebrtcConnection OnIceGatheringChange:'' @ IceGatheringStateToString (ice_gathering_state_int new_state))]"

definition wc_OnIceCandidate :: "string \<Rightarrow> 'c \<Rightarrow> 'd connection \<Rightarrow> 'c peer_event list" where
  "wc_OnIceCandidate out candidate c =
     Log (''>>>>>>WebrtcConnection OnIceCandidate:'' @ out) #
     (if wc_observer c then [OnIceCandidateEv (wc_id c) candidate] else [])"

definition wc_OnRenegotiationNeeded :: "'c peer_event list" where
  "wc_OnRenegotiationNeeded = [Log ''>>>>>>WebrtcConnection OnRenegotiationNeeded'']"

definition wc_OnIceConnectionChange :: "ice_connection_state \<Rightarrow> 'c peer_event list" where
  "wc_OnIceConnectionChange new_state =
     [Log (''>>>>>>WebrtcConnection OnIceConnectionChange:'' @ IceConnectionStateToString (ice_connection_state_int new_state))]"

text \<open>
  \<^verbatim>\<open>if (connected)\<close> asks whether the \<^verbatim>\<open>optional\<close> holds a value, not for the value.
\<close>

definition wc_OnConnectionChange :: "peer_connection_state \<Rightarrow> 'd connection \<Rightarrow> 'c peer_event list" where
  "wc_OnConnectionChange new_state c =
     Log (''>>>>>>WebrtcConnection OnConnectionChange:'' @ PeerConnectionStateToString (peer_connection_state_int new_state)) #
     (let connected = (if new_state = PcConnected then Some True
                       else if new_state = PcDisconnected then Some False else None)
      in if connected \<noteq> None \<and> wc_observer c then
           (if connected \<noteq> None then [OnPeerConnect (wc_id c)] else [OnPeerDisconnect (wc_id c)])
         else [])"

definition wc_OnIceConnectionReceivingChange :: "bool \<Rightarrow> 'c peer_event list" where
  "wc_OnIceConnectionReceivingChange receiving =
     [Log (''>>>>>>WebrtcConnection OnIceConnectionReceivingChange:'' @ (if receiving then ''1'' else ''0''))]"

text \<open>The logged lines on the track are left out of these two.\<close>

definition wc_OnAddTrack :: "track_kind \<Rightarrow> 'd connection \<Rightarrow> 'c peer_event list" where
  "wc_OnAddTrack kind c =
     (if kind = VideoKind then (if wc_observer c then [OnAddRemoteVideoTrack (wc_id c)] else [])
      else if kind = AudioKind then (if wc_observer c then [OnAddRemoteAudioTrack (wc_id c)] else [])
      else [])"

definition wc_OnTrack :: "'c peer_event list" where
  "wc_OnTrack = [Log ''>>>>>>WebrtcConnection OnTrack'']"

definition wc_OnRemoveTrack :: "track_kind \<Rightarrow> 'd connection \<Rightarrow> 'c peer_event list" where
  "wc_OnRemoveTrack kind c =
     (if kind = VideoKind then (if wc_observer c then [OnRemoveRemoteVideoTrack (wc_id c)] else [])
      else if kind = AudioKind then (if wc_observer c then [OnRemoveRemoteAudioTrack (wc_id c)] else [])
      else [])"

text \<open>\<^verbatim>\<open>VideoRender::OnFrame\<close> logs the first of every 25 frames; \<open>n\<close> frames came before.\<close>

definition VideoRender_OnFrame :: "nat \<Rightarrow> string \<Rightarrow> string \<Rightarrow> 'c peer_event list" where
  "VideoRender_OnFrame n width height =
     (if n mod 25 = 0 then [Log (''>>>>> receive frame:'' @ width @ ''*'' @ height)] else [])"

section \<open>Lemmas\<close>

lemma Init_idem: "WebrtcWrapper_Init (fst (WebrtcWrapper_Init w)) = (fst (WebrtcWrapper_Init w), [])"
  by (simp add: WebrtcWrapper_Init_def)

lemma Init_thread: "ww_init WebrtcWrapper_Instance \<longrightarrow> ww_thread WebrtcWrapper_Instance"
  by (simp add: WebrtcWrapper_Instance_def)

text \<open>A connection that is made before \<^verbatim>\<open>Init\<close> dereferences a null factory.\<close>

lemma connection_needs_Init:
  "\<not> ww_init w \<Longrightarrow> WebrtcConnection_new mk_factory mk_pc w i obs config = Inl (UB NullDeref)"
  by (simp add: WebrtcConnection_new_def CreatePCFactory_def)

lemma connection_after_Init:
  "mk_factory True \<Longrightarrow> ww_init w \<longrightarrow> ww_thread w \<Longrightarrow>
     \<exists>c. WebrtcConnection_new mk_factory mk_pc (fst (WebrtcWrapper_Init w)) i obs config = Inr c \<and>
       wc_id c = i \<and> wc_observer c = obs \<and> wc_pc c = mk_pc config \<and> wc_calls c = []"
  by (simp add: WebrtcConnection_new_def CreatePCFactory_def WebrtcWrapper_Init_def SignalingThread_def)

lemma PeerConnectionState_names:
  "PeerConnectionStateToString (peer_connection_state_int st) = PeerConnectionStateToString (peer_connection_state_int st') \<longleftrightarrow>
     st = st'"
  "PeerConnectionStateToString (peer_connection_state_int st) \<noteq> ''Unknown''"
  by (cases st; cases st'; simp add: PeerConnectionStateToString_def)
     (cases st; simp add: PeerConnectionStateToString_def)

lemma IceConnectionState_names:
  "IceConnectionStateToString (ice_connection_state_int s) = IceConnectionStateToString (ice_connection_state_int s') \<longleftrightarrow>
     s = s' \<or> s = IceConnected \<and> s' = IceCompleted \<or> s = IceCompleted \<and> s' = IceConnected"
  by (cases s; cases s'; simp add: IceConnectionStateToString_def)

section \<open>Properties\<close>

text \<open>
  The observer of a connection is told of a connection when the peers are connected, and told of a
  connection, not of a disconnection, when they are disconnected; no state change ever reports a
  disconnection. In the log every state of the peer connection has a name of its own, and of the ICE
  states only the connected and the completed one share theirs.
\<close>

theorem disconnect_not_reported:
  "OnPeerDisconnect i \<notin> set (wc_OnConnectionChange st c) \<and>
   (OnPeerConnect i \<in> set (wc_OnConnectionChange st c) \<longleftrightarrow>
      wc_observer c \<and> i = wc_id c \<and> (st = PcConnected \<or> st = PcDisconnected)) \<and>
   (PeerConnectionStateToString (peer_connection_state_int st) = PeerConnectionStateToString (peer_connection_state_int st') \<longleftrightarrow>
      st = st') \<and>
   PeerConnectionStateToString (peer_connection_state_int st) \<noteq> ''Unknown'' \<and>
   (IceConnectionStateToString (ice_connection_state_int s) = IceConnectionStateToString (ice_connection_state_int s') \<longleftrightarrow>
      s = s' \<or> s = IceConnected \<and> s' = IceCompleted \<or> s = IceCompleted \<and> s' = IceConnected)"
  by (auto simp: PeerConnectionState_names IceConnectionState_names wc_OnConnectionChange_def Let_def)

end
