(* ===== verification/Nuve_Api.thy ===== *)
theory Nuve_Api
  imports Http_Request Pkt_Builder
begin

text \<open>
  \<^verbatim>\<open>core/licode_nuve_api.cc\<close>: the REST client of the Nuve server. \<^verbatim>\<open>SimpleHttpSession\<close> is a chain
  of completion handlers on one thread and a caller that waits for a promise on another; the
  handlers are lists of actions, executed one by one, so that the caller can wake between two
  of them. \<^verbatim>\<open>LicodeNuveApi\<close> builds and signs the requests and reads the
  responses. The hash, the base64 iterators, the clock, the random engine and the Beast tables are
  not part of the repository: they are the fields of a record that the operations take.
\<close>

section \<open>The HTTP session\<close>

record http_response =
  hr_status :: nat       \<comment> \<open>200 is \<^verbatim>\<open>status::ok\<close>, 0 is \<^verbatim>\<open>status::unknown\<close>\<close>
  hr_reason :: string
  hr_body :: string

datatype hs_op = Resolve string string | Connect | Write | Read

text \<open>What a handler is bound to, with \<^verbatim>\<open>bind_front_handler\<close>: a \<^verbatim>\<open>shared_ptr\<close>, which owns the session, or the bare pointer.\<close>

datatype hs_self = Shared_from_this | This

datatype hs_action =
    Set_value bool        \<comment> \<open>\<^verbatim>\<open>promise_->set_value(_)\<close>\<close>
  | Set_result nat        \<comment> \<open>\<^verbatim>\<open>response_.result(_)\<close>\<close>
  | Set_reason string     \<comment> \<open>\<^verbatim>\<open>response_.reason(_)\<close>\<close>
  | Expires_after int     \<comment> \<open>\<^verbatim>\<open>stream_.expires_after(_)\<close>, in milliseconds\<close>
  | Start hs_op hs_self   \<comment> \<open>an asynchronous operation, and what its handler is bound to\<close>
  | Shutdown

text \<open>\<open>ec\<close>: the operation failed.\<close>

definition hs_OnResolve :: "int \<Rightarrow> bool \<Rightarrow> hs_action list" where
  "hs_OnResolve timeoutMS ec =
     (if ec then [Set_value False, Set_result 0, Set_reason ''resolve failed'']
      else [Expires_after timeoutMS, Start Connect Shared_from_this])"

definition hs_OnConnect :: "bool \<Rightarrow> hs_action list" where
  "hs_OnConnect ec =
     (if ec then [Set_value False, Set_result 0, Set_reason ''connect failed''] else [Start Write Shared_from_this])"

definition hs_OnWrite :: "bool \<Rightarrow> hs_action list" where
  "hs_OnWrite ec =
     (if ec then [Set_value False, Set_result 0, Set_reason ''write failed''] else [Start Read Shared_from_this])"

definition hs_OnRead :: "bool \<Rightarrow> hs_action list" where
  "hs_OnRead ec =
     (if ec then [Set_value False, Set_result 0, Set_reason ''read failed''] else [Shutdown, Set_value True])"

fun hs_handler :: "int \<Rightarrow> hs_op \<Rightarrow> bool \<Rightarrow> hs_action list" where
  "hs_handler timeoutMS (Resolve host port) ec = hs_OnResolve timeoutMS ec"
| "hs_handler timeoutMS Connect ec = hs_OnConnect ec"
| "hs_handler timeoutMS Write ec = hs_OnWrite ec"
| "hs_handler timeoutMS Read ec = hs_OnRead ec"

text \<open>
  \<open>fresh\<close> is a cleared Beast response. \<open>hs_bound\<close> is what the handler of \<open>hs_op\<close> is bound to, \<open>hs_values\<close> are the values given to the
  promise, \<open>hs_received\<close> the response of the server once it has been read completely,
  \<open>hs_partly\<close> what a failed read has left behind, \<open>hs_returned\<close> what the caller gets.
\<close>

record http_session =
  hs_response :: http_response
  hs_op :: "hs_op option"
  hs_todo :: "hs_action list"
  hs_values :: "bool list"
  hs_received :: "http_response option"
  hs_partly :: "http_response option"
  hs_returned :: "http_response option"
  hs_bound :: hs_self

definition hs_SyncRequest :: "http_response \<Rightarrow> ('f, 'v) http_request \<Rightarrow> http_session" where
  "hs_SyncRequest fresh request =
     \<lparr>hs_response = fresh,
      hs_op = Some (Resolve (HttpUrl_Host (HttpRequest_Url request)) (show_int (HttpUrl_Port (HttpRequest_Url request)))),
      hs_todo = [], hs_values = [], hs_received = None, hs_partly = None, hs_returned = None,
      hs_bound = Shared_from_this\<rparr>"

fun hs_act :: "hs_action \<Rightarrow> http_session \<Rightarrow> http_session" where
  "hs_act (Set_value b) s = s\<lparr>hs_values := hs_values s @ [b]\<rparr>"
| "hs_act (Set_result n) s = s\<lparr>hs_response := (hs_response s)\<lparr>hr_status := n\<rparr>\<rparr>"
| "hs_act (Set_reason t) s = s\<lparr>hs_response := (hs_response s)\<lparr>hr_reason := t\<rparr>\<rparr>"
| "hs_act (Start p b) s = s\<lparr>hs_op := Some p, hs_bound := b\<rparr>"
| "hs_act (Expires_after n) s = s"
| "hs_act Shutdown s = s"

text \<open>
  A read writes into \<^verbatim>\<open>response_\<close> while it runs: a complete response when it succeeds, whatever
  was read so far when it fails.
\<close>

inductive hs_step :: "int \<Rightarrow> http_session \<Rightarrow> http_session \<Rightarrow> bool" for timeoutMS where
  act: "hs_todo s = a # as \<Longrightarrow> hs_step timeoutMS s (hs_act a (s\<lparr>hs_todo := as\<rparr>))"
| complete: "hs_todo s = [] \<Longrightarrow> hs_op s = Some p \<Longrightarrow> p \<noteq> Read \<Longrightarrow>
    hs_step timeoutMS s (s\<lparr>hs_op := None, hs_todo := hs_handler timeoutMS p ec\<rparr>)"
| read_ok: "hs_todo s = [] \<Longrightarrow> hs_op s = Some Read \<Longrightarrow>
    hs_step timeoutMS s (s\<lparr>hs_op := None, hs_todo := hs_handler timeoutMS Read False, hs_response := resp,
      hs_received := Some resp\<rparr>)"
| read_failed: "hs_todo s = [] \<Longrightarrow> hs_op s = Some Read \<Longrightarrow>
    hs_step timeoutMS s (s\<lparr>hs_op := None, hs_todo := hs_handler timeoutMS Read True, hs_response := partly,
      hs_partly := Some partly\<rparr>)"
| returns: "hs_values s \<noteq> [] \<Longrightarrow> hs_returned s = None \<Longrightarrow>
    hs_step timeoutMS s (s\<lparr>hs_returned := Some (hs_response s)\<rparr>)"

section \<open>Requests\<close>

record nuve_api =
  nv_service_id :: string
  nv_key :: string
  nv_url :: string
  nv_port :: int

definition LicodeNuveApi_new :: "string \<Rightarrow> string \<Rightarrow> string \<Rightarrow> int \<Rightarrow> nuve_api" where
  "LicodeNuveApi_new serviceId key url port =
     \<lparr>nv_service_id = serviceId, nv_key = key, nv_url = url, nv_port = to_int16 port\<rparr>"

text \<open>
  What a request depends on outside the repository. \<open>ne_respond\<close> is the response that the session
  returns for a request.
\<close>

record ('f, 'v) nuve_env =
  ne_hmac :: "string \<Rightarrow> string \<Rightarrow> string"       \<comment> \<open>\<^verbatim>\<open>hmac<SHA1>(data, key)\<close>, hexadecimal\<close>
  ne_b64 :: "string \<Rightarrow> string"                \<comment> \<open>\<^verbatim>\<open>base64_from_binary<transform_width<_, 6, 8>>\<close>\<close>
  ne_unb64 :: "string \<Rightarrow> string res"          \<comment> \<open>\<^verbatim>\<open>transform_width<binary_from_base64<_>, 8, 6>\<close>\<close>
  ne_timestamp :: int
  ne_cnonce :: nat
  ne_agent :: string                       \<comment> \<open>\<^verbatim>\<open>BOOST_BEAST_VERSION_STRING\<close>\<close>
  ne_field :: "string \<Rightarrow> 'f option"
  ne_verb :: "string \<Rightarrow> 'v option"
  ne_respond :: "('f, 'v) http_request \<Rightarrow> http_response"

definition baseHeader :: string where
  "baseHeader = ''MAuth realm=http://marte3.dit.upm.es,mauth_signature_method=HMAC_SHA1''"

definition CalculateSignature :: "('f, 'v) nuve_env \<Rightarrow> string \<Rightarrow> string \<Rightarrow> string" where
  "CalculateSignature E toSign key =
     (let hash = ne_hmac E toSign key
      in ne_b64 E hash @ replicate ((3 - length hash mod 3) mod 3) CHR ''='')"

definition nuve_to_sign :: "('f, 'v) nuve_env \<Rightarrow> string \<Rightarrow> string \<Rightarrow> string" where
  "nuve_to_sign E userName role =
     show_int (ne_timestamp E) @ '','' @ show_nat (ne_cnonce E) @
     (if userName \<noteq> [] \<and> role \<noteq> [] then '','' @ userName @ '','' @ role else [])"

definition nuve_authorization :: "('f, 'v) nuve_env \<Rightarrow> string \<Rightarrow> string \<Rightarrow> nuve_api \<Rightarrow> string" where
  "nuve_authorization E userName role n =
     baseHeader @
     (if userName \<noteq> [] \<and> role \<noteq> [] then '',,mauth_username='' @ userName @ '',,,mauth_role='' @ role else []) @
     '',mauth_serviceid='' @ nv_service_id n @ '',mauth_cnonce='' @ show_nat (ne_cnonce E) @
     '',mauth_timestamp='' @ show_int (ne_timestamp E) @
     '',mauth_signature='' @ CalculateSignature E (nuve_to_sign E userName role) (nv_key n)"

definition nuve_request :: "('f, 'v) nuve_env \<Rightarrow> string \<Rightarrow> string \<Rightarrow> string \<Rightarrow> string \<Rightarrow> string \<Rightarrow> nuve_api \<Rightarrow>
    ('f, 'v) http_request res" where
  "nuve_request E method body target userName role n =
     (case HttpRequest_SetUrl_string (''http://'' @ nv_url n @ '':'' @ show_int (nv_port n) @ target) HttpRequest_new of
        (Inl e, _) \<Rightarrow> Inl e
      | (Inr _, q) \<Rightarrow>
          let q = HttpRequest_SetMethod (ne_verb E) method q;
              q = HttpRequest_SetVersion HTTP_1_1 q;
              q = HttpRequest_AddHeader (ne_field E) ''User-Agent'' (ne_agent E) q;
              q = HttpRequest_AddHeader (ne_field E) ''Authorization'' (nuve_authorization E userName role n) q;
              q = HttpRequest_AddHeader (ne_field E) ''Content-Type'' ''application/json'' q;
              q = (if method \<noteq> ''GET'' \<and> body \<noteq> [] then HttpRequest_SetBody body q else q)
          in Inr (HttpRequest_PreparePayload q))"

definition response_result :: "http_response \<Rightarrow> string" where
  "response_result resp = (if hr_status resp = 200 then hr_body resp else [])"

definition nuve_SyncRequest :: "('f, 'v) nuve_env \<Rightarrow> string \<Rightarrow> string \<Rightarrow> string \<Rightarrow> string \<Rightarrow> string \<Rightarrow> nuve_api \<Rightarrow>
    string res" where
  "nuve_SyncRequest E method body target userName role n =
     rbind (nuve_request E method body target userName role n) (\<lambda>q. Inr (response_result (ne_respond E q)))"


section \<open>The calls\<close>

text \<open>\<^verbatim>\<open>try { r } catch (const std::exception&) { return nullopt; }\<close>\<close>

definition or_nullopt :: "'a option res \<Rightarrow> 'a option res" where
  "or_nullopt r = (case r of Inl (Exn _) \<Rightarrow> Inr None | _ \<Rightarrow> r)"

definition room_response :: "'j json_api \<Rightarrow> string \<Rightarrow> room_info option res" where
  "room_response J result =
     or_nullopt
       (rbind (j_parse J result) (\<lambda>response.
        rbind (j_value_string J ''_id'' [] response) (\<lambda>i.
        rbind (j_value_string J ''name'' [] response) (\<lambda>name.
        rbind (j_value_string J ''data'' [] response) (\<lambda>data.
        rbind (j_value_string J ''mediaConfiguration'' [] response) (\<lambda>mediaConfiguration.
        rbind (j_value_bool J ''p2p'' False response) (\<lambda>p2p.
        Inr (Some (LicodeRoomInfo_new i name data mediaConfiguration p2p)))))))))"

definition SyncCreateRoom :: "'j json_api \<Rightarrow> ('f, 'v) nuve_env \<Rightarrow> string \<Rightarrow> string \<Rightarrow> string \<Rightarrow> bool \<Rightarrow> nuve_api \<Rightarrow>
    room_info option res" where
  "SyncCreateRoom J E name mediaConfiguration roomData p2p n =
     rbind (j_assigns J ([(''mediaConfiguration'', j_string J ''default''), (''data'', j_string J roomData)] @
        (if p2p then [(''p2p'', j_bool J True)] else []))) (\<lambda>options.
     rbind (j_assigns J [(''name'', j_string J name), (''options'', options)]) (\<lambda>body.
     rbind (j_dump J body) (\<lambda>text.
     rbind (nuve_SyncRequest E ''POST'' text ''/rooms'' [] [] n) (\<lambda>result.
     if result = [] then Inr None else room_response J result))))"

definition SyncDestroyRoom :: "('f, 'v) nuve_env \<Rightarrow> string \<Rightarrow> nuve_api \<Rightarrow> bool res" where
  "SyncDestroyRoom E roomId n =
     rbind (nuve_SyncRequest E ''DELETE'' [] (''/rooms/'' @ roomId) [] [] n) (\<lambda>result.
     Inr (result = ''Room deleted''))"

definition SyncGetRoom :: "'j json_api \<Rightarrow> ('f, 'v) nuve_env \<Rightarrow> string \<Rightarrow> nuve_api \<Rightarrow> room_info option res" where
  "SyncGetRoom J E roomId n =
     rbind (nuve_SyncRequest E ''GET'' [] (''/rooms/'' @ roomId) [] [] n) (\<lambda>result.
     if result = [] then Inr None else room_response J result)"

text \<open>The base64 decoding stands before the \<^verbatim>\<open>try\<close> block.\<close>

definition SyncCreateToken :: "'j json_api \<Rightarrow> ('f, 'v) nuve_env \<Rightarrow> string \<Rightarrow> string \<Rightarrow> string \<Rightarrow> nuve_api \<Rightarrow>
    licode_token option res" where
  "SyncCreateToken J E roomId userName role n =
     rbind (nuve_SyncRequest E ''POST'' [] (''/rooms/'' @ roomId @ ''/tokens'') userName role n) (\<lambda>result.
     if result = [] then Inr None
     else
       rbind (ne_unb64 E result) (\<lambda>dec.
       or_nullopt
         (rbind (j_parse J dec) (\<lambda>token.
          rbind (j_value_string J ''signature'' [] token) (\<lambda>signature.
          rbind (j_value_string J ''host'' [] token) (\<lambda>host.
          rbind (j_value_string J ''tokenId'' [] token) (\<lambda>tokenId.
          rbind (j_value_bool J ''secure'' False token) (\<lambda>secure.
          Inr (Some \<lparr>tk_tokenId = tokenId, tk_host = host, tk_secure = secure, tk_signature = signature\<rparr>)))))))))"

text \<open>
  One room of the list: every \<^verbatim>\<open>room["k"]\<close> is on a non-const value and leaves a null there when
  the key was missing.
\<close>

definition listed_room :: "'j json_api \<Rightarrow> 'j \<Rightarrow> room_info res" where
  "listed_room J room =
     rbind (j_get J ''name'' room) (\<lambda>n.
     let room = j_touch J ''name'' room in
     rbind (if j_is_string J n then j_value_string J ''name'' [] room else Inr []) (\<lambda>_.
     rbind (j_get J ''data'' room) (\<lambda>d.
     let room = j_touch J ''data'' room in
     rbind (if \<not> j_is_null J d then (if j_is_object J d then j_dump J d else j_as_string J d) else Inr []) (\<lambda>data.
     rbind (j_get J ''mediaConfiguration'' room) (\<lambda>c.
     let room = j_touch J ''mediaConfiguration'' room in
     rbind (if \<not> j_is_null J c then j_as_string J c else Inr []) (\<lambda>mediaConfiguration.
     rbind (j_value_string J ''_id'' [] room) (\<lambda>i.
     rbind (j_value_string J ''name'' [] room) (\<lambda>name.
     Inr (LicodeRoomInfo_new i name data mediaConfiguration False)))))))))"

definition SyncListRoom :: "'j json_api \<Rightarrow> ('f, 'v) nuve_env \<Rightarrow> nuve_api \<Rightarrow> room_info list option res" where
  "SyncListRoom J E n =
     rbind (nuve_SyncRequest E ''GET'' [] ''/rooms'' [] [] n) (\<lambda>result.
     if result = [] then Inr None
     else
       or_nullopt
         (rbind (j_parse J result) (\<lambda>response.
          rbind (rmap (listed_room J) (j_elems J response)) (\<lambda>rooms. Inr (Some rooms)))))"

section \<open>Runs of the session\<close>

text \<open>
  Where a session is: an operation runs or the next one is about to start; a response has been
  received; or an operation has failed. A quiet response is one the caller takes for a failure.
\<close>

definition quiet :: "http_response \<Rightarrow> bool" where
  "quiet resp \<longleftrightarrow> response_result resp = []"

definition hs_waiting :: "http_response \<Rightarrow> http_session \<Rightarrow> bool" where
  "hs_waiting fresh s \<longleftrightarrow> hs_values s = [] \<and> hs_received s = None \<and> hs_partly s = None \<and> hs_response s = fresh \<and>
     (hs_op s \<noteq> None \<and> hs_todo s = [] \<or>
      hs_op s = None \<and> ((\<exists>n p b. hs_todo s = [Expires_after n, Start p b]) \<or> (\<exists>p b. hs_todo s = [Start p b])))"

definition hs_succeeded :: "http_session \<Rightarrow> bool" where
  "hs_succeeded s \<longleftrightarrow> hs_op s = None \<and> hs_received s = Some (hs_response s) \<and>
     (hs_values s = [] \<and> (hs_todo s = [Shutdown, Set_value True] \<or> hs_todo s = [Set_value True]) \<or>
      hs_values s = [True] \<and> hs_todo s = [])"

definition hs_failing :: "http_session \<Rightarrow> bool" where
  "hs_failing s \<longleftrightarrow> hs_op s = None \<and> hs_received s = None \<and> (hs_partly s = None \<longrightarrow> quiet (hs_response s)) \<and>
     ((\<exists>t. hs_values s = [] \<and> hs_todo s = [Set_value False, Set_result 0, Set_reason t]) \<or>
      hs_values s = [False] \<and>
        ((\<exists>t. hs_todo s = [Set_result 0, Set_reason t]) \<or> (\<exists>t. hs_todo s = [Set_reason t]) \<or> hs_todo s = []))"

definition hs_ret :: "http_session \<Rightarrow> bool" where
  "hs_ret s \<longleftrightarrow> (case hs_returned s of None \<Rightarrow> True
     | Some resp \<Rightarrow> hs_values s \<noteq> [] \<and>
         (hs_received s = Some resp \<or> hs_received s = None \<and> (hs_partly s = None \<longrightarrow> quiet resp)))"

definition hs_inv :: "http_response \<Rightarrow> http_session \<Rightarrow> bool" where
  "hs_inv fresh s \<longleftrightarrow> (hs_waiting fresh s \<or> hs_succeeded s \<or> hs_failing s) \<and> hs_ret s"

lemmas hs_inv_defs = hs_inv_def hs_waiting_def hs_succeeded_def hs_failing_def hs_ret_def

lemma quiet_simps [simp]: "quiet (resp\<lparr>hr_status := 0\<rparr>)" "quiet (resp\<lparr>hr_reason := t\<rparr>) \<longleftrightarrow> quiet resp"
  by (simp_all add: quiet_def response_result_def)

lemma hs_start_inv: "hs_inv fresh (hs_SyncRequest fresh q)"
  by (simp add: hs_inv_defs hs_SyncRequest_def)

lemma handler_cases:
  obtains (fail) t where "ec" "hs_handler n p ec = [Set_value False, Set_result 0, Set_reason t]"
  | (goes_on) "\<not> ec" "p \<noteq> Read" "(\<exists>m q b. hs_handler n p ec = [Expires_after m, Start q b]) \<or> (\<exists>q b. hs_handler n p ec = [Start q b])"
  | (finished) "\<not> ec" "p = Read" "hs_handler n p ec = [Shutdown, Set_value True]"
  by (cases p; cases ec) (auto simp: hs_OnResolve_def hs_OnConnect_def hs_OnWrite_def hs_OnRead_def)

lemma act_phase:
  assumes "hs_todo s = a # as"
  shows "hs_waiting fresh s \<Longrightarrow> hs_waiting fresh (hs_act a (s\<lparr>hs_todo := as\<rparr>))"
    and "hs_succeeded s \<Longrightarrow> hs_succeeded (hs_act a (s\<lparr>hs_todo := as\<rparr>))"
    and "hs_failing s \<Longrightarrow> hs_failing (hs_act a (s\<lparr>hs_todo := as\<rparr>))"
    and "hs_ret s \<Longrightarrow> hs_ret (hs_act a (s\<lparr>hs_todo := as\<rparr>))"
proof -
  show "hs_waiting fresh s \<Longrightarrow> hs_waiting fresh (hs_act a (s\<lparr>hs_todo := as\<rparr>))"
    using assms by (auto simp: hs_waiting_def)
  show "hs_succeeded s \<Longrightarrow> hs_succeeded (hs_act a (s\<lparr>hs_todo := as\<rparr>))"
    using assms unfolding hs_succeeded_def by (elim conjE disjE) auto
  show "hs_failing s \<Longrightarrow> hs_failing (hs_act a (s\<lparr>hs_todo := as\<rparr>))"
    using assms unfolding hs_failing_def by (elim conjE disjE exE) auto
  show "hs_ret s \<Longrightarrow> hs_ret (hs_act a (s\<lparr>hs_todo := as\<rparr>))"
    by (cases a) (simp_all add: hs_ret_def split: option.splits)
qed

lemma op_waiting: "hs_inv fresh s \<Longrightarrow> hs_op s = Some p \<Longrightarrow> hs_waiting fresh s \<and> hs_returned s = None"
  by (auto simp: hs_inv_def hs_succeeded_def hs_failing_def hs_waiting_def hs_ret_def split: option.splits)

lemma complete_phase:
  assumes "hs_waiting fresh s" "hs_returned s = None" "p \<noteq> Read" "quiet fresh"
  shows "hs_inv fresh (s\<lparr>hs_op := None, hs_todo := hs_handler n p ec\<rparr>)"
proof (cases n p ec rule: handler_cases)
  case (fail t)
  then have "hs_failing (s\<lparr>hs_op := None, hs_todo := hs_handler n p ec\<rparr>)"
    using assms by (simp add: hs_waiting_def hs_failing_def)
  then show ?thesis using assms(2) by (simp add: hs_inv_def hs_ret_def)
next
  case goes_on
  then have "hs_waiting fresh (s\<lparr>hs_op := None, hs_todo := hs_handler n p ec\<rparr>)"
    using assms(1) by (simp add: hs_waiting_def)
  then show ?thesis using assms(2) by (simp add: hs_inv_def hs_ret_def)
qed (use assms(3) in simp)

lemma hs_step_inv:
  assumes "hs_step n s s'" "hs_inv fresh s" "quiet fresh"
  shows "hs_inv fresh s'"
  using assms
proof (induction rule: hs_step.induct)
  case (act s a as)
  from act(2) show ?case unfolding hs_inv_def using act_phase [OF act(1)] by blast
next
  case (complete s p ec)
  then show ?case using op_waiting complete_phase by metis
next
  case (read_ok s resp)
  with op_waiting [OF read_ok(3)] show ?case
    by (simp add: hs_inv_def hs_succeeded_def hs_waiting_def hs_ret_def hs_OnRead_def)
next
  case (read_failed s partly)
  with op_waiting [OF read_failed(3)] show ?case
    by (simp add: hs_inv_def hs_failing_def hs_waiting_def hs_ret_def hs_OnRead_def)
next
  case (returns s)
  have "\<not> hs_waiting fresh s" using returns(1) by (simp add: hs_waiting_def)
  with returns(3) have "hs_succeeded s \<or> hs_failing s" by (simp add: hs_inv_def)
  then show ?case
  proof
    assume "hs_succeeded s"
    then have "hs_succeeded (s\<lparr>hs_returned := Some (hs_response s)\<rparr>)" "hs_received s = Some (hs_response s)"
      by (simp_all add: hs_succeeded_def)
    with returns(1) show ?thesis by (simp add: hs_inv_def hs_ret_def)
  next
    assume "hs_failing s"
    then have "hs_failing (s\<lparr>hs_returned := Some (hs_response s)\<rparr>)" "hs_received s = None"
      "hs_partly s = None \<longrightarrow> quiet (hs_response s)"
      by (simp_all add: hs_failing_def)
    with returns(1) show ?thesis by (simp add: hs_inv_def hs_ret_def)
  qed
qed

interpretation hs_runs: transition_system "hs_step n" "\<lambda>s. hs_inv fresh s \<and> quiet fresh" for n fresh
  by unfold_locales (auto intro: hs_step_inv)


text \<open>The caller can always come to its end.\<close>

abbreviation hs_ends :: "int \<Rightarrow> http_session \<Rightarrow> bool" where
  "hs_ends n s \<equiv> \<exists>s'. (hs_step n)\<^sup>*\<^sup>* s s' \<and> hs_returned s' \<noteq> None"

lemma ends_step: "hs_step n s s' \<Longrightarrow> hs_ends n s' \<Longrightarrow> hs_ends n s"
  by (meson converse_rtranclp_into_rtranclp)

lemma ends_value: "hs_values s \<noteq> [] \<Longrightarrow> hs_ends n s"
proof (cases "hs_returned s")
  case None
  assume "hs_values s \<noteq> []"
  from hs_step.returns [OF this None, of n] show ?thesis by (rule ends_step) (auto intro: exI [of _ "s\<lparr>hs_returned := Some (hs_response s)\<rparr>"])
qed blast

lemma ends_act: "hs_todo s = a # as \<Longrightarrow> hs_ends n (hs_act a (s\<lparr>hs_todo := as\<rparr>)) \<Longrightarrow> hs_ends n s"
  by (rule ends_step [OF hs_step.act])

lemma ends_set_value: "hs_todo s = Set_value b # as \<Longrightarrow> hs_ends n s"
  by (erule ends_act, rule ends_value) simp

lemma ends_op: "hs_todo s = [] \<Longrightarrow> hs_op s = Some p \<Longrightarrow> hs_ends n s"
proof -
  assume s: "hs_todo s = []" "hs_op s = Some p"
  obtain t where t: "hs_handler n p True = [Set_value False, Set_result 0, Set_reason t]"
    by (cases n p True rule: handler_cases) auto
  show ?thesis
  proof (cases "p = Read")
    case True
    then have "hs_op s = Some Read" using s by simp
    from hs_step.read_failed [OF s(1) this, of n "hs_response s"] show ?thesis
      by (rule ends_step) (rule ends_set_value [where b = False], use t True in simp)
  next
    case False
    from hs_step.complete [OF s False, of n True] show ?thesis
      by (rule ends_step) (rule ends_set_value [where b = False], use t in simp)
  qed
qed

lemma ends_start: "hs_todo s = [Start p b] \<Longrightarrow> hs_ends n s"
  by (erule ends_act, rule ends_op) simp_all

lemma hs_inv_ends: "hs_inv fresh s \<Longrightarrow> hs_ends n s"
proof -
  assume "hs_inv fresh s"
  then consider "hs_values s \<noteq> []" | p where "hs_todo s = []" "hs_op s = Some p"
    | m p b where "hs_todo s = [Expires_after m, Start p b]" | p b where "hs_todo s = [Start p b]"
    | "hs_todo s = [Shutdown, Set_value True]" | b as where "hs_todo s = Set_value b # as"
    unfolding hs_inv_def hs_waiting_def hs_succeeded_def hs_failing_def by (elim conjE disjE exE) auto
  then show ?thesis
  proof cases
    case (3 m p b)
    then show ?thesis by (rule ends_act) (rule ends_start, simp)
  next
    case 5
    then show ?thesis by (rule ends_act) (rule ends_set_value, simp)
  qed (blast intro: ends_value ends_op ends_start ends_set_value)+
qed

lemma hs_reach_read:
  "\<exists>s. (hs_step n)\<^sup>*\<^sup>* (hs_SyncRequest fresh q) s \<and> hs_todo s = [] \<and> hs_op s = Some Read \<and> hs_values s = [] \<and>
     hs_returned s = None"
proof -
  let ?s0 = "hs_SyncRequest fresh q"
  have "hs_step n ?s0 (?s0\<lparr>hs_op := None, hs_todo := [Expires_after n, Start Connect Shared_from_this]\<rparr>)"
    using hs_step.complete [of ?s0 _ n False] by (simp add: hs_SyncRequest_def hs_OnResolve_def)
  moreover have "hs_step n (?s0\<lparr>hs_op := None, hs_todo := [Expires_after n, Start Connect Shared_from_this]\<rparr>)
      (?s0\<lparr>hs_op := None, hs_todo := [Start Connect Shared_from_this]\<rparr>)"
    using hs_step.act [of "?s0\<lparr>hs_op := None, hs_todo := [Expires_after n, Start Connect Shared_from_this]\<rparr>" _ _ n] by simp
  moreover have start: "hs_step n (?s0\<lparr>hs_op := None, hs_todo := [Start p Shared_from_this]\<rparr>) (?s0\<lparr>hs_todo := [], hs_op := Some p\<rparr>)" for p
    using hs_step.act [of "?s0\<lparr>hs_op := None, hs_todo := [Start p Shared_from_this]\<rparr>" _ _ n] by (simp add: hs_SyncRequest_def)
  moreover have "hs_step n (?s0\<lparr>hs_todo := [], hs_op := Some Connect\<rparr>) (?s0\<lparr>hs_op := None, hs_todo := [Start Write Shared_from_this]\<rparr>)"
    using hs_step.complete [of "?s0\<lparr>hs_todo := [], hs_op := Some Connect\<rparr>" Connect n False] by (simp add: hs_OnConnect_def)
  moreover have "hs_step n (?s0\<lparr>hs_todo := [], hs_op := Some Write\<rparr>) (?s0\<lparr>hs_op := None, hs_todo := [Start Read Shared_from_this]\<rparr>)"
    using hs_step.complete [of "?s0\<lparr>hs_todo := [], hs_op := Some Write\<rparr>" Write n False] by (simp add: hs_OnWrite_def)
  ultimately have "(hs_step n)\<^sup>*\<^sup>* ?s0 (?s0\<lparr>hs_todo := [], hs_op := Some Read\<rparr>)"
    by (meson rtranclp.rtrancl_into_rtrancl rtranclp.rtrancl_refl)
  then show ?thesis by (intro exI conjI) (assumption | simp add: hs_SyncRequest_def)+
qed


section \<open>Requests and responses\<close>

definition nuve_builder :: "string list \<Rightarrow> nuve_api \<Rightarrow> http_builder" where
  "nuve_builder segs n = \<lparr>b_scheme = ''http'', b_host = nv_url n, b_port = nv_port n, b_segs = segs, b_query = [], b_frag = []\<rparr>"

definition path_ok :: "string list \<Rightarrow> nuve_api \<Rightarrow> bool" where
  "path_ok segs n \<longleftrightarrow> set (nv_url n) \<inter> {CHR '':'', CHR ''/'', CHR ''?'', CHR ''#''} = {} \<and>
     0 \<le> nv_port n \<and> nv_port n \<le> int32_max \<and> segs \<noteq> [] \<and>
     (\<forall>s \<in> set segs. seg_ok s \<and> set s \<inter> {CHR ''/'', CHR ''?'', CHR ''#''} = {}) \<and>
     last (last segs) \<notin> set trim_chars \<and>
     length (''http://'' @ nv_url n @ '':'' @ show_int (nv_port n) @ seg_text segs) < npos"

lemma nuve_builder_text:
  assumes "path_ok segs n"
  shows "Builder_ToString (nuve_builder segs n) = ''http://'' @ nv_url n @ '':'' @ show_int (nv_port n) @ seg_text segs"
  using assms ToString_parts [of "nuve_builder segs n"]
  by (auto simp: path_ok_def nuve_builder_def query_text_def frag_text_def show_int_nonneg)

lemma last_seg_text: "ss \<noteq> [] \<Longrightarrow> \<forall>s \<in> set ss. s \<noteq> [] \<Longrightarrow> last (seg_text ss) = last (last ss)"
  by (induction ss rule: rev_induct) (auto simp: seg_text_def)

lemma nuve_builder_canonical:
  assumes "path_ok segs n"
  shows "url_canonical (nuve_builder segs n)"
proof -
  have ne: "seg_text segs \<noteq> []" using assms by (auto simp: path_ok_def seg_text_def neq_Nil_conv)
  have "last (seg_text segs) = last (last segs)"
    using assms by (intro last_seg_text) (auto simp: path_ok_def seg_ok_def)
  then have "last (Builder_ToString (nuve_builder segs n)) \<notin> set trim_chars"
    using assms ne unfolding nuve_builder_text [OF assms] by (simp add: path_ok_def)
  then show ?thesis
    using assms unfolding url_canonical_def nuve_builder_text [OF assms]
    by (auto simp: path_ok_def nuve_builder_def query_wf_def)
qed

text \<open>Beast knows the header and method names the client uses.\<close>

definition beast_names :: "('f, 'v) nuve_env \<Rightarrow> 'f \<Rightarrow> 'f \<Rightarrow> 'f \<Rightarrow> 'v \<Rightarrow> 'v \<Rightarrow> 'v \<Rightarrow> bool" where
  "beast_names E agent auth ctype get post del \<longleftrightarrow>
     ne_agent E \<noteq> [] \<and> ne_field E ''User-Agent'' = Some agent \<and> ne_field E ''Authorization'' = Some auth \<and>
     ne_field E ''Content-Type'' = Some ctype \<and> ne_verb E ''GET'' = Some get \<and> ne_verb E ''POST'' = Some post \<and>
     ne_verb E ''DELETE'' = Some del"

lemma authorization_not_empty: "nuve_authorization E userName role n \<noteq> []"
  by (simp add: nuve_authorization_def baseHeader_def)

lemma nuve_request_ok:
  assumes "path_ok segs n" "beast_names E agent auth ctype get post del" "ne_verb E method = Some m" "method \<noteq> []"
  shows "nuve_request E method body (seg_text segs) userName role n = Inr \<lparr>rq_url = HttpUrl_of_builder (nuve_builder segs n),
    rq_calls = [BSetHost (nv_url n), BTarget (seg_text segs), BMethod m, BVersion 11, BSet agent (ne_agent E),
      BSet auth (nuve_authorization E userName role n), BSet ctype ''application/json''] @
      (if method \<noteq> ''GET'' \<and> body \<noteq> [] then [BBody body] else []) @ [BPreparePayload]\<rparr>"
proof -
  let ?b = "nuve_builder segs n"
  have c: "url_canonical ?b" by (rule nuve_builder_canonical [OF assms(1)])
  have "HttpRequest_SetUrl_string (''http://'' @ nv_url n @ '':'' @ show_int (nv_port n) @ seg_text segs) HttpRequest_new =
    (Inr (), HttpRequest_new\<lparr>rq_url := HttpUrl_of_builder ?b,
       rq_calls := rq_calls HttpRequest_new @ [BSetHost (b_host ?b),
         BTarget (seg_text (b_segs ?b) @ query_text (b_query ?b) @ frag_text (b_frag ?b))]\<rparr>)"
    unfolding nuve_builder_text [OF assms(1), symmetric]
    by (simp add: HttpRequest_SetUrl_string_def HttpUrl_of_string_canonical [OF c] SetUrl_canonical [OF c])
  then have u: "HttpRequest_SetUrl_string (''http://'' @ nv_url n @ '':'' @ show_int (nv_port n) @ seg_text segs) HttpRequest_new =
    (Inr (), \<lparr>rq_url = HttpUrl_of_builder ?b, rq_calls = [BSetHost (nv_url n), BTarget (seg_text segs)]\<rparr>)"
    by (simp add: HttpRequest_new_def query_text_def frag_text_def nuve_builder_def)
  show ?thesis
    using assms(2-4) unfolding nuve_request_def u beast_names_def
    by (simp add: Let_def HttpRequest_SetMethod_def HttpRequest_SetVersion_def HttpRequest_AddHeader_def
        HttpRequest_SetBody_def HttpRequest_PreparePayload_def authorization_not_empty)
qed

lemma CalculateSignature_length:
  assumes "\<forall>s. length (ne_b64 E s) = (8 * length s + 5) div 6"
  shows "4 dvd length (CalculateSignature E toSign key)"
proof -
  define l where "l = length (ne_hmac E toSign key)"
  define q where "q = l div 3"
  define m where "m = l mod 3"
  have l: "l = 3 * q + m" and "m < 3" by (simp_all add: q_def m_def)
  then have "m = 0 \<or> m = 1 \<or> m = 2" by auto
  then have "(8 * l + 5) div 6 + (3 - m) mod 3 = 4 * (if m = 0 then q else q + 1)"
    unfolding l by (elim disjE) simp_all
  then show ?thesis using assms by (simp add: CalculateSignature_def Let_def l_def m_def)
qed

lemma rmap_pointwise:
  "length ys = length xs \<Longrightarrow> (\<And>i. i < length xs \<Longrightarrow> f (xs ! i) = Inr (ys ! i)) \<Longrightarrow> rmap f xs = Inr ys"
proof (induction xs arbitrary: ys)
  case (Cons x xs)
  then obtain y ys' where ys: "ys = y # ys'" by (cases ys) auto
  have "f x = Inr y" using Cons.prems(2) [of 0] ys by simp
  moreover have "rmap f xs = Inr ys'" using Cons.prems ys by (intro Cons.IH) (fastforce)+
  ultimately show ?case using ys by simp
qed simp

context nlohmann
begin

lemma token_decoded:
  assumes "ne_unb64 E result = Inr dec" "j_parse J dec = Inr j" "obj j = Some m"
    and "m ''signature'' = Some (j_string J (tk_signature t))" "m ''host'' = Some (j_string J (tk_host t))"
    and "m ''tokenId'' = Some (j_string J (tk_tokenId t))" "m ''secure'' = Some (j_bool J (tk_secure t))"
    and "nuve_SyncRequest E ''POST'' [] (''/rooms/'' @ roomId @ ''/tokens'') userName role n = Inr result" "result \<noteq> []"
  shows "SyncCreateToken J E roomId userName role n = Inr (Some t)"
  using assms by (simp add: SyncCreateToken_def value_present [OF assms(3)] as_string as_bool or_nullopt_def)

lemma listed_room_ok:
  assumes "obj room = Some m" "m ''_id'' = Some (j_string J i)" "m ''name'' = Some (j_string J name)"
    "m ''data'' = None" "m ''mediaConfiguration'' = None"
  shows "listed_room J room = Inr (LicodeRoomInfo_new i name [] [] False)"
proof -
  let ?r1 = "j_touch J ''name'' room" let ?r2 = "j_touch J ''data'' ?r1" let ?r3 = "j_touch J ''mediaConfiguration'' ?r2"
  have r1: "obj ?r1 = Some m" using touch_obj [OF assms(1), of "''name''"] assms(3) by simp
  have r2: "obj ?r2 = Some (m(''data'' \<mapsto> j_null J))" using touch_obj [OF r1, of "''data''"] assms(4) by simp
  have r3: "obj ?r3 = Some (m(''data'' \<mapsto> j_null J, ''mediaConfiguration'' \<mapsto> j_null J))"
    using touch_obj [OF r2, of "''mediaConfiguration''"] assms(5) by simp
  show ?thesis
    using assms(2-5)
    by (simp add: listed_room_def get_obj [OF assms(1)] is_string value_present(1) [OF r1] get_missing [OF r1]
        is_null get_missing [OF r2] value_present(1) [OF r3] as_string)
qed

text \<open>
  An entry of the list as the server makes it: the id and the name, and if they are there an
  object with data and the name of a media configuration.
\<close>

lemma listed_room_entry:
  assumes "obj room = Some m" "m ''_id'' = Some (j_string J i)" "m ''name'' = Some (j_string J name)"
    and "\<forall>d. m ''data'' = Some d \<longrightarrow> obj d \<noteq> None \<and> plain d"
    and "\<forall>c. m ''mediaConfiguration'' = Some c \<longrightarrow> (\<exists>t. c = j_string J t)"
  shows "\<exists>data mediaConfiguration. listed_room J room = Inr (LicodeRoomInfo_new i name data mediaConfiguration False)"
proof -
  let ?r1 = "j_touch J ''name'' room" let ?r2 = "j_touch J ''data'' ?r1" let ?r3 = "j_touch J ''mediaConfiguration'' ?r2"
  have r1: "obj ?r1 = Some m" using touch_obj [OF assms(1), of "''name''"] assms(3) by simp
  obtain m2 where r2: "obj ?r2 = Some m2" "\<forall>k. k \<noteq> ''data'' \<longrightarrow> m2 k = m k" using touch_obj [OF r1, of "''data''"] by fastforce
  obtain m3 where r3: "obj ?r3 = Some m3" "\<forall>k. k \<noteq> ''mediaConfiguration'' \<longrightarrow> m3 k = m2 k"
    using touch_obj [OF r2(1), of "''mediaConfiguration''"] by fastforce
  obtain data where data: "\<exists>d. j_get J ''data'' ?r1 = Inr d \<and>
      (if \<not> j_is_null J d then (if j_is_object J d then j_dump J d else j_as_string J d) else Inr []) = Inr data"
  proof (cases "m ''data''")
    case None
    then show thesis by (intro that [of "[]"] exI [of _ "j_null J"]) (simp add: get_missing [OF r1] is_null)
  next
    case (Some d)
    with assms(4) obtain t where "j_dump J d = Inr t" "obj d \<noteq> None" using parse_dump by blast
    with Some show thesis by (intro that [of t] exI [of _ d]) (simp add: get_obj [OF r1] is_null(3) is_object)
  qed
  obtain mc where mc: "\<exists>c. j_get J ''mediaConfiguration'' ?r2 = Inr c \<and>
      (if \<not> j_is_null J c then j_as_string J c else Inr []) = Inr mc"
  proof (cases "m ''mediaConfiguration''")
    case None
    then show thesis by (intro that [of "[]"] exI [of _ "j_null J"]) (simp add: get_missing [OF r2(1)] r2(2) is_null)
  next
    case (Some c)
    with assms(5) obtain t where "c = j_string J t" by blast
    with Some show thesis by (intro that [of t] exI [of _ c]) (simp add: get_obj [OF r2(1)] r2(2) is_null as_string)
  qed
  have "listed_room J room = Inr (LicodeRoomInfo_new i name data mc False)"
    using data mc assms(2,3) r2(2) r3(2)
    by (auto simp: listed_room_def Let_def get_obj [OF assms(1)] is_string value_present(1) [OF r1] value_present(1) [OF r3(1)] as_string)
  then show ?thesis by blast
qed

text \<open>A room without a name is given a null name by the test, on which the later read fails.\<close>

lemma listed_room_no_name:
  assumes "obj room = Some m" "m ''name'' = None \<or> m ''name'' = Some (j_null J)"
  shows "listed_room J room \<noteq> Inr info"
proof -
  let ?r1 = "j_touch J ''name'' room"
  have r1: "\<exists>m'. obj ?r1 = Some m' \<and> m' ''name'' = Some (j_null J)"
    using touch_obj [OF assms(1), of "''name''"] assms(2) by auto
  have keep: "\<exists>m'. obj (j_touch J k r) = Some m' \<and> m' ''name'' = Some (j_null J)"
    if "\<exists>m'. obj r = Some m' \<and> m' ''name'' = Some (j_null J)" for k r
    using that touch_obj by fastforce
  obtain m3 where m3: "obj (j_touch J ''mediaConfiguration'' (j_touch J ''data'' ?r1)) = Some m3"
    "m3 ''name'' = Some (j_null J)" using keep [OF keep [OF r1]] by blast
  then have "j_value_string J ''name'' [] (j_touch J ''mediaConfiguration'' (j_touch J ''data'' ?r1)) = Inl (Exn TypeError)"
    using value_present(1) [OF m3] null_string by simp
  then show ?thesis by (simp add: listed_room_def Let_def rbind_Inr_iff)
qed

end


section \<open>Properties\<close>

text \<open>
  C27: However the operations of an HTTP session end, and whenever the caller wakes, the promise is
  given at most one value, a success hands the caller the complete response of the server, and a failure
  of the resolution, the connection or the write gives an empty result, although the
  promise is set before the response is marked; and the caller can always come to its end.
\<close>

theorem session_outcome:
  assumes "hr_body fresh = []" "(hs_step n)\<^sup>*\<^sup>* (hs_SyncRequest fresh q) s"
  shows "length (hs_values s) \<le> 1 \<and>
    (\<forall>resp. hs_returned s = Some resp \<longrightarrow>
       hs_values s = [True] \<and> hs_received s = Some resp \<or>
       hs_values s = [False] \<and> hs_received s = None \<and> (hs_partly s = None \<longrightarrow> response_result resp = [])) \<and>
    (\<exists>s'. (hs_step n)\<^sup>*\<^sup>* s s' \<and> hs_returned s' \<noteq> None)"
proof -
  have "quiet fresh" using assms(1) by (simp add: quiet_def response_result_def)
  then have i: "hs_inv fresh s" using hs_runs.invar_reach [OF assms(2)] hs_start_inv by blast
  then consider "hs_waiting fresh s" | "hs_succeeded s" | "hs_failing s" by (auto simp: hs_inv_def)
  moreover have "hs_ret s" using i by (simp add: hs_inv_def)
  ultimately have "length (hs_values s) \<le> 1 \<and>
    (\<forall>resp. hs_returned s = Some resp \<longrightarrow>
       hs_values s = [True] \<and> hs_received s = Some resp \<or>
       hs_values s = [False] \<and> hs_received s = None \<and> (hs_partly s = None \<longrightarrow> response_result resp = []))"
    by cases (auto simp: hs_waiting_def hs_succeeded_def hs_failing_def hs_ret_def quiet_def split: option.splits)
  with hs_inv_ends [OF i] show ?thesis by blast
qed

theorem session_outcome_witness:
  "\<exists>s'. (hs_step 3000)\<^sup>*\<^sup>* (hs_SyncRequest \<lparr>hr_status = 200, hr_reason = [], hr_body = []\<rparr>
     (HttpRequest_new :: (nat, nat) http_request)) s' \<and> hs_returned s' \<noteq> None"
  using session_outcome [of "\<lparr>hr_status = 200, hr_reason = [], hr_body = []\<rparr>" 3000
      "HttpRequest_new :: (nat, nat) http_request"] by auto

text \<open>
  A read that fails can still be taken for a success: the promise is set before the response is
  marked as failed, so the caller may return whatever part of the response had been read, with its
  status.
\<close>

theorem failed_read_returned:
  "\<exists>s. (hs_step n)\<^sup>*\<^sup>* (hs_SyncRequest fresh q) s \<and> hs_values s = [False] \<and> hs_returned s = Some partly"
proof -
  obtain s where s: "(hs_step n)\<^sup>*\<^sup>* (hs_SyncRequest fresh q) s" "hs_todo s = []" "hs_op s = Some Read"
    "hs_values s = []" "hs_returned s = None" using hs_reach_read by blast
  let ?s1 = "s\<lparr>hs_op := None, hs_todo := hs_handler n Read True, hs_response := partly, hs_partly := Some partly\<rparr>"
  let ?as = "[Set_result 0, Set_reason ''read failed'']"
  let ?s2 = "hs_act (Set_value False) (?s1\<lparr>hs_todo := ?as\<rparr>)"
  have "hs_step n s ?s1" by (rule hs_step.read_failed [OF s(2,3)])
  moreover have "hs_step n ?s1 ?s2" by (rule hs_step.act) (simp add: hs_OnRead_def)
  moreover have "hs_step n ?s2 (?s2\<lparr>hs_returned := Some (hs_response ?s2)\<rparr>)"
    by (rule hs_step.returns) (simp_all add: s(5))
  ultimately have "(hs_step n)\<^sup>*\<^sup>* (hs_SyncRequest fresh q) (?s2\<lparr>hs_returned := Some (hs_response ?s2)\<rparr>)"
    using s(1) by (meson rtranclp.rtrancl_into_rtrancl)
  then show ?thesis by (intro exI conjI) (assumption | simp add: s(4))+
qed

text \<open>
  A token is requested with a POST on the room's token path at the configured host and port, signed over
  time, nonce, user and role, with a signature padded to whole base64 groups;
  and the token that the server sends back, encoded in base64, is the result.
\<close>

theorem token_requested:
  assumes "nlohmann J obj arr plain" "path_ok [''rooms'', roomId, ''tokens''] n"
    and "beast_names E agent auth ctype get post del" "\<forall>s. length (ne_b64 E s) = (8 * length s + 5) div 6"
    and "userName \<noteq> []" "role \<noteq> []"
  shows "\<exists>q sig. nuve_request E ''POST'' [] (''/rooms/'' @ roomId @ ''/tokens'') userName role n = Inr q \<and>
    hs_op (hs_SyncRequest fresh q) = Some (Resolve (nv_url n) (show_int (nv_port n))) \<and>
    rq_calls q = [BSetHost (nv_url n), BTarget (''/rooms/'' @ roomId @ ''/tokens''), BMethod post, BVersion 11,
      BSet agent (ne_agent E), BSet auth (baseHeader @ '',,mauth_username='' @ userName @ '',,,mauth_role='' @ role @
        '',mauth_serviceid='' @ nv_service_id n @ '',mauth_cnonce='' @ show_nat (ne_cnonce E) @
        '',mauth_timestamp='' @ show_int (ne_timestamp E) @ '',mauth_signature='' @ sig),
      BSet ctype ''application/json'', BPreparePayload] \<and>
    sig = CalculateSignature E (show_int (ne_timestamp E) @ '','' @ show_nat (ne_cnonce E) @ '','' @ userName @ '','' @ role) (nv_key n) \<and>
    4 dvd length sig \<and>
    (\<forall>dec j m t. hr_status (ne_respond E q) = 200 \<and> hr_body (ne_respond E q) \<noteq> [] \<and>
       ne_unb64 E (hr_body (ne_respond E q)) = Inr dec \<and> j_parse J dec = Inr j \<and> obj j = Some m \<and>
       m ''signature'' = Some (j_string J (tk_signature t)) \<and> m ''host'' = Some (j_string J (tk_host t)) \<and>
       m ''tokenId'' = Some (j_string J (tk_tokenId t)) \<and> m ''secure'' = Some (j_bool J (tk_secure t)) \<longrightarrow>
       SyncCreateToken J E roomId userName role n = Inr (Some t))"
proof -
  have t: "seg_text [''rooms'', roomId, ''tokens''] = ''/rooms/'' @ roomId @ ''/tokens''" by (simp add: seg_text_def)
  define q where "q = \<lparr>rq_url = HttpUrl_of_builder (nuve_builder [''rooms'', roomId, ''tokens''] n),
    rq_calls = [BSetHost (nv_url n), BTarget (''/rooms/'' @ roomId @ ''/tokens''), BMethod post, BVersion 11,
      BSet agent (ne_agent E), BSet auth (nuve_authorization E userName role n), BSet ctype ''application/json'', BPreparePayload]\<rparr>"
  have q: "nuve_request E ''POST'' [] (''/rooms/'' @ roomId @ ''/tokens'') userName role n = Inr q"
    "rq_url q = HttpUrl_of_builder (nuve_builder [''rooms'', roomId, ''tokens''] n)"
    "rq_calls q = [BSetHost (nv_url n), BTarget (''/rooms/'' @ roomId @ ''/tokens''), BMethod post, BVersion 11,
      BSet agent (ne_agent E), BSet auth (nuve_authorization E userName role n), BSet ctype ''application/json'', BPreparePayload]"
    using nuve_request_ok [OF assms(2,3), of "''POST''" post "[]" userName role] assms(3)
    by (simp_all add: t beast_names_def q_def)
  have r: "nuve_SyncRequest E ''POST'' [] (''/rooms/'' @ roomId @ ''/tokens'') userName role n =
      Inr (response_result (ne_respond E q))" unfolding nuve_SyncRequest_def q(1) by simp
  have tok: "SyncCreateToken J E roomId userName role n = Inr (Some t)"
    if "hr_status (ne_respond E q) = 200" "hr_body (ne_respond E q) \<noteq> []"
       "ne_unb64 E (hr_body (ne_respond E q)) = Inr dec" "j_parse J dec = Inr j" "obj j = Some m"
       "m ''signature'' = Some (j_string J (tk_signature t))" "m ''host'' = Some (j_string J (tk_host t))"
       "m ''tokenId'' = Some (j_string J (tk_tokenId t))" "m ''secure'' = Some (j_bool J (tk_secure t))" for dec j m t
    using r that by (intro nlohmann.token_decoded [OF assms(1) that(3-9)]) (simp_all add: response_result_def)
  have "hs_op (hs_SyncRequest fresh q) = Some (Resolve (nv_url n) (show_int (nv_port n)))"
    by (simp add: hs_SyncRequest_def HttpRequest_Url_def HttpUrl_copy_def HttpUrl_Host_def HttpUrl_Port_def q(2) nuve_builder_def)
  moreover have "nuve_authorization E userName role n = baseHeader @ '',,mauth_username='' @ userName @ '',,,mauth_role='' @ role @
        '',mauth_serviceid='' @ nv_service_id n @ '',mauth_cnonce='' @ show_nat (ne_cnonce E) @
        '',mauth_timestamp='' @ show_int (ne_timestamp E) @ '',mauth_signature='' @
        CalculateSignature E (show_int (ne_timestamp E) @ '','' @ show_nat (ne_cnonce E) @ '','' @ userName @ '','' @ role) (nv_key n)"
    using assms(5,6) by (simp add: nuve_authorization_def nuve_to_sign_def)
  ultimately show ?thesis
    using q(1,3) tok CalculateSignature_length [OF assms(4)] by (intro exI [of _ q] exI conjI) auto
qed


definition nuve_example :: nuve_api where
  "nuve_example = LicodeNuveApi_new ''srv'' ''key'' ''host'' 3000"

text \<open>A server that answers every request with the token's text, in the trivial encoding.\<close>

definition env_example :: "(string, string) nuve_env" where
  "env_example = \<lparr>ne_hmac = \<lambda>d k. d @ k, ne_b64 = \<lambda>s. replicate ((8 * length s + 5) div 6) CHR ''A'',
     ne_unb64 = Inr, ne_timestamp = 1, ne_cnonce = 2, ne_agent = ''beast'', ne_field = Some, ne_verb = Some,
     ne_respond = \<lambda>q. \<lparr>hr_status = 200, hr_reason = [], hr_body = dump (JObj [(''host'', JStr ''h:8080''),
       (''secure'', JBool False), (''signature'', JStr ''sg''), (''tokenId'', JStr ''t'')])\<rparr>\<rparr>"

theorem token_requested_witness:
  "SyncCreateToken json_ref env_example ''r1'' ''user'' ''presenter'' nuve_example =
     Inr (Some \<lparr>tk_tokenId = ''t'', tk_host = ''h:8080'', tk_secure = False, tk_signature = ''sg''\<rparr>)"
proof -
  let ?j = "JObj [(''host'', JStr ''h:8080''), (''secure'', JBool False), (''signature'', JStr ''sg''), (''tokenId'', JStr ''t'')]"
  let ?t = "\<lparr>tk_tokenId = ''t'', tk_host = ''h:8080'', tk_secure = False, tk_signature = ''sg''\<rparr>"
  have n: "nv_url nuve_example = ''host''" "nv_port nuve_example = 3000"
    by (simp_all add: nuve_example_def LicodeNuveApi_new_def to_int16_id)
  have path: "path_ok [''rooms'', ''r1'', ''tokens''] nuve_example"
    by (simp add: path_ok_def n int32_max_def seg_ok_def seg_text_def trim_chars_def show_int_def show_nat.simps
        npos_def size_max_def)
  have names: "beast_names env_example ''User-Agent'' ''Authorization'' ''Content-Type'' ''GET'' ''POST'' ''DELETE''"
    by (simp add: beast_names_def env_example_def)
  have b64: "\<forall>s. length (ne_b64 env_example s) = (8 * length s + 5) div 6" by (simp add: env_example_def)
  have "json_plain ?j" by code_simp
  then have "parse (dump ?j) = Some ?j" by (rule parse_dump)
  then have p: "j_parse json_ref (dump ?j) = Inr ?j" by (simp add: json_ref_def ref_parse_def del: dump.simps)
  have o: "obj_of ?j = Some (map_of [(''host'', JStr ''h:8080''), (''secure'', JBool False),
      (''signature'', JStr ''sg''), (''tokenId'', JStr ''t'')])"
    by (simp add: obj_of_def)
  have resp: "hr_status (ne_respond env_example q) = 200" "hr_body (ne_respond env_example q) = dump ?j"
      "ne_unb64 env_example = Inr" for q
    by (simp_all add: env_example_def)
  have ne: "''user'' \<noteq> []" "''presenter'' \<noteq> []" "dump ?j \<noteq> []" by simp_all
  from token_requested [OF ref.nlohmann_axioms path names b64 ne(1,2)]
  obtain q where "\<forall>dec j m t. hr_status (ne_respond env_example q) = 200 \<and> hr_body (ne_respond env_example q) \<noteq> [] \<and>
       ne_unb64 env_example (hr_body (ne_respond env_example q)) = Inr dec \<and> j_parse json_ref dec = Inr j \<and> obj_of j = Some m \<and>
       m ''signature'' = Some (j_string json_ref (tk_signature t)) \<and> m ''host'' = Some (j_string json_ref (tk_host t)) \<and>
       m ''tokenId'' = Some (j_string json_ref (tk_tokenId t)) \<and> m ''secure'' = Some (j_bool json_ref (tk_secure t)) \<longrightarrow>
       SyncCreateToken json_ref env_example ''r1'' ''user'' ''presenter'' nuve_example = Inr (Some t)"
    by blast
  from this [rule_format, of "dump ?j" ?j _ ?t] show ?thesis
    unfolding resp using p o ne(3) by (simp add: json_ref_def)
qed

text \<open>
  The list of rooms has one entry per room, in the server's order, with the server's ids and
  names; but one room without a name makes the whole list fail: looking for the name stores a null
  name, which the later read rejects.
\<close>

theorem rooms_listed:
  assumes "nlohmann J obj arr plain"
    and "nuve_SyncRequest E ''GET'' [] ''/rooms'' [] [] n = Inr result" "result \<noteq> []"
    and "j_parse J result = Inr j" "arr j = Some rooms"
  shows "((\<forall>i < length rooms. \<exists>m. obj (rooms ! i) = Some m \<and> m ''_id'' = Some (j_string J (fst (ids ! i))) \<and>
        m ''name'' = Some (j_string J (snd (ids ! i))) \<and> m ''data'' = None \<and> m ''mediaConfiguration'' = None) \<and>
      length ids = length rooms \<longrightarrow>
      SyncListRoom J E n = Inr (Some (map (\<lambda>(i, name). LicodeRoomInfo_new i name [] [] False) ids))) \<and>
    ((\<exists>room \<in> set rooms. \<exists>m. obj room = Some m \<and> m ''name'' = None) \<longrightarrow> (\<forall>l. SyncListRoom J E n \<noteq> Inr (Some l)))"
proof (intro conjI impI allI)
  have l: "SyncListRoom J E n = or_nullopt (rbind (rmap (listed_room J) rooms) (\<lambda>rooms. Inr (Some rooms)))"
    using assms(2-4) by (simp add: SyncListRoom_def nlohmann.elems_arr [OF assms(1,5)])
  {
    assume a: "(\<forall>i < length rooms. \<exists>m. obj (rooms ! i) = Some m \<and> m ''_id'' = Some (j_string J (fst (ids ! i))) \<and>
        m ''name'' = Some (j_string J (snd (ids ! i))) \<and> m ''data'' = None \<and> m ''mediaConfiguration'' = None) \<and>
      length ids = length rooms"
    have "listed_room J (rooms ! i) = Inr (LicodeRoomInfo_new (fst (ids ! i)) (snd (ids ! i)) [] [] False)" if "i < length rooms" for i
      using a that nlohmann.listed_room_ok [OF assms(1)] by blast
    then have "rmap (listed_room J) rooms = Inr (map (\<lambda>(i, name). LicodeRoomInfo_new i name [] [] False) ids)"
      using a by (intro rmap_pointwise) (auto simp: case_prod_beta)
    then show "SyncListRoom J E n = Inr (Some (map (\<lambda>(i, name). LicodeRoomInfo_new i name [] [] False) ids))"
      by (simp add: l or_nullopt_def)
  next
    fix infos
    assume "\<exists>room \<in> set rooms. \<exists>m. obj room = Some m \<and> m ''name'' = None"
    then obtain room where "room \<in> set rooms" "\<forall>i. listed_room J room \<noteq> Inr i"
      using nlohmann.listed_room_no_name [OF assms(1)] by blast
    then have "rmap (listed_room J) rooms \<noteq> Inr x" for x using rmap_Inr_nth by (metis in_set_conv_nth)
    then show "SyncListRoom J E n \<noteq> Inr (Some infos)"
      unfolding l or_nullopt_def by (cases "rmap (listed_room J) rooms") (auto split: cpp_error.splits)
  }
qed


definition rooms_text :: string where
  "rooms_text = dump (JArr [JObj [(''_id'', JStr ''r1''), (''name'', JStr ''basicExampleRoom'')]])"

definition rooms_env :: "(string, string) nuve_env" where
  "rooms_env = env_example\<lparr>ne_respond := \<lambda>q. \<lparr>hr_status = 200, hr_reason = [], hr_body = rooms_text\<rparr>\<rparr>"

lemma rooms_text_arrives: "j_parse json_ref rooms_text = Inr (JArr [JObj [(''_id'', JStr ''r1''), (''name'', JStr ''basicExampleRoom'')]])"
proof -
  have "json_plain (JArr [JObj [(''_id'', JStr ''r1''), (''name'', JStr ''basicExampleRoom'')]])" by code_simp
  then show ?thesis unfolding rooms_text_def json_ref_def by (simp add: ref_parse_def parse_dump del: dump.simps)
qed

lemma rooms_request: "nuve_SyncRequest rooms_env ''GET'' [] ''/rooms'' [] [] nuve_example = Inr rooms_text"
proof -
  have n: "nv_url nuve_example = ''host''" "nv_port nuve_example = 3000"
    by (simp_all add: nuve_example_def LicodeNuveApi_new_def to_int16_id)
  have "path_ok [''rooms''] nuve_example"
    by (simp add: path_ok_def n int32_max_def seg_ok_def seg_text_def trim_chars_def show_int_def show_nat.simps
        npos_def size_max_def)
  moreover have "beast_names rooms_env ''User-Agent'' ''Authorization'' ''Content-Type'' ''GET'' ''POST'' ''DELETE''"
    by (simp add: beast_names_def rooms_env_def env_example_def)
  ultimately have "\<exists>q. nuve_request rooms_env ''GET'' [] (seg_text [''rooms'']) [] [] nuve_example = Inr q"
    using nuve_request_ok by (fastforce simp: rooms_env_def env_example_def)
  moreover have "seg_text [''rooms''] = ''/rooms''" by (simp add: seg_text_def)
  ultimately show ?thesis by (auto simp: nuve_SyncRequest_def rooms_env_def response_result_def)
qed

theorem rooms_listed_witness:
  "SyncListRoom json_ref rooms_env nuve_example =
     Inr (Some [LicodeRoomInfo_new ''r1'' ''basicExampleRoom'' [] [] False])"
proof -
  have "rooms_text \<noteq> []" by (simp add: rooms_text_def)
  moreover have "arr_of (JArr [JObj [(''_id'', JStr ''r1''), (''name'', JStr ''basicExampleRoom'')]]) =
      Some [JObj [(''_id'', JStr ''r1''), (''name'', JStr ''basicExampleRoom'')]]"
    by (simp add: arr_of_def)
  ultimately show ?thesis
    using rooms_listed [OF ref.nlohmann_axioms rooms_request _ rooms_text_arrives, of _ "[(''r1'', ''basicExampleRoom'')]"]
    by (simp add: obj_of_def json_ref_def)
qed

end
