(* ===== verification/Thread_Pool.thy ===== *)
theory Thread_Pool
  imports Worker
begin

text \<open>
  \<^verbatim>\<open>thread/thread_pool.cc\<close>: a number of workers over one scheduler, and the choice of the
  worker with the fewest owners. A worker is its position in the vector; how many
  \<^verbatim>\<open>shared_ptr\<close>s outside the pool own it is part of the state, since the code reads it.
\<close>

record thread_pool =
  tp_workers :: "worker list"
  tp_owners :: "nat list"

text \<open>
  \<^verbatim>\<open>reserve\<close> converts the count to an unsigned size: a negative one exceeds every limit. The
  first constructor makes a scheduler with two threads, the second takes one.
\<close>

definition ThreadPool_workers :: "int \<Rightarrow> thread_pool res" where
  "ThreadPool_workers cnt =
     (if cnt < 0 then Inl (Exn LengthError)
      else Inr \<lparr>tp_workers = replicate (nat cnt) Worker_new, tp_owners = replicate (nat cnt) 0\<rparr>)"

definition ThreadPool_new :: "int \<Rightarrow> (('f scheduler \<times> 'f sched_pc list) \<times> thread_pool) res" where
  "ThreadPool_new cnt = rbind (ThreadPool_workers cnt) (\<lambda>p. Inr (Scheduler_new 2, p))"

definition ThreadPool_new_with :: "'s \<Rightarrow> int \<Rightarrow> ('s \<times> thread_pool) res" where
  "ThreadPool_new_with scheduler cnt = rbind (ThreadPool_workers cnt) (\<lambda>p. Inr (scheduler, p))"

text \<open>\<open>tid i\<close> is the id of the thread that worker \<open>i\<close> starts.\<close>

definition ThreadPool_Start :: "(nat \<Rightarrow> nat) \<Rightarrow> thread_pool \<Rightarrow> thread_pool" where
  "ThreadPool_Start tid p =
     p\<lparr>tp_workers := map (\<lambda>(i, w). fst (Worker_Start (tid i) w)) (enumerate 0 (tp_workers p))\<rparr>"

definition ThreadPool_Stop :: "thread_pool \<Rightarrow> thread_pool" where
  "ThreadPool_Stop p = p\<lparr>tp_workers := map (\<lambda>w. fst (Worker_Stop w)) (tp_workers p)\<rparr>"

definition ThreadPool_destroy :: "thread_pool \<Rightarrow> thread_pool" where
  "ThreadPool_destroy p = ThreadPool_Stop p"

text \<open>
  \<^verbatim>\<open>use_count\<close> of worker \<open>i\<close> while \<open>better\<close> is a copy of the pointer to worker \<open>b\<close>: the
  vector's own pointer, the owners outside, and that copy.
\<close>

definition use_count :: "nat list \<Rightarrow> nat \<Rightarrow> nat \<Rightarrow> nat" where
  "use_count owners b i = 1 + owners ! i + (if i = b then 1 else 0)"

definition less_used_step :: "nat list \<Rightarrow> nat \<Rightarrow> nat \<Rightarrow> nat" where
  "less_used_step owners better i =
     (if use_count owners better better > use_count owners better i then i else better)"

definition ThreadPool_GetLessUsedWorker :: "thread_pool \<Rightarrow> nat res" where
  "ThreadPool_GetLessUsedWorker p =
     (if tp_workers p = [] then Inl (UB EmptyFront)
      else Inr (foldl (less_used_step (tp_owners p)) 0 [0..<length (tp_workers p)]))"

text \<open>The caller keeps the pointer.\<close>

definition pool_acquire :: "thread_pool \<Rightarrow> thread_pool" where
  "pool_acquire p =
     (case ThreadPool_GetLessUsedWorker p of
        Inl _ \<Rightarrow> p
      | Inr i \<Rightarrow> p\<lparr>tp_owners := (tp_owners p)[i := Suc (tp_owners p ! i)]\<rparr>)"

section \<open>The choice\<close>

lemma less_used_fold:
  assumes "n \<le> length owners" "0 < n"
  shows "let b = foldl (less_used_step owners) 0 [0..<n] in
    b < n \<and> (\<forall>j < n. owners ! b \<le> owners ! j) \<and> (\<forall>j < n. b < j \<longrightarrow> owners ! b < owners ! j)"
  using assms
proof (induction n)
  case (Suc n)
  show ?case
  proof (cases "n = 0")
    case True
    then show ?thesis by (simp add: less_used_step_def)
  next
    case False
    define b where "b = foldl (less_used_step owners) 0 [0..<n]"
    have b: "b < n" "\<forall>j < n. owners ! b \<le> owners ! j" "\<forall>j < n. b < j \<longrightarrow> owners ! b < owners ! j"
      using Suc False by (simp_all add: b_def Let_def)
    have "foldl (less_used_step owners) 0 [0..<Suc n] = (if owners ! n \<le> owners ! b then n else b)"
      using b(1) by (simp add: b_def [symmetric] less_used_step_def use_count_def)
    then show ?thesis using b by (auto simp: Let_def less_Suc_eq le_less_trans intro: order_trans)
  qed
qed simp

definition pool_ok :: "thread_pool \<Rightarrow> bool" where
  "pool_ok p \<longleftrightarrow> length (tp_owners p) = length (tp_workers p)"

lemma less_used_least:
  assumes "pool_ok p" "ThreadPool_GetLessUsedWorker p = Inr i"
  shows "i < length (tp_workers p)" "\<forall>j < length (tp_workers p). tp_owners p ! i \<le> tp_owners p ! j"
    "\<forall>j < length (tp_workers p). i < j \<longrightarrow> tp_owners p ! i < tp_owners p ! j"
  using assms less_used_fold [of "length (tp_workers p)" "tp_owners p"]
  by (auto simp: pool_ok_def ThreadPool_GetLessUsedWorker_def Let_def split: if_splits)

definition balanced :: "thread_pool \<Rightarrow> bool" where
  "balanced p \<longleftrightarrow> (\<forall>i < length (tp_owners p). \<forall>j < length (tp_owners p). tp_owners p ! i \<le> Suc (tp_owners p ! j))"

lemma acquire_balanced:
  assumes "pool_ok p" "balanced p"
  shows "pool_ok (pool_acquire p)" "balanced (pool_acquire p)"
proof -
  show "pool_ok (pool_acquire p)"
    using assms(1) by (cases "ThreadPool_GetLessUsedWorker p") (simp_all add: pool_acquire_def pool_ok_def)
  show "balanced (pool_acquire p)"
  proof (cases "ThreadPool_GetLessUsedWorker p")
    case (Inl e)
    then show ?thesis using assms by (simp add: pool_acquire_def)
  next
    case (Inr i)
    have least: "tp_owners p ! i \<le> tp_owners p ! j" if "j < length (tp_owners p)" for j
      using less_used_least(2) [OF assms(1) Inr] that assms(1) by (simp add: pool_ok_def)
    let ?o = "tp_owners p" and ?o' = "(tp_owners p)[i := Suc (tp_owners p ! i)]"
    have "?o' ! a \<le> Suc (?o' ! b)" if "a < length ?o" "b < length ?o" for a b
    proof -
      have "?o ! a \<le> Suc (?o ! b)" using assms(2) that by (simp add: balanced_def)
      then show ?thesis
        using least [OF that(2)] that by (cases "a = i"; cases "b = i") simp_all
    qed
    then show ?thesis by (simp add: Inr pool_acquire_def balanced_def)
  qed
qed

lemma pool_new_ok:
  assumes "ThreadPool_workers cnt = Inr p"
  shows "pool_ok p" "balanced p"
  using assms by (auto simp: ThreadPool_workers_def pool_ok_def balanced_def split: if_splits)

section \<open>Properties\<close>

text \<open>
  C34: \<^verbatim>\<open>GetLessUsedWorker\<close> returns the last of the workers with the fewest owners (the
  pointer \<^verbatim>\<open>better\<close> itself counts as an owner, so a tie moves on); as long as workers are handed out that way and none
  is given back, the owners of any two workers never differ by more than one.
\<close>

theorem less_used_balanced:
  assumes "ThreadPool_workers cnt = Inr p" "0 < cnt"
  shows "\<exists>i. ThreadPool_GetLessUsedWorker ((pool_acquire ^^ n) p) = Inr i \<and>
    balanced ((pool_acquire ^^ n) p) \<and>
    (\<forall>j < nat cnt. tp_owners ((pool_acquire ^^ n) p) ! i \<le> tp_owners ((pool_acquire ^^ n) p) ! j \<and>
       (i < j \<longrightarrow> tp_owners ((pool_acquire ^^ n) p) ! i < tp_owners ((pool_acquire ^^ n) p) ! j))"
proof -
  have len: "length (tp_workers ((pool_acquire ^^ n) p)) = nat cnt"
  proof (induction n)
    case 0
    then show ?case using assms by (auto simp: ThreadPool_workers_def split: if_splits)
  next
    case (Suc n)
    then show ?case by (simp add: pool_acquire_def split: sum.split)
  qed
  have ok: "pool_ok ((pool_acquire ^^ n) p) \<and> balanced ((pool_acquire ^^ n) p)"
    using pool_new_ok [OF assms(1)] by (induction n) (simp_all add: acquire_balanced)
  have "tp_workers ((pool_acquire ^^ n) p) \<noteq> []" using len assms(2) by auto
  then obtain i where "ThreadPool_GetLessUsedWorker ((pool_acquire ^^ n) p) = Inr i"
    by (simp add: ThreadPool_GetLessUsedWorker_def)
  with ok less_used_least [of "(pool_acquire ^^ n) p" i] show ?thesis by (simp add: len)
qed

theorem less_used_balanced_witness:
  "\<exists>i. ThreadPool_GetLessUsedWorker ((pool_acquire ^^ 2)
     \<lparr>tp_workers = replicate 3 Worker_new, tp_owners = replicate 3 0\<rparr>) = Inr i"
  using less_used_balanced [of 3 "\<lparr>tp_workers = replicate 3 Worker_new, tp_owners = replicate 3 0\<rparr>" 2]
  by (auto simp: ThreadPool_workers_def)

end
