(* ===== verification/Main_App.thy ===== *)
theory Main_App
  imports Room_Props Webrtc Nuve_Api Thread_Pool
begin

text \<open>
  \<^verbatim>\<open>main.cpp\<close>: the example client. \<^verbatim>\<open>TestBasicExampleRoom\<close> observes a room and the peer
  connections of its streams; \<^verbatim>\<open>main\<close> looks a room up, fetches a token and joins. The
  room's observer is called on the worker's thread, where what it posts to the worker is
  dispatched at once; the callbacks of WebRTC come from another thread. Logging is left out.
\<close>

section \<open>State\<close>

text \<open>What the client depends on of WebRTC: see \<open>Webrtc\<close>.\<close>

record 'd rtc_env =
  re_factory :: "bool \<Rightarrow> bool"
  re_pc :: "rtc_config \<Rightarrow> bool"
  re_parse :: "sdp_type \<Rightarrow> string \<Rightarrow> 'd option"

text \<open>A candidate: its text, \<^verbatim>\<open>sdp_mid\<close> and \<^verbatim>\<open>sdp_mline_index\<close>.\<close>

record candidate =
  ca_text :: string
  ca_mid :: string
  ca_index :: int

record ('j, 'd) app =
  ap_wrapper :: wrapper
  ap_room :: "'j room"
  ap_peers :: "(uint64 \<times> 'd connection option) list"
  ap_sinks :: "uint64 list"          \<comment> \<open>peers whose video got a \<^verbatim>\<open>VideoRender\<close>\<close>

type_synonym ('j, 'd, 'a) appm = "(('j, 'd) app, 'a) stm"

definition on_room :: "('j, 'a) roomm \<Rightarrow> ('j, 'd, 'a) appm" where
  "on_room f ap = (case f (ap_room ap) of (x, r) \<Rightarrow> (x, ap\<lparr>ap_room := r\<rparr>))"

definition index_peer :: "uint64 \<Rightarrow> ('j, 'd, 'd connection option) appm" where
  "index_peer k ap =
     (case map_of (ap_peers ap) k of
        Some p \<Rightarrow> (Inr p, ap)
      | None \<Rightarrow> (Inr None, ap\<lparr>ap_peers := (k, None) # ap_peers ap\<rparr>))"

text \<open>\<^verbatim>\<open>peer_connections_[k]->f()\<close>\<close>

definition on_peer :: "uint64 \<Rightarrow> ('d connection \<Rightarrow> 'd connection res) \<Rightarrow> ('j, 'd, unit) appm" where
  "on_peer k f =
     sbind (index_peer k) (\<lambda>p.
     case p of
       None \<Rightarrow> slift (Inl (UB NullDeref))
     | Some c \<Rightarrow> sbind (slift (f c)) (\<lambda>c'. smodify (\<lambda>ap. ap\<lparr>ap_peers := AList.update k (Some c') (ap_peers ap)\<rparr>)))"

text \<open>\<^verbatim>\<open>PostTask\<close> on the worker's own thread: the lambda that was posted runs at once.\<close>

definition run_last :: "'j json_api \<Rightarrow> (infos \<Rightarrow> infos) \<Rightarrow> ('j, unit) roomm" where
  "run_last J order r =
     (case rev (rm_posted r) of [] \<Rightarrow> (Inr (), r) | t # ts \<Rightarrow> run_task J order t (r\<lparr>rm_posted := rev ts\<rparr>))"

definition dispatched :: "'j json_api \<Rightarrow> (infos \<Rightarrow> infos) \<Rightarrow> ('j, unit) roomm \<Rightarrow> ('j, unit) roomm" where
  "dispatched J order post = sbind post (\<lambda>_. run_last J order)"

section \<open>The example room\<close>

definition TestBasicExampleRoom_new :: "wrapper \<Rightarrow> licode_token \<Rightarrow> ('j, 'd) app" where
  "TestBasicExampleRoom_new w token = \<lparr>ap_wrapper = w, ap_room = LicodeRoom_new token, ap_peers = [], ap_sinks = []\<rparr>"

definition app_Join :: "('j, 'd, unit) appm" where "app_Join = on_room rm_Join"
definition app_Leave :: "('j, 'd, unit) appm" where "app_Leave = on_room rm_Leave"

definition rtc_server_of :: "ice_server \<Rightarrow> rtc_ice_server" where
  "rtc_server_of ice = \<lparr>rs_uri = ice_url ice, rs_username = ice_username ice, rs_password = ice_credential ice\<rparr>"

definition app_CreatePeerConnection :: "'d rtc_env \<Rightarrow> uint64 \<Rightarrow> ('j, 'd, unit) appm" where
  "app_CreatePeerConnection R streamId =
     sbind (index_peer streamId) (\<lambda>p ap.
     if p \<noteq> None then (Inr (), ap)
     else
       let config = \<lparr>rc_sdp_semantics = KPlanB, rc_enable_dtls_srtp = True, rc_type = TrNoHost,
                     rc_servers = map rtc_server_of (rm_IceServers (ap_room ap))\<rparr>
       in sbind (slift (WebrtcConnection_new (re_factory R) (re_pc R) (ap_wrapper ap) streamId True config)) (\<lambda>c.
          smodify (\<lambda>ap. ap\<lparr>ap_peers := AList.update streamId (Some c) (ap_peers ap)\<rparr>)) ap)"

definition app_OnAddRemoteStream :: "'j json_api \<Rightarrow> 'd rtc_env \<Rightarrow> (infos \<Rightarrow> infos) \<Rightarrow> addr option \<Rightarrow> ('j, 'd, unit) appm" where
  "app_OnAddRemoteStream J R order info =
     sbind (on_room (rm_deref info)) (\<lambda>i.
     sbind (app_CreatePeerConnection R (si_id i)) (\<lambda>_.
     on_room (dispatched J order (rm_SubscribeStream (si_id i)))))"

definition plan_b_options :: answer_options where
  "plan_b_options = \<lparr>ao_offer_to_receive_audio = 1, ao_offer_to_receive_video = 1\<rparr>"

definition app_OnPublishStreamAllocateConnId :: "'d rtc_env \<Rightarrow> addr option \<Rightarrow> ('j, 'd, unit) appm" where
  "app_OnPublishStreamAllocateConnId R info =
     sbind (on_room (rm_deref info)) (\<lambda>i.
     sbind (app_CreatePeerConnection R (si_id i)) (\<lambda>_.
     on_peer (si_id i) (wc_CreateOffer plan_b_options)))"

definition app_OnReceiveOffer :: "'d rtc_env \<Rightarrow> addr option \<Rightarrow> string \<Rightarrow> ('j, 'd, unit) appm" where
  "app_OnReceiveOffer R info sdp =
     (case CreateSessionDescription (re_parse R) Offer sdp of
        None \<Rightarrow> sret ()
      | Some d \<Rightarrow>
          sbind (on_room (rm_deref info)) (\<lambda>i.
          sbind (on_peer (si_id i) (wc_SetRemoteDescription d)) (\<lambda>_.
          on_peer (si_id i) (wc_CreateAnswer plan_b_options))))"

definition app_OnSubscribeStreamAllocateConnId :: "addr option \<Rightarrow> ('j, 'd, unit) appm" where
  "app_OnSubscribeStreamAllocateConnId info = sbind (on_room (rm_deref info)) (\<lambda>_. sret ())"

text \<open>The room's observer.\<close>

fun app_observer :: "'j json_api \<Rightarrow> 'd rtc_env \<Rightarrow> (infos \<Rightarrow> infos) \<Rightarrow> obs_call \<Rightarrow> ('j, 'd, unit) appm" where
  "app_observer J R order (Obs_OnJoinRoom i) = sret ()"
| "app_observer J R order (Obs_OnAddRemoteStream a) = app_OnAddRemoteStream J R order (Some a)"
| "app_observer J R order (Obs_OnSubscribeStreamAllocateConnId p) = app_OnSubscribeStreamAllocateConnId p"
| "app_observer J R order (Obs_OnStreamConnectReady p) = sret ()"
| "app_observer J R order (Obs_OnReceiveOffer p sdp) = app_OnReceiveOffer R p sdp"

text \<open>The callbacks of a peer connection.\<close>

definition app_OnSdpCreateSuccess :: "'d rtc_env \<Rightarrow> uint64 \<Rightarrow> sdp_type \<Rightarrow> string \<Rightarrow> ('j, 'd, unit) appm" where
  "app_OnSdpCreateSuccess R peer type sdp =
     (case CreateSessionDescription (re_parse R) type sdp of
        None \<Rightarrow> sret ()
      | Some d \<Rightarrow>
          sbind (on_peer peer (wc_SetLocalDescription d)) (\<lambda>_. on_room (rm_SendAnswer peer sdp)))"

definition app_OnIceCandidate :: "uint64 \<Rightarrow> candidate \<Rightarrow> ('j, 'd, unit) appm" where
  "app_OnIceCandidate peer candidate =
     on_room (rm_SendIceCandidate peer (ca_mid candidate) (ca_index candidate) (''a='' @ ca_text candidate))"

definition app_OnAddRemoteVideoTrack :: "uint64 \<Rightarrow> ('j, 'd, unit) appm" where
  "app_OnAddRemoteVideoTrack peer = smodify (\<lambda>ap. ap\<lparr>ap_sinks := ap_sinks ap @ [peer]\<rparr>)"

fun app_peer_event :: "'d rtc_env \<Rightarrow> candidate peer_event \<Rightarrow> ('j, 'd, unit) appm" where
  "app_peer_event R (OnSdpCreateSuccess peer type sdp) = app_OnSdpCreateSuccess R peer type sdp"
| "app_peer_event R (OnIceCandidateEv peer c) = app_OnIceCandidate peer c"
| "app_peer_event R (OnAddRemoteVideoTrack peer) = app_OnAddRemoteVideoTrack peer"
| "app_peer_event R _ = sret ()"

text \<open>The worker runs a lambda of the room; the calls it makes on the observer come last in it.\<close>

fun app_observed :: "'j json_api \<Rightarrow> 'd rtc_env \<Rightarrow> (infos \<Rightarrow> infos) \<Rightarrow> obs_call list \<Rightarrow> ('j, 'd, unit) appm" where
  "app_observed J R order [] = sret ()"
| "app_observed J R order (c # cs) = sbind (app_observer J R order c) (\<lambda>_. app_observed J R order cs)"

definition app_task :: "'j json_api \<Rightarrow> 'd rtc_env \<Rightarrow> (infos \<Rightarrow> infos) \<Rightarrow> 'j room_task \<Rightarrow> ('j, 'd, unit) appm" where
  "app_task J R order t ap =
     sbind (on_room (run_task J order t)) (\<lambda>_ ap'.
       app_observed J R order (drop (length (rm_observed (ap_room ap))) (rm_observed (ap_room ap'))) ap') ap"

text \<open>The worker runs what was posted before, in order.\<close>

fun app_tasks :: "'j json_api \<Rightarrow> 'd rtc_env \<Rightarrow> (infos \<Rightarrow> infos) \<Rightarrow> 'j room_task list \<Rightarrow> ('j, 'd, unit) appm" where
  "app_tasks J R order [] = sret ()"
| "app_tasks J R order (t # ts) = sbind (app_task J R order t) (\<lambda>_. app_tasks J R order ts)"

definition app_worker :: "'j json_api \<Rightarrow> 'd rtc_env \<Rightarrow> (infos \<Rightarrow> infos) \<Rightarrow> ('j, 'd, unit) appm" where
  "app_worker J R order ap =
     app_tasks J R order (rm_posted (ap_room ap)) (ap\<lparr>ap_room := (ap_room ap)\<lparr>rm_posted := []\<rparr>\<rparr>)"

section \<open>main\<close>

text \<open>The result: \<^verbatim>\<open>main\<close> returns a number, or waits for ever with the room joining.\<close>

datatype ('j, 'd) main_result = Exit int | Waits "('j, 'd) app"

definition example_room_id :: "room_info list \<Rightarrow> string" where
  "example_room_id rooms =
     foldl (\<lambda>i room. if ri_name room = ''basicExampleRoom'' then ri_id room else i) [] rooms"

definition main_nuve :: nuve_api where
  "main_nuve = LicodeNuveApi_new ''5f9047504d2d972192a1dfc0'' ''3550'' ''192.168.1.5'' 3000"

text \<open>\<open>E\<close> and \<open>E'\<close>: the world at the two requests, \<open>tid\<close>: the id of the worker's thread.\<close>

definition main_prog :: "'j json_api \<Rightarrow> ('f, 'v) nuve_env \<Rightarrow> ('f, 'v) nuve_env \<Rightarrow> (nat \<Rightarrow> nat) \<Rightarrow> ('j, 'd) main_result res" where
  "main_prog J E E' tid =
     (let w = fst (WebrtcWrapper_Init WebrtcWrapper_Instance) in
      rbind (ThreadPool_new 1 :: ((unit scheduler \<times> unit sched_pc list) \<times> thread_pool) res) (\<lambda>(sch, pool).
      let pool = ThreadPool_Start tid pool in
      rbind (SyncListRoom J E main_nuve) (\<lambda>rooms.
      case rooms of
        None \<Rightarrow> Inr (Exit (- 1))
      | Some listRooms \<Rightarrow>
          let exampleRoomId = example_room_id listRooms in
          if exampleRoomId = [] then Inr (Exit (- 1))
          else
            rbind (SyncCreateToken J E' exampleRoomId ''shajia'' ''presenter'' main_nuve) (\<lambda>token.
            case token of
              None \<Rightarrow> Inr (Exit (- 1))
            | Some licodeToken \<Rightarrow>
                rbind (ThreadPool_GetLessUsedWorker pool) (\<lambda>worker.
                (case app_Join (TestBasicExampleRoom_new w licodeToken) of
                   (Inl e, _) \<Rightarrow> Inl e
                 | (Inr _, ap) \<Rightarrow> Inr (Waits ap)))))))"


section \<open>Sending\<close>

text \<open>The signaling object is connected, over a session that accepts messages.\<close>

definition online :: "'r signaling \<Rightarrow> bool" where
  "online s \<longleftrightarrow> sg_state s = SConnected \<and> (\<exists>ws. sg_websocket s = Some ws \<and> ws_connected ws)"

lemma SendMsg_online:
  assumes "online s"
  shows "LicodeSignaling_SendMsg m s = (Inr (), s\<lparr>sg_calls := sg_calls s @ [Ws (Post_OnSend m)]\<rparr>)"
proof -
  obtain ws where ws: "sg_websocket s = Some ws" "ws_connected ws" "sg_state s = SConnected"
    using assms by (auto simp: online_def)
  then have "LicodeSignaling_SendMsg m s =
      (Inr (), s\<lparr>sg_websocket := Some ws, sg_calls := sg_calls s @ [Ws (Post_OnSend m)]\<rparr>)"
    by (simp add: LicodeSignaling_SendMsg_def sg_CurrentState_def on_websocket_def ws_SendMsg_def ws_IsConnected_def)
  also have "s\<lparr>sg_websocket := Some ws, sg_calls := sg_calls s @ [Ws (Post_OnSend m)]\<rparr> =
      s\<lparr>sg_calls := sg_calls s @ [Ws (Post_OnSend m)]\<rparr>" using ws(1) by (cases s) simp
  finally show ?thesis .
qed

lemma online_calls [simp]: "online (s\<lparr>sg_calls := cs\<rparr>) = online s"
  by (simp add: online_def)

text \<open>The packet by which a stream is subscribed.\<close>

definition subscribe_packet :: "'j json_api \<Rightarrow> uint64 \<Rightarrow> string res" where
  "subscribe_packet J k = SubscribeStream_Build J (SubscribeStream_SetOfferFromErizo True
     (SubscribeStream_SetStreamId k SubscribeStream_new))"

lemma subscribe_packet_arrives:
  assumes "nlohmann J obj arr plain"
  obtains pkt j where "subscribe_packet J k = Inr pkt" "arrives J (Inr pkt) j" "str_at J [Idx 0] j = Inr ''subscribe''"
    "uint_at J [Idx 1, Key ''streamId''] j = Inr k"
proof -
  have "\<exists>j. arrives J (subscribe_packet J k) j \<and> str_at J [Idx 0] j = Inr ''subscribe'' \<and>
     uint_at J [Idx 1, Key ''streamId''] j = Inr k"
    using nlohmann.SubscribeStream_arrives [OF assms, of "SubscribeStream_SetOfferFromErizo True
        (SubscribeStream_SetStreamId k SubscribeStream_new)" k]
    by (auto simp: subscribe_packet_def SubscribeStream_SetOfferFromErizo_def SubscribeStream_SetStreamId_def SubscribeStream_new_def)
  then show thesis using that by (auto simp: arrives_def)
qed

lemma subscribe_online:
  assumes "subscribe_packet J k = Inr pkt" "online (rm_sig r)"
  shows "dispatched J order (rm_SubscribeStream k) r = (Inr (), r\<lparr>rm_pending_subscribe := rm_pending_subscribe r @ [k],
     rm_sig := (rm_sig r)\<lparr>sg_calls := sg_calls (rm_sig r) @ [Ws (Post_OnSend (SubscribeStreamMsgHeader @ pkt))]\<rparr>\<rparr>)"
proof -
  have "r\<lparr>rm_posted := rm_posted r\<rparr> = r" by (cases r) simp
  then show ?thesis
    using assms
    by (simp add: dispatched_def rm_SubscribeStream_def rm_PostTask_def run_last_def task_subscribe_def
        subscribe_packet_def on_signaling_def SendMsg_online)
qed

section \<open>New streams\<close>

definition has_peer :: "('j, 'd) app \<Rightarrow> uint64 \<Rightarrow> bool" where
  "has_peer ap k \<longleftrightarrow> (\<exists>c. map_of (ap_peers ap) k = Some (Some c))"

lemma CreatePeerConnection_ok:
  assumes "ww_init (ap_wrapper ap)" "re_factory R (ww_thread (ap_wrapper ap))"
  shows "\<exists>ps. app_CreatePeerConnection R k ap = (Inr (), ap\<lparr>ap_peers := ps\<rparr>) \<and>
    (\<exists>c. map_of ps k = Some (Some c)) \<and> (\<forall>k'. has_peer ap k' \<longrightarrow> (\<exists>c. map_of ps k' = Some (Some c)))"
proof (cases "has_peer ap k")
  case True
  moreover have "ap\<lparr>ap_peers := ap_peers ap\<rparr> = ap" by (cases ap) simp
  ultimately show ?thesis
    by (intro exI [of _ "ap_peers ap"]) (auto simp: app_CreatePeerConnection_def sbind_def index_peer_def has_peer_def)
next
  case False
  then consider "map_of (ap_peers ap) k = None" | "map_of (ap_peers ap) k = Some None"
    by (cases "map_of (ap_peers ap) k") (auto simp: has_peer_def)
  then show ?thesis
  proof cases
    case 1
    with assms show ?thesis
      by (fastforce simp: app_CreatePeerConnection_def sbind_def index_peer_def Let_def WebrtcConnection_new_def
          CreatePCFactory_def SignalingThread_def has_peer_def update_conv')
  next
    case 2
    with assms show ?thesis
      by (fastforce simp: app_CreatePeerConnection_def sbind_def index_peer_def Let_def WebrtcConnection_new_def
          CreatePCFactory_def SignalingThread_def has_peer_def update_conv')
  qed
qed


lemma exist_stream_step:
  assumes "subscribe_packet J k = Inr pkt" "online (rm_sig (ap_room ap))"
    and "ww_init (ap_wrapper ap)" "re_factory R (ww_thread (ap_wrapper ap))"
    and "a < length (rm_heap (ap_room ap))" "si_id (rm_heap (ap_room ap) ! a) = k" "map_of (rm_remote (ap_room ap)) k = None"
  shows "\<exists>ps. app_task J R order (TExistStream a) ap = (Inr (), ap\<lparr>ap_room := (ap_room ap)\<lparr>
        rm_remote := (k, Some a) # rm_remote (ap_room ap),
        rm_observed := rm_observed (ap_room ap) @ [Obs_OnAddRemoteStream a],
        rm_pending_subscribe := rm_pending_subscribe (ap_room ap) @ [k],
        rm_sig := (rm_sig (ap_room ap))\<lparr>sg_calls := sg_calls (rm_sig (ap_room ap)) @
          [Ws (Post_OnSend (SubscribeStreamMsgHeader @ pkt))]\<rparr>\<rparr>, ap_peers := ps\<rparr>) \<and>
    (\<exists>c. map_of ps k = Some (Some c)) \<and> (\<forall>k'. has_peer ap k' \<longrightarrow> (\<exists>c. map_of ps k' = Some (Some c)))"
proof -
  let ?r = "(ap_room ap)\<lparr>rm_remote := (k, Some a) # rm_remote (ap_room ap),
        rm_observed := rm_observed (ap_room ap) @ [Obs_OnAddRemoteStream a]\<rparr>"
  let ?ap = "ap\<lparr>ap_room := ?r\<rparr>"
  have run: "on_room (run_task J order (TExistStream a)) ap = (Inr (), ?ap)"
    using assms(5-7)
    by (simp add: on_room_def task_exist_stream_def sbind_def rm_deref_def deref_def um_emplace_def rm_observer_def)
  have deref: "on_room (rm_deref (Some a)) ?ap = (Inr (rm_heap (ap_room ap) ! a), ?ap)"
    using assms(5) by (simp add: on_room_def rm_deref_def deref_def)
  obtain ps where ps: "app_CreatePeerConnection R k ?ap = (Inr (), ?ap\<lparr>ap_peers := ps\<rparr>)"
    "\<exists>c. map_of ps k = Some (Some c)" "\<forall>k'. has_peer ?ap k' \<longrightarrow> (\<exists>c. map_of ps k' = Some (Some c))"
    using CreatePeerConnection_ok [of ?ap R k] assms(3,4) by auto
  have sub: "dispatched J order (rm_SubscribeStream k) ?r = (Inr (), ?r\<lparr>rm_pending_subscribe := rm_pending_subscribe ?r @ [k],
     rm_sig := (rm_sig ?r)\<lparr>sg_calls := sg_calls (rm_sig ?r) @ [Ws (Post_OnSend (SubscribeStreamMsgHeader @ pkt))]\<rparr>\<rparr>)"
    by (rule subscribe_online) (simp_all add: assms(1,2))
  have "app_task J R order (TExistStream a) ap = app_OnAddRemoteStream J R order (Some a) ?ap"
    unfolding app_task_def by (simp add: sbind_def run del: run_task.simps split: prod.split sum.split)
  also have "\<dots> = on_room (dispatched J order (rm_SubscribeStream k)) (?ap\<lparr>ap_peers := ps\<rparr>)"
    by (simp only: app_OnAddRemoteStream_def sbind_def deref ps(1) assms(6) prod.case sum.case)
  also have "\<dots> = (Inr (), (?ap\<lparr>ap_peers := ps\<rparr>)\<lparr>ap_room := ?r\<lparr>rm_pending_subscribe := rm_pending_subscribe ?r @ [k],
     rm_sig := (rm_sig ?r)\<lparr>sg_calls := sg_calls (rm_sig ?r) @ [Ws (Post_OnSend (SubscribeStreamMsgHeader @ pkt))]\<rparr>\<rparr>\<rparr>)"
    unfolding on_room_def using sub by simp
  finally show ?thesis using ps(2,3) by (intro exI [of _ ps]) (simp add: has_peer_def)
qed

text \<open>
  Running the tasks for existing streams, one after the other; \<open>subscribed\<close> says what has been
  done for the streams \<open>ss\<close> between two states.
\<close>

definition subscribed :: "'j json_api \<Rightarrow> ('j, 'd) app \<Rightarrow> stream_info list \<Rightarrow> ('j, 'd) app \<Rightarrow> bool" where
  "subscribed J ap ss ap' \<longleftrightarrow>
     rm_pending_subscribe (ap_room ap') = rm_pending_subscribe (ap_room ap) @ map si_id ss \<and>
     rm_state (ap_room ap') = rm_state (ap_room ap) \<and> rm_heap (ap_room ap') = rm_heap (ap_room ap) \<and>
     rm_posted (ap_room ap') = rm_posted (ap_room ap) \<and>
     (\<forall>k. has_peer ap k \<or> k \<in> si_id ` set ss \<longrightarrow> has_peer ap' k) \<and>
     (\<exists>pkts. list_all2 (\<lambda>s pkt. subscribe_packet J (si_id s) = Inr pkt) ss pkts \<and>
        sg_calls (rm_sig (ap_room ap')) = sg_calls (rm_sig (ap_room ap)) @
          map (\<lambda>pkt. Ws (Post_OnSend (SubscribeStreamMsgHeader @ pkt))) pkts)"

lemma subscribed_trans:
  assumes "subscribed J ap ss ap'" "subscribed J ap' ts ap''"
  shows "subscribed J ap (ss @ ts) ap''"
proof -
  obtain ps qs where "list_all2 (\<lambda>s pkt. subscribe_packet J (si_id s) = Inr pkt) ss ps"
    "sg_calls (rm_sig (ap_room ap')) = sg_calls (rm_sig (ap_room ap)) @ map (\<lambda>pkt. Ws (Post_OnSend (SubscribeStreamMsgHeader @ pkt))) ps"
    "list_all2 (\<lambda>s pkt. subscribe_packet J (si_id s) = Inr pkt) ts qs"
    "sg_calls (rm_sig (ap_room ap'')) = sg_calls (rm_sig (ap_room ap')) @ map (\<lambda>pkt. Ws (Post_OnSend (SubscribeStreamMsgHeader @ pkt))) qs"
    using assms unfolding subscribed_def by blast
  then have "list_all2 (\<lambda>s pkt. subscribe_packet J (si_id s) = Inr pkt) (ss @ ts) (ps @ qs) \<and>
    sg_calls (rm_sig (ap_room ap'')) = sg_calls (rm_sig (ap_room ap)) @ map (\<lambda>pkt. Ws (Post_OnSend (SubscribeStreamMsgHeader @ pkt))) (ps @ qs)"
    by (simp add: list_all2_appendI)
  then show ?thesis using assms unfolding subscribed_def by (auto simp del: list_all2_append)
qed

lemma exist_streams_run:
  assumes J: "nlohmann J obj arr plain"
    and "online (rm_sig (ap_room ap))" "ww_init (ap_wrapper ap)" "re_factory R (ww_thread (ap_wrapper ap))"
    and "\<forall>a \<in> set as. a < length (rm_heap (ap_room ap))"
    and "distinct (map (\<lambda>a. si_id (rm_heap (ap_room ap) ! a)) as)"
    and "\<forall>a \<in> set as. map_of (rm_remote (ap_room ap)) (si_id (rm_heap (ap_room ap) ! a)) = None"
  shows "\<exists>ap'. app_tasks J R order (map TExistStream as) ap = (Inr (), ap') \<and>
    subscribed J ap (map (\<lambda>a. rm_heap (ap_room ap) ! a) as) ap'"
  using assms(2-7)
proof (induction as arbitrary: ap)
  case Nil
  show ?case by (simp add: subscribed_def sret_def)
next
  case (Cons a as)
  let ?s = "rm_heap (ap_room ap) ! a"
  obtain pkt where pkt: "subscribe_packet J (si_id ?s) = Inr pkt" using subscribe_packet_arrives [OF J] by metis
  obtain ps where ps: "app_task J R order (TExistStream a) ap = (Inr (), ap\<lparr>ap_room := (ap_room ap)\<lparr>
        rm_remote := (si_id ?s, Some a) # rm_remote (ap_room ap),
        rm_observed := rm_observed (ap_room ap) @ [Obs_OnAddRemoteStream a],
        rm_pending_subscribe := rm_pending_subscribe (ap_room ap) @ [si_id ?s],
        rm_sig := (rm_sig (ap_room ap))\<lparr>sg_calls := sg_calls (rm_sig (ap_room ap)) @
          [Ws (Post_OnSend (SubscribeStreamMsgHeader @ pkt))]\<rparr>\<rparr>, ap_peers := ps\<rparr>)"
    "\<exists>c. map_of ps (si_id ?s) = Some (Some c)" "\<forall>k'. has_peer ap k' \<longrightarrow> (\<exists>c. map_of ps k' = Some (Some c))"
    using exist_stream_step [OF pkt Cons.prems(1-3), of a order] Cons.prems(4,6) by auto
  define ap1 where "ap1 = ap\<lparr>ap_room := (ap_room ap)\<lparr>
        rm_remote := (si_id ?s, Some a) # rm_remote (ap_room ap),
        rm_observed := rm_observed (ap_room ap) @ [Obs_OnAddRemoteStream a],
        rm_pending_subscribe := rm_pending_subscribe (ap_room ap) @ [si_id ?s],
        rm_sig := (rm_sig (ap_room ap))\<lparr>sg_calls := sg_calls (rm_sig (ap_room ap)) @
          [Ws (Post_OnSend (SubscribeStreamMsgHeader @ pkt))]\<rparr>\<rparr>, ap_peers := ps\<rparr>"
  have one: "subscribed J ap [?s] ap1"
    unfolding subscribed_def using ps(2,3) pkt by (auto simp: ap1_def has_peer_def intro!: exI [of _ "[pkt]"])
  have "\<exists>ap'. app_tasks J R order (map TExistStream as) ap1 = (Inr (), ap') \<and>
    subscribed J ap1 (map (\<lambda>a. rm_heap (ap_room ap1) ! a) as) ap'"
    using Cons.prems by (intro Cons.IH) (auto simp: ap1_def image_iff)
  then obtain ap' where ap': "app_tasks J R order (map TExistStream as) ap1 = (Inr (), ap')"
    "subscribed J ap1 (map (\<lambda>a. rm_heap (ap_room ap) ! a) as) ap'" by (auto simp: ap1_def)
  have "app_tasks J R order (map TExistStream (a # as)) ap = (Inr (), ap')"
    using ps(1) ap'(1) unfolding ap1_def [symmetric] by simp
  with subscribed_trans [OF one ap'(2)] show ?case by auto
qed


lemma join_message:
  assumes J: "nlohmann J obj arr plain" and cb: "sg_init_token_cb (rm_sig r) = Some InitTokenCb"
    and body: "no_digit body" "str_ok (''43333'' @ body)"
    and json: "j_parse J body = Inr json" "arr json = Some [j_string J ''success'', b]" "join_body J obj arr v b"
  shows "room_message J (''43111'' @ body) r =
    (Inr (), joined v (r\<lparr>rm_sig := (rm_sig r)\<lparr>sg_calls := sg_calls (rm_sig r) @ [Call_init_token InitTokenCb body]\<rparr>\<rparr>))"
proof -
  have "on_signaling (sg_OnWebsocketMsg J (''43111'' @ body)) r =
      (Inr (), r\<lparr>rm_sig := (rm_sig r)\<lparr>sg_calls := sg_calls (rm_sig r) @ [Call_init_token InitTokenCb body]\<rparr>\<rparr>)"
    unfolding dispatch_code(4) [OF body]
    by (simp add: on_signaling_def sg_ProcessInitTokenResponse_def cb sg_emit_def)
  then show ?thesis
    unfolding room_message_def
    by (simp add: sbind_def nlohmann.OnJoinRoom_success [OF J json])
qed

lemma joined_worker:
  assumes J: "nlohmann J obj arr plain" and ap: "ap_room ap = joined v r" "rm_posted r = []"
    and "online (rm_sig r)" "ww_init (ap_wrapper ap)" "re_factory R (ww_thread (ap_wrapper ap))"
    and ids: "distinct (map si_id (jm_streams v))"
  shows "\<exists>ap1 ap'. app_worker J R order ap = (Inr (), ap') \<and> subscribed J ap1 (jm_streams v) ap' \<and>
    ap1 = ap\<lparr>ap_room := (ap_room ap)\<lparr>rm_posted := [], rm_observed := rm_observed r @ [Obs_OnJoinRoom (jm_id v)]\<rparr>\<rparr>"
proof -
  let ?as = "[length (rm_heap r)..<length (rm_heap r) + length (jm_streams v)]"
  let ?ap1 = "ap\<lparr>ap_room := (ap_room ap)\<lparr>rm_posted := [], rm_observed := rm_observed r @ [Obs_OnJoinRoom (jm_id v)]\<rparr>\<rparr>"
  have posted: "rm_posted (ap_room ap) = TJoined # map TExistStream ?as" using ap by (simp add: joined_def)
  have first: "app_task J R order TJoined (ap\<lparr>ap_room := (ap_room ap)\<lparr>rm_posted := []\<rparr>\<rparr>) = (Inr (), ?ap1)"
    by (simp add: app_task_def sbind_def on_room_def task_joined_def rm_observer_def ap joined_def)
  have heap: "map (\<lambda>a. rm_heap (ap_room ?ap1) ! a) ?as = jm_streams v"
    by (rule nth_equalityI) (simp_all add: ap joined_def nth_append)
  from arg_cong [OF this, of "map si_id"]
  have ids': "map (\<lambda>a. si_id (rm_heap (ap_room ?ap1) ! a)) ?as = map si_id (jm_streams v)"
    by (simp only: map_map comp_def)
  have "\<exists>ap'. app_tasks J R order (map TExistStream ?as) ?ap1 = (Inr (), ap') \<and>
      subscribed J ?ap1 (map (\<lambda>a. rm_heap (ap_room ?ap1) ! a) ?as) ap'"
  proof (rule exist_streams_run [OF J])
    show "distinct (map (\<lambda>a. si_id (rm_heap (ap_room ?ap1) ! a)) ?as)" unfolding ids' by (rule ids)
  qed (use assms(4-6) in \<open>simp_all add: ap joined_def\<close>)
  then obtain ap' where ap': "app_tasks J R order (map TExistStream ?as) ?ap1 = (Inr (), ap')"
    "subscribed J ?ap1 (jm_streams v) ap'" unfolding heap by blast
  then have "app_worker J R order ap = (Inr (), ap')"
    unfolding app_worker_def posted app_tasks.simps by (simp add: sbind_def first)
  with ap'(2) show ?thesis by blast
qed

section \<open>Offers\<close>

lemma find_connection_unique:
  assumes "(k, Some a) \<in> set m" "a < length h" "si_connection_id (h ! a) = c"
    and "\<forall>(k', p) \<in> set m. \<exists>i. deref h p = Inr i \<and> (si_connection_id i = c \<longrightarrow> p = Some a)"
  shows "find_connection h c m = Inr (Some a)"
  using assms by (induction m) (auto simp: deref_def)

lemma on_peer_ok:
  assumes "map_of (ap_peers ap) k = Some (Some c)" "f c = Inr c'"
  shows "on_peer k f ap = (Inr (), ap\<lparr>ap_peers := AList.update k (Some c') (ap_peers ap)\<rparr>)"
  using assms by (simp add: on_peer_def sbind_def index_peer_def)

lemma offer_step:
  assumes "find_connection (rm_heap (ap_room ap)) c (order (rm_remote (ap_room ap))) = Inr (Some a)"
    and "a < length (rm_heap (ap_room ap))" "si_id (rm_heap (ap_room ap) ! a) = k"
    and "map_of (ap_peers ap) k = Some (Some conn)" "wc_pc conn" "re_parse R Offer sdp = Some d"
  shows "\<exists>ps. app_task J R order (TOffer c sdp) ap = (Inr (), ap\<lparr>ap_room := (ap_room ap)\<lparr>
      rm_observed := rm_observed (ap_room ap) @ [Obs_OnReceiveOffer (Some a) sdp]\<rparr>, ap_peers := ps\<rparr>) \<and>
    map_of ps k = Some (Some (conn\<lparr>wc_calls := wc_calls conn @ [Pc_SetRemoteDescription True d, Pc_CreateAnswer plan_b_options]\<rparr>))"
proof -
  let ?ap = "ap\<lparr>ap_room := (ap_room ap)\<lparr>rm_observed := rm_observed (ap_room ap) @ [Obs_OnReceiveOffer (Some a) sdp]\<rparr>\<rparr>"
  let ?c1 = "conn\<lparr>wc_calls := wc_calls conn @ [Pc_SetRemoteDescription True d]\<rparr>"
  let ?ap1 = "?ap\<lparr>ap_peers := AList.update k (Some ?c1) (ap_peers ap)\<rparr>"
  let ?c2 = "conn\<lparr>wc_calls := wc_calls conn @ [Pc_SetRemoteDescription True d, Pc_CreateAnswer plan_b_options]\<rparr>"
  have run: "on_room (run_task J order (TOffer c sdp)) ap = (Inr (), ?ap)"
    using assms(1) by (simp add: on_room_def task_offer_def sbind_def find_remote_def rm_observer_def)
  have "app_task J R order (TOffer c sdp) ap = app_OnReceiveOffer R (Some a) sdp ?ap"
    unfolding app_task_def by (simp add: sbind_def run del: run_task.simps split: prod.split sum.split)
  also have "\<dots> = sbind (on_peer k (wc_SetRemoteDescription d)) (\<lambda>_. on_peer k (wc_CreateAnswer plan_b_options)) ?ap"
    using assms(2,3,6)
    by (simp add: app_OnReceiveOffer_def CreateSessionDescription_def sbind_def on_room_def rm_deref_def deref_def)
  also have "\<dots> = on_peer k (wc_CreateAnswer plan_b_options) ?ap1"
    using on_peer_ok [of ?ap k conn "wc_SetRemoteDescription d" ?c1] assms(4,5)
    by (simp add: sbind_def wc_SetRemoteDescription_def on_pc_def)
  also have "\<dots> = (Inr (), ?ap1\<lparr>ap_peers := AList.update k (Some ?c2) (ap_peers ?ap1)\<rparr>)"
    using assms(5) by (intro on_peer_ok) (auto simp: wc_CreateAnswer_def on_pc_def update_conv')
  finally show ?thesis by (intro exI [of _ "AList.update k (Some ?c2) (ap_peers ?ap1)"]) (simp add: update_conv')
qed

lemma answer_step:
  assumes "map_of (ap_peers ap) k = Some (Some conn)" "wc_pc conn" "re_parse R Answer sdp = Some d"
  shows "\<exists>ps. app_peer_event R (OnSdpCreateSuccess k Answer sdp) ap = (Inr (), ap\<lparr>ap_peers := ps,
      ap_room := (ap_room ap)\<lparr>rm_posted := rm_posted (ap_room ap) @ [TSendAnswer k sdp]\<rparr>\<rparr>) \<and>
    map_of ps k = Some (Some (conn\<lparr>wc_calls := wc_calls conn @ [Pc_SetLocalDescription False d]\<rparr>))"
proof -
  let ?c = "conn\<lparr>wc_calls := wc_calls conn @ [Pc_SetLocalDescription False d]\<rparr>"
  have "on_peer k (wc_SetLocalDescription d) ap = (Inr (), ap\<lparr>ap_peers := AList.update k (Some ?c) (ap_peers ap)\<rparr>)"
    using assms(2) by (intro on_peer_ok [OF assms(1)]) (simp add: wc_SetLocalDescription_def on_pc_def)
  then show ?thesis
    using assms(3)
    by (intro exI [of _ "AList.update k (Some ?c) (ap_peers ap)"])
      (simp add: app_OnSdpCreateSuccess_def CreateSessionDescription_def sbind_def on_room_def rm_SendAnswer_def
        rm_PostTask_def update_conv')
qed

lemma send_answer_step:
  assumes J: "nlohmann J obj arr plain" and "map_of (rm_remote r) k = Some (Some a)" "a < length (rm_heap r)"
    and "ascii (rm_erizo_id r)" "ascii (si_connection_id (rm_heap r ! a))" "ascii sdp" and on: "online (rm_sig r)"
  shows "\<exists>pkt j. run_task J order (TSendAnswer k sdp) r =
      (Inr (), r\<lparr>rm_sig := (rm_sig r)\<lparr>sg_calls := sg_calls (rm_sig r) @ [Ws (Post_OnSend (EventHeader @ pkt))]\<rparr>\<rparr>) \<and>
    arrives J (Inr pkt) j \<and> str_at J [Idx 0] j = Inr ''connectionMessage'' \<and>
    str_at J [Idx 1, Key ''connectionId''] j = Inr (si_connection_id (rm_heap r ! a)) \<and>
    str_at J [Idx 1, Key ''erizoId''] j = Inr (rm_erizo_id r) \<and>
    str_at J [Idx 1, Key ''msg'', Key ''type''] j = Inr ''answer'' \<and>
    str_at J [Idx 1, Key ''msg'', Key ''sdp''] j = Inr sdp"
proof -
  define b where "b = OfferOrAnswer_SetSdp sdp (OfferOrAnswer_SetErizoId (rm_erizo_id r)
     (OfferOrAnswer_SetConnId (si_connection_id (rm_heap r ! a)) (OfferOrAnswer_SetType ''answer'' OfferOrAnswer_new)))"
  have b: "oa_browser b = ''cpp''" "oa_erizo_id b = rm_erizo_id r" "oa_connection_id b = si_connection_id (rm_heap r ! a)"
    "oa_type b = ''answer''" "oa_sdp b = sdp"
    by (simp_all add: b_def OfferOrAnswer_SetSdp_def OfferOrAnswer_SetErizoId_def OfferOrAnswer_SetConnId_def
        OfferOrAnswer_SetType_def OfferOrAnswer_new_def)
  obtain j where j: "arrives J (OfferOrAnswer_Build J b) j" "str_at J [Idx 0] j = Inr ''connectionMessage''"
    "str_at J [Idx 1, Key ''connectionId''] j = Inr (si_connection_id (rm_heap r ! a))"
    "str_at J [Idx 1, Key ''erizoId''] j = Inr (rm_erizo_id r)"
    "str_at J [Idx 1, Key ''msg'', Key ''type''] j = Inr ''answer''" "str_at J [Idx 1, Key ''msg'', Key ''sdp''] j = Inr sdp"
    using nlohmann.OfferOrAnswer_arrives [OF J, of b] assms(4-6) unfolding b by auto
  obtain pkt where pkt: "OfferOrAnswer_Build J b = Inr pkt" using j(1) by (auto simp: arrives_def)
  have "r\<lparr>rm_remote := rm_remote r\<rparr> = r" by (cases r) simp
  then have "run_task J order (TSendAnswer k sdp) r =
      (Inr (), r\<lparr>rm_sig := (rm_sig r)\<lparr>sg_calls := sg_calls (rm_sig r) @ [Ws (Post_OnSend (EventHeader @ pkt))]\<rparr>\<rparr>)"
    using assms(2,3) pkt
    by (simp add: task_send_answer_def send_sdp_def sbind_def index_remote_def um_index_def rm_deref_def deref_def
        b_def on_signaling_def SendMsg_online [OF on])
  with j pkt show ?thesis by (intro exI [of _ pkt] exI [of _ j]) simp
qed

end
