(* ===== verification/Client_Frames.thy ===== *)
theory Client_Frames
  imports Main_App
begin

text \<open>
  What the client says over its websocket. A frame is the ping or a packet behind its code;
  \<open>client_frame\<close> is the type of the texts that the code hands to the session. Everything that the
  signaling object, the room and the example client do to the session, they do by sending such frames and by asking
  for the connection to be closed (\<open>sg_talk\<close>).
\<close>

section \<open>Frames\<close>

inductive client_frame :: "'j json_api \<Rightarrow> string \<Rightarrow> bool" for J where
  ping: "client_frame J SOCKET_IO_PING"
| token: "CreateToken_Build J tb = Inr pkt \<Longrightarrow>
    client_frame J (SOCKET_IO_MESSAGE @ SOCKET_IO_PACKET_EVENT @ show_nat INIT_TOKEN_TRANS_ID @ pkt)"
| subscribe: "SubscribeStream_Build J sb = Inr pkt \<Longrightarrow> client_frame J (SubscribeStreamMsgHeader @ pkt)"
| publish: "PublicStream_Build J pb = Inr pkt \<Longrightarrow> client_frame J (PublishStreamMsgHeader @ pkt)"
| unsubscribe: "UnsubscribeStream_Build J ub = Inr pkt \<Longrightarrow> client_frame J (EventHeader @ pkt)"
| description: "OfferOrAnswer_Build J ob = Inr pkt \<Longrightarrow> client_frame J (EventHeader @ pkt)"
| ice: "Connection_Build J cb = Inr pkt \<Longrightarrow> client_frame J (EventHeader @ pkt)"

text \<open>
  What a server sees of a frame: a code it knows, and the text of a JSON array behind it. The
  code ends where the digits end, so the two can be told apart.
\<close>

definition frame_codes :: "string list" where
  "frame_codes = [''42'', ''42111'', ''42222'', ''42333'']"

definition well_framed :: "string \<Rightarrow> bool" where
  "well_framed m \<longleftrightarrow> m = ''2'' \<or>
     leading_digits m \<in> set frame_codes \<and> take 1 (drop (length (leading_digits m)) m) = ''[''"

lemma well_framed_packet:
  assumes "code \<in> set frame_codes"
  shows "well_framed (code @ CHR ''['' # t)"
proof -
  have "leading_digits (code @ CHR ''['' # t) = code"
    using assms by (intro leading_digits_code) (auto simp: frame_codes_def is_digit_codes no_digit_def is_digit_def)
  with assms show ?thesis by (simp add: well_framed_def)
qed

context nlohmann
begin

lemma items_text: "rbind (j_items J vs) (j_dump J) = Inr s \<Longrightarrow> \<exists>t. s = CHR ''['' # t"
  using items [of vs] by (auto simp: rbind_Inr_iff dest: dump_array)

lemma packet_text:
  "CreateToken_Build J tb = Inr s \<Longrightarrow> \<exists>t. s = CHR ''['' # t"
  "SubscribeStream_Build J sb = Inr s \<Longrightarrow> \<exists>t. s = CHR ''['' # t"
  "PublicStream_Build J pb = Inr s \<Longrightarrow> \<exists>t. s = CHR ''['' # t"
  "UnsubscribeStream_Build J ub = Inr s \<Longrightarrow> \<exists>t. s = CHR ''['' # t"
  "OfferOrAnswer_Build J ob = Inr s \<Longrightarrow> \<exists>t. s = CHR ''['' # t"
  "Connection_Build J cb = Inr s \<Longrightarrow> \<exists>t. s = CHR ''['' # t"
proof -
  show "CreateToken_Build J tb = Inr s \<Longrightarrow> \<exists>t. s = CHR ''['' # t"
    by (auto simp: CreateToken_Build_def rbind_Inr_iff dest!: dump_array [OF arr_array])
  show "SubscribeStream_Build J sb = Inr s \<Longrightarrow> \<exists>t. s = CHR ''['' # t" "PublicStream_Build J pb = Inr s \<Longrightarrow> \<exists>t. s = CHR ''['' # t"
    "UnsubscribeStream_Build J ub = Inr s \<Longrightarrow> \<exists>t. s = CHR ''['' # t" "OfferOrAnswer_Build J ob = Inr s \<Longrightarrow> \<exists>t. s = CHR ''['' # t"
    "Connection_Build J cb = Inr s \<Longrightarrow> \<exists>t. s = CHR ''['' # t"
    unfolding SubscribeStream_Build_def PublicStream_Build_def UnsubscribeStream_Build_def OfferOrAnswer_Build_def Connection_Build_def
    using items_text by (auto simp only: rbind_Inr_iff [where m = "initialised _"] rbind_Inr_iff [where m = "j_assigns _ _"])
qed

lemma client_frame_well_framed: "client_frame J m \<Longrightarrow> well_framed m"
proof (induction rule: client_frame.induct)
  case ping
  show ?case by (simp add: well_framed_def SOCKET_IO_PING_def)
next
  case (token tb pkt)
  then show ?case using packet_text(1) well_framed_packet [of "''42111''"]
    by (auto simp: SOCKET_IO_MESSAGE_def SOCKET_IO_PACKET_EVENT_def INIT_TOKEN_TRANS_ID_def show_nat.simps frame_codes_def)
next
  case (subscribe sb pkt)
  then show ?case using packet_text(2) well_framed_packet [of "''42222''"]
    by (auto simp: SubscribeStreamMsgHeader_def SOCKET_IO_MESSAGE_def SOCKET_IO_PACKET_EVENT_def SUBSCRIBE_STREAM_TRANS_IS_def
        show_nat.simps frame_codes_def)
next
  case (publish pb pkt)
  then show ?case using packet_text(3) well_framed_packet [of "''42333''"]
    by (auto simp: PublishStreamMsgHeader_def SOCKET_IO_MESSAGE_def SOCKET_IO_PACKET_EVENT_def PUBLISH_STREAM_TRANS_IS_def
        show_nat.simps frame_codes_def)
qed (use packet_text(4-6) well_framed_packet [of "''42''"] in \<open>fastforce simp: EventHeader_def code_strings frame_codes_def\<close>)+

end

text \<open>The packets that lambdas carry to the worker.\<close>

fun ok_task :: "'j json_api \<Rightarrow> 'j room_task \<Rightarrow> bool" where
  "ok_task J (TPublish pkt info) \<longleftrightarrow> client_frame J (PublishStreamMsgHeader @ pkt)"
| "ok_task J (TUnPublish pkt) \<longleftrightarrow> client_frame J (EventHeader @ pkt)"
| "ok_task J _ \<longleftrightarrow> True"

section \<open>What is done to the session\<close>

fun is_ws :: "'r sig_call \<Rightarrow> bool" where
  "is_ws (Ws c) = True"
| "is_ws _ = False"

definition sg_callbacks :: "'r signaling \<Rightarrow> 'r option list" where
  "sg_callbacks s = [sg_init_token_cb s, sg_disconnect_cb s, sg_event_cb s, sg_subscribe_cb s, sg_publish_cb s]"

inductive talk_step :: "'j json_api \<Rightarrow> 'r signaling \<Rightarrow> 'r signaling \<Rightarrow> bool" for J where
  other: "sg_websocket s' = sg_websocket s \<Longrightarrow> sg_callbacks s' = sg_callbacks s \<Longrightarrow>
    sg_calls s' = sg_calls s @ cs \<Longrightarrow> \<forall>c \<in> set cs. \<not> is_ws c \<Longrightarrow> talk_step J s s'"
| send: "client_frame J m \<Longrightarrow> on_websocket (ws_SendMsg m) s = (Inr (), s') \<Longrightarrow> talk_step J s s'"
| leave: "on_websocket ws_Disconnect s = (Inr (), s') \<Longrightarrow> talk_step J s s'"

abbreviation sg_talk :: "'j json_api \<Rightarrow> 'r signaling \<Rightarrow> 'r signaling \<Rightarrow> bool" where
  "sg_talk J \<equiv> (talk_step J)\<^sup>*\<^sup>*"

named_theorems talk_intros

text \<open>The rules for one predicate \<open>I\<close> of the state.\<close>

lemma at_sbind: "I (snd (m s)) \<Longrightarrow> (\<And>x t. I t \<Longrightarrow> I (snd (f x t))) \<Longrightarrow> I (snd (sbind m f s))"
  by (cases "m s") (auto simp: sbind_def split: sum.split)

lemma at_sbind_slift: "I s \<Longrightarrow> (\<And>x. v = Inr x \<Longrightarrow> I (snd (f x s))) \<Longrightarrow> I (snd (sbind (slift v) f s))"
  by (cases v) auto

lemma at_scatch: "I (snd (m s)) \<Longrightarrow> (\<And>t. I t \<Longrightarrow> I (snd (h t))) \<Longrightarrow> I (snd (scatch m h s))"
  by (cases "m s") (auto simp: scatch_def split: sum.split cpp_error.split)

lemma at_if: "(c \<Longrightarrow> I (snd x)) \<Longrightarrow> (\<not> c \<Longrightarrow> I (snd y)) \<Longrightarrow> I (snd (if c then x else y))"
  by simp

lemma at_if_fun: "(c \<Longrightarrow> I (snd (x s))) \<Longrightarrow> (\<not> c \<Longrightarrow> I (snd (y s))) \<Longrightarrow> I (snd ((if c then x else y) s))"
  by simp

lemma at_option: "(c = None \<Longrightarrow> I (snd x)) \<Longrightarrow> (\<And>a. c = Some a \<Longrightarrow> I (snd (y a))) \<Longrightarrow> I (snd (case c of None \<Rightarrow> x | Some a \<Rightarrow> y a))"
  by (cases c) simp_all

lemma at_ret: "I s \<Longrightarrow> I (snd (x, s))" "I s \<Longrightarrow> I (snd (sret y s))" "I s \<Longrightarrow> I (snd (slift z s))"
  by simp_all

lemma at_smodify: "I (g s) \<Longrightarrow> I (snd (smodify g s))"
  by simp

section \<open>The signaling object\<close>

lemmas sg_talk_rules [talk_intros] =
  at_sbind_slift [where I = "sg_talk J s0" for J s0] at_sbind [where I = "sg_talk J s0" for J s0]
  at_scatch [where I = "sg_talk J s0" for J s0] at_if [where I = "sg_talk J s0" for J s0]
  at_if_fun [where I = "sg_talk J s0" for J s0]
  at_option [where I = "sg_talk J s0" for J s0] at_ret [where I = "sg_talk J s0" for J s0]

lemma sg_talk_more: "sg_talk J s0 s \<Longrightarrow> talk_step J s s' \<Longrightarrow> sg_talk J s0 s'"
  by (rule rtranclp.rtrancl_into_rtrancl)

lemma sg_talk_emit [talk_intros]:
  "sg_talk J s0 s \<Longrightarrow> \<forall>c \<in> set cs. \<not> is_ws c \<Longrightarrow> sg_talk J s0 (snd (sg_emit cs s))"
  by (erule sg_talk_more) (rule talk_step.other, auto simp: sg_emit_def sg_callbacks_def)

lemma sg_talk_other:
  "sg_talk J s0 s \<Longrightarrow> sg_websocket s' = sg_websocket s \<Longrightarrow> sg_callbacks s' = sg_callbacks s \<Longrightarrow> sg_calls s' = sg_calls s \<Longrightarrow>
    sg_talk J s0 s'"
  by (erule sg_talk_more) (rule talk_step.other [where cs = "[]"], auto)

lemma sg_talk_state [talk_intros]: "sg_talk J s0 s \<Longrightarrow> sg_talk J s0 (snd (sg_UpdateState st s))"
  by (erule sg_talk_other) (simp_all add: sg_UpdateState_def sg_callbacks_def)

lemma sg_talk_websocket:
  assumes "sg_talk J s0 s" and "\<And>s'. on_websocket f s = (Inr (), s') \<Longrightarrow> talk_step J s s'"
  shows "sg_talk J s0 (snd (on_websocket f s))"
proof (cases "sg_websocket s")
  case None
  with assms(1) show ?thesis by (simp add: on_websocket_def)
next
  case (Some ws)
  then obtain s' where "on_websocket f s = (Inr (), s')" using on_websocket_ok by blast
  with assms show ?thesis by (simp add: sg_talk_more)
qed

lemma sg_talk_SendMsg [talk_intros]:
  "sg_talk J s0 s \<Longrightarrow> client_frame J m \<Longrightarrow> sg_talk J s0 (snd (on_websocket (ws_SendMsg m) s))"
  "sg_talk J s0 s \<Longrightarrow> client_frame J m \<Longrightarrow> sg_talk J s0 (snd (LicodeSignaling_SendMsg m s))"
  unfolding LicodeSignaling_SendMsg_def
  by (auto intro: sg_talk_websocket talk_step.send)

lemma sg_talk_Dispose [talk_intros]: "sg_talk J s0 s \<Longrightarrow> sg_talk J s0 (snd (LicodeSignaling_Dispose s))"
  unfolding LicodeSignaling_Dispose_def
  by (auto intro: sg_talk_websocket talk_step.leave split: option.split)

lemma sg_talk_handlers [talk_intros]:
  "sg_talk J s0 s \<Longrightarrow> sg_talk J s0 (snd (sg_ProcessSubscribeStream msg s))"
  "sg_talk J s0 s \<Longrightarrow> sg_talk J s0 (snd (sg_ProcessPublishStream msg s))"
  "sg_talk J s0 s \<Longrightarrow> sg_talk J s0 (snd (sg_ProcessInitTokenResponse msg s))"
  "sg_talk J s0 s \<Longrightarrow> sg_talk J s0 (snd (sg_KeepAlive s))"
  "sg_talk J s0 s \<Longrightarrow> sg_talk J s0 (snd (sg_ProcessPong s))"
  "sg_talk J s0 s \<Longrightarrow> sg_talk J s0 (snd (sg_OnWebsocketDisconnect msg s))"
  unfolding sg_ProcessSubscribeStream_def sg_ProcessPublishStream_def sg_ProcessInitTokenResponse_def
    sg_KeepAlive_def sg_ProcessPong_def sg_OnWebsocketDisconnect_def
  by (intro talk_intros; simp)+

lemma sg_talk_Open [talk_intros]: "sg_talk J s0 s \<Longrightarrow> sg_talk J s0 (snd (sg_ProcessSocketIOOpen K msg s))"
  by (erule sg_talk_other) (simp_all add: sg_ProcessSocketIOOpen_def sg_callbacks_def split: prod.split)

lemma sg_talk_InitToken [talk_intros]: "sg_talk J s0 s \<Longrightarrow> sg_talk J s0 (snd (sg_InitToken J b s))"
  unfolding sg_InitToken_def Let_def by (intro talk_intros client_frame.token)

lemma sg_talk_Ping [talk_intros]: "sg_talk J s0 s \<Longrightarrow> sg_talk J s0 (snd (sg_SocketIoPing s))"
  unfolding sg_SocketIoPing_def by (intro talk_intros client_frame.ping)

lemma sg_talk_Disconnect [talk_intros]: "sg_talk J s0 s \<Longrightarrow> sg_talk J s0 (snd (sg_ProcessDisconnect s))"
  unfolding sg_ProcessDisconnect_def Let_def by (intro talk_intros; simp)

lemma sg_talk_Event [talk_intros]: "sg_talk J s0 s \<Longrightarrow> sg_talk J s0 (snd (sg_ProcessEvent K msg s))"
  unfolding sg_ProcessEvent_def by (intro talk_intros; simp)

lemma sg_talk_Msg [talk_intros]: "sg_talk J s0 s \<Longrightarrow> sg_talk J s0 (snd (sg_OnWebsocketMsg J msg s))"
  unfolding sg_OnWebsocketMsg_def Let_def by (intro talk_intros)

section \<open>The room\<close>

definition talks :: "'j json_api \<Rightarrow> room_cb signaling \<Rightarrow> 'j room \<Rightarrow> bool" where
  "talks J s0 r \<longleftrightarrow> sg_talk J s0 (rm_sig r) \<and> (\<forall>t \<in> set (rm_posted r). ok_task J t)"

lemmas talks_rules [talk_intros] =
  at_sbind_slift [where I = "talks J s0" for J s0] at_sbind [where I = "talks J s0" for J s0]
  at_scatch [where I = "talks J s0" for J s0] at_if [where I = "talks J s0" for J s0]
  at_if_fun [where I = "talks J s0" for J s0] at_option [where I = "talks J s0" for J s0]
  at_ret [where I = "talks J s0" for J s0] at_smodify [where I = "talks J s0" for J s0]

lemma talks_same: "talks J s0 r \<Longrightarrow> rm_sig r' = rm_sig r \<Longrightarrow> rm_posted r' = rm_posted r \<Longrightarrow> talks J s0 r'"
  by (simp add: talks_def)

lemma talks_updates [talk_intros]:
  "talks J s0 r \<Longrightarrow> talks J s0 (r\<lparr>rm_id := a\<rparr>)" "talks J s0 r \<Longrightarrow> talks J s0 (r\<lparr>rm_client_id := a, rm_remote := m\<rparr>)"
  "talks J s0 r \<Longrightarrow> talks J s0 (r\<lparr>rm_p2p := b\<rparr>)" "talks J s0 r \<Longrightarrow> talks J s0 (r\<lparr>rm_default_video_bw := n\<rparr>)"
  "talks J s0 r \<Longrightarrow> talks J s0 (r\<lparr>rm_max_video_bw := n\<rparr>)" "talks J s0 r \<Longrightarrow> talks J s0 (r\<lparr>rm_single_pc := b\<rparr>)"
  "talks J s0 r \<Longrightarrow> talks J s0 (r\<lparr>rm_ice_server_list := is\<rparr>)" "talks J s0 r \<Longrightarrow> talks J s0 (r\<lparr>rm_erizo_id := a\<rparr>)"
  "talks J s0 r \<Longrightarrow> talks J s0 (r\<lparr>rm_pending_publish := ps\<rparr>)" "talks J s0 r \<Longrightarrow> talks J s0 (r\<lparr>rm_pending_subscribe := q\<rparr>)"
  "talks J s0 r \<Longrightarrow> talks J s0 (r\<lparr>rm_remote := m\<rparr>)" "talks J s0 r \<Longrightarrow> talks J s0 (r\<lparr>rm_local := m\<rparr>)"
  by (erule talks_same; simp)+

lemma talks_basic [talk_intros]:
  "talks J s0 r \<Longrightarrow> talks J s0 (snd (rm_Update st r))" "talks J s0 r \<Longrightarrow> talks J s0 (snd (rm_observer ob r))"
  "talks J s0 r \<Longrightarrow> talks J s0 (snd (rm_deref p r))" "talks J s0 r \<Longrightarrow> talks J s0 (snd (rm_make_shared i r))"
  "talks J s0 r \<Longrightarrow> talks J s0 (snd (index_remote k r))" "talks J s0 r \<Longrightarrow> talks J s0 (snd (index_local k r))"
  "talks J s0 r \<Longrightarrow> talks J s0 (snd (find_remote order c r))" "talks J s0 r \<Longrightarrow> talks J s0 (snd (find_local order c r))"
  "talks J s0 r \<Longrightarrow> talks J s0 (snd (field K as key j r))"
  by (erule talks_same; simp add: rm_Update_def rm_observer_def rm_deref_def rm_make_shared_def index_remote_def
      index_local_def find_remote_def find_local_def field_def split: prod.split)+

lemma talks_modify [talk_intros]: "talks J s0 r \<Longrightarrow> talks J s0 (snd (rm_modify p f r))"
  by (erule talks_same) (simp_all add: rm_modify_def sbind_def rm_deref_def split: sum.split)

lemma talks_post [talk_intros]: "talks J s0 r \<Longrightarrow> ok_task J t \<Longrightarrow> talks J s0 (snd (rm_PostTask t r))"
  by (simp add: talks_def rm_PostTask_def)

lemma talks_signaling [talk_intros]:
  "talks J s0 r \<Longrightarrow> (\<And>s. sg_talk J s0 s \<Longrightarrow> sg_talk J s0 (snd (f s))) \<Longrightarrow> talks J s0 (snd (on_signaling f r))"
  by (simp add: talks_def on_signaling_def split_beta)

lemma talks_exist_streams [talk_intros]: "talks J s0 r \<Longrightarrow> talks J s0 (snd (exist_streams K js r))"
  by (induction js arbitrary: r) (simp_all, intro talk_intros)

lemma talks_push_ice [talk_intros]: "talks J s0 r \<Longrightarrow> talks J s0 (snd (push_ice_servers K js r))"
proof (induction js arbitrary: r)
  case (Cons j js)
  then show ?case unfolding push_ice_servers.simps by (intro talk_intros Cons.IH)
qed simp

lemma talks_post_exist [talk_intros]: "talks J s0 r \<Longrightarrow> talks J s0 (snd (post_exist_streams as r))"
proof (induction "as" arbitrary: r)
  case (Cons a as)
  then show ?case unfolding post_exist_streams.simps by (intro talk_intros Cons.IH) simp_all
qed simp

lemma talks_join_success [talk_intros]: "talks J s0 r \<Longrightarrow> talks J s0 (snd (join_success K body r))"
  unfolding join_success_def by (intro talk_intros; simp)

lemma talks_OnJoinRoom [talk_intros]: "talks J s0 r \<Longrightarrow> talks J s0 (snd (rm_OnJoinRoom K msg r))"
  unfolding rm_OnJoinRoom_def by (intro talk_intros)

lemma talks_OnEvent [talk_intros]: "talks J s0 r \<Longrightarrow> talks J s0 (snd (rm_OnEvent K event msg r))"
  unfolding rm_OnEvent_def rm_OnErizoConnectionEvent_def rm_OnAddStream_def rm_OnRemoveStream_def rm_receiveOffer_def
    rm_receiveAnswer_def rm_OnPeerConnectionConnectErizoReady_def
  by (intro talk_intros; simp)

lemma talks_callback [talk_intros]: "talks J s0 r \<Longrightarrow> talks J s0 (snd (room_callback K c r))"
  by (cases "(K, c)" rule: room_callback.cases)
    (simp_all add: rm_OnLeaveRoom_def rm_OnSubscribeStream_def rm_OnPublishStream_def talk_intros del: stm_simps)

lemma talks_callbacks [talk_intros]: "talks J s0 r \<Longrightarrow> talks J s0 (snd (room_callbacks K cs r))"
proof (induction cs arbitrary: r)
  case (Cons c cs)
  then show ?case unfolding room_callbacks.simps by (intro talk_intros Cons.IH)
qed simp

lemma talks_message [talk_intros]: "talks J s0 r \<Longrightarrow> talks J s0 (snd (room_message J msg r))"
  unfolding room_message_def by (intro talk_intros)

lemma talks_note_erizo [talk_intros]: "talks J s0 r \<Longrightarrow> talks J s0 (snd (note_erizo_id K at json r))"
  unfolding note_erizo_id_def by (intro talk_intros)

lemma talks_send_sdp [talk_intros]: "talks J s0 r \<Longrightarrow> talks J s0 (snd (send_sdp J type k sdp r))"
  unfolding send_sdp_def by (intro talk_intros client_frame.description)

lemma talks_send_ice [talk_intros]: "talks J s0 r \<Longrightarrow> talks J s0 (snd (task_send_ice J k mid n cand r))"
  unfolding task_send_ice_def by (intro talk_intros client_frame.ice)

lemma talks_subscribe [talk_intros]:
  "talks J s0 r \<Longrightarrow> talks J s0 (snd (task_subscribe J k r))" "talks J s0 r \<Longrightarrow> talks J s0 (snd (task_unsubscribe J k r))"
  unfolding task_subscribe_def task_unsubscribe_def
  by (intro talk_intros client_frame.subscribe client_frame.unsubscribe; assumption)+

lemma talks_publish [talk_intros]:
  "talks J s0 r \<Longrightarrow> client_frame J (PublishStreamMsgHeader @ pkt) \<Longrightarrow> talks J s0 (snd (task_publish pkt a r))"
  "talks J s0 r \<Longrightarrow> client_frame J (EventHeader @ pkt) \<Longrightarrow> talks J s0 (snd (task_unpublish pkt r))"
  unfolding task_publish_def task_unpublish_def by (intro talk_intros; assumption)+

lemma talks_answers [talk_intros]:
  "talks J s0 r \<Longrightarrow> talks J s0 (snd (task_subscribed K json r))" "talks J s0 r \<Longrightarrow> talks J s0 (snd (task_published K msg r))"
  unfolding task_subscribed_def task_published_def
  by (cases "rm_pending_subscribe r"; simp only: list.case; intro talk_intros; assumption)
    (cases "rm_pending_publish r"; simp only: list.case; intro talk_intros; assumption)

lemma talks_run_task [talk_intros]:
  "talks J s0 r \<Longrightarrow> ok_task J t \<Longrightarrow> talks J s0 (snd (run_task J order t r))"
  unfolding atomize_imp
  by (cases t; simp only: run_task.simps ok_task.simps task_send_answer_def task_send_offer_def task_joined_def
      task_exist_stream_def task_add_stream_def task_remove_stream_def task_ready_def task_offer_def)
    (intro impI talk_intros; simp)+

lemma talks_run_last [talk_intros]: "talks J s0 r \<Longrightarrow> talks J s0 (snd (run_last J order r))"
proof (cases "rev (rm_posted r)")
  case (Cons t ts)
  assume r: "talks J s0 r"
  have "rm_posted r = rev ts @ [t]" using Cons by (simp add: rev_eq_Cons_iff)
  with r have "talks J s0 (r\<lparr>rm_posted := rev ts\<rparr>)" "ok_task J t" by (simp_all add: talks_def)
  with Cons show ?thesis by (simp add: run_last_def talks_run_task)
qed (simp add: run_last_def)

lemma talks_Leave: "talks J s0 r \<Longrightarrow> talks J s0 (snd (rm_Leave r))"
  unfolding rm_Leave_def by (intro talk_intros)

section \<open>The client\<close>

definition app_talks :: "'j json_api \<Rightarrow> room_cb signaling \<Rightarrow> ('j, 'd) app \<Rightarrow> bool" where
  "app_talks J s0 ap \<longleftrightarrow> talks J s0 (ap_room ap)"

lemmas app_talks_rules [talk_intros] =
  at_sbind_slift [where I = "app_talks J s0" for J s0] at_sbind [where I = "app_talks J s0" for J s0]
  at_if [where I = "app_talks J s0" for J s0]
  at_if_fun [where I = "app_talks J s0" for J s0] at_option [where I = "app_talks J s0" for J s0]
  at_ret [where I = "app_talks J s0" for J s0] at_smodify [where I = "app_talks J s0" for J s0]

lemma app_talks_room [talk_intros]:
  "app_talks J s0 ap \<Longrightarrow> (\<And>r. talks J s0 r \<Longrightarrow> talks J s0 (snd (f r))) \<Longrightarrow> app_talks J s0 (snd (on_room f ap))"
  by (simp add: app_talks_def on_room_def split_beta)

lemma app_talks_peers [talk_intros]: "app_talks J s0 ap \<Longrightarrow> app_talks J s0 (ap\<lparr>ap_peers := ps\<rparr>)"
  "app_talks J s0 ap \<Longrightarrow> app_talks J s0 (ap\<lparr>ap_sinks := ss\<rparr>)"
  by (simp_all add: app_talks_def)

lemma app_talks_index [talk_intros]: "app_talks J s0 ap \<Longrightarrow> app_talks J s0 (snd (index_peer k ap))"
  unfolding index_peer_def by (auto simp: app_talks_def split: option.split)

lemma app_talks_peer [talk_intros]: "app_talks J s0 ap \<Longrightarrow> app_talks J s0 (snd (on_peer k f ap))"
  unfolding on_peer_def
  by (rule talk_intros, (rule talk_intros, assumption), case_tac x; simp only: option.case; intro talk_intros)

lemma app_talks_Create [talk_intros]: "app_talks J s0 ap \<Longrightarrow> app_talks J s0 (snd (app_CreatePeerConnection R k ap))"
  unfolding app_CreatePeerConnection_def Let_def by (intro talk_intros)

lemma app_talks_observer [talk_intros]: "app_talks J s0 ap \<Longrightarrow> app_talks J s0 (snd (app_observer J R order c ap))"
proof (cases c)
  case (Obs_OnReceiveOffer p sdp)
  assume "app_talks J s0 ap"
  then show ?thesis unfolding Obs_OnReceiveOffer app_observer.simps app_OnReceiveOffer_def
    by (cases "CreateSessionDescription (re_parse R) Offer sdp"; simp only: option.case) (intro talk_intros; assumption)+
qed (auto simp only: app_observer.simps app_OnAddRemoteStream_def app_OnSubscribeStreamAllocateConnId_def dispatched_def
    rm_SubscribeStream_def ok_task.simps intro!: talk_intros)

lemma app_talks_observed [talk_intros]: "app_talks J s0 ap \<Longrightarrow> app_talks J s0 (snd (app_observed J R order cs ap))"
proof (induction cs arbitrary: ap)
  case (Cons c cs)
  then show ?case unfolding app_observed.simps by (intro talk_intros Cons.IH)
qed simp

lemma app_talks_task: "app_talks J s0 ap \<Longrightarrow> ok_task J t \<Longrightarrow> app_talks J s0 (snd (app_task J R order t ap))"
  unfolding app_task_def by (intro talk_intros)

lemma app_talks_event: "app_talks J s0 ap \<Longrightarrow> app_talks J s0 (snd (app_peer_event R e ap))"
proof (cases e)
  case (OnSdpCreateSuccess peer type sdp)
  assume "app_talks J s0 ap"
  then show ?thesis unfolding OnSdpCreateSuccess app_peer_event.simps app_OnSdpCreateSuccess_def rm_SendAnswer_def
    by (cases "CreateSessionDescription (re_parse R) type sdp"; simp only: option.case) (intro talk_intros; simp)+
qed (auto simp only: app_peer_event.simps app_OnIceCandidate_def rm_SendIceCandidate_def app_OnAddRemoteVideoTrack_def
    ok_task.simps intro!: talk_intros)

end
