(* ===== verification/Client_System.thy ===== *)
theory Client_System
  imports Client_Frames
begin

text \<open>
  The running client of \<^verbatim>\<open>main.cpp\<close>: the example client with its room and signaling object, the event loop of
  its websocket session, its worker and the threads of WebRTC, all interleaved. The session's handlers call
  straight into signaling and room, which post to the worker and call the session back; the
  worker runs the posted lambdas, which call the observer, which sends. \<^verbatim>\<open>main\<close> joins
  once, so there is one session.
\<close>

section \<open>State\<close>

text \<open>
  The pending operations of the session and the three ghost fields are those of \<open>ws_world\<close>; the session
  itself is a member of the signaling object.
\<close>

record ('j, 'd) sys =
  sy_app :: "('j, 'd) app"
  sy_ops :: "sig_cb ws_call list"
  sy_sent :: "string list"
  sy_written :: "string list"
  sy_failed :: bool

type_synonym ('j, 'd, 'a) sysm = "(('j, 'd) sys, 'a) stm"

abbreviation sy_sig :: "('j, 'd) sys \<Rightarrow> room_cb signaling" where
  "sy_sig S \<equiv> rm_sig (ap_room (sy_app S))"

abbreviation sy_posted :: "('j, 'd) sys \<Rightarrow> 'j room_task list" where
  "sy_posted S \<equiv> rm_posted (ap_room (sy_app S))"

fun ws_ops :: "'r sig_call list \<Rightarrow> sig_cb ws_call list" where
  "ws_ops [] = []"
| "ws_ops (Ws c # cs) = c # ws_ops cs"
| "ws_ops (_ # cs) = ws_ops cs"

text \<open>The messages posted to the event loop, in the order of the calls.\<close>

fun posted_sends :: "'c ws_call list \<Rightarrow> string list" where
  "posted_sends [] = []"
| "posted_sends (Post_OnSend m # cs) = m # posted_sends cs"
| "posted_sends (_ # cs) = posted_sends cs"

text \<open>All messages that the client has handed to its session.\<close>

definition handed :: "('j, 'd) sys \<Rightarrow> string list" where
  "handed S = posted_sends (ws_ops (sg_calls (sy_sig S)))"

section \<open>Steps\<close>

text \<open>A computation of the client; the operations it starts on the session become pending.\<close>

definition sys_run :: "('j, 'd, 'a) appm \<Rightarrow> ('j, 'd, 'a) sysm" where
  "sys_run m S =
     (case m (sy_app S) of (x, ap) \<Rightarrow>
        (x, S\<lparr>sy_app := ap,
              sy_ops := sy_ops S @ ws_ops (drop (length (sg_calls (sy_sig S))) (sg_calls (rm_sig (ap_room ap))))\<rparr>))"

text \<open>A callback of the session: the signaling object's lambda, and the room's lambdas that it calls.\<close>

definition client_call :: "'j json_api \<Rightarrow> sig_cb ws_call \<Rightarrow> ('j, unit) roomm" where
  "client_call J c r =
     sbind (on_signaling (sg_callback J c)) (\<lambda>_ r'.
       room_callbacks J (drop (length (sg_calls (rm_sig r))) (sg_calls (rm_sig r'))) r') r"

fun is_callback :: "'c ws_call \<Rightarrow> bool" where
  "is_callback (Call_ready cb) = True"
| "is_callback (Call_receive cb m) = True"
| "is_callback (Call_abnormal cb m) = True"
| "is_callback _ = False"

definition sys_call :: "'j json_api \<Rightarrow> sig_cb ws_call \<Rightarrow> ('j, 'd, unit) sysm" where
  "sys_call J c =
     (if is_callback c then sys_run (on_room (client_call J c))
      else smodify (\<lambda>S. S\<lparr>sy_ops := sy_ops S @ [c]\<rparr>))"

fun sys_calls :: "'j json_api \<Rightarrow> sig_cb ws_call list \<Rightarrow> ('j, 'd, unit) sysm" where
  "sys_calls J [] = sret ()"
| "sys_calls J (c # cs) = sbind (sys_call J c) (\<lambda>_. sys_calls J cs)"

definition set_session :: "sig_cb ws_session \<Rightarrow> ('j, 'd) sys \<Rightarrow> ('j, 'd) sys" where
  "set_session ws S = S\<lparr>sy_app := (sy_app S)\<lparr>ap_room := (ap_room (sy_app S))\<lparr>rm_sig := (sy_sig S)\<lparr>sg_websocket := Some ws\<rparr>\<rparr>\<rparr>\<rparr>"

text \<open>A handler of the session runs: it makes its calls in order, callbacks included.\<close>

definition sys_handle :: "'j json_api \<Rightarrow> sig_cb ws_session \<times> sig_cb ws_call list \<Rightarrow> ('j, 'd, unit) sysm" where
  "sys_handle J r S = sys_calls J (snd r) (set_session (fst r) S)"

definition sys_take :: "sig_cb ws_call \<Rightarrow> ('j, 'd) sys \<Rightarrow> ('j, 'd) sys" where
  "sys_take c S = S\<lparr>sy_ops := remove1 c (sy_ops S)\<rparr>"

text \<open>The handler of a completed operation, with any outcome.\<close>

inductive handler_of :: "sig_cb ws_call \<Rightarrow> sig_cb ws_handler \<Rightarrow> bool" where
  resolved: "handler_of (Async_resolve h p) (ws_OnResolve ec)"
| tcp_connected: "handler_of Async_connect (ws_OnConnect ec)"
| handshaken: "handler_of (Async_handshake h t) (ws_OnHandshake ec)"
| read_done: "handler_of Async_read (ws_OnRead ec msg)"
| run_close: "handler_of Post_DoClose (ws_DoClose is_open)"
| closed: "handler_of (Close m) (\<lambda>s. (s, []))"

text \<open>
  \<open>fifo\<close>: the event loop runs posted functions in the order in which they were posted, as the
  single thread of an \<^verbatim>\<open>io_context\<close> does. A step in which an error leaves the handler or the lambda
  ends the program and has no successor.
\<close>

inductive sys_step :: "'j json_api \<Rightarrow> 'd rtc_env \<Rightarrow> bool \<Rightarrow> ('j, 'd) sys \<Rightarrow> ('j, 'd) sys \<Rightarrow> bool" for J R fifo where
  io: "c \<in> set (sy_ops S) \<Longrightarrow> handler_of c f \<Longrightarrow> sg_websocket (sy_sig S) = Some ws \<Longrightarrow>
    sys_handle J (f ws) (sys_take c S) = (Inr (), S') \<Longrightarrow> sys_step J R fifo S S'"
| run_send: "Post_OnSend m \<in> set (sy_ops S) \<Longrightarrow> (fifo \<longrightarrow> hd (posted_sends (sy_ops S)) = m) \<Longrightarrow>
    sg_websocket (sy_sig S) = Some ws \<Longrightarrow>
    sys_handle J (ws_OnSend m ws) ((sys_take (Post_OnSend m) S)\<lparr>sy_sent := sy_sent S @ [m]\<rparr>) = (Inr (), S') \<Longrightarrow>
    sys_step J R fifo S S'"
| write_ok: "Async_write m \<in> set (sy_ops S) \<Longrightarrow> sg_websocket (sy_sig S) = Some ws \<Longrightarrow> ws_OnWrite None ws = Inr r \<Longrightarrow>
    sys_handle J r ((sys_take (Async_write m) S)\<lparr>sy_written := sy_written S @ [m]\<rparr>) = (Inr (), S') \<Longrightarrow>
    sys_step J R fifo S S'"
| write_failed: "Async_write m \<in> set (sy_ops S) \<Longrightarrow> sg_websocket (sy_sig S) = Some ws \<Longrightarrow>
    ws_OnWrite (Some reason) ws = Inr r \<Longrightarrow>
    sys_handle J r ((sys_take (Async_write m) S)\<lparr>sy_failed := True\<rparr>) = (Inr (), S') \<Longrightarrow> sys_step J R fifo S S'"
| worker: "sy_posted S = t # ts \<Longrightarrow>
    sys_run (app_task J R order t) (S\<lparr>sy_app := (sy_app S)\<lparr>ap_room := (ap_room (sy_app S))\<lparr>rm_posted := ts\<rparr>\<rparr>\<rparr>) = (Inr (), S') \<Longrightarrow>
    sys_step J R fifo S S'"
| ping: "SchedulePing n \<in> set (sg_calls (sy_sig S)) \<Longrightarrow> sys_run (on_room (on_signaling sg_SocketIoPing)) S = (Inr b, S') \<Longrightarrow>
    sys_step J R fifo S S'"
| peer_event: "sys_run (app_peer_event R e) S = (Inr (), S') \<Longrightarrow> sys_step J R fifo S S'"
| leave: "sys_run app_Leave S = (Inr (), S') \<Longrightarrow> sys_step J R fifo S S'"

text \<open>The client after \<^verbatim>\<open>Join\<close>, when \<^verbatim>\<open>main\<close> starts to wait.\<close>

definition sys_start :: "('j, 'd) app \<Rightarrow> ('j, 'd) sys" where
  "sys_start ap = \<lparr>sy_app = ap, sy_ops = ws_ops (sg_calls (rm_sig (ap_room ap))), sy_sent = [], sy_written = [],
     sy_failed = False\<rparr>"

section \<open>Lists of calls\<close>

lemma ws_ops_append [simp]: "ws_ops (cs @ ds) = ws_ops cs @ ws_ops ds"
  by (induction cs rule: ws_ops.induct) simp_all

lemma ws_ops_map [simp]: "ws_ops (map Ws cs) = cs"
  by (induction cs) simp_all

lemma ws_ops_none: "\<forall>c \<in> set cs. \<not> is_ws c \<Longrightarrow> ws_ops cs = []"
  by (induction cs rule: ws_ops.induct) simp_all

lemma posted_sends_append [simp]: "posted_sends (cs @ ds) = posted_sends cs @ posted_sends ds"
  by (induction cs rule: posted_sends.induct) simp_all

lemma posted_sends_mem: "m \<in> set (posted_sends cs) \<longleftrightarrow> Post_OnSend m \<in> set cs"
  by (induction cs rule: posted_sends.induct) auto

lemma posted_sends_remove1:
  "posted_sends (remove1 c cs) = (case c of Post_OnSend m \<Rightarrow> remove1 m (posted_sends cs) | _ \<Rightarrow> posted_sends cs)"
  by (induction cs rule: posted_sends.induct) (auto split: ws_call.split)

section \<open>The client's calls are steps of the event loop\<close>

lemma same_session [simp]: "w_ses w = ws \<Longrightarrow> w\<lparr>w_ses := ws\<rparr> = w" for w :: "'c ws_world"
  by (cases w) simp

text \<open>What a computation of the client does to the session can be done by client steps of its event loop.\<close>

definition follows :: "'j json_api \<Rightarrow> 'r signaling \<Rightarrow> 'r signaling \<Rightarrow> sig_cb ws_session \<Rightarrow> bool" where
  "follows J s s' ws \<longleftrightarrow> (\<exists>ws' cs. sg_websocket s' = Some ws' \<and> sg_calls s' = sg_calls s @ cs \<and>
     sg_callbacks s' = sg_callbacks s \<and> ws_receive ws' = ws_receive ws \<and>
     (\<forall>m \<in> set (posted_sends (ws_ops cs)). client_frame J m) \<and>
     (\<forall>w. w_ses w = ws \<longrightarrow> ws_step\<^sup>*\<^sup>* w (w\<lparr>w_ses := ws', w_ops := w_ops w @ ws_ops cs\<rparr>)))"

lemma talk_step_follows:
  assumes "talk_step J s s'" and "sg_websocket s = Some ws"
  shows "follows J s s' ws"
  using assms(1)
proof cases
  case (other cs)
  then show ?thesis unfolding follows_def
    using assms(2) by (intro exI [of _ ws] exI [of _ cs]) (auto simp: ws_ops_none)
next
  case (send m)
  have "ws_step\<^sup>*\<^sup>* w (ws_issue (ws_SendMsg m ws) w)" if "w_ses w = ws" for w
    using ws_step.send_msg [of w m] that by auto
  then show ?thesis unfolding follows_def using send assms(2)
    by (intro exI [of _ ws] exI [of _ "map Ws (snd (ws_SendMsg m ws))"])
      (auto simp: on_websocket_def ws_SendMsg_def ws_issue_def sg_callbacks_def split: if_splits)
next
  case leave
  let ?ws = "ws\<lparr>ws_do_disconnect := True\<rparr>"
  have "ws_step\<^sup>*\<^sup>* w (ws_issue (ws_Disconnect ws) w)" if "w_ses w = ws" for w
    using ws_step.disconnect [of w] that by auto
  then show ?thesis unfolding follows_def using leave assms(2)
    by (intro exI [of _ ?ws] exI [of _ "map Ws (snd (ws_Disconnect ws))"])
      (auto simp: on_websocket_def ws_Disconnect_def ws_issue_def sg_callbacks_def)
qed

lemma follows_trans:
  assumes "follows J s s1 ws" and "\<And>ws1. sg_websocket s1 = Some ws1 \<Longrightarrow> follows J s1 s2 ws1"
  shows "follows J s s2 ws"
proof -
  obtain w1 c1 where 1: "sg_websocket s1 = Some w1" "sg_calls s1 = sg_calls s @ c1" "sg_callbacks s1 = sg_callbacks s"
    "ws_receive w1 = ws_receive ws" "\<forall>m \<in> set (posted_sends (ws_ops c1)). client_frame J m"
    "\<forall>w. w_ses w = ws \<longrightarrow> ws_step\<^sup>*\<^sup>* w (w\<lparr>w_ses := w1, w_ops := w_ops w @ ws_ops c1\<rparr>)"
    using assms(1) unfolding follows_def by blast
  from assms(2) [OF 1(1)] obtain w2 c2 where 2: "sg_websocket s2 = Some w2" "sg_calls s2 = sg_calls s1 @ c2"
    "sg_callbacks s2 = sg_callbacks s1" "ws_receive w2 = ws_receive w1" "\<forall>m \<in> set (posted_sends (ws_ops c2)). client_frame J m"
    "\<forall>w. w_ses w = w1 \<longrightarrow> ws_step\<^sup>*\<^sup>* w (w\<lparr>w_ses := w2, w_ops := w_ops w @ ws_ops c2\<rparr>)"
    unfolding follows_def by blast
  have "ws_step\<^sup>*\<^sup>* w (w\<lparr>w_ses := w2, w_ops := w_ops w @ ws_ops (c1 @ c2)\<rparr>)" if "w_ses w = ws" for w
  proof -
    let ?w1 = "w\<lparr>w_ses := w1, w_ops := w_ops w @ ws_ops c1\<rparr>"
    have "ws_step\<^sup>*\<^sup>* w ?w1" using 1(6) that by blast
    also have "ws_step\<^sup>*\<^sup>* ?w1 (?w1\<lparr>w_ses := w2, w_ops := w_ops ?w1 @ ws_ops c2\<rparr>)" by (rule 2(6) [rule_format]) simp
    finally show ?thesis by simp
  qed
  with 1 2 show ?thesis unfolding follows_def by (intro exI [of _ w2] exI [of _ "c1 @ c2"]) auto
qed

lemma talk_follows:
  assumes "sg_talk J s s'" and "sg_websocket s = Some ws"
  shows "follows J s s' ws"
  using assms(1)
proof (induction rule: rtranclp_induct)
  case base
  show ?case unfolding follows_def using assms(2) by (intro exI [of _ ws] exI [of _ "[]"]) auto
next
  case (step s1 s2)
  show ?case by (rule follows_trans [OF step.IH talk_step_follows [OF step.hyps(2)]])
qed

section \<open>Runs of the client are runs of the event loop\<close>

definition ok_tasks :: "'j json_api \<Rightarrow> ('j, 'd) sys \<Rightarrow> bool" where
  "ok_tasks J S \<longleftrightarrow> (\<forall>t \<in> set (sy_posted S). ok_task J t)"

text \<open>The operations that the event loop of \<open>w\<close> has and that of \<open>S\<close> will still start are \<open>cs\<close>.\<close>

definition matches :: "sig_cb ws_call list \<Rightarrow> ('j, 'd) sys \<Rightarrow> sig_cb ws_world \<Rightarrow> bool" where
  "matches cs S w \<longleftrightarrow> sg_websocket (sy_sig S) = Some (w_ses w) \<and> mset (w_ops w) = mset (sy_ops S) + mset cs \<and>
     w_sent w = sy_sent S \<and> w_written w = sy_written S \<and> w_failed w = sy_failed S"

text \<open>What the client says between two states.\<close>

definition extends :: "'j json_api \<Rightarrow> ('j, 'd) sys \<Rightarrow> ('j, 'd) sys \<Rightarrow> bool" where
  "extends J S S' \<longleftrightarrow> (\<exists>new. handed S' = handed S @ new \<and> posted_sends (sy_ops S') = posted_sends (sy_ops S) @ new \<and>
     (\<forall>m \<in> set new. client_frame J m)) \<and> ok_tasks J S' \<and>
     sy_sent S' = sy_sent S \<and> sy_written S' = sy_written S \<and> sg_callbacks (sy_sig S') = sg_callbacks (sy_sig S) \<and>
     map_option ws_receive (sg_websocket (sy_sig S')) = map_option ws_receive (sg_websocket (sy_sig S))"

lemma extends_trans:
  assumes "extends J S S1" and "extends J S1 S2"
  shows "extends J S S2"
proof -
  obtain m n where "handed S1 = handed S @ m" "posted_sends (sy_ops S1) = posted_sends (sy_ops S) @ m"
    "handed S2 = handed S1 @ n" "posted_sends (sy_ops S2) = posted_sends (sy_ops S1) @ n"
    "\<forall>x \<in> set m. client_frame J x" "\<forall>x \<in> set n. client_frame J x"
    using assms unfolding extends_def by metis
  then have "handed S2 = handed S @ (m @ n)" "posted_sends (sy_ops S2) = posted_sends (sy_ops S) @ (m @ n)"
    "\<forall>x \<in> set (m @ n). client_frame J x" by auto
  with assms show ?thesis unfolding extends_def by metis
qed

lemma run_follows:
  assumes "sys_run m S = (x, S')" and "ok_tasks J S" and "matches cs S w"
    and "\<And>s0. app_talks J s0 (sy_app S) \<Longrightarrow> app_talks J s0 (snd (m (sy_app S)))"
  shows "extends J S S' \<and> (\<exists>w'. ws_step\<^sup>*\<^sup>* w w' \<and> matches cs S' w')"
proof -
  obtain ap where ap: "m (sy_app S) = (x, ap)" and S': "S' = S\<lparr>sy_app := ap,
      sy_ops := sy_ops S @ ws_ops (drop (length (sg_calls (sy_sig S))) (sg_calls (rm_sig (ap_room ap))))\<rparr>"
    using assms(1) by (auto simp: sys_run_def split: prod.splits)
  have "app_talks J (sy_sig S) (sy_app S)" using assms(2) by (simp add: app_talks_def talks_def ok_tasks_def)
  from assms(4) [OF this] have t: "sg_talk J (sy_sig S) (rm_sig (ap_room ap))" and ok: "ok_tasks J S'"
    by (simp_all add: ap S' app_talks_def talks_def ok_tasks_def)
  have ws: "sg_websocket (sy_sig S) = Some (w_ses w)" using assms(3) by (simp add: matches_def)
  from talk_follows [OF t ws] obtain ws' ds where f: "sg_websocket (rm_sig (ap_room ap)) = Some ws'"
    "sg_calls (rm_sig (ap_room ap)) = sg_calls (sy_sig S) @ ds" "sg_callbacks (rm_sig (ap_room ap)) = sg_callbacks (sy_sig S)"
    "ws_receive ws' = ws_receive (w_ses w)" "\<forall>m \<in> set (posted_sends (ws_ops ds)). client_frame J m"
    "ws_step\<^sup>*\<^sup>* w (w\<lparr>w_ses := ws', w_ops := w_ops w @ ws_ops ds\<rparr>)"
    unfolding follows_def by blast
  have "extends J S S'" using f(1-5) ok ws by (auto simp: extends_def S' handed_def)
  moreover have "matches cs S' (w\<lparr>w_ses := ws', w_ops := w_ops w @ ws_ops ds\<rparr>)"
    using assms(3) f(1,2) by (simp add: matches_def S')
  ultimately show ?thesis using f(6) by blast
qed

lemma talks_client_call: "talks J s0 r \<Longrightarrow> talks J s0 (snd (client_call J c r))"
proof -
  have "sg_talk J s0 s \<Longrightarrow> sg_talk J s0 (snd (sg_callback J c s))" for s
    by (cases "(J, c)" rule: sg_callback.cases)
      (simp_all add: sg_OnWebsocketConnectCallback_def talk_intros)
  then show "talks J s0 r \<Longrightarrow> ?thesis" unfolding client_call_def by (intro talk_intros)
qed

lemma callback_step:
  assumes "is_callback c" and "c \<in> set (w_ops w)"
  shows "ws_step w (ws_take c w)"
  using assms by (cases c) (auto intro: ws_step.callback)

lemma calls_follow:
  assumes "sys_calls J cs S = (Inr (), S')" and "ok_tasks J S" and "matches cs S w" and "posted_sends cs = []"
  shows "extends J S S' \<and> (\<exists>w'. ws_step\<^sup>*\<^sup>* w w' \<and> matches [] S' w')"
  using assms
proof (induction cs arbitrary: S w)
  case Nil
  then show ?case by (auto simp: extends_def)
next
  case (Cons c cs)
  from Cons.prems(1) obtain S1 where c: "sys_call J c S = (Inr (), S1)" and cs: "sys_calls J cs S1 = (Inr (), S')"
    by (auto elim: sbind_cases)
  have none: "posted_sends cs = []" "posted_sends [c] = []" using Cons.prems(4) by (cases c; simp)+
  have "extends J S S1 \<and> (\<exists>w1. ws_step\<^sup>*\<^sup>* w w1 \<and> matches cs S1 w1)"
  proof (cases "is_callback c")
    case True
    have "c \<in># mset (w_ops w)" using Cons.prems(3) by (simp add: matches_def)
    then have in_w: "c \<in> set (w_ops w)" by simp
    have m: "matches cs S (ws_take c w)"
      using Cons.prems(3) by (auto simp: matches_def ws_take_def)
    have "extends J S S1 \<and> (\<exists>w1. ws_step\<^sup>*\<^sup>* (ws_take c w) w1 \<and> matches cs S1 w1)"
      by (rule run_follows [OF _ Cons.prems(2) m, of "on_room (client_call J c)" "Inr ()"])
        (use c True in \<open>simp_all add: sys_call_def app_talks_room talks_client_call\<close>)
    with callback_step [OF True in_w] show ?thesis by (meson converse_rtranclp_into_rtranclp)
  next
    case False
    then have S1: "S1 = S\<lparr>sy_ops := sy_ops S @ [c]\<rparr>" using c by (simp add: sys_call_def)
    have "extends J S S1" using Cons.prems(2) none(2) by (simp add: S1 extends_def ok_tasks_def handed_def)
    moreover have "matches cs S1 w" using Cons.prems(3) by (simp add: S1 matches_def)
    ultimately show ?thesis by blast
  qed
  then obtain w1 where 1: "extends J S S1" "ws_step\<^sup>*\<^sup>* w w1" "matches cs S1 w1" by blast
  from Cons.IH [OF cs _ 1(3) none(1)] 1(1) obtain w' where "extends J S1 S'" "ws_step\<^sup>*\<^sup>* w1 w'" "matches [] S' w'"
    by (auto simp: extends_def)
  with 1 extends_trans show ?case by (meson rtranclp_trans)
qed

lemma handle_follows:
  assumes "sys_handle J r S = (Inr (), S')" and "ok_tasks J S" and "sg_websocket (sy_sig S) = Some ws"
    and "ws_receive (fst r) = ws_receive ws" and "posted_sends (snd r) = []"
    and "w_ses w = fst r" "mset (w_ops w) = mset (sy_ops S) + mset (snd r)" "w_sent w = sy_sent S"
      "w_written w = sy_written S" "w_failed w = sy_failed S"
  shows "extends J S S' \<and> (\<exists>w'. ws_step\<^sup>*\<^sup>* w w' \<and> matches [] S' w')"
proof -
  let ?S = "set_session (fst r) S"
  have "matches (snd r) ?S w" using assms by (simp add: matches_def set_session_def)
  moreover have "ok_tasks J ?S" using assms(2) by (simp add: ok_tasks_def set_session_def)
  ultimately have "extends J ?S S' \<and> (\<exists>w'. ws_step\<^sup>*\<^sup>* w w' \<and> matches [] S' w')"
    using assms(1,5) by (intro calls_follow) (simp_all add: sys_handle_def)
  then show ?thesis using assms(3,4) by (simp add: extends_def set_session_def handed_def sg_callbacks_def)
qed

text \<open>Every handler keeps the callback for messages and posts nothing.\<close>

lemma handler_quiet:
  assumes "handler_of c f"
  shows "ws_receive (fst (f ws)) = ws_receive ws" and "posted_sends (snd (f ws)) = []"
    and "\<And>w. c \<in> set (w_ops w) \<Longrightarrow> ws_step w (ws_issue (f (w_ses w)) (ws_take c w))"
proof -
  show "ws_receive (fst (f ws)) = ws_receive ws" "posted_sends (snd (f ws)) = []"
    using assms by (auto elim!: handler_of.cases simp: ws_handler_defs Let_def split: option.splits if_splits)
  show "ws_step w (ws_issue (f (w_ses w)) (ws_take c w))" if "c \<in> set (w_ops w)" for w
    using assms
  proof cases
    case (closed m)
    have "ws_issue (w_ses w, []) (ws_take c w) = ws_take c w" by (simp add: ws_issue_def ws_take_def)
    with closed that show ?thesis using ws_step.callback [of c w undefined m] by simp
  qed (use that in \<open>auto intro: ws_step.intros\<close>)
qed

lemma OnSend_quiet: "ws_receive (fst (ws_OnSend m ws)) = ws_receive ws" "posted_sends (snd (ws_OnSend m ws)) = []"
  by (simp_all add: ws_OnSend_def Let_def)

lemma OnWrite_quiet:
  assumes "ws_OnWrite ec ws = Inr r"
  shows "ws_receive (fst r) = ws_receive ws" "posted_sends (snd r) = []"
  using assms by (auto simp: ws_OnWrite_def Let_def split: option.splits list.splits)

section \<open>The invariant of the client\<close>

text \<open>The accounts: what was handed to the session was accepted by the event loop or is posted to it.\<close>

definition accounts :: "'j json_api \<Rightarrow> bool \<Rightarrow> ('j, 'd) sys \<Rightarrow> bool" where
  "accounts J fifo S \<longleftrightarrow> ok_tasks J S \<and> (\<forall>m \<in> set (handed S). client_frame J m) \<and>
     mset (handed S) = mset (sy_sent S) + mset (posted_sends (sy_ops S)) \<and>
     (fifo \<longrightarrow> handed S = sy_sent S @ posted_sends (sy_ops S)) \<and>
     sg_callbacks (sy_sig S) = map Some [InitTokenCb, DisconnectCb, EventCb, SubscribeCb, PublishCb] \<and>
     map_option ws_receive (sg_websocket (sy_sig S)) = Some (Some OnMsgCb)"

definition sys_inv :: "'j json_api \<Rightarrow> bool \<Rightarrow> sig_cb ws_world \<Rightarrow> ('j, 'd) sys \<Rightarrow> bool" where
  "sys_inv J fifo w0 S \<longleftrightarrow> accounts J fifo S \<and> (\<exists>w. ws_step\<^sup>*\<^sup>* w0 w \<and> matches [] S w)"

lemma accounts_extends:
  assumes "accounts J fifo T" and "extends J T S"
  shows "accounts J fifo S"
proof -
  obtain new where "handed S = handed T @ new" "posted_sends (sy_ops S) = posted_sends (sy_ops T) @ new"
    "\<forall>m \<in> set new. client_frame J m"
    using assms(2) by (auto simp: extends_def)
  with assms show ?thesis by (auto simp: accounts_def extends_def)
qed

lemma sys_inv_handle:
  assumes inv: "sys_inv J fifo w0 S" and acc: "accounts J fifo T" and app: "sy_app T = sy_app S"
    and ws: "sg_websocket (sy_sig S) = Some ws" and h: "sys_handle J r T = (Inr (), S')"
    and quiet: "ws_receive (fst r) = ws_receive ws" "posted_sends (snd r) = []"
    and step: "\<And>w. matches [] S w \<Longrightarrow> \<exists>w1. ws_step w w1 \<and> w_ses w1 = fst r \<and>
      mset (w_ops w1) = mset (sy_ops T) + mset (snd r) \<and> w_sent w1 = sy_sent T \<and> w_written w1 = sy_written T \<and>
      w_failed w1 = sy_failed T"
  shows "sys_inv J fifo w0 S'"
proof -
  obtain w where w: "ws_step\<^sup>*\<^sup>* w0 w" "matches [] S w" using inv by (auto simp: sys_inv_def)
  from step [OF w(2)] obtain w1 where w1: "ws_step w w1" "w_ses w1 = fst r" "mset (w_ops w1) = mset (sy_ops T) + mset (snd r)"
    "w_sent w1 = sy_sent T" "w_written w1 = sy_written T" "w_failed w1 = sy_failed T" by blast
  have "extends J T S' \<and> (\<exists>w'. ws_step\<^sup>*\<^sup>* w1 w' \<and> matches [] S' w')"
    using h ws app quiet acc w1 by (intro handle_follows [where ws = ws]) (simp_all add: accounts_def)
  then obtain w' where "extends J T S'" "ws_step\<^sup>*\<^sup>* w1 w'" "matches [] S' w'" by blast
  with w(1) w1(1) accounts_extends [OF acc] show ?thesis
    unfolding sys_inv_def by (meson rtranclp.rtrancl_into_rtrancl rtranclp_trans)
qed

lemma sys_inv_run:
  assumes inv: "sys_inv J fifo w0 S" and T: "T = S\<lparr>sy_app := (sy_app S)\<lparr>ap_room := (ap_room (sy_app S))\<lparr>rm_posted := ts\<rparr>\<rparr>\<rparr>"
    and ts: "set ts \<subseteq> set (sy_posted S)" and m: "sys_run m T = (x, S')"
    and talks: "\<And>s0. app_talks J s0 (sy_app T) \<Longrightarrow> app_talks J s0 (snd (m (sy_app T)))"
  shows "sys_inv J fifo w0 S'"
proof -
  obtain w where w: "ws_step\<^sup>*\<^sup>* w0 w" "matches [] S w" using inv by (auto simp: sys_inv_def)
  have acc: "accounts J fifo T" using inv ts by (auto simp: sys_inv_def accounts_def T handed_def ok_tasks_def)
  have "matches [] T w" using w(2) by (simp add: matches_def T)
  with acc have "extends J T S' \<and> (\<exists>w'. ws_step\<^sup>*\<^sup>* w w' \<and> matches [] S' w')"
    by (intro run_follows [OF m _ _ talks]) (simp_all add: accounts_def)
  with w(1) accounts_extends [OF acc] show ?thesis unfolding sys_inv_def by (meson rtranclp_trans)
qed

lemma accounts_take:
  assumes "accounts J fifo S" and "posted_sends [c] = []" and "sy_app T = sy_app S" "sy_ops T = remove1 c (sy_ops S)" "sy_sent T = sy_sent S"
  shows "accounts J fifo T"
proof -
  have "posted_sends (remove1 c (sy_ops S)) = posted_sends (sy_ops S)"
    using assms(2) by (cases c) (simp_all add: posted_sends_remove1)
  with assms show ?thesis by (simp add: accounts_def handed_def ok_tasks_def)
qed

lemma accounts_send:
  assumes "accounts J fifo S" and "Post_OnSend m \<in> set (sy_ops S)" and "fifo \<longrightarrow> hd (posted_sends (sy_ops S)) = m"
  shows "accounts J fifo ((sys_take (Post_OnSend m) S)\<lparr>sy_sent := sy_sent S @ [m]\<rparr>)"
proof -
  have m: "m \<in> set (posted_sends (sy_ops S))" using assms(2) by (simp add: posted_sends_mem)
  then have "remove1 m (posted_sends (sy_ops S)) = tl (posted_sends (sy_ops S))" if "hd (posted_sends (sy_ops S)) = m"
    using that by (cases "posted_sends (sy_ops S)") simp_all
  moreover have "posted_sends (sy_ops S) \<noteq> []" using m by auto
  ultimately show ?thesis using assms m
    by (auto simp: accounts_def sys_take_def handed_def ok_tasks_def posted_sends_remove1)
qed

lemma matches_op: "matches [] S w \<Longrightarrow> c \<in> set (sy_ops S) \<Longrightarrow> c \<in> set (w_ops w)"
  by (auto simp: matches_def dest: mset_eq_setD)

lemma inv_io:
  assumes inv: "sys_inv J fifo w0 S" and c: "c \<in> set (sy_ops S)" "handler_of c f" and ws: "sg_websocket (sy_sig S) = Some ws"
    and h: "sys_handle J (f ws) (sys_take c S) = (Inr (), S')"
  shows "sys_inv J fifo w0 S'"
proof (rule sys_inv_handle [OF inv _ _ ws h handler_quiet(1,2) [OF c(2)]])
  have "posted_sends [c] = []" using c(2) by cases simp_all
  with inv show "accounts J fifo (sys_take c S)"
    using accounts_take [of J fifo S c "sys_take c S"] by (simp add: sys_inv_def sys_take_def)
  fix w assume w: "matches [] S w"
  have ses: "w_ses w = ws" using w ws by (simp add: matches_def)
  have "ws_step w (ws_issue (f ws) (ws_take c w))" using handler_quiet(3) [OF c(2) matches_op [OF w c(1)]] by (simp add: ses)
  then show "\<exists>w1. ws_step w w1 \<and> w_ses w1 = fst (f ws) \<and>
      mset (w_ops w1) = mset (sy_ops (sys_take c S)) + mset (snd (f ws)) \<and> w_sent w1 = sy_sent (sys_take c S) \<and>
      w_written w1 = sy_written (sys_take c S) \<and> w_failed w1 = sy_failed (sys_take c S)"
    using w by (intro exI [of _ "ws_issue (f ws) (ws_take c w)"] conjI)
      (simp_all add: matches_def sys_take_def ws_issue_def ws_take_def)
qed (simp add: sys_take_def)

lemma inv_send:
  assumes inv: "sys_inv J fifo w0 S" and m: "Post_OnSend m \<in> set (sy_ops S)" "fifo \<longrightarrow> hd (posted_sends (sy_ops S)) = m"
    and ws: "sg_websocket (sy_sig S) = Some ws"
    and h: "sys_handle J (ws_OnSend m ws) ((sys_take (Post_OnSend m) S)\<lparr>sy_sent := sy_sent S @ [m]\<rparr>) = (Inr (), S')"
  shows "sys_inv J fifo w0 S'"
proof (rule sys_inv_handle [OF inv accounts_send [OF _ m] _ ws h OnSend_quiet])
  show "accounts J fifo S" using inv by (simp add: sys_inv_def)
  let ?T = "(sys_take (Post_OnSend m) S)\<lparr>sy_sent := sy_sent S @ [m]\<rparr>"
  fix w assume w: "matches [] S w"
  let ?w = "(ws_issue (ws_OnSend m (w_ses w)) (ws_take (Post_OnSend m) w))\<lparr>w_sent := w_sent w @ [m]\<rparr>"
  have "ws_step w ?w" by (rule ws_step.run_send [OF matches_op [OF w m(1)]])
  with w ws show "\<exists>w1. ws_step w w1 \<and> w_ses w1 = fst (ws_OnSend m ws) \<and>
      mset (w_ops w1) = mset (sy_ops ?T) + mset (snd (ws_OnSend m ws)) \<and> w_sent w1 = sy_sent ?T \<and>
      w_written w1 = sy_written ?T \<and> w_failed w1 = sy_failed ?T"
    by (intro exI [of _ ?w]) (auto simp: matches_def sys_take_def ws_issue_def ws_take_def)
qed (simp add: sys_take_def)

lemma inv_write:
  assumes inv: "sys_inv J fifo w0 S" and m: "Async_write m \<in> set (sy_ops S)" and ws: "sg_websocket (sy_sig S) = Some ws"
    and r: "ws_OnWrite ec ws = Inr r"
    and T: "T = (if ec = None then (sys_take (Async_write m) S)\<lparr>sy_written := sy_written S @ [m]\<rparr>
        else (sys_take (Async_write m) S)\<lparr>sy_failed := True\<rparr>)"
    and h: "sys_handle J r T = (Inr (), S')"
  shows "sys_inv J fifo w0 S'"
proof (rule sys_inv_handle [OF inv _ _ ws h OnWrite_quiet [OF r]])
  show "accounts J fifo T" using inv accounts_take [of J fifo S "Async_write m" T] by (simp add: sys_inv_def T sys_take_def)
  fix w assume w: "matches [] S w"
  let ?w = "if ec = None then (ws_issue r (ws_take (Async_write m) w))\<lparr>w_written := w_written w @ [m]\<rparr>
    else (ws_issue r (ws_take (Async_write m) w))\<lparr>w_failed := True\<rparr>"
  have "ws_OnWrite ec (w_ses w) = Inr r" using r w ws by (simp add: matches_def)
  then have "ws_step w ?w" using matches_op [OF w m] ws_step.write_ok [of m w r] ws_step.write_failed [of m w _ r]
    by (cases ec) simp_all
  then show "\<exists>w1. ws_step w w1 \<and> w_ses w1 = fst r \<and> mset (w_ops w1) = mset (sy_ops T) + mset (snd r) \<and>
      w_sent w1 = sy_sent T \<and> w_written w1 = sy_written T \<and> w_failed w1 = sy_failed T"
    using w by (intro exI [of _ ?w] conjI) (simp_all add: matches_def sys_take_def ws_issue_def ws_take_def T)
qed (simp add: T sys_take_def)

lemma sys_step_inv:
  assumes "sys_step J R fifo S S'" and "sys_inv J fifo w0 S"
  shows "sys_inv J fifo w0 S'"
  using assms(1)
proof cases
  case io
  then show ?thesis using inv_io assms(2) by blast
next
  case run_send
  then show ?thesis using inv_send assms(2) by blast
next
  case (write_ok m ws r)
  then show ?thesis by (intro inv_write [OF assms(2) write_ok(1,2,3) refl]) simp
next
  case (write_failed m ws reason r)
  then show ?thesis by (intro inv_write [OF assms(2) write_failed(1,2,3) refl]) simp
next
  case (worker t ts order)
  have "ok_task J t" using assms(2) worker(1) by (simp add: sys_inv_def accounts_def ok_tasks_def)
  then show ?thesis using worker by (intro sys_inv_run [OF assms(2) refl _ worker(2) app_talks_task]) auto
next
  case (ping n b)
  then have "sys_run (on_room (on_signaling sg_SocketIoPing)) (S\<lparr>sy_app := (sy_app S)\<lparr>ap_room := (ap_room (sy_app S))
      \<lparr>rm_posted := sy_posted S\<rparr>\<rparr>\<rparr>) = (Inr b, S')" by simp
  then show ?thesis by (rule sys_inv_run [OF assms(2) refl subset_refl]) (intro talk_intros)
next
  case (peer_event e)
  then have "sys_run (app_peer_event R e) (S\<lparr>sy_app := (sy_app S)\<lparr>ap_room := (ap_room (sy_app S))
      \<lparr>rm_posted := sy_posted S\<rparr>\<rparr>\<rparr>) = (Inr (), S')" by simp
  then show ?thesis by (rule sys_inv_run [OF assms(2) refl subset_refl]) (rule app_talks_event)
next
  case leave
  then have "sys_run app_Leave (S\<lparr>sy_app := (sy_app S)\<lparr>ap_room := (ap_room (sy_app S))
      \<lparr>rm_posted := sy_posted S\<rparr>\<rparr>\<rparr>) = (Inr (), S')" by simp
  then show ?thesis by (rule sys_inv_run [OF assms(2) refl subset_refl]) (unfold app_Leave_def, intro talk_intros talks_Leave)
qed

interpretation sys_runs: transition_system "sys_step J R fifo" "sys_inv J fifo w0" for J R fifo w0
  by unfold_locales (rule sys_step_inv)

section \<open>The start\<close>

lemma ws_new_queue:
  assumes "ws_new url = Inr (ws :: 'c ws_session)"
  shows "ws_queue ws = []"
proof -
  let ?I = "\<lambda>s :: 'c ws_session. ws_queue s = []"
  have k: "skeeps ?I (ws_parse_host hp)" "skeeps ?I (ws_parse_target hp)" for hp
    unfolding ws_parse_host_def ws_parse_target_def Let_def by (intro keeps_intros; simp)+
  have "?I (snd (ws_ParseUrl s))" if "?I s" for s :: "'c ws_session"
    unfolding ws_ParseUrl_def Let_def using that
    by (intro at_if [where I = ?I] at_ret [where I = ?I] at_sbind [where I = ?I] at_smodify [where I = ?I] at_if_fun [where I = ?I])
      (simp_all add: k [unfolded skeeps_def, rule_format])
  from this [of "\<lparr>ws_url = url, ws_scheme = [], ws_host = [], ws_port = - 1, ws_target = [], ws_do_disconnect = False,
     ws_connected = False, ws_queue = [], ws_ready = None, ws_receive = None, ws_abnormal = None\<rparr>"] assms
  show ?thesis by (auto simp: ws_new_def split: prod.splits sum.splits)
qed

text \<open>The session as \<^verbatim>\<open>Init\<close> leaves it.\<close>

definition started :: "sig_cb ws_session \<Rightarrow> sig_cb ws_session \<times> sig_cb ws_call list" where
  "started ws = ws_Connect (ws_SetOnAbnormalDisconnectCallback (Some OnDisconnectCb)
     (ws_SetOnReceiveMsgCallback (Some OnMsgCb) (ws_SetOnReadyCallback (Some OnConnectCb) ws)))"

lemma Join_session:
  assumes "app_Join (TestBasicExampleRoom_new wr token) = (Inr (), ap)"
  obtains ws where "ws_new (socketio_url (tk_host token)) = Inr ws" "sg_websocket (rm_sig (ap_room ap)) = Some (fst (started ws))"
    "sg_calls (rm_sig (ap_room ap)) = map Ws (snd (started ws))" "sg_callbacks (rm_sig (ap_room ap)) = map Some [InitTokenCb, DisconnectCb, EventCb, SubscribeCb, PublishCb]"
    "rm_posted (ap_room ap) = []" "sg_token (rm_sig (ap_room ap)) = token" "ap_wrapper ap = wr"
proof (cases "ws_new (socketio_url (tk_host token)) :: sig_cb ws_session res")
  case (Inl e)
  with assms show thesis
    by (simp add: app_Join_def TestBasicExampleRoom_new_def on_room_def rm_Join_def rm_CurrentState_def LicodeRoom_new_def
        rm_Update_def on_signaling_def LicodeSignaling_Init_def sg_CurrentState_def LicodeSignaling_new_def
        sg_SetOnPublishCallback_def sg_SetOnSubscribeCallback_def sg_SetOnEventCallback_def
        sg_SetOnSignalingDisconnectCallback_def sg_SetOnInitTokenCallback_def socketio_url_def sbind_def)
next
  case (Inr ws)
  show thesis
    by (rule that [OF Inr]) (use assms Inr in
      \<open>auto simp: app_Join_def TestBasicExampleRoom_new_def on_room_def rm_Join_def rm_CurrentState_def LicodeRoom_new_def
        rm_Update_def on_signaling_def LicodeSignaling_Init_def sg_CurrentState_def LicodeSignaling_new_def
        sg_SetOnPublishCallback_def sg_SetOnSubscribeCallback_def sg_SetOnEventCallback_def sg_UpdateState_def
        sg_SetOnSignalingDisconnectCallback_def sg_SetOnInitTokenCallback_def socketio_url_def sbind_def on_websocket_def
        started_def sg_callbacks_def split: prod.splits\<close>)
qed

lemma start_inv:
  assumes "app_Join (TestBasicExampleRoom_new wr token) = (Inr (), ap)"
  obtains ws where "ws_new (socketio_url (tk_host token)) = Inr ws" "ws_queue ws = []"
    "sys_inv J fifo (ws_start ws) (sys_start ap)"
proof -
  obtain ws where ws: "ws_new (socketio_url (tk_host token)) = Inr ws"
    and ap: "sg_websocket (rm_sig (ap_room ap)) = Some (fst (started ws))"
    "sg_calls (rm_sig (ap_room ap)) = map Ws (snd (started ws))" "sg_callbacks (rm_sig (ap_room ap)) = map Some [InitTokenCb, DisconnectCb, EventCb, SubscribeCb, PublishCb]"
    "rm_posted (ap_room ap) = []" by (rule Join_session [OF assms])
  let ?w0 = "ws_start ws"
  let ?w1 = "ws_issue (ws_SetOnReadyCallback (Some OnConnectCb) (w_ses ?w0), []) ?w0"
  let ?w2 = "ws_issue (ws_SetOnReceiveMsgCallback (Some OnMsgCb) (w_ses ?w1), []) ?w1"
  let ?w3 = "ws_issue (ws_SetOnAbnormalDisconnectCallback (Some OnDisconnectCb) (w_ses ?w2), []) ?w2"
  let ?w4 = "ws_issue (ws_Connect (w_ses ?w3)) ?w3"
  have "ws_step\<^sup>*\<^sup>* ?w0 ?w4"
    by (rule ws_reach_step [OF ws_step.set_ready ws_reach_step [OF ws_step.set_receive ws_reach_step
          [OF ws_step.set_abnormal r_into_rtranclp [where r = ws_step, OF ws_step.connect]]]])
  moreover have "matches [] (sys_start ap) ?w4"
    using ap by (simp add: matches_def sys_start_def started_def ws_issue_def ws_start_def)
  moreover have "accounts J fifo (sys_start ap)"
    using ap by (auto simp: accounts_def sys_start_def started_def ok_tasks_def handed_def ws_handler_defs)
  ultimately have "sys_inv J fifo ?w0 (sys_start ap)" unfolding sys_inv_def by blast
  with ws ws_new_queue [OF ws] that show thesis by blast
qed

lemma client_run:
  assumes "app_Join (TestBasicExampleRoom_new wr token) = (Inr (), ap)" and "(sys_step J R fifo)\<^sup>*\<^sup>* (sys_start ap) S"
  obtains ws w where "ws_new (socketio_url (tk_host token)) = Inr ws" "ws_queue ws = []" "ws_step\<^sup>*\<^sup>* (ws_start ws) w"
    "matches [] S w" "ws_inv w" "accounts J fifo S"
proof -
  obtain ws where ws: "ws_new (socketio_url (tk_host token)) = Inr ws" "ws_queue ws = []"
    "sys_inv J fifo (ws_start ws) (sys_start ap)" by (rule start_inv [OF assms(1)])
  from sys_runs.invar_reach [OF assms(2) ws(3)] obtain w where w: "ws_step\<^sup>*\<^sup>* (ws_start ws) w" "matches [] S w"
    "accounts J fifo S" by (auto simp: sys_inv_def)
  moreover have "ws_inv w" by (rule ws_runs.invar_reach [OF w(1) ws_start_inv [OF ws(2)]])
  ultimately show thesis using ws that by blast
qed

section \<open>Writing what was handed over\<close>

lemma matches_sel: "matches [] S w \<Longrightarrow> sg_websocket (sy_sig S) = Some (w_ses w)"
  "matches [] S w \<Longrightarrow> w_failed w = sy_failed S" "matches [] S w \<Longrightarrow> w_sent w = sy_sent S"
  "matches [] S w \<Longrightarrow> w_written w = sy_written S"
  by (simp_all add: matches_def)

definition sys_queue :: "('j, 'd) sys \<Rightarrow> string list" where
  "sys_queue S = (case sg_websocket (sy_sig S) of None \<Rightarrow> [] | Some ws \<Rightarrow> ws_queue ws)"

lemma calls_plain: "\<forall>c \<in> set cs. \<not> is_callback c \<Longrightarrow> sys_calls J cs S = (Inr (), S\<lparr>sy_ops := sy_ops S @ cs\<rparr>)"
  by (induction cs arbitrary: S) (simp_all add: sys_call_def)

lemma handle_plain:
  "\<forall>c \<in> set (snd r). \<not> is_callback c \<Longrightarrow>
    sys_handle J r S = (Inr (), (set_session (fst r) S)\<lparr>sy_ops := sy_ops S @ snd r\<rparr>)"
  by (simp add: sys_handle_def calls_plain set_session_def)

text \<open>
  Two states between which only the event loop has worked: the client's part is the same but
  for the session.
\<close>

definition same_client :: "('j, 'd) sys \<Rightarrow> ('j, 'd) sys \<Rightarrow> bool" where
  "same_client S S' \<longleftrightarrow> (\<exists>ws. sy_app S' = sy_app (set_session ws S) \<and> ws_connected ws = ws_connected (the (sg_websocket (sy_sig S))))"

lemma send_front:
  assumes "sys_inv J fifo w0 S" and "posted_sends (sy_ops S) = m # ms"
  shows "\<exists>S'. sys_step J R fifo S S' \<and> same_client S S' \<and> posted_sends (sy_ops S') = ms \<and> sy_failed S' = sy_failed S \<and>
    length (sys_queue S') = Suc (length (sys_queue S)) \<and> set (sy_ops S) - {Post_OnSend m} \<subseteq> set (sy_ops S')"
proof -
  obtain ws where ws: "sg_websocket (sy_sig S) = Some ws" using assms(1) by (auto simp: sys_inv_def accounts_def)
  have in_ops: "Post_OnSend m \<in> set (sy_ops S)" using assms(2) posted_sends_mem [of m "sy_ops S"] by simp
  let ?T = "(sys_take (Post_OnSend m) S)\<lparr>sy_sent := sy_sent S @ [m]\<rparr>"
  let ?S = "(set_session (fst (ws_OnSend m ws)) ?T)\<lparr>sy_ops := sy_ops ?T @ snd (ws_OnSend m ws)\<rparr>"
  have "sys_handle J (ws_OnSend m ws) ?T = (Inr (), ?S)" by (rule handle_plain) (simp add: ws_OnSend_def Let_def)
  then have "sys_step J R fifo S ?S" using in_ops assms(2) ws by (intro sys_step.run_send) simp_all
  moreover have "posted_sends (sy_ops ?S) = ms"
    using assms(2) by (simp add: sys_take_def posted_sends_remove1 OnSend_quiet)
  moreover have "length (sys_queue ?S) = Suc (length (sys_queue S))"
    using ws by (simp add: sys_queue_def set_session_def ws_OnSend_def Let_def)
  moreover have "same_client S ?S"
    using ws by (auto simp: same_client_def set_session_def sys_take_def ws_OnSend_def Let_def)
  moreover have "set (sy_ops S) - {Post_OnSend m} \<subseteq> set (sy_ops ?S)"
    by (auto simp: sys_take_def)
  ultimately show ?thesis by (intro exI [of _ ?S]) (simp add: set_session_def sys_take_def)
qed

lemma write_front:
  assumes "sys_inv J fifo w0 S" and "ws_inv w0" and "\<not> sy_failed S" and "sys_queue S = m # q"
  shows "\<exists>S'. sys_step J R fifo S S' \<and> same_client S S' \<and> posted_sends (sy_ops S') = posted_sends (sy_ops S) \<and>
    sy_failed S' = sy_failed S \<and> sys_queue S' = q \<and> set (sy_ops S) - {Async_write m} \<subseteq> set (sy_ops S')"
proof -
  obtain w where w: "ws_step\<^sup>*\<^sup>* w0 w" "matches [] S w" using assms(1) by (auto simp: sys_inv_def)
  have inv: "ws_inv w" by (rule ws_runs.invar_reach [OF w(1) assms(2)])
  have ws: "sg_websocket (sy_sig S) = Some (w_ses w)" "ws_queue (w_ses w) = m # q"
    using w(2) assms(4) by (simp_all add: matches_sel sys_queue_def)
  then have "w_writes w = [m]" using inv assms(3) matches_sel(2) [OF w(2)] by (simp add: ws_inv_def)
  then have "Async_write m \<in> set (w_ops w)" by (intro writes_pending) simp
  then have in_ops: "Async_write m \<in> set (sy_ops S)" using w(2) by (auto simp: matches_def dest: mset_eq_setD)
  let ?r = "((w_ses w)\<lparr>ws_queue := q\<rparr>, if q \<noteq> [] then [Async_write (hd q)] else [] :: sig_cb ws_call list)"
  have r: "ws_OnWrite None (w_ses w) = Inr ?r" using ws(2) by (simp add: ws_OnWrite_def)
  let ?T = "(sys_take (Async_write m) S)\<lparr>sy_written := sy_written S @ [m]\<rparr>"
  let ?S = "(set_session (fst ?r) ?T)\<lparr>sy_ops := sy_ops ?T @ snd ?r\<rparr>"
  have "sys_handle J ?r ?T = (Inr (), ?S)" by (rule handle_plain) simp
  then have "sys_step J R fifo S ?S" by (rule sys_step.write_ok [OF in_ops ws(1) r])
  moreover have "posted_sends (sy_ops ?S) = posted_sends (sy_ops S)" by (simp add: sys_take_def posted_sends_remove1)
  moreover have "same_client S ?S" using ws by (auto simp: same_client_def set_session_def sys_take_def)
  moreover have "set (sy_ops S) - {Async_write m} \<subseteq> set (sy_ops ?S)" by (auto simp: sys_take_def)
  ultimately show ?thesis by (intro exI [of _ ?S]) (simp add: set_session_def sys_take_def sys_queue_def)
qed

lemma same_client_refl: "sg_websocket (sy_sig S) = Some ws \<Longrightarrow> same_client S S"
  unfolding same_client_def by (intro exI [of _ ws]) (simp add: set_session_def)

lemma same_client_trans: "same_client S S1 \<Longrightarrow> same_client S1 S2 \<Longrightarrow> same_client S S2"
  unfolding same_client_def by (elim exE) (auto simp: set_session_def)

lemma same_client_handed: "same_client S S' \<Longrightarrow> handed S' = handed S"
  by (auto simp: same_client_def handed_def set_session_def)

lemma sys_drain:
  assumes "sys_inv J fifo w0 S" and "ws_inv w0" and "\<not> sy_failed S"
  shows "\<exists>S'. (sys_step J R fifo)\<^sup>*\<^sup>* S S' \<and> sys_inv J fifo w0 S' \<and>
    (same_client S S' \<and> \<not> sy_failed S' \<and> (Async_read \<in> set (sy_ops S) \<longrightarrow> Async_read \<in> set (sy_ops S'))) \<and>
    posted_sends (sy_ops S') = [] \<and> sys_queue S' = []"
proof (rule sys_runs.reaches [where rank = "\<lambda>T. 2 * length (posted_sends (sy_ops T)) + length (sys_queue T)"])
  obtain ws where "sg_websocket (sy_sig S) = Some ws" using assms(1) by (auto simp: sys_inv_def accounts_def)
  then show "same_client S S \<and> \<not> sy_failed S \<and> (Async_read \<in> set (sy_ops S) \<longrightarrow> Async_read \<in> set (sy_ops S))"
    using assms(3) same_client_refl by blast
  fix T
  assume T: "sys_inv J fifo w0 T" "same_client S T \<and> \<not> sy_failed T \<and> (Async_read \<in> set (sy_ops S) \<longrightarrow> Async_read \<in> set (sy_ops T))"
    "\<not> (posted_sends (sy_ops T) = [] \<and> sys_queue T = [])"
  have "\<exists>T'. sys_step J R fifo T T' \<and> same_client T T' \<and> sy_failed T' = sy_failed T \<and>
      (Async_read \<in> set (sy_ops T) \<longrightarrow> Async_read \<in> set (sy_ops T')) \<and>
      2 * length (posted_sends (sy_ops T')) + length (sys_queue T') < 2 * length (posted_sends (sy_ops T)) + length (sys_queue T)"
  proof (cases "posted_sends (sy_ops T)")
    case (Cons m ms)
    from send_front [OF T(1) this, of R] obtain T' where "sys_step J R fifo T T'" "same_client T T'" "sy_failed T' = sy_failed T"
      "posted_sends (sy_ops T') = ms" "length (sys_queue T') = Suc (length (sys_queue T))"
      "set (sy_ops T) - {Post_OnSend m} \<subseteq> set (sy_ops T')" by auto
    with Cons show ?thesis by (intro exI [of _ T']) auto
  next
    case Nil
    with T(3) obtain m q where q: "sys_queue T = m # q" by (cases "sys_queue T") auto
    from write_front [OF T(1) assms(2) _ q, of R] T(2) obtain T' where "sys_step J R fifo T T'" "same_client T T'"
      "sy_failed T' = sy_failed T" "posted_sends (sy_ops T') = posted_sends (sy_ops T)" "sys_queue T' = q"
      "set (sy_ops T) - {Async_write m} \<subseteq> set (sy_ops T')" by auto
    with q show ?thesis by (intro exI [of _ T']) auto
  qed
  with T(2) show "\<exists>T'. sys_step J R fifo T T' \<and> (same_client S T' \<and> \<not> sy_failed T' \<and>
      (Async_read \<in> set (sy_ops S) \<longrightarrow> Async_read \<in> set (sy_ops T'))) \<and>
      2 * length (posted_sends (sy_ops T')) + length (sys_queue T') < 2 * length (posted_sends (sy_ops T)) + length (sys_queue T)"
    using same_client_trans by (elim exE conjE) (intro exI conjI; blast)
qed (rule assms(1))

lemma sys_written:
  assumes "sys_inv J True w0 S" and "ws_inv w0"
  shows "handed S = sy_written S @ sys_queue S @ posted_sends (sy_ops S)"
proof -
  obtain w where w: "ws_step\<^sup>*\<^sup>* w0 w" "matches [] S w" using assms(1) by (auto simp: sys_inv_def)
  have "ws_inv w" by (rule ws_runs.invar_reach [OF w(1) assms(2)])
  then have "sy_sent S = sy_written S @ sys_queue S" using w(2) by (simp add: ws_inv_def matches_sel sys_queue_def)
  then show ?thesis using assms(1) by (simp add: sys_inv_def accounts_def)
qed

section \<open>Connecting\<close>

text \<open>The state in which the client \<open>ap\<close> has the session \<open>ws\<close> with the pending operations \<open>ops\<close>, and nothing was sent.\<close>

definition waiting :: "('j, 'd) app \<Rightarrow> sig_cb ws_session \<Rightarrow> sig_cb ws_call list \<Rightarrow> ('j, 'd) sys" where
  "waiting ap ws ops = set_session ws \<lparr>sy_app = ap, sy_ops = ops, sy_sent = [], sy_written = [], sy_failed = False\<rparr>"

lemma waiting_sel [simp]:
  "sg_websocket (sy_sig (waiting ap ws ops)) = Some ws" "sy_ops (waiting ap ws ops) = ops"
  "sg_calls (sy_sig (waiting ap ws ops)) = sg_calls (rm_sig (ap_room ap))"
  "set_session ws' (waiting ap ws ops) = waiting ap ws' ops" "sys_take c (waiting ap ws ops) = waiting ap ws (remove1 c ops)"
  by (simp_all add: waiting_def set_session_def sys_take_def)

lemma waiting_start: "sg_websocket (rm_sig (ap_room ap)) = Some ws \<Longrightarrow> sys_start ap = waiting ap ws (ws_ops (sg_calls (rm_sig (ap_room ap))))"
  by (simp add: waiting_def sys_start_def set_session_def)

lemma waiting_plain:
  assumes "handler_of c f" and "\<forall>d \<in> set (snd (f ws)). \<not> is_callback d"
  shows "sys_step J R fifo (waiting ap ws [c]) (waiting ap (fst (f ws)) (snd (f ws)))"
proof (rule sys_step.io [OF _ assms(1)])
  have "sys_handle J (f ws) (waiting ap ws []) = (Inr (), (waiting ap (fst (f ws)) [])\<lparr>sy_ops := snd (f ws)\<rparr>)"
    using handle_plain [OF assms(2), of J "waiting ap ws []"] by simp
  also have "(waiting ap (fst (f ws)) [])\<lparr>sy_ops := snd (f ws)\<rparr> = waiting ap (fst (f ws)) (snd (f ws))"
    by (simp add: waiting_def set_session_def)
  finally show "sys_handle J (f ws) (sys_take c (waiting ap ws [c])) = (Inr (), waiting ap (fst (f ws)) (snd (f ws)))" by simp
qed simp_all

lemma waiting_handshaken:
  assumes "ws_ready ws = Some OnConnectCb"
  shows "sys_step J R fifo (waiting ap ws [Async_handshake h t]) (waiting ap (ws\<lparr>ws_connected := True\<rparr>) [Async_read])"
proof (rule sys_step.io [OF _ handler_of.handshaken [of h t None]])
  have "sys_call J (Call_ready OnConnectCb) (waiting ap ws' []) = (Inr (), waiting ap ws' [])" for ws'
    by (simp add: sys_call_def sys_run_def on_room_def client_call_def on_signaling_def sg_OnWebsocketConnectCallback_def
        waiting_def set_session_def)
  then show "sys_handle J (ws_OnHandshake None ws) (sys_take (Async_handshake h t) (waiting ap ws [Async_handshake h t])) =
      (Inr (), waiting ap (ws\<lparr>ws_connected := True\<rparr>) [Async_read])"
    using assms by (simp add: sys_handle_def ws_OnHandshake_def ws_DoRead_def sys_call_def [of _ Async_read])
      (simp add: waiting_def set_session_def)
qed simp_all

lemma connected_run:
  assumes "sg_websocket (rm_sig (ap_room ap)) = Some (fst (started ws))" "sg_calls (rm_sig (ap_room ap)) = map Ws (snd (started ws))"
  shows "\<exists>ws'. ws_connected ws' \<and> ws_receive ws' = Some OnMsgCb \<and> (sys_step J R fifo)\<^sup>*\<^sup>* (sys_start ap) (waiting ap ws' [Async_read])"
proof -
  let ?ws = "fst (started ws)"
  have s: "sys_start ap = waiting ap ?ws [Async_resolve (ws_host ws) (show_int (ws_port ws))]"
    unfolding waiting_start [OF assms(1)] assms(2) by (simp add: started_def ws_handler_defs)
  have r: "ws_ready ?ws = Some OnConnectCb" "ws_receive ?ws = Some OnMsgCb" by (simp_all add: started_def ws_handler_defs)
  have s1: "sys_step J R fifo (sys_start ap) (waiting ap ?ws [Async_connect])"
    unfolding s using waiting_plain [OF handler_of.resolved [where ec = None], of ?ws J R fifo ap] by (simp add: ws_OnResolve_def)
  have s2: "sys_step J R fifo (waiting ap ?ws [Async_connect])
      (waiting ap ?ws [Async_handshake (ws_host ?ws @ '':'' @ show_int (ws_port ?ws)) (ws_target ?ws)])"
    using waiting_plain [OF handler_of.tcp_connected [where ec = None], of ?ws J R fifo ap] by (simp add: ws_OnConnect_def)
  have "(sys_step J R fifo)\<^sup>*\<^sup>* (sys_start ap) (waiting ap (?ws\<lparr>ws_connected := True\<rparr>) [Async_read])"
    by (rule converse_rtranclp_into_rtranclp [OF s1 converse_rtranclp_into_rtranclp [OF s2 r_into_rtranclp
          [where r = "sys_step J R fifo", OF waiting_handshaken [OF r(1)]]]])
  with r(2) show ?thesis by (intro exI [of _ "?ws\<lparr>ws_connected := True\<rparr>"]) simp
qed

text \<open>The run of a read with one message.\<close>

lemma read_step:
  assumes "Async_read \<in> set (sy_ops S)" and "sg_websocket (sy_sig S) = Some ws" and "ws_receive ws = Some OnMsgCb"
    and "on_room (room_message J msg) (sy_app S) = (Inr (), ap)" and "sg_calls (rm_sig (ap_room ap)) = sg_calls (sy_sig S) @ cs"
  shows "sys_step J R fifo S (S\<lparr>sy_app := ap, sy_ops := remove1 Async_read (sy_ops S) @ ws_ops cs @ [Async_read]\<rparr>)"
proof (rule sys_step.io [OF assms(1) handler_of.read_done [of None msg] assms(2)])
  have "client_call J (Call_receive OnMsgCb msg) = room_message J msg"
    by (rule ext) (simp add: client_call_def room_message_def)
  moreover have "set_session ws (sys_take Async_read S) = sys_take Async_read S"
    using assms(2) by (cases "sy_sig S") (auto simp: set_session_def sys_take_def)
  ultimately show "sys_handle J (ws_OnRead None msg ws) (sys_take Async_read S) =
      (Inr (), S\<lparr>sy_app := ap, sy_ops := remove1 Async_read (sy_ops S) @ ws_ops cs @ [Async_read]\<rparr>)"
    using assms(3-5) by (simp add: sys_handle_def ws_OnRead_def ws_DoRead_def sys_call_def sys_run_def sys_take_def)
qed

lemma room_connect:
  assumes J: "nlohmann J obj arr plain" and ws: "sg_websocket (rm_sig r) = Some ws" "ws_connected ws"
    and tk: "ascii (tk_tokenId (sg_token (rm_sig r)))" "ascii (tk_host (sg_token (rm_sig r)))" "ascii (tk_signature (sg_token (rm_sig r)))"
  obtains pkt j where "room_message J ''40'' r = (Inr (), r\<lparr>rm_sig := (rm_sig r)\<lparr>sg_state := SConnected, sg_calls := sg_calls (rm_sig r) @
      [SchedulePing (1000000 * om_ping_interval (sg_open (rm_sig r))), Ws (Post_OnSend (''42111'' @ pkt))]\<rparr>\<rparr>)"
    "arrives J (Inr pkt) j" "str_at J [Idx 0] j = Inr ''token''"
    "str_at J [Idx 1, Key ''token'', Key ''tokenId''] j = Inr (tk_tokenId (sg_token (rm_sig r)))"
    "str_at J [Idx 1, Key ''token'', Key ''signature''] j = Inr (tk_signature (sg_token (rm_sig r)))"
proof -
  from connect_sends_token_lemma [OF J ws tk] obtain pkt j where
    "sg_OnWebsocketMsg J ''40'' (rm_sig r) = (Inr (), (rm_sig r)\<lparr>sg_state := SConnected, sg_calls := sg_calls (rm_sig r) @
      [SchedulePing (1000000 * om_ping_interval (sg_open (rm_sig r))), Ws (Post_OnSend (''42111'' @ pkt))]\<rparr>)"
    "arrives J (Inr pkt) j" "str_at J [Idx 0] j = Inr ''token''"
    "str_at J [Idx 1, Key ''token'', Key ''tokenId''] j = Inr (tk_tokenId (sg_token (rm_sig r)))"
    "str_at J [Idx 1, Key ''token'', Key ''signature''] j = Inr (tk_signature (sg_token (rm_sig r)))" by blast
  then show thesis using that by (simp add: room_message_def on_signaling_def)
qed

lemma same_client_sel:
  assumes "same_client S S'" and "sg_websocket (sy_sig S) = Some ws"
  shows "online (sy_sig S') = online (sy_sig S)" "sy_posted S' = sy_posted S" "ap_wrapper (sy_app S') = ap_wrapper (sy_app S)"
    "rm_state (ap_room (sy_app S')) = rm_state (ap_room (sy_app S))"
  using assms by (auto simp: same_client_def set_session_def online_def)

lemma connecting:
  assumes J: "nlohmann J obj arr plain" and join: "app_Join (TestBasicExampleRoom_new wr token) = (Inr (), ap)"
    and tk: "ascii (tk_tokenId token)" "ascii (tk_host token)" "ascii (tk_signature token)"
  shows "\<exists>S pkt j. (sys_step J R True)\<^sup>*\<^sup>* (sys_start ap) S \<and> online (sy_sig S) \<and> Async_read \<in> set (sy_ops S) \<and>
    \<not> sy_failed S \<and> sy_posted S = [] \<and> ap_wrapper (sy_app S) = wr \<and>
    sy_written S = [''42111'' @ pkt] \<and> handed S = [''42111'' @ pkt] \<and>
    arrives J (Inr pkt) j \<and> str_at J [Idx 0] j = Inr ''token'' \<and>
    str_at J [Idx 1, Key ''token'', Key ''tokenId''] j = Inr (tk_tokenId token) \<and>
    str_at J [Idx 1, Key ''token'', Key ''signature''] j = Inr (tk_signature token)"
proof -
  obtain ws where ws: "sg_websocket (rm_sig (ap_room ap)) = Some (fst (started ws))"
    "sg_calls (rm_sig (ap_room ap)) = map Ws (snd (started ws))"
    and ap: "rm_posted (ap_room ap) = []" "sg_token (rm_sig (ap_room ap)) = token" "ap_wrapper ap = wr"
    by (rule Join_session [OF join])
  obtain ws' where ws': "ws_connected ws'" "ws_receive ws' = Some OnMsgCb"
    and run: "(sys_step J R True)\<^sup>*\<^sup>* (sys_start ap) (waiting ap ws' [Async_read])" using connected_run [OF ws] by blast
  let ?S3 = "waiting ap ws' [Async_read]" and ?r = "ap_room (sy_app (waiting ap ws' [Async_read]))"
  have tok: "sg_token (rm_sig ?r) = token" by (simp add: waiting_def set_session_def ap)
  obtain pkt j where m: "room_message J ''40'' ?r = (Inr (), ?r\<lparr>rm_sig := (rm_sig ?r)\<lparr>sg_state := SConnected, sg_calls := sg_calls (rm_sig ?r) @
      [SchedulePing (1000000 * om_ping_interval (sg_open (rm_sig ?r))), Ws (Post_OnSend (''42111'' @ pkt))]\<rparr>\<rparr>)"
    and j: "arrives J (Inr pkt) j" "str_at J [Idx 0] j = Inr ''token''"
    "str_at J [Idx 1, Key ''token'', Key ''tokenId''] j = Inr (tk_tokenId token)"
    "str_at J [Idx 1, Key ''token'', Key ''signature''] j = Inr (tk_signature token)"
    using room_connect [OF J, of ?r ws'] ws'(1) tk unfolding tok by auto
  let ?ap = "(sy_app ?S3)\<lparr>ap_room := ?r\<lparr>rm_sig := (rm_sig ?r)\<lparr>sg_state := SConnected, sg_calls := sg_calls (rm_sig ?r) @
      [SchedulePing (1000000 * om_ping_interval (sg_open (rm_sig ?r))), Ws (Post_OnSend (''42111'' @ pkt))]\<rparr>\<rparr>\<rparr>"
  let ?S4 = "?S3\<lparr>sy_app := ?ap, sy_ops := [Post_OnSend (''42111'' @ pkt), Async_read]\<rparr>"
  have "sys_step J R True ?S3 ?S4"
    using read_step [where S = ?S3 and msg = "''40''" and ap = ?ap and J = J and R = R and fifo = True, OF _ _ ws'(2)] m
    by (simp add: on_room_def)
  with run have run4: "(sys_step J R True)\<^sup>*\<^sup>* (sys_start ap) ?S4" by (rule rtranclp.rtrancl_into_rtrancl)
  obtain ws0 where ws0: "ws_queue ws0 = []" "sys_inv J True (ws_start ws0) (sys_start ap)" by (rule start_inv [OF join])
  have inv4: "sys_inv J True (ws_start ws0) ?S4" by (rule sys_runs.invar_reach [OF run4 ws0(2)])
  have wsq: "ws_inv (ws_start ws0)" by (rule ws_start_inv [OF ws0(1)])
  have "\<not> sy_failed ?S4" by (simp add: waiting_def set_session_def)
  from sys_drain [OF inv4 wsq this, of R] obtain S where S: "(sys_step J R True)\<^sup>*\<^sup>* ?S4 S" "sys_inv J True (ws_start ws0) S"
    "same_client ?S4 S" "\<not> sy_failed S" "Async_read \<in> set (sy_ops S)" "posted_sends (sy_ops S) = []" "sys_queue S = []" by auto
  have s4: "sg_websocket (sy_sig ?S4) = Some ws'" by simp
  have "online (sy_sig S)" using same_client_sel(1) [OF S(3) s4] ws'(1) by (simp add: online_def)
  moreover have "sy_posted S = []" "ap_wrapper (sy_app S) = wr"
    using same_client_sel(2,3) [OF S(3) s4] ap by (simp_all add: waiting_def set_session_def)
  moreover have "handed S = [''42111'' @ pkt]"
    using same_client_handed [OF S(3)] by (simp add: handed_def ws started_def ws_handler_defs)
  moreover have "sy_written S = handed S" using sys_written [OF S(2) wsq] S(6,7) by simp
  moreover have "(sys_step J R True)\<^sup>*\<^sup>* (sys_start ap) S" using run4 S(1) by (rule rtranclp_trans)
  ultimately show ?thesis using S(4,5) j by (intro exI [of _ S] exI [of _ pkt] exI [of _ j]) simp
qed

section \<open>Subscribing\<close>

lemma worker_step:
  assumes "sy_posted S = t # ts"
    and "app_task J R order t ((sy_app S)\<lparr>ap_room := (ap_room (sy_app S))\<lparr>rm_posted := ts\<rparr>\<rparr>) = (Inr (), ap)"
    and "sg_calls (rm_sig (ap_room ap)) = sg_calls (sy_sig S) @ cs"
  shows "sys_step J R fifo S (S\<lparr>sy_app := ap, sy_ops := sy_ops S @ ws_ops cs\<rparr>)"
  by (rule sys_step.worker [OF assms(1), where order = order]) (simp add: sys_run_def assms(2,3))

text \<open>The worker runs the lambdas of the existing streams, one per step; \<open>pkts\<close> are the packets handed over.\<close>

lemma exist_streams_sys:
  assumes J: "nlohmann J obj arr plain"
    and "sy_posted S = map TExistStream as" and "online (sy_sig S)" "ww_init (ap_wrapper (sy_app S))"
      "re_factory R (ww_thread (ap_wrapper (sy_app S)))"
    and "\<forall>a \<in> set as. a < length (rm_heap (ap_room (sy_app S)))"
    and "distinct (map (\<lambda>a. si_id (rm_heap (ap_room (sy_app S)) ! a)) as)"
    and "\<forall>a \<in> set as. map_of (rm_remote (ap_room (sy_app S))) (si_id (rm_heap (ap_room (sy_app S)) ! a)) = None"
  shows "\<exists>S' pkts. (sys_step J R fifo)\<^sup>*\<^sup>* S S' \<and>
    list_all2 (\<lambda>a pkt. subscribe_packet J (si_id (rm_heap (ap_room (sy_app S)) ! a)) = Inr pkt) as pkts \<and>
    handed S' = handed S @ map (\<lambda>pkt. SubscribeStreamMsgHeader @ pkt) pkts \<and> set (sy_ops S) \<subseteq> set (sy_ops S') \<and>
    sy_posted S' = [] \<and> sy_failed S' = sy_failed S \<and> rm_state (ap_room (sy_app S')) = rm_state (ap_room (sy_app S)) \<and>
    sg_websocket (sy_sig S') = sg_websocket (sy_sig S)"
  using assms(2-8)
proof (induction "as" arbitrary: S)
  case Nil
  then show ?case by (intro exI [of _ S] exI [of _ "[]"]) simp
next
  case (Cons a as)
  let ?r = "(ap_room (sy_app S))\<lparr>rm_posted := map TExistStream as\<rparr>"
  let ?ap = "(sy_app S)\<lparr>ap_room := ?r\<rparr>" and ?k = "si_id (rm_heap (ap_room (sy_app S)) ! a)"
  obtain pkt where pkt: "subscribe_packet J ?k = Inr pkt" using subscribe_packet_arrives [OF J] by metis
  obtain ps where ps: "app_task J R id (TExistStream a) ?ap = (Inr (), ?ap\<lparr>ap_room := ?r\<lparr>rm_remote := (?k, Some a) # rm_remote ?r,
        rm_observed := rm_observed ?r @ [Obs_OnAddRemoteStream a], rm_pending_subscribe := rm_pending_subscribe ?r @ [?k],
        rm_sig := (rm_sig ?r)\<lparr>sg_calls := sg_calls (rm_sig ?r) @ [Ws (Post_OnSend (SubscribeStreamMsgHeader @ pkt))]\<rparr>\<rparr>, ap_peers := ps\<rparr>)"
    using exist_stream_step [where J = J and R = R and order = id and ap = ?ap and a = a, OF pkt] Cons.prems(2-5,7) by auto
  define ap1 where "ap1 = ?ap\<lparr>ap_room := ?r\<lparr>rm_remote := (?k, Some a) # rm_remote ?r,
        rm_observed := rm_observed ?r @ [Obs_OnAddRemoteStream a], rm_pending_subscribe := rm_pending_subscribe ?r @ [?k],
        rm_sig := (rm_sig ?r)\<lparr>sg_calls := sg_calls (rm_sig ?r) @ [Ws (Post_OnSend (SubscribeStreamMsgHeader @ pkt))]\<rparr>\<rparr>, ap_peers := ps\<rparr>"
  define S1 where "S1 = S\<lparr>sy_app := ap1, sy_ops := sy_ops S @ [Post_OnSend (SubscribeStreamMsgHeader @ pkt)]\<rparr>"
  have step: "sys_step J R fifo S S1"
    using worker_step [of S "TExistStream a" "map TExistStream as" J R id ap1 "[Ws (Post_OnSend (SubscribeStreamMsgHeader @ pkt))]" fifo]
      Cons.prems(1) ps unfolding S1_def ap1_def [symmetric] by (simp add: ap1_def)
  have "\<exists>S' pkts. (sys_step J R fifo)\<^sup>*\<^sup>* S1 S' \<and>
    list_all2 (\<lambda>a pkt. subscribe_packet J (si_id (rm_heap (ap_room (sy_app S1)) ! a)) = Inr pkt) as pkts \<and>
    handed S' = handed S1 @ map (\<lambda>pkt. SubscribeStreamMsgHeader @ pkt) pkts \<and> set (sy_ops S1) \<subseteq> set (sy_ops S') \<and>
    sy_posted S' = [] \<and> sy_failed S' = sy_failed S1 \<and> rm_state (ap_room (sy_app S')) = rm_state (ap_room (sy_app S1)) \<and>
    sg_websocket (sy_sig S') = sg_websocket (sy_sig S1)"
    using Cons.prems by (intro Cons.IH) (auto simp: S1_def ap1_def image_iff)
  then obtain S' pkts where S': "(sys_step J R fifo)\<^sup>*\<^sup>* S1 S'"
    "list_all2 (\<lambda>a pkt. subscribe_packet J (si_id (rm_heap (ap_room (sy_app S)) ! a)) = Inr pkt) as pkts"
    "handed S' = handed S1 @ map (\<lambda>pkt. SubscribeStreamMsgHeader @ pkt) pkts" "set (sy_ops S1) \<subseteq> set (sy_ops S')"
    "sy_posted S' = []" "sy_failed S' = sy_failed S" "rm_state (ap_room (sy_app S')) = rm_state (ap_room (sy_app S))"
    "sg_websocket (sy_sig S') = sg_websocket (sy_sig S)"
    by (auto simp: S1_def ap1_def)
  have "handed S1 = handed S @ [SubscribeStreamMsgHeader @ pkt]" by (simp add: handed_def S1_def ap1_def)
  with S' pkt converse_rtranclp_into_rtranclp [OF step S'(1)] show ?case
    by (intro exI [of _ S'] exI [of _ "pkt # pkts"]) (auto simp: S1_def)
qed

lemma joined_step:
  assumes J: "nlohmann J obj arr plain" and S: "Async_read \<in> set (sy_ops S)" "sg_websocket (sy_sig S) = Some ws"
    "ws_receive ws = Some OnMsgCb" "sg_init_token_cb (sy_sig S) = Some InitTokenCb" "sy_posted S = []"
    and answer: "no_digit body" "str_ok (''43333'' @ body)" "j_parse J body = Inr json"
      "arr json = Some [j_string J ''success'', b]" "join_body J obj arr v b"
  shows "\<exists>S1. (sys_step J R fifo)\<^sup>*\<^sup>* S S1 \<and> set (sy_ops S) \<subseteq> set (sy_ops S1) \<and> handed S1 = handed S \<and>
    sy_failed S1 = sy_failed S \<and> sg_websocket (sy_sig S1) = sg_websocket (sy_sig S) \<and> sg_state (sy_sig S1) = sg_state (sy_sig S) \<and>
    ap_wrapper (sy_app S1) = ap_wrapper (sy_app S) \<and> rm_state (ap_room (sy_app S1)) = RConnected \<and>
    rm_remote (ap_room (sy_app S1)) = [] \<and>
    (let n = length (rm_heap (ap_room (sy_app S))) in
      rm_heap (ap_room (sy_app S1)) = rm_heap (ap_room (sy_app S)) @ jm_streams v \<and>
      sy_posted S1 = map TExistStream [n..<n + length (jm_streams v)])"
proof -
  let ?r = "ap_room (sy_app S)"
  define r where "r = joined v (?r\<lparr>rm_sig := (rm_sig ?r)\<lparr>sg_calls := sg_calls (rm_sig ?r) @ [Call_init_token InitTokenCb body]\<rparr>\<rparr>)"
  let ?as = "[length (rm_heap ?r)..<length (rm_heap ?r) + length (jm_streams v)]"
  let ?ap = "(sy_app S)\<lparr>ap_room := r\<rparr>"
  have "on_room (room_message J (''43111'' @ body)) (sy_app S) = (Inr (), ?ap)"
    using join_message [OF J S(4) answer] by (simp add: on_room_def r_def)
  then have s1: "sys_step J R fifo S (S\<lparr>sy_app := ?ap, sy_ops := remove1 Async_read (sy_ops S) @ ws_ops [Call_init_token InitTokenCb body] @ [Async_read]\<rparr>)"
    by (rule read_step [OF S(1-3)]) (simp add: r_def joined_def)
  let ?T = "S\<lparr>sy_app := ?ap, sy_ops := remove1 Async_read (sy_ops S) @ [Async_read]\<rparr>"
  have posted: "sy_posted ?T = TJoined # map TExistStream ?as" using S(5) by (simp add: r_def joined_def)
  let ?ap2 = "?ap\<lparr>ap_room := r\<lparr>rm_posted := map TExistStream ?as, rm_observed := rm_observed r @ [Obs_OnJoinRoom (rm_id r)]\<rparr>\<rparr>"
  have "app_task J R id TJoined ((sy_app ?T)\<lparr>ap_room := (ap_room (sy_app ?T))\<lparr>rm_posted := map TExistStream ?as\<rparr>\<rparr>) = (Inr (), ?ap2)"
    by (simp add: app_task_def sbind_def on_room_def task_joined_def rm_observer_def)
  then have s2: "sys_step J R fifo ?T (?T\<lparr>sy_app := ?ap2, sy_ops := sy_ops ?T @ ws_ops ([] :: room_cb sig_call list)\<rparr>)"
    by (rule worker_step [OF posted]) simp
  have "(sys_step J R fifo)\<^sup>*\<^sup>* S (S\<lparr>sy_app := ?ap2, sy_ops := remove1 Async_read (sy_ops S) @ [Async_read]\<rparr>)"
    using s1 s2 by (intro converse_rtranclp_into_rtranclp [of _ S ?T] r_into_rtranclp) simp_all
  moreover have "set (sy_ops S) \<subseteq> set (remove1 Async_read (sy_ops S) @ [Async_read])"
    using in_set_remove1 by fastforce
  ultimately show ?thesis
    by (intro exI [of _ "S\<lparr>sy_app := ?ap2, sy_ops := remove1 Async_read (sy_ops S) @ [Async_read]\<rparr>"]) (simp add: r_def joined_def handed_def Let_def)
qed

lemma subscribing:
  assumes J: "nlohmann J obj arr plain" and inv: "sys_inv J True w0 S" "ws_inv w0"
    and S: "online (sy_sig S)" "Async_read \<in> set (sy_ops S)" "\<not> sy_failed S" "sy_posted S = []"
      "ww_init (ap_wrapper (sy_app S))" "re_factory R (ww_thread (ap_wrapper (sy_app S)))"
    and answer: "no_digit body" "str_ok (''43333'' @ body)" "j_parse J body = Inr json"
      "arr json = Some [j_string J ''success'', b]" "join_body J obj arr v b" "distinct (map si_id (jm_streams v))"
  shows "\<exists>S' pkts. (sys_step J R True)\<^sup>*\<^sup>* S S' \<and> rm_state (ap_room (sy_app S')) = RConnected \<and> sy_posted S' = [] \<and>
    list_all2 (\<lambda>s pkt. subscribe_packet J (si_id s) = Inr pkt) (jm_streams v) pkts \<and>
    sy_written S' = handed S @ map (\<lambda>pkt. SubscribeStreamMsgHeader @ pkt) pkts"
proof -
  obtain ws where ws: "sg_websocket (sy_sig S) = Some ws" "ws_receive ws = Some OnMsgCb" "sg_init_token_cb (sy_sig S) = Some InitTokenCb"
    using inv(1) by (auto simp: sys_inv_def accounts_def sg_callbacks_def)
  let ?n = "length (rm_heap (ap_room (sy_app S)))" and ?m = "length (jm_streams v)"
  from joined_step [OF J S(2) ws S(4) answer(1-5), of R True] obtain S1 where
    S1: "(sys_step J R True)\<^sup>*\<^sup>* S S1" "set (sy_ops S) \<subseteq> set (sy_ops S1)" "handed S1 = handed S" "sy_failed S1 = sy_failed S"
      "sg_websocket (sy_sig S1) = sg_websocket (sy_sig S)" "sg_state (sy_sig S1) = sg_state (sy_sig S)"
      "ap_wrapper (sy_app S1) = ap_wrapper (sy_app S)" "rm_state (ap_room (sy_app S1)) = RConnected" "rm_remote (ap_room (sy_app S1)) = []"
    and h: "rm_heap (ap_room (sy_app S1)) = rm_heap (ap_room (sy_app S)) @ jm_streams v"
      "sy_posted S1 = map TExistStream [?n..<?n + ?m]" unfolding Let_def by blast
  have at: "map (\<lambda>a. rm_heap (ap_room (sy_app S1)) ! a) [?n..<?n + ?m] = jm_streams v"
    by (rule nth_equalityI) (simp_all add: h(1) nth_append)
  from arg_cong [OF this, of "map si_id"]
  have ids: "map (\<lambda>a. si_id (rm_heap (ap_room (sy_app S1)) ! a)) [?n..<?n + ?m] = map si_id (jm_streams v)"
    by (simp only: map_map comp_def)
  have "\<exists>S2 pkts. (sys_step J R True)\<^sup>*\<^sup>* S1 S2 \<and>
    list_all2 (\<lambda>a pkt. subscribe_packet J (si_id (rm_heap (ap_room (sy_app S1)) ! a)) = Inr pkt) [?n..<?n + ?m] pkts \<and>
    handed S2 = handed S1 @ map (\<lambda>pkt. SubscribeStreamMsgHeader @ pkt) pkts \<and> set (sy_ops S1) \<subseteq> set (sy_ops S2) \<and>
    sy_posted S2 = [] \<and> sy_failed S2 = sy_failed S1 \<and> rm_state (ap_room (sy_app S2)) = rm_state (ap_room (sy_app S1)) \<and>
    sg_websocket (sy_sig S2) = sg_websocket (sy_sig S1)"
  proof (rule exist_streams_sys [OF J h(2)])
    show "distinct (map (\<lambda>a. si_id (rm_heap (ap_room (sy_app S1)) ! a)) [?n..<?n + ?m])" unfolding ids by (rule answer(6))
  qed (use S S1 h(1) in \<open>simp_all add: online_def\<close>)
  then obtain S2 pkts where S2: "(sys_step J R True)\<^sup>*\<^sup>* S1 S2"
    "list_all2 (\<lambda>a pkt. subscribe_packet J (si_id (rm_heap (ap_room (sy_app S1)) ! a)) = Inr pkt) [?n..<?n + ?m] pkts"
    "handed S2 = handed S1 @ map (\<lambda>pkt. SubscribeStreamMsgHeader @ pkt) pkts" "sy_posted S2 = []" "sy_failed S2 = sy_failed S1"
    "rm_state (ap_room (sy_app S2)) = rm_state (ap_room (sy_app S1))" "sg_websocket (sy_sig S2) = sg_websocket (sy_sig S1)" by blast
  have run: "(sys_step J R True)\<^sup>*\<^sup>* S S2" using S1(1) S2(1) by (rule rtranclp_trans)
  have inv2: "sys_inv J True w0 S2" by (rule sys_runs.invar_reach [OF run inv(1)])
  have "\<not> sy_failed S2" using S2(5) S1(4) S(3) by simp
  from sys_drain [OF inv2 inv(2) this, of R] obtain S3 where S3: "(sys_step J R True)\<^sup>*\<^sup>* S2 S3" "sys_inv J True w0 S3"
    "same_client S2 S3" "posted_sends (sy_ops S3) = []" "sys_queue S3 = []" by blast
  have w2: "sg_websocket (sy_sig S2) = Some ws" using S2(7) S1(5) ws(1) by simp
  have "sy_written S3 = handed S @ map (\<lambda>pkt. SubscribeStreamMsgHeader @ pkt) pkts"
    using sys_written [OF S3(2) inv(2)] S3(4,5) same_client_handed [OF S3(3)] S2(3) S1(3) by simp
  moreover have "list_all2 (\<lambda>s pkt. subscribe_packet J (si_id s) = Inr pkt)
      (map (\<lambda>a. rm_heap (ap_room (sy_app S1)) ! a) [?n..<?n + ?m]) pkts" using S2(2) by (simp only: list.rel_map(1))
  ultimately show ?thesis
    unfolding at using rtranclp_trans [OF run S3(1)] same_client_sel(2,4) [OF S3(3) w2] S2(4,6) S1(8) by auto
qed

section \<open>Answering an offer\<close>

text \<open>The event by which the server offers a session description for the connection \<open>c\<close>.\<close>

definition offer_event :: "'j json_api \<Rightarrow> ('j \<Rightarrow> (string \<rightharpoonup> 'j) option) \<Rightarrow> ('j \<Rightarrow> 'j list option) \<Rightarrow> ('j \<Rightarrow> bool) \<Rightarrow>
    'j \<Rightarrow> string \<Rightarrow> string \<Rightarrow> bool" where
  "offer_event J obj arr plain ev c sdp \<longleftrightarrow> (\<exists>body m evt em.
     arr ev = Some [j_string J ''connection_message_erizo'', body] \<and> plain body \<and> obj body = Some m \<and>
     m ''connectionId'' = Some (j_string J c) \<and> m ''info'' = Some (j_int J 202) \<and> m ''evt'' = Some evt \<and>
     obj evt = Some em \<and> em ''type'' = Some (j_string J ''offer'') \<and> em ''sdp'' = Some (j_string J sdp))"

lemma offer_message:
  assumes J: "nlohmann J obj arr plain" and cb: "sg_event_cb (rm_sig r) = Some EventCb"
    and body: "no_digit txt" "str_ok (''43333'' @ txt)" and ev: "j_parse J txt = Inr ev" "offer_event J obj arr plain ev c sdp"
  shows "\<exists>b. room_message J (''42'' @ txt) r = (Inr (), r\<lparr>rm_sig := (rm_sig r)\<lparr>sg_calls := sg_calls (rm_sig r) @
      [Call_event EventCb ''connection_message_erizo'' b]\<rparr>, rm_posted := rm_posted r @ [TOffer c sdp]\<rparr>)"
proof -
  obtain b m evt em where e: "arr ev = Some [j_string J ''connection_message_erizo'', b]" "plain b"
    and f: "obj b = Some m" "m ''connectionId'' = Some (j_string J c)" "m ''info'' = Some (j_int J 202)" "m ''evt'' = Some evt"
      "obj evt = Some em" "em ''type'' = Some (j_string J ''offer'')" "em ''sdp'' = Some (j_string J sdp)"
    using ev(2) unfolding offer_event_def by blast
  obtain s where s: "j_dump J b = Inr s" "j_parse J s = Inr b" using nlohmann.parse_dump [OF J e(2)] by blast
  note at = nlohmann.at_arr [OF J e(1), of 0] nlohmann.at_arr [OF J e(1), of 1]
  note get = nlohmann.get_obj [OF J f(1,2)] nlohmann.get_obj [OF J f(1,3)] nlohmann.get_obj [OF J f(1,4)]
    nlohmann.get_obj [OF J f(5,6)] nlohmann.get_obj [OF J f(5,7)]
  have n: "j_as_int J (j_int J 202) = Inr 202" by (rule nlohmann.as_int [OF J]) (simp_all add: int32_min_def int32_max_def)
  let ?calls = "sg_calls (rm_sig r) @ [Call_event EventCb ''connection_message_erizo'' s]"
  have sg: "on_signaling (sg_OnWebsocketMsg J (''42'' @ txt)) r = (Inr (), r\<lparr>rm_sig := (rm_sig r)\<lparr>sg_calls := ?calls\<rparr>\<rparr>)"
    unfolding dispatch_code(8) [OF body]
    using at by (simp add: on_signaling_def sg_ProcessEvent_def scatch_def ev(1) cb nlohmann.as_string [OF J] s(1) sg_emit_def)
  have "rm_OnEvent J ''connection_message_erizo'' s r' = (Inr (), r'\<lparr>rm_posted := rm_posted r' @ [TOffer c sdp]\<rparr>)" for r'
    by (simp add: rm_OnEvent_def rm_OnErizoConnectionEvent_def s(2) field_def get nlohmann.as_string [OF J] n
        nlohmann.eq_string [OF J] rm_receiveOffer_def rm_PostTask_def)
  then show ?thesis
    unfolding room_message_def sbind_def sg by (intro exI [of _ s]) (simp add: scatch_def)
qed

lemma offer_delivered:
  assumes J: "nlohmann J obj arr plain" and ws: "sg_websocket (sy_sig S) = Some ws" "ws_receive ws = Some OnMsgCb" "sg_event_cb (sy_sig S) = Some EventCb"
    and S: "Async_read \<in> set (sy_ops S)" "sy_posted S = []"
    and stream: "map_of (rm_remote (ap_room (sy_app S))) k = Some (Some a)" "a < length (rm_heap (ap_room (sy_app S)))"
      "rm_heap (ap_room (sy_app S)) ! a = s" "si_id s = k"
    and others: "\<forall>(k', p) \<in> set (rm_remote (ap_room (sy_app S))).
      \<exists>i. deref (rm_heap (ap_room (sy_app S))) p = Inr i \<and> (si_connection_id i = si_connection_id s \<longrightarrow> p = Some a)"
    and peer: "map_of (ap_peers (sy_app S)) k = Some (Some conn)" "wc_pc conn" and sdp: "re_parse R Offer offer = Some d"
    and msg: "no_digit txt" "str_ok (''43333'' @ txt)" "j_parse J txt = Inr ev" "offer_event J obj arr plain ev (si_connection_id s) offer"
  shows "\<exists>b ps. (sys_step J R fifo)\<^sup>*\<^sup>* S (S\<lparr>sy_app := (sy_app S)\<lparr>ap_room := (ap_room (sy_app S))
      \<lparr>rm_sig := (sy_sig S)\<lparr>sg_calls := sg_calls (sy_sig S) @ [Call_event EventCb ''connection_message_erizo'' b]\<rparr>,
       rm_observed := rm_observed (ap_room (sy_app S)) @ [Obs_OnReceiveOffer (Some a) offer]\<rparr>, ap_peers := ps\<rparr>,
      sy_ops := remove1 Async_read (sy_ops S) @ [Async_read]\<rparr>) \<and>
    map_of ps k = Some (Some (conn\<lparr>wc_calls := wc_calls conn @ [Pc_SetRemoteDescription True d, Pc_CreateAnswer plan_b_options]\<rparr>))"
proof -
  let ?r = "ap_room (sy_app S)"
  obtain b where b: "room_message J (''42'' @ txt) ?r = (Inr (), ?r\<lparr>rm_sig := (rm_sig ?r)\<lparr>sg_calls := sg_calls (rm_sig ?r) @
      [Call_event EventCb ''connection_message_erizo'' b]\<rparr>, rm_posted := rm_posted ?r @ [TOffer (si_connection_id s) offer]\<rparr>)"
    using offer_message [OF J ws(3) msg] by blast
  define r1 where "r1 = ?r\<lparr>rm_sig := (rm_sig ?r)\<lparr>sg_calls := sg_calls (rm_sig ?r) @ [Call_event EventCb ''connection_message_erizo'' b]\<rparr>\<rparr>"
  let ?ops1 = "remove1 Async_read (sy_ops S) @ [Async_read]"
  let ?S1 = "S\<lparr>sy_app := (sy_app S)\<lparr>ap_room := r1\<lparr>rm_posted := [TOffer (si_connection_id s) offer]\<rparr>\<rparr>, sy_ops := ?ops1\<rparr>"
  have "on_room (room_message J (''42'' @ txt)) (sy_app S) = (Inr (), sy_app ?S1)" unfolding on_room_def b by (simp add: r1_def S(2))
  then have s1: "sys_step J R fifo S ?S1"
    using read_step [OF S(1) ws(1,2), of J "''42'' @ txt" "sy_app ?S1" "[Call_event EventCb ''connection_message_erizo'' b]" R fifo]
    by (simp add: r1_def)
  have r1: "r1\<lparr>rm_posted := []\<rparr> = r1" using S(2) by (simp add: r1_def)
  let ?ap1 = "(sy_app S)\<lparr>ap_room := r1\<rparr>"
  let ?r2 = "r1\<lparr>rm_observed := rm_observed r1 @ [Obs_OnReceiveOffer (Some a) offer]\<rparr>"
  have found: "find_connection (rm_heap (ap_room ?ap1)) (si_connection_id s) (id (rm_remote (ap_room ?ap1))) = Inr (Some a)"
    using others stream map_of_SomeD [OF stream(1)] by (intro find_connection_unique) (auto simp: r1_def)
  obtain ps where ps: "app_task J R id (TOffer (si_connection_id s) offer) ?ap1 = (Inr (), ?ap1\<lparr>ap_room := ?r2, ap_peers := ps\<rparr>)"
    "map_of ps k = Some (Some (conn\<lparr>wc_calls := wc_calls conn @ [Pc_SetRemoteDescription True d, Pc_CreateAnswer plan_b_options]\<rparr>))"
    using offer_step [where J = J and order = id, OF found, of k conn R offer d] stream peer sdp by (auto simp: r1_def)
  let ?ap2 = "(sy_app S)\<lparr>ap_room := ?r2, ap_peers := ps\<rparr>"
  have s2: "sys_step J R fifo ?S1 (S\<lparr>sy_app := ?ap2, sy_ops := ?ops1\<rparr>)"
    using worker_step [of ?S1 "TOffer (si_connection_id s) offer" "[]" J R id ?ap2 "[]" fifo] ps(1) r1 by (simp add: r1_def)
  have "(sys_step J R fifo)\<^sup>*\<^sup>* S (S\<lparr>sy_app := ?ap2, sy_ops := ?ops1\<rparr>)"
    by (rule converse_rtranclp_into_rtranclp [where r = "sys_step J R fifo", OF s1 r_into_rtranclp]) (rule s2)
  with ps(2) show ?thesis by (intro exI [of _ b] exI [of _ ps]) (simp add: r1_def)
qed

lemma answer_sent:
  assumes J: "nlohmann J obj arr plain" and S: "online (sy_sig S)" "sy_posted S = []"
    and stream: "map_of (rm_remote (ap_room (sy_app S))) k = Some (Some a)" "a < length (rm_heap (ap_room (sy_app S)))"
    and peer: "map_of (ap_peers (sy_app S)) k = Some (Some conn)" "wc_pc conn" and sdp: "re_parse R Answer answer = Some d"
    and asc: "ascii (rm_erizo_id (ap_room (sy_app S)))" "ascii (si_connection_id (rm_heap (ap_room (sy_app S)) ! a))" "ascii answer"
  shows "\<exists>S' pkt j. (sys_step J R fifo)\<^sup>*\<^sup>* S S' \<and> handed S' = handed S @ [''42'' @ pkt] \<and> sy_failed S' = sy_failed S \<and>
    map_of (ap_peers (sy_app S')) k = Some (Some (conn\<lparr>wc_calls := wc_calls conn @ [Pc_SetLocalDescription False d]\<rparr>)) \<and>
    arrives J (Inr pkt) j \<and> str_at J [Idx 0] j = Inr ''connectionMessage'' \<and>
    str_at J [Idx 1, Key ''connectionId''] j = Inr (si_connection_id (rm_heap (ap_room (sy_app S)) ! a)) \<and>
    str_at J [Idx 1, Key ''erizoId''] j = Inr (rm_erizo_id (ap_room (sy_app S))) \<and>
    str_at J [Idx 1, Key ''msg'', Key ''type''] j = Inr ''answer'' \<and>
    str_at J [Idx 1, Key ''msg'', Key ''sdp''] j = Inr answer"
proof -
  let ?r = "ap_room (sy_app S)" and ?t = "TSendAnswer k answer"
  obtain ps where ps: "app_peer_event R (OnSdpCreateSuccess k Answer answer) (sy_app S) = (Inr (), (sy_app S)\<lparr>ap_peers := ps,
      ap_room := ?r\<lparr>rm_posted := rm_posted ?r @ [?t]\<rparr>\<rparr>)"
    "map_of ps k = Some (Some (conn\<lparr>wc_calls := wc_calls conn @ [Pc_SetLocalDescription False d]\<rparr>))"
    using answer_step [OF peer sdp] by blast
  let ?S1 = "S\<lparr>sy_app := (sy_app S)\<lparr>ap_peers := ps, ap_room := ?r\<lparr>rm_posted := [?t]\<rparr>\<rparr>\<rparr>"
  have s1: "sys_step J R fifo S ?S1"
    using ps(1) S(2) by (intro sys_step.peer_event [where e = "OnSdpCreateSuccess k Answer answer"]) (simp add: sys_run_def)
  obtain pkt j where run: "run_task J id ?t ?r =
      (Inr (), ?r\<lparr>rm_sig := (rm_sig ?r)\<lparr>sg_calls := sg_calls (rm_sig ?r) @ [Ws (Post_OnSend (EventHeader @ pkt))]\<rparr>\<rparr>)"
    and j: "arrives J (Inr pkt) j" "str_at J [Idx 0] j = Inr ''connectionMessage''"
    "str_at J [Idx 1, Key ''connectionId''] j = Inr (si_connection_id (rm_heap ?r ! a))" "str_at J [Idx 1, Key ''erizoId''] j = Inr (rm_erizo_id ?r)"
    "str_at J [Idx 1, Key ''msg'', Key ''type''] j = Inr ''answer''" "str_at J [Idx 1, Key ''msg'', Key ''sdp''] j = Inr answer"
    using send_answer_step [OF J stream asc S(1), of id] by blast
  let ?ap = "(sy_app S)\<lparr>ap_peers := ps, ap_room := ?r\<lparr>rm_sig := (rm_sig ?r)\<lparr>sg_calls := sg_calls (rm_sig ?r) @
      [Ws (Post_OnSend (EventHeader @ pkt))]\<rparr>\<rparr>\<rparr>"
  have r: "?r\<lparr>rm_posted := []\<rparr> = ?r" using S(2) by simp
  have "app_task J R id ?t ((sy_app S)\<lparr>ap_peers := ps, ap_room := ?r\<rparr>) = (Inr (), ?ap)"
    unfolding app_task_def using run by (simp add: sbind_def on_room_def del: run_task.simps)
  then have s2: "sys_step J R fifo ?S1 (S\<lparr>sy_app := ?ap, sy_ops := sy_ops S @ [Post_OnSend (EventHeader @ pkt)]\<rparr>)"
    using worker_step [of ?S1 ?t "[]" J R id ?ap "[Ws (Post_OnSend (EventHeader @ pkt))]" fifo] r by simp
  let ?S2 = "S\<lparr>sy_app := ?ap, sy_ops := sy_ops S @ [Post_OnSend (EventHeader @ pkt)]\<rparr>"
  have "(sys_step J R fifo)\<^sup>*\<^sup>* S ?S2"
    by (rule converse_rtranclp_into_rtranclp [where r = "sys_step J R fifo", OF s1 r_into_rtranclp]) (rule s2)
  moreover have "handed ?S2 = handed S @ [''42'' @ pkt]" by (simp add: handed_def EventHeader_def code_strings)
  ultimately show ?thesis using ps(2) j by (intro exI [of _ ?S2] exI [of _ pkt] exI [of _ j]) simp
qed

lemma answering:
  assumes J: "nlohmann J obj arr plain" and inv: "sys_inv J True w0 S" "ws_inv w0"
    and S: "online (sy_sig S)" "Async_read \<in> set (sy_ops S)" "\<not> sy_failed S" "sy_posted S = []"
    and stream: "map_of (rm_remote (ap_room (sy_app S))) k = Some (Some a)" "a < length (rm_heap (ap_room (sy_app S)))"
      "rm_heap (ap_room (sy_app S)) ! a = s" "si_id s = k"
    and others: "\<forall>(k', p) \<in> set (rm_remote (ap_room (sy_app S))).
      \<exists>i. deref (rm_heap (ap_room (sy_app S))) p = Inr i \<and> (si_connection_id i = si_connection_id s \<longrightarrow> p = Some a)"
    and peer: "map_of (ap_peers (sy_app S)) k = Some (Some conn)" "wc_pc conn"
    and sdp: "re_parse R Offer offer = Some d" "re_parse R Answer answer = Some d'"
    and asc: "ascii (rm_erizo_id (ap_room (sy_app S)))" "ascii (si_connection_id s)" "ascii answer"
    and msg: "no_digit txt" "str_ok (''43333'' @ txt)" "j_parse J txt = Inr ev" "offer_event J obj arr plain ev (si_connection_id s) offer"
  shows "\<exists>S' pkt j conn'. (sys_step J R True)\<^sup>*\<^sup>* S S' \<and> sy_written S' = handed S @ [''42'' @ pkt] \<and>
    map_of (ap_peers (sy_app S')) k = Some (Some conn') \<and>
    wc_calls conn' = wc_calls conn @ [Pc_SetRemoteDescription True d, Pc_CreateAnswer plan_b_options, Pc_SetLocalDescription False d'] \<and>
    arrives J (Inr pkt) j \<and> str_at J [Idx 0] j = Inr ''connectionMessage'' \<and>
    str_at J [Idx 1, Key ''connectionId''] j = Inr (si_connection_id s) \<and>
    str_at J [Idx 1, Key ''erizoId''] j = Inr (rm_erizo_id (ap_room (sy_app S))) \<and>
    str_at J [Idx 1, Key ''msg'', Key ''type''] j = Inr ''answer'' \<and>
    str_at J [Idx 1, Key ''msg'', Key ''sdp''] j = Inr answer"
proof -
  obtain ws where ws: "sg_websocket (sy_sig S) = Some ws" "ws_receive ws = Some OnMsgCb" "sg_event_cb (sy_sig S) = Some EventCb"
    using inv(1) by (auto simp: sys_inv_def accounts_def sg_callbacks_def)
  let ?conn = "conn\<lparr>wc_calls := wc_calls conn @ [Pc_SetRemoteDescription True d, Pc_CreateAnswer plan_b_options]\<rparr>"
  obtain b ps S1 where ps: "map_of ps k = Some (Some ?conn)" and run1: "(sys_step J R True)\<^sup>*\<^sup>* S S1"
    and S1: "S1 = (S\<lparr>sy_app := (sy_app S)\<lparr>ap_room := (ap_room (sy_app S))
      \<lparr>rm_sig := (sy_sig S)\<lparr>sg_calls := sg_calls (sy_sig S) @ [Call_event EventCb ''connection_message_erizo'' b]\<rparr>,
       rm_observed := rm_observed (ap_room (sy_app S)) @ [Obs_OnReceiveOffer (Some a) offer]\<rparr>, ap_peers := ps\<rparr>,
      sy_ops := remove1 Async_read (sy_ops S) @ [Async_read]\<rparr>)"
    using offer_delivered [OF J ws S(2,4) stream others peer sdp(1) msg, of True] by blast
  obtain S2 pkt j where S2: "(sys_step J R True)\<^sup>*\<^sup>* S1 S2" "handed S2 = handed S1 @ [''42'' @ pkt]" "sy_failed S2 = sy_failed S1"
    "map_of (ap_peers (sy_app S2)) k = Some (Some (?conn\<lparr>wc_calls := wc_calls ?conn @ [Pc_SetLocalDescription False d']\<rparr>))"
    and j: "arrives J (Inr pkt) j" "str_at J [Idx 0] j = Inr ''connectionMessage''"
    "str_at J [Idx 1, Key ''connectionId''] j = Inr (si_connection_id s)"
    "str_at J [Idx 1, Key ''erizoId''] j = Inr (rm_erizo_id (ap_room (sy_app S)))"
    "str_at J [Idx 1, Key ''msg'', Key ''type''] j = Inr ''answer''" "str_at J [Idx 1, Key ''msg'', Key ''sdp''] j = Inr answer"
    using answer_sent [OF J, of S1 k a ?conn R answer d' True] S(1,4) stream ps peer(2) sdp(2) asc by (auto simp: S1)
  have run: "(sys_step J R True)\<^sup>*\<^sup>* S S2" using run1 S2(1) by (rule rtranclp_trans)
  note inv2 = sys_runs.invar_reach [OF run inv(1)]
  have "\<not> sy_failed S2" using S2(3) S(3) by (simp add: S1)
  from sys_drain [OF inv2 inv(2) this, of R] obtain S3 where S3: "(sys_step J R True)\<^sup>*\<^sup>* S2 S3" "sys_inv J True w0 S3"
    "same_client S2 S3" "posted_sends (sy_ops S3) = []" "sys_queue S3 = []" by blast
  have "handed S3 = handed S @ [''42'' @ pkt]" using same_client_handed [OF S3(3)] S2(2) by (simp add: handed_def S1)
  then have "sy_written S3 = handed S @ [''42'' @ pkt]" using sys_written [OF S3(2) inv(2)] S3(4,5) by simp
  moreover have "ap_peers (sy_app S3) = ap_peers (sy_app S2)" using S3(3) by (auto simp: same_client_def set_session_def)
  ultimately show ?thesis using rtranclp_trans [OF run S3(1)] S2(4) j
    by (intro exI [of _ S3] exI [of _ pkt] exI [of _ j] exI [of _ "?conn\<lparr>wc_calls := wc_calls ?conn @ [Pc_SetLocalDescription False d']\<rparr>"]) simp
qed

section \<open>Properties\<close>

text \<open>A client that has connected.\<close>

definition example_token :: licode_token where
  "example_token = \<lparr>tk_tokenId = ''i'', tk_host = ''h:8080'', tk_secure = False, tk_signature = ''s''\<rparr>"

definition example_rtc :: "string rtc_env" where
  "example_rtc = \<lparr>re_factory = \<lambda>thread. thread, re_pc = \<lambda>config. True, re_parse = \<lambda>t sdp. Some sdp\<rparr>"

lemma Join_ok:
  assumes "tk_host token = h @ '':'' @ show_nat n" "CHR '':'' \<notin> set h" "CHR ''/'' \<notin> set h" "int n \<le> int32_max"
    and "str_ok (socketio_url (tk_host token))"
  shows "\<exists>ap. app_Join (TestBasicExampleRoom_new wr token) = (Inr (), ap)"
proof -
  let ?r = "(LicodeRoom_new token)\<lparr>rm_state := RConnecting\<rparr>"
  have "sg_state (rm_sig ?r) = SDisconnect"
    by (simp add: LicodeRoom_new_def LicodeSignaling_new_def sg_SetOnPublishCallback_def sg_SetOnSubscribeCallback_def
        sg_SetOnEventCallback_def sg_SetOnSignalingDisconnectCallback_def sg_SetOnInitTokenCallback_def)
  from Init_connects [OF this assms] obtain s where "LicodeSignaling_Init token (rm_sig ?r) = (Inr True, s)" by blast
  then show ?thesis
    by (simp add: app_Join_def TestBasicExampleRoom_new_def on_room_def rm_Join_def rm_CurrentState_def rm_Update_def
        on_signaling_def sbind_def) (simp add: LicodeRoom_new_def)
qed

text \<open>
  The server's side of \<^verbatim>\<open>main\<close>'s two requests. It answers the first with a list of rooms in which
  \<open>rid\<close> is the id of the rooms named \<^verbatim>\<open>basicExampleRoom\<close>, and the second, for that id, with the
  encoded text of a token.
\<close>

definition room_entry :: "'j json_api \<Rightarrow> ('j \<Rightarrow> (string \<rightharpoonup> 'j) option) \<Rightarrow> ('j \<Rightarrow> bool) \<Rightarrow> 'j \<Rightarrow> string \<times> string \<Rightarrow> bool" where
  "room_entry J obj plain room e \<longleftrightarrow> (\<exists>m. obj room = Some m \<and>
     m ''_id'' = Some (j_string J (fst e)) \<and> m ''name'' = Some (j_string J (snd e)) \<and>
     (\<forall>d. m ''data'' = Some d \<longrightarrow> obj d \<noteq> None \<and> plain d) \<and>
     (\<forall>c. m ''mediaConfiguration'' = Some c \<longrightarrow> (\<exists>t. c = j_string J t)))"

definition lists_room :: "'j json_api \<Rightarrow> ('j \<Rightarrow> (string \<rightharpoonup> 'j) option) \<Rightarrow> ('j \<Rightarrow> 'j list option) \<Rightarrow> ('j \<Rightarrow> bool) \<Rightarrow>
    ('f, 'v) nuve_env \<Rightarrow> string \<Rightarrow> bool" where
  "lists_room J obj arr plain E rid \<longleftrightarrow> (\<exists>q j rooms ids. nuve_request E ''GET'' [] ''/rooms'' [] [] main_nuve = Inr q \<and>
     hr_status (ne_respond E q) = 200 \<and> hr_body (ne_respond E q) \<noteq> [] \<and> j_parse J (hr_body (ne_respond E q)) = Inr j \<and>
     arr j = Some rooms \<and> list_all2 (room_entry J obj plain) rooms ids \<and>
     (rid, ''basicExampleRoom'') \<in> set ids \<and> (\<forall>i. (i, ''basicExampleRoom'') \<in> set ids \<longrightarrow> i = rid))"

definition grants_token :: "'j json_api \<Rightarrow> ('j \<Rightarrow> (string \<rightharpoonup> 'j) option) \<Rightarrow> ('f, 'v) nuve_env \<Rightarrow> string \<Rightarrow> licode_token \<Rightarrow> bool" where
  "grants_token J obj E rid token \<longleftrightarrow> (\<exists>q dec j m.
     nuve_request E ''POST'' [] (''/rooms/'' @ rid @ ''/tokens'') ''shajia'' ''presenter'' main_nuve = Inr q \<and>
     hr_status (ne_respond E q) = 200 \<and> hr_body (ne_respond E q) \<noteq> [] \<and>
     ne_unb64 E (hr_body (ne_respond E q)) = Inr dec \<and> j_parse J dec = Inr j \<and> obj j = Some m \<and>
     m ''signature'' = Some (j_string J (tk_signature token)) \<and> m ''host'' = Some (j_string J (tk_host token)) \<and>
     m ''tokenId'' = Some (j_string J (tk_tokenId token)) \<and> m ''secure'' = Some (j_bool J (tk_secure token)))"

lemma listed_rooms:
  assumes "nlohmann J obj arr plain" "list_all2 (room_entry J obj plain) rooms ids"
  shows "\<exists>infos. rmap (listed_room J) rooms = Inr infos \<and> map (\<lambda>r. (ri_id r, ri_name r)) infos = ids"
  using assms(2)
proof (induction rule: list_all2_induct)
  case (Cons room rooms e ids)
  then obtain data mc where "listed_room J room = Inr (LicodeRoomInfo_new (fst e) (snd e) data mc False)"
    unfolding room_entry_def using nlohmann.listed_room_entry [OF assms(1)] by blast
  with Cons.IH show ?case by (auto simp: LicodeRoomInfo_new_def)
qed simp

lemma found_room:
  assumes "(rid, ''basicExampleRoom'') \<in> (\<lambda>r. (ri_id r, ri_name r)) ` set infos"
    and "\<forall>i. (i, ''basicExampleRoom'') \<in> (\<lambda>r. (ri_id r, ri_name r)) ` set infos \<longrightarrow> i = rid"
  shows "example_room_id infos = rid"
proof -
  let ?f = "\<lambda>i r. if ri_name r = ''basicExampleRoom'' then ri_id r else i"
  have "foldl ?f i infos = (if \<exists>r \<in> set infos. ri_name r = ''basicExampleRoom'' then rid else i)" for i
    using assms(2) by (induction infos arbitrary: i) (auto simp: image_iff)
  with assms(1) show ?thesis by (force simp: example_room_id_def)
qed

lemma rooms_fetched:
  assumes "nlohmann J obj arr plain" "lists_room J obj arr plain E rid"
  shows "\<exists>infos. SyncListRoom J E main_nuve = Inr (Some infos) \<and> example_room_id infos = rid"
proof -
  from assms(2) obtain q j rooms ids where q: "nuve_request E ''GET'' [] ''/rooms'' [] [] main_nuve = Inr q"
    "hr_status (ne_respond E q) = 200" "hr_body (ne_respond E q) \<noteq> []" "j_parse J (hr_body (ne_respond E q)) = Inr j"
    "arr j = Some rooms" "list_all2 (room_entry J obj plain) rooms ids"
    "(rid, ''basicExampleRoom'') \<in> set ids" "\<forall>i. (i, ''basicExampleRoom'') \<in> set ids \<longrightarrow> i = rid"
    unfolding lists_room_def by blast
  obtain infos where infos: "rmap (listed_room J) rooms = Inr infos" "map (\<lambda>r. (ri_id r, ri_name r)) infos = ids"
    using listed_rooms [OF assms(1) q(6)] by blast
  have "SyncListRoom J E main_nuve = Inr (Some infos)"
    using q(2,3,4) infos(1)
    by (simp add: SyncListRoom_def nuve_SyncRequest_def q(1) response_result_def nlohmann.elems_arr [OF assms(1) q(5)] or_nullopt_def)
  moreover have "example_room_id infos = rid"
    by (rule found_room) (use q(7,8) in \<open>unfold infos(2) [symmetric] set_map\<close>)
  ultimately show ?thesis by blast
qed

lemma token_fetched:
  assumes "nlohmann J obj arr plain" "grants_token J obj E rid token"
  shows "SyncCreateToken J E rid ''shajia'' ''presenter'' main_nuve = Inr (Some token)"
proof -
  from assms(2) obtain q dec j m where
    q: "nuve_request E ''POST'' [] (''/rooms/'' @ rid @ ''/tokens'') ''shajia'' ''presenter'' main_nuve = Inr q"
      "hr_status (ne_respond E q) = 200" "hr_body (ne_respond E q) \<noteq> []"
    and t: "ne_unb64 E (hr_body (ne_respond E q)) = Inr dec" "j_parse J dec = Inr j" "obj j = Some m"
      "m ''signature'' = Some (j_string J (tk_signature token))" "m ''host'' = Some (j_string J (tk_host token))"
      "m ''tokenId'' = Some (j_string J (tk_tokenId token))" "m ''secure'' = Some (j_bool J (tk_secure token))"
    unfolding grants_token_def by blast
  show ?thesis
  proof (rule nlohmann.token_decoded [OF assms(1) t])
    show "nuve_SyncRequest E ''POST'' [] (''/rooms/'' @ rid @ ''/tokens'') ''shajia'' ''presenter'' main_nuve =
        Inr (hr_body (ne_respond E q))"
      unfolding nuve_SyncRequest_def q(1) by (simp add: q(2) response_result_def)
  qed (rule q(3))
qed

lemma main_pool:
  "\<exists>sch pool i. (ThreadPool_new 1 :: (('f scheduler \<times> 'f sched_pc list) \<times> thread_pool) res) = Inr (sch, pool) \<and>
    ThreadPool_GetLessUsedWorker (ThreadPool_Start tid pool) = Inr i"
  by (simp add: ThreadPool_new_def ThreadPool_workers_def ThreadPool_Start_def ThreadPool_GetLessUsedWorker_def split_beta)

lemma main_waits:
  assumes "SyncListRoom J E main_nuve = Inr (Some infos)" "example_room_id infos = rid" "rid \<noteq> []"
    and "SyncCreateToken J E' rid ''shajia'' ''presenter'' main_nuve = Inr (Some token)"
    and "app_Join (TestBasicExampleRoom_new (fst (WebrtcWrapper_Init WebrtcWrapper_Instance)) token) = (Inr (), ap)"
  shows "main_prog J E E' tid = Inr (Waits ap)"
proof -
  obtain sch pool i where pool: "(ThreadPool_new 1 :: ((unit scheduler \<times> unit sched_pc list) \<times> thread_pool) res) = Inr (sch, pool)"
    "ThreadPool_GetLessUsedWorker (ThreadPool_Start tid pool) = Inr i" using main_pool by blast
  show ?thesis
    unfolding main_prog_def Let_def pool(1) rbind_simps prod.case assms(1) option.case assms(2) if_not_P [OF assms(3)]
      assms(4) pool(2) assms(5) sum.case ..
qed

lemma example_Join: "\<exists>ap :: (json, string) app. app_Join (TestBasicExampleRoom_new wr example_token) = (Inr (), ap)"
  by (rule Join_ok [of _ "''h''" 8080])
    (simp_all add: example_token_def int32_max_def socketio_url_def npos_def size_max_def show_nat.simps)

lemma example_connected:
  "\<exists>ap S. app_Join (TestBasicExampleRoom_new wr example_token) = (Inr (), ap :: (json, string) app) \<and>
    (sys_step json_ref example_rtc True)\<^sup>*\<^sup>* (sys_start ap) S \<and> \<not> sy_failed S \<and> sy_written S \<noteq> []"
proof -
  obtain ap :: "(json, string) app" where ap: "app_Join (TestBasicExampleRoom_new wr example_token) = (Inr (), ap)"
    using example_Join by blast
  from connecting [OF ref.nlohmann_axioms this, of example_rtc] show ?thesis using ap
    by (fastforce simp: example_token_def ascii_def)
qed

text \<open>
  The client uses its session through the session's own functions only. Whatever the server, the worker and WebRTC do, and
  however their steps interleave, the running client is a run of the event loop of one session, started with the
  session that the token's host gives: same session, same pending operations, same messages accepted and written.
  So what was shown of the event loop alone holds inside the client.
\<close>

theorem client_refines_session:
  assumes "app_Join (TestBasicExampleRoom_new wr token) = (Inr (), ap)" and "(sys_step J R fifo)\<^sup>*\<^sup>* (sys_start ap) S"
  shows "\<exists>ws w. ws_new (socketio_url (tk_host token)) = Inr ws \<and> ws_step\<^sup>*\<^sup>* (ws_start ws) w \<and>
    sg_websocket (sy_sig S) = Some (w_ses w) \<and> mset (w_ops w) = mset (sy_ops S) \<and> w_sent w = sy_sent S \<and>
    w_written w = sy_written S \<and> w_failed w = sy_failed S"
  by (rule client_run [OF assms]) (auto simp: matches_def)

theorem client_refines_session_witness:
  "\<exists>(ap :: (json, string) app) S (ws :: sig_cb ws_session) w. (sys_step json_ref example_rtc True)\<^sup>*\<^sup>* (sys_start ap) S \<and>
    ws_step\<^sup>*\<^sup>* (ws_start ws) w \<and> w_written w = sy_written S \<and> sy_written S \<noteq> []"
proof -
  obtain ap S where r: "app_Join (TestBasicExampleRoom_new WebrtcWrapper_Instance example_token) = (Inr (), ap :: (json, string) app)"
    "(sys_step json_ref example_rtc True)\<^sup>*\<^sup>* (sys_start ap) S" "sy_written S \<noteq> []" using example_connected by blast
  from client_refines_session [OF r(1,2)] r(2,3) show ?thesis by blast
qed

text \<open>
  C11: The texts that the client writes have the type of its protocol: each is the ping, or a
  code that the server knows followed by the text of a packet that the builder of that code made, an array.
\<close>

theorem client_frames_typed:
  assumes "nlohmann J obj arr plain"
    and "app_Join (TestBasicExampleRoom_new wr token) = (Inr (), ap)" and "(sys_step J R fifo)\<^sup>*\<^sup>* (sys_start ap) S"
    and "m \<in> set (sy_written S)"
  shows "client_frame J m \<and> well_framed m"
proof -
  obtain w where w: "matches [] S w" "ws_inv w" "accounts J fifo S" by (rule client_run [OF assms(2,3)])
  have "m \<in># mset (sy_sent S)" using assms(4) w(1,2) by (simp add: ws_inv_def matches_sel)
  then have "m \<in># mset (handed S)" using w(3) by (simp add: accounts_def)
  then have "client_frame J m" using w(3) by (simp add: accounts_def)
  then show ?thesis using nlohmann.client_frame_well_framed [OF assms(1)] by blast
qed

theorem client_frames_typed_witness:
  "\<exists>(S :: (json, string) sys) m. m \<in> set (sy_written S) \<and> client_frame json_ref m \<and> well_framed m"
proof -
  obtain ap S where r: "app_Join (TestBasicExampleRoom_new WebrtcWrapper_Instance example_token) = (Inr (), ap :: (json, string) app)"
    "(sys_step json_ref example_rtc True)\<^sup>*\<^sup>* (sys_start ap) S" "sy_written S \<noteq> []" using example_connected by blast
  then have "hd (sy_written S) \<in> set (sy_written S)" by simp
  with client_frames_typed [OF ref.nlohmann_axioms r(1,2) this] show ?thesis by blast
qed

text \<open>
  C4: No frame is lost, doubled or invented between the code that sends and the wire: what was written, what waits in the
  queue and what is posted to the event loop are together what the client has handed to the session.
  With an event loop that runs posted functions in order, frames are written in the order of the calls.
\<close>

theorem client_frames_in_order:
  assumes "app_Join (TestBasicExampleRoom_new wr token) = (Inr (), ap)" and "(sys_step J R fifo)\<^sup>*\<^sup>* (sys_start ap) S"
  shows "mset (handed S) = mset (sy_written S) + mset (sys_queue S) + mset (posted_sends (sy_ops S)) \<and>
    (fifo \<longrightarrow> handed S = sy_written S @ sys_queue S @ posted_sends (sy_ops S))"
proof -
  obtain w where w: "matches [] S w" "ws_inv w" "accounts J fifo S" by (rule client_run [OF assms])
  then have "sy_sent S = sy_written S @ sys_queue S" by (simp add: ws_inv_def matches_sel sys_queue_def)
  then show ?thesis using w(3) by (simp add: accounts_def)
qed

theorem client_frames_in_order_witness:
  "\<exists>(S :: (json, string) sys). sy_written S \<noteq> [] \<and> handed S = sy_written S @ sys_queue S @ posted_sends (sy_ops S)"
proof -
  obtain ap S where r: "app_Join (TestBasicExampleRoom_new WebrtcWrapper_Instance example_token) = (Inr (), ap :: (json, string) app)"
    "(sys_step json_ref example_rtc True)\<^sup>*\<^sup>* (sys_start ap) S" "sy_written S \<noteq> []" using example_connected by blast
  with client_frames_in_order [OF r(1,2)] show ?thesis by blast
qed

text \<open>
  C12: From every state of a running client in which no write has failed, the event loop alone can go on until all
  frames the client has handed over are written, in order, without any further call of the client.
\<close>

theorem client_frames_written:
  assumes "app_Join (TestBasicExampleRoom_new wr token) = (Inr (), ap)" and "(sys_step J R True)\<^sup>*\<^sup>* (sys_start ap) S"
    and "\<not> sy_failed S"
  shows "\<exists>S'. (sys_step J R True)\<^sup>*\<^sup>* S S' \<and> sy_written S' = handed S \<and> handed S' = handed S \<and> sy_posted S' = sy_posted S"
proof -
  obtain ws where ws: "ws_queue ws = []" "sys_inv J True (ws_start ws) (sys_start ap)" by (rule start_inv [OF assms(1)])
  note inv = sys_runs.invar_reach [OF assms(2) ws(2)] and q = ws_start_inv [OF ws(1)]
  obtain wss where s: "sg_websocket (sy_sig S) = Some wss" using inv by (auto simp: sys_inv_def accounts_def)
  from sys_drain [OF inv q assms(3), of R] obtain S' where S': "(sys_step J R True)\<^sup>*\<^sup>* S S'" "sys_inv J True (ws_start ws) S'"
    "same_client S S'" "posted_sends (sy_ops S') = []" "sys_queue S' = []" by blast
  with sys_written [OF S'(2) q] same_client_handed [OF S'(3)] same_client_sel(2) [OF S'(3) s] show ?thesis by auto
qed

theorem client_frames_written_witness:
  "\<exists>(S :: (json, string) sys) S'. (sys_step json_ref example_rtc True)\<^sup>*\<^sup>* S S' \<and> sy_written S' = handed S"
proof -
  obtain ap S where r: "app_Join (TestBasicExampleRoom_new WebrtcWrapper_Instance example_token) = (Inr (), ap :: (json, string) app)"
    "(sys_step json_ref example_rtc True)\<^sup>*\<^sup>* (sys_start ap) S" "\<not> sy_failed S" using example_connected by blast
  from client_frames_written [OF r] show ?thesis by blast
qed

end
