(* ===== verification/Nuve_Session.thy ===== *)
theory Nuve_Session
  imports Nuve_Api Worker
begin

text \<open>
  The life of a \<^verbatim>\<open>SimpleHttpSession\<close> (\<^verbatim>\<open>core/licode_nuve_api.cc\<close>): who owns it, and on which thread it is destroyed. The
  caller has a \<^verbatim>\<open>shared_ptr\<close> until its function returns; a pending operation has one when its handler was bound to
  \<^verbatim>\<open>shared_from_this()\<close>, and keeps it until the handler has returned. Whoever drops the last one runs the destructor.
\<close>

section \<open>Owners and destructor\<close>

datatype hs_thread = Caller_thread | Session_thread

text \<open>
  \<open>on\<close> is the thread that runs the destructor, \<open>joinable\<close> that \<^verbatim>\<open>thread_\<close> is set and joinable.
  \<^verbatim>\<open>std::thread::join\<close> throws when a thread joins itself.
\<close>

definition SimpleHttpSession_destroy :: "bool \<Rightarrow> hs_thread \<Rightarrow> ioc_call list \<times> unit res" where
  "SimpleHttpSession_destroy joinable on =
     (if joinable
      then ([Ioc_stop, Join], if on = Session_thread then Inl (Exn SystemError) else Inr ())
      else ([Ioc_stop], Inr ()))"

record hs_life =
  hl_session :: http_session
  hl_caller :: bool             \<comment> \<open>the caller still has its pointer\<close>
  hl_handler :: "hs_self option"  \<comment> \<open>a handler is running, and what it is bound to\<close>
  hl_destroyed :: "(hs_thread \<times> ioc_call list \<times> unit res) option"

definition hl_use_count :: "hs_life \<Rightarrow> nat" where
  "hl_use_count w = of_bool (hl_caller w) +
     of_bool (hs_op (hl_session w) \<noteq> None \<and> hs_bound (hl_session w) = Shared_from_this) +
     of_bool (hl_handler w = Some Shared_from_this)"

text \<open>
  An owner has dropped its pointer: when it was the last, the session is destroyed. The constructor has started the
  thread, so it is joinable.
\<close>

definition hl_drop :: "hs_thread \<Rightarrow> hs_life \<Rightarrow> hs_life" where
  "hl_drop t w =
     (if hl_use_count w = 0 \<and> hl_destroyed w = None
      then w\<lparr>hl_destroyed := Some (t, SimpleHttpSession_destroy True t)\<rparr> else w)"

definition hl_start :: "http_response \<Rightarrow> ('f, 'v) http_request \<Rightarrow> hs_life" where
  "hl_start fresh q = \<lparr>hl_session = hs_SyncRequest fresh q, hl_caller = True, hl_handler = None, hl_destroyed = None\<rparr>"

text \<open>An operation has completed: its handler starts, with what it was bound to.\<close>

definition hs_completes :: "http_session \<Rightarrow> http_session \<Rightarrow> bool" where
  "hs_completes s s' \<longleftrightarrow> hs_op s \<noteq> None \<and> hs_op s' = None"

definition hl_follow_up :: "http_session \<Rightarrow> hs_life \<Rightarrow> hs_life" where
  "hl_follow_up s' w = w\<lparr>hl_session := s',
     hl_handler := (if hs_completes (hl_session w) s' then Some (hs_bound (hl_session w)) else hl_handler w)\<rparr>"

inductive hl_step :: "int \<Rightarrow> hs_life \<Rightarrow> hs_life \<Rightarrow> bool" for n where
  runs: "hl_destroyed w = None \<Longrightarrow> hs_step n (hl_session w) s' \<Longrightarrow> (hs_completes (hl_session w) s' \<longrightarrow> hl_handler w = None) \<Longrightarrow>
    hl_step n w (hl_follow_up s' w)"
| handler_returns: "hl_handler w \<noteq> None \<Longrightarrow> hs_todo (hl_session w) = [] \<Longrightarrow>
    hl_step n w (hl_drop Session_thread (w\<lparr>hl_handler := None\<rparr>))"
| caller_returns: "hl_caller w \<Longrightarrow> hs_returned (hl_session w) \<noteq> None \<Longrightarrow>
    hl_step n w (hl_drop Caller_thread (w\<lparr>hl_caller := False\<rparr>))"

section \<open>Invariant\<close>

text \<open>Every handler is bound to a pointer that owns the session.\<close>

definition hs_owned :: "http_session \<Rightarrow> bool" where
  "hs_owned s \<longleftrightarrow> (hs_op s \<noteq> None \<longrightarrow> hs_bound s = Shared_from_this) \<and> (\<forall>p b. Start p b \<in> set (hs_todo s) \<longrightarrow> b = Shared_from_this)"

lemma handler_binds: "Start p b \<in> set (hs_handler n q ec) \<Longrightarrow> b = Shared_from_this"
  by (cases q) (auto simp: hs_OnResolve_def hs_OnConnect_def hs_OnWrite_def hs_OnRead_def split: if_splits)

lemma hs_step_owned: "hs_step n s s' \<Longrightarrow> hs_owned s \<Longrightarrow> hs_owned s'"
proof (induction rule: hs_step.induct)
  case (act s a as)
  then show ?case by (cases a) (auto simp: hs_owned_def)
qed (auto simp: hs_owned_def hs_OnRead_def dest: handler_binds)

definition hl_inv :: "http_response \<Rightarrow> hs_life \<Rightarrow> bool" where
  "hl_inv fresh w \<longleftrightarrow> hs_inv fresh (hl_session w) \<and> quiet fresh \<and> hs_owned (hl_session w) \<and> hl_handler w \<noteq> Some This \<and>
     (hl_destroyed w = None \<longleftrightarrow> hl_use_count w > 0) \<and> (hs_todo (hl_session w) \<noteq> [] \<longrightarrow> hl_handler w \<noteq> None) \<and>
     (\<not> hl_caller w \<longrightarrow> hs_returned (hl_session w) \<noteq> None)"

lemma handler_owner: "h \<noteq> Some This \<Longrightarrow> h = Some Shared_from_this \<longleftrightarrow> h \<noteq> None"
  by (metis hs_self.exhaust option.exhaust option.sel option.discI)

lemma hl_owners:
  assumes "hl_inv fresh w"
  shows "hl_use_count w > 0 \<longleftrightarrow> hl_caller w \<or> hs_op (hl_session w) \<noteq> None \<or> hl_handler w \<noteq> None"
  using assms handler_owner [of "hl_handler w"] by (auto simp: hl_inv_def hl_use_count_def hs_owned_def)

lemma hs_step_handler:
  assumes "hs_step n s s'" and "hs_inv fresh s"
  shows "hs_todo s' \<noteq> [] \<Longrightarrow> hs_todo s \<noteq> [] \<or> hs_completes s s'"
    and "hs_returned s \<noteq> None \<Longrightarrow> hs_returned s' \<noteq> None"
    and "hs_todo s \<noteq> [] \<Longrightarrow> \<not> hs_completes s s'"
proof -
  show "hs_todo s' \<noteq> [] \<Longrightarrow> hs_todo s \<noteq> [] \<or> hs_completes s s'" using assms(1) by cases (auto simp: hs_completes_def)
  show "hs_returned s \<noteq> None \<Longrightarrow> hs_returned s' \<noteq> None" using assms(1)
  proof cases
    case (act a as)
    then show "hs_returned s \<noteq> None \<Longrightarrow> hs_returned s' \<noteq> None" by (cases a) auto
  qed auto
  show "hs_todo s \<noteq> [] \<Longrightarrow> \<not> hs_completes s s'" using assms(1)
  proof cases
    case (act a as)
    then show "\<not> hs_completes s s'" by (cases a) (auto simp: hs_completes_def)
  qed (auto simp: hs_completes_def)
qed

lemma hl_start_inv: "quiet fresh \<Longrightarrow> hl_inv fresh (hl_start fresh q)"
  by (simp add: hl_inv_def hl_start_def hs_start_inv hl_use_count_def) (simp add: hs_SyncRequest_def hs_owned_def)

lemma hl_drop_inv:
  assumes "hs_inv fresh (hl_session w)" "quiet fresh" "hs_owned (hl_session w)" "hl_handler w \<noteq> Some This"
    and "hs_todo (hl_session w) \<noteq> [] \<longrightarrow> hl_handler w \<noteq> None"
    and "\<not> hl_caller w \<longrightarrow> hs_returned (hl_session w) \<noteq> None" "hl_destroyed w = None"
  shows "hl_inv fresh (hl_drop t w)"
  using assms by (auto simp: hl_inv_def hl_drop_def hl_use_count_def)

lemma hl_run_inv:
  assumes "hl_inv fresh w" "hl_destroyed w = None" "hs_step n (hl_session w) s'"
    and "hs_completes (hl_session w) s' \<longrightarrow> hl_handler w = None"
  shows "hl_inv fresh (hl_follow_up s' w)"
proof -
  have s: "hs_inv fresh (hl_session w)" "hs_owned (hl_session w)" "hl_handler w \<noteq> Some This" using assms(1) by (simp_all add: hl_inv_def)
  have o: "hs_inv fresh s'" "hs_owned s'"
    using hs_runs.invar_step [OF assms(3), of fresh] hs_step_owned [OF assms(3)] assms(1) by (auto simp: hl_inv_def)
  note h = hs_step_handler [OF assms(3) s(1)]
  have b: "hs_completes (hl_session w) s' \<Longrightarrow> hs_bound (hl_session w) = Shared_from_this"
    using s(2) by (auto simp: hs_completes_def hs_owned_def)
  have "hl_use_count (hl_follow_up s' w) > 0"
  proof (cases "hs_completes (hl_session w) s'")
    case True
    then show ?thesis using b by (simp add: hl_follow_up_def hl_use_count_def)
  next
    case False
    have "hl_use_count w > 0" using assms(1,2) by (simp add: hl_inv_def)
    then have "hl_caller w \<or> hs_op (hl_session w) \<noteq> None \<or> hl_handler w \<noteq> None" using hl_owners [OF assms(1)] by blast
    then show ?thesis using False o(2) s(3) handler_owner [of "hl_handler w"]
      by (auto simp: hl_follow_up_def hl_use_count_def hs_completes_def hs_owned_def)
  qed
  with assms(1,2,4) o h b show ?thesis by (auto simp: hl_inv_def hl_follow_up_def)
qed

lemma hl_step_inv: "hl_step n w w' \<Longrightarrow> hl_inv fresh w \<Longrightarrow> hl_inv fresh w'"
proof (induction rule: hl_step.induct)
  case (runs w s')
  then show ?case using hl_run_inv by blast
next
  case (handler_returns w)
  moreover have "hl_destroyed w = None" using hl_owners [OF handler_returns(3)] handler_returns(1,3) by (auto simp: hl_inv_def)
  ultimately show ?case by (intro hl_drop_inv) (auto simp: hl_inv_def)
next
  case (caller_returns w)
  moreover have "hl_destroyed w = None" using hl_owners [OF caller_returns(3)] caller_returns(1,3) by (auto simp: hl_inv_def)
  ultimately show ?case by (intro hl_drop_inv) (auto simp: hl_inv_def)
qed

interpretation hl_runs: transition_system "hl_step n" "hl_inv fresh" for n fresh
  by unfold_locales (rule hl_step_inv)

section \<open>The end of a session\<close>

text \<open>A bound on the steps that are left: every step lowers it.\<close>

fun op_weight :: "hs_op \<Rightarrow> nat" where
  "op_weight Read = 4"
| "op_weight Write = 6"
| "op_weight Connect = 8"
| "op_weight (Resolve host port) = 11"

fun act_weight :: "hs_action \<Rightarrow> nat" where
  "act_weight (Start p b) = Suc (op_weight p)"
| "act_weight a = 1"

definition hs_rank :: "http_session \<Rightarrow> nat" where
  "hs_rank s = (case hs_op s of None \<Rightarrow> 0 | Some p \<Rightarrow> op_weight p) + sum_list (map act_weight (hs_todo s)) +
     of_bool (hs_returned s = None)"

definition hl_rank :: "hs_life \<Rightarrow> nat" where
  "hl_rank w = 2 * hs_rank (hl_session w) + of_bool (hl_handler w \<noteq> None) + of_bool (hl_caller w)"

lemma handler_weight: "sum_list (map act_weight (hs_handler n p ec)) < op_weight p"
  by (cases p) (simp_all add: hs_OnResolve_def hs_OnConnect_def hs_OnWrite_def hs_OnRead_def)

lemma hs_step_rank: "hs_step n s s' \<Longrightarrow> hs_rank s' < hs_rank s"
proof (induction rule: hs_step.induct)
  case (act s a as)
  then show ?case by (cases a) (simp_all add: hs_rank_def split: option.split)
next
  case (complete s p ec)
  then show ?case using handler_weight [of n p ec] by (simp add: hs_rank_def)
qed (simp_all add: hs_rank_def hs_OnRead_def)

lemma hl_step_rank: "hl_step n w w' \<Longrightarrow> hl_rank w' < hl_rank w"
proof (induction rule: hl_step.induct)
  case (runs w s')
  then show ?case using hs_step_rank [OF runs(2)] by (auto simp: hl_rank_def hl_follow_up_def)
qed (auto simp: hl_rank_def hl_drop_def)

lemma hl_steps_rank: "(hl_step n ^^ k) w w' \<Longrightarrow> k + hl_rank w' \<le> hl_rank w"
proof (induction k arbitrary: w')
  case (Suc k)
  then obtain v where "(hl_step n ^^ k) w v" "hl_step n v w'" by auto
  then show ?case using Suc.IH [of v] hl_step_rank [of n v w'] by simp
qed simp

text \<open>Until it is destroyed something can go on.\<close>

lemma hl_goes_on:
  assumes "hl_inv fresh w" "hl_destroyed w = None"
  shows "\<exists>w'. hl_step n w w'"
proof (cases "hs_todo (hl_session w)")
  case (Cons a as)
  let ?s = "hs_act a ((hl_session w)\<lparr>hs_todo := as\<rparr>)"
  have st: "hs_step n (hl_session w) ?s" by (rule hs_step.act [OF Cons])
  then have "\<not> hs_completes (hl_session w) ?s" using hs_step_handler(3) [OF st] assms(1) Cons by (auto simp: hl_inv_def)
  then show ?thesis using hl_step.runs [OF assms(2) st] by blast
next
  case Nil
  show ?thesis
  proof (cases "hl_handler w")
    case None
    show ?thesis
    proof (cases "hs_op (hl_session w)")
      case (Some p)
      have "\<exists>s'. hs_step n (hl_session w) s'"
        using hs_step.complete [OF Nil Some, of n True] hs_step.read_failed [OF Nil, of n] Some by (cases "p = Read") auto
      then show ?thesis using hl_step.runs [OF assms(2)] None by blast
    next
      case no_op: None
      have c: "hl_caller w" using assms hl_owners [OF assms(1)] None no_op by (auto simp: hl_inv_def)
      show ?thesis
      proof (cases "hs_returned (hl_session w)")
        case None
        have "hs_values (hl_session w) \<noteq> []"
          using assms(1) Nil no_op by (auto simp: hl_inv_def hs_inv_def hs_waiting_def hs_succeeded_def hs_failing_def)
        from hl_step.runs [OF assms(2) hs_step.returns [OF this None, of n]] no_op show ?thesis by (auto simp: hs_completes_def)
      qed (use hl_step.caller_returns [OF c, of n] in blast)
    qed
  qed (use hl_step.handler_returns [OF _ Nil, of n] in blast)
qed

text \<open>A step of the session, when the handler before it has returned.\<close>

lemma hl_follow:
  assumes "hl_inv fresh w" "hl_destroyed w = None" "hs_step n (hl_session w) s'"
  shows "\<exists>w'. (hl_step n)\<^sup>*\<^sup>* w w' \<and> hl_session w' = s' \<and> hl_destroyed w' = None \<and> hl_inv fresh w' \<and>
      hl_caller w' = hl_caller w \<and> (hl_handler w \<noteq> None \<longrightarrow> hl_handler w' \<noteq> None)"
proof -
  let ?v = "if hs_completes (hl_session w) s' then w\<lparr>hl_handler := None\<rparr> else w"
  let ?w = "hl_follow_up s' ?v"
  have t: "hs_completes (hl_session w) s' \<Longrightarrow> hs_todo (hl_session w) = []"
    using hs_step_handler(3) [OF assms(3)] assms(1) by (auto simp: hl_inv_def)
  have v: "(hl_step n)\<^sup>*\<^sup>* w ?v"
  proof (cases "hs_completes (hl_session w) s' \<and> hl_handler w \<noteq> None")
    case True
    then have "hl_drop Session_thread (w\<lparr>hl_handler := None\<rparr>) = ?v"
      using assms(1) by (auto simp: hl_drop_def hl_use_count_def hs_completes_def hl_inv_def hs_owned_def)
    with True t hl_step.handler_returns [of w n] show ?thesis by auto
  qed (cases w; auto)
  have s: "hl_step n ?v ?w" using assms(2,3) by (intro hl_step.runs) auto
  have "(hl_step n)\<^sup>*\<^sup>* w ?w" using v s by (rule rtranclp.rtrancl_into_rtrancl)
  then show ?thesis using assms(2) hl_runs.invar_reach [OF _ assms(1)]
    by (intro exI [of _ ?w]) (auto simp: hl_follow_up_def)
qed

lemma hl_follows:
  assumes "(hs_step n)\<^sup>*\<^sup>* s s'"
  shows "hl_inv fresh w \<Longrightarrow> hl_destroyed w = None \<Longrightarrow> hl_session w = s \<Longrightarrow>
    \<exists>w'. (hl_step n)\<^sup>*\<^sup>* w w' \<and> hl_session w' = s' \<and> hl_destroyed w' = None \<and> hl_inv fresh w' \<and>
      hl_caller w' = hl_caller w \<and> (hl_handler w \<noteq> None \<longrightarrow> hl_handler w' \<noteq> None)"
  using assms
proof (induction rule: rtranclp_induct)
  case (step y z)
  then obtain v where v: "(hl_step n)\<^sup>*\<^sup>* w v" "hl_session v = y" "hl_destroyed v = None" "hl_inv fresh v" "hl_caller v = hl_caller w"
    "hl_handler w \<noteq> None \<longrightarrow> hl_handler v \<noteq> None" by blast
  with hl_follow [OF v(4,3), of n z] step(2) show ?case by (metis rtranclp_trans)
qed blast

text \<open>After the last handler of a successful request has set the promise and the caller has its result.\<close>

lemma hl_both_left:
  assumes "hr_body fresh = []"
  shows "\<exists>w. (hl_step n)\<^sup>*\<^sup>* (hl_start fresh q) w \<and> hl_caller w \<and> hl_handler w = Some Shared_from_this \<and> hl_destroyed w = None \<and>
    hs_op (hl_session w) = None \<and> hs_todo (hl_session w) = [] \<and> hs_values (hl_session w) = [True] \<and>
    hs_returned (hl_session w) = Some resp"
proof -
  have i: "hl_inv fresh (hl_start fresh q)" using assms by (intro hl_start_inv) (simp add: quiet_def response_result_def)
  obtain s where s: "(hs_step n)\<^sup>*\<^sup>* (hs_SyncRequest fresh q) s" "hs_todo s = []" "hs_op s = Some Read" "hs_values s = []"
    "hs_returned s = None" using hs_reach_read by blast
  let ?s1 = "s\<lparr>hs_op := None, hs_todo := hs_handler n Read False, hs_response := resp, hs_received := Some resp\<rparr>"
  let ?s2 = "?s1\<lparr>hs_todo := [Set_value True]\<rparr>" and ?s3 = "?s1\<lparr>hs_todo := [], hs_values := [True]\<rparr>"
  have "hs_step n s ?s1" by (rule hs_step.read_ok [OF s(2,3)])
  with s(1) have "(hs_step n)\<^sup>*\<^sup>* (hs_SyncRequest fresh q) ?s1" by (rule rtranclp.rtrancl_into_rtrancl)
  from hl_follows [OF this i] obtain w1 where w1: "(hl_step n)\<^sup>*\<^sup>* (hl_start fresh q) w1" "hl_session w1 = ?s1"
    "hl_destroyed w1 = None" "hl_inv fresh w1" "hl_caller w1" by (auto simp: hl_start_def)
  then have h: "hl_handler w1 \<noteq> None" by (simp add: hl_inv_def hs_OnRead_def)
  have "hs_step n ?s1 ?s2" using hs_step.act [of ?s1 Shutdown "[Set_value True]" n] by (simp add: hs_OnRead_def)
  moreover have "hs_step n ?s2 ?s3" using hs_step.act [of ?s2 "Set_value True" "[]" n] by (simp add: s(4))
  moreover have "hs_step n ?s3 (?s3\<lparr>hs_returned := Some resp\<rparr>)" using hs_step.returns [of ?s3 n] by (simp add: s(5))
  ultimately have "(hs_step n)\<^sup>*\<^sup>* ?s1 (?s3\<lparr>hs_returned := Some resp\<rparr>)" by (meson rtranclp.rtrancl_into_rtrancl rtranclp.rtrancl_refl)
  from hl_follows [OF this w1(4,3,2)] obtain w where w: "(hl_step n)\<^sup>*\<^sup>* w1 w" "hl_session w = ?s3\<lparr>hs_returned := Some resp\<rparr>"
    "hl_destroyed w = None" "hl_inv fresh w" "hl_caller w" "hl_handler w \<noteq> None" using w1(5) h by blast
  then have "hl_handler w = Some Shared_from_this" using handler_owner [of "hl_handler w"] by (simp add: hl_inv_def)
  with w w1(1) show ?thesis by (intro exI [of _ w]) auto
qed

section \<open>Properties\<close>

text \<open>
  C28: A session lives exactly as long as the caller has its pointer, an operation is pending or a handler runs: what the handlers are bound
  to keeps it alive for them. When it is destroyed no handler has anything left to do and the caller
  has its result. And every request comes to that end: whatever the outcome of its operations and however caller and handlers
  interleave, a run has at most 25 steps, and only when the session is destroyed can no step follow. (Asio calls the handler of
  every operation, with an error if need be.)
\<close>

theorem session_lifetime:
  assumes "hr_body fresh = []" "(hl_step n)\<^sup>*\<^sup>* (hl_start fresh q) w"
  shows "(hl_destroyed w = None \<longleftrightarrow> hl_caller w \<or> hs_op (hl_session w) \<noteq> None \<or> hl_handler w \<noteq> None) \<and>
    (hl_destroyed w \<noteq> None \<longrightarrow> hs_todo (hl_session w) = [] \<and> hs_returned (hl_session w) \<noteq> None) \<and>
    (hl_destroyed w = None \<longleftrightarrow> (\<exists>w'. hl_step n w w')) \<and>
    (\<forall>k w'. (hl_step n ^^ k) (hl_start fresh q) w' \<longrightarrow> k \<le> 25)"
proof (intro conjI allI impI)
  have "quiet fresh" using assms(1) by (simp add: quiet_def response_result_def)
  then have i: "hl_inv fresh w" using hl_runs.invar_reach [OF assms(2)] hl_start_inv by blast
  show owners: "hl_destroyed w = None \<longleftrightarrow> hl_caller w \<or> hs_op (hl_session w) \<noteq> None \<or> hl_handler w \<noteq> None"
    using hl_owners [OF i] i by (auto simp: hl_inv_def)
  show "hs_todo (hl_session w) = []" "hs_returned (hl_session w) \<noteq> None" if "hl_destroyed w \<noteq> None"
    using that owners i by (auto simp: hl_inv_def)
  show "hl_destroyed w = None \<longleftrightarrow> (\<exists>w'. hl_step n w w')" using hl_goes_on [OF i] owners by (auto elim: hl_step.cases)
  show "k \<le> 25" if "(hl_step n ^^ k) (hl_start fresh q) w'" for k w'
  proof -
    have "hl_rank (hl_start fresh q) = 25" by (simp add: hl_rank_def hl_start_def hs_rank_def hs_SyncRequest_def)
    then show ?thesis using hl_steps_rank [OF that] by simp
  qed
qed

theorem session_lifetime_witness:
  "\<exists>w'. hl_step 3000 (hl_start \<lparr>hr_status = 200, hr_reason = [], hr_body = []\<rparr> (HttpRequest_new :: (nat, nat) http_request)) w'"
proof -
  let ?w = "hl_start \<lparr>hr_status = 200, hr_reason = [], hr_body = []\<rparr> (HttpRequest_new :: (nat, nat) http_request)"
  have "hr_body \<lparr>hr_status = 200, hr_reason = [], hr_body = []\<rparr> = []" "hl_destroyed ?w = None" by (simp_all add: hl_start_def)
  with session_lifetime [OF this(1) rtranclp.rtrancl_refl, of "HttpRequest_new :: (nat, nat) http_request" 3000] show ?thesis by blast
qed

text \<open>
  How a session ends is a race, also when the request succeeds with any response. If the last handler returns before the
  caller does, the caller joins the session's thread. If the caller is faster, the session's thread runs
  the destructor and joins itself; \<^verbatim>\<open>std::system_error\<close> leaves a destructor, and the program ends.
\<close>

theorem session_joins_itself:
  assumes "hr_body fresh = []"
  shows "\<exists>w w'. (hl_step n)\<^sup>*\<^sup>* (hl_start fresh q) w \<and> (hl_step n)\<^sup>*\<^sup>* (hl_start fresh q) w' \<and>
    hs_values (hl_session w) = [True] \<and> hs_returned (hl_session w) = Some resp \<and> hl_session w' = hl_session w \<and>
    hl_destroyed w = Some (Caller_thread, [Ioc_stop, Join], Inr ()) \<and>
    hl_destroyed w' = Some (Session_thread, [Ioc_stop, Join], Inl (Exn SystemError))"
proof -
  obtain v where v: "(hl_step n)\<^sup>*\<^sup>* (hl_start fresh q) v" "hl_caller v" "hl_handler v = Some Shared_from_this" "hl_destroyed v = None"
    "hs_op (hl_session v) = None" "hs_todo (hl_session v) = []" "hs_values (hl_session v) = [True]"
    "hs_returned (hl_session v) = Some resp" using hl_both_left [OF assms] by blast
  let ?w1 = "v\<lparr>hl_handler := None\<rparr>" and ?w2 = "v\<lparr>hl_caller := False\<rparr>"
  have "hl_step n v ?w1" "hl_step n v ?w2"
    using hl_step.handler_returns [of v n] hl_step.caller_returns [of v n] v by (simp_all add: hl_drop_def hl_use_count_def)
  moreover have "hl_step n ?w1 (hl_drop Caller_thread (?w1\<lparr>hl_caller := False\<rparr>))"
    "hl_step n ?w2 (hl_drop Session_thread (?w2\<lparr>hl_handler := None\<rparr>))"
    using v by (auto intro!: hl_step.caller_returns hl_step.handler_returns)
  ultimately have "(hl_step n)\<^sup>*\<^sup>* (hl_start fresh q) (hl_drop Caller_thread (?w1\<lparr>hl_caller := False\<rparr>))"
    "(hl_step n)\<^sup>*\<^sup>* (hl_start fresh q) (hl_drop Session_thread (?w2\<lparr>hl_handler := None\<rparr>))"
    using v(1) by (meson rtranclp.rtrancl_into_rtrancl)+
  then show ?thesis using v
    by (intro exI [of _ "hl_drop Caller_thread (?w1\<lparr>hl_caller := False\<rparr>)"]
        exI [of _ "hl_drop Session_thread (?w2\<lparr>hl_handler := None\<rparr>)"] conjI) (simp_all add: hl_drop_def hl_use_count_def SimpleHttpSession_destroy_def)
qed

theorem session_joins_itself_witness:
  "\<exists>w'. (hl_step 3000)\<^sup>*\<^sup>* (hl_start \<lparr>hr_status = 200, hr_reason = [], hr_body = []\<rparr>
     (HttpRequest_new :: (nat, nat) http_request)) w' \<and>
     hl_destroyed w' = Some (Session_thread, [Ioc_stop, Join], Inl (Exn SystemError))"
  using session_joins_itself [of "\<lparr>hr_status = 200, hr_reason = [], hr_body = []\<rparr>" 3000
      "HttpRequest_new :: (nat, nat) http_request"] by auto

end
