(* ===== verification/Ref_Count.thy ===== *)
theory Ref_Count
  imports Prelude "HOL-Library.AList" "HOL-Library.Multiset"
begin

text \<open>
  \<^verbatim>\<open>third/webrtc/include/rtc_base/ref_counter.h\<close>, \<^verbatim>\<open>ref_counted_object.h\<close> and
  \<^verbatim>\<open>api/scoped_refptr.h\<close>: the intrusive reference counting that the client shares with WebRTC. The
  peer connection, its factory, the tracks and the observers passed along with a session
  description are such objects. Objects live in a store with their counters, a destroyed one
  keeps its address; \<^verbatim>\<open>scoped_refptr\<close> variables are the entries of an association list.
\<close>

section \<open>The counter\<close>

datatype release_status = KDroppedLastRef | KOtherRefsRemained

type_synonym refcount = "32 word"

definition RefCounter_new :: "int \<Rightarrow> refcount" where "RefCounter_new ref_count = word_of_int ref_count"

definition IncRef :: "refcount \<Rightarrow> refcount" where "IncRef c = c + 1"

text \<open>
  The atomic operations wrap around; the subtraction of 1 from the value that \<^verbatim>\<open>fetch_sub\<close>
  returned is one of \<^verbatim>\<open>int\<close>, which the smallest \<^verbatim>\<open>int\<close> does not have.
\<close>

definition DecRef :: "refcount \<Rightarrow> (release_status \<times> refcount) res" where
  "DecRef c =
     (if c = 2 ^ 31 then Inl (UB IntRange)
      else let ref_count_after_subtract = c - 1
        in Inr (if ref_count_after_subtract = 0 then KDroppedLastRef else KOtherRefsRemained, ref_count_after_subtract))"

definition HasOneRef :: "refcount \<Rightarrow> bool" where "HasOneRef c \<longleftrightarrow> c = 1"

section \<open>Objects and pointers\<close>

text \<open>
  \<open>rc_raw\<close>: the references that raw pointers own, each handed out by \<^verbatim>\<open>release()\<close>; they are not part
  of the program's memory.
\<close>

type_synonym obj = nat

record 'v rc_world =
  rc_heap :: "refcount option list"        \<comment> \<open>\<open>None\<close>: destroyed\<close>
  rc_vars :: "('v \<times> obj option) list"      \<comment> \<open>the living variables; \<open>None\<close> is null\<close>
  rc_raw :: "obj list"

type_synonym ('v, 'a) rcm = "('v rc_world, 'a) stm"

definition RefCountedObject_new :: "('v, obj) rcm" where
  "RefCountedObject_new w = (Inr (length (rc_heap w)), w\<lparr>rc_heap := rc_heap w @ [Some (RefCounter_new 0)]\<rparr>)"

text \<open>A member function of the object \<open>a\<close>, which must not have been destroyed.\<close>

definition on_object :: "obj \<Rightarrow> (refcount \<Rightarrow> ('a \<times> refcount option) res) \<Rightarrow> ('v, 'a) rcm" where
  "on_object a f w =
     (if a < length (rc_heap w) then
        (case rc_heap w ! a of
           None \<Rightarrow> (Inl (UB BadWrite), w)
         | Some c \<Rightarrow>
             (case f c of
                Inl e \<Rightarrow> (Inl e, w)
              | Inr (x, c') \<Rightarrow> (Inr x, w\<lparr>rc_heap := (rc_heap w)[a := c']\<rparr>)))
      else (Inl (UB BadWrite), w))"

definition RefCountedObject_AddRef :: "obj \<Rightarrow> ('v, unit) rcm" where
  "RefCountedObject_AddRef a = on_object a (\<lambda>c. Inr ((), Some (IncRef c)))"

definition RefCountedObject_Release :: "obj \<Rightarrow> ('v, release_status) rcm" where
  "RefCountedObject_Release a =
     on_object a (\<lambda>c. rbind (DecRef c) (\<lambda>(status, c').
       Inr (status, if status = KDroppedLastRef then None else Some c')))"

definition RefCountedObject_HasOneRef :: "obj \<Rightarrow> 'v rc_world \<Rightarrow> bool res" where
  "RefCountedObject_HasOneRef a w =
     (if a < length (rc_heap w)
      then (case rc_heap w ! a of None \<Rightarrow> Inl (UB BadRead) | Some c \<Rightarrow> Inr (HasOneRef c))
      else Inl (UB BadRead))"

text \<open>\<^verbatim>\<open>if (p) p->AddRef();\<close> and \<^verbatim>\<open>if (p) p->Release();\<close>\<close>

definition add_ref :: "obj option \<Rightarrow> ('v, unit) rcm" where
  "add_ref p = (case p of None \<Rightarrow> sret () | Some a \<Rightarrow> RefCountedObject_AddRef a)"

definition release_ref :: "obj option \<Rightarrow> ('v, unit) rcm" where
  "release_ref p = (case p of None \<Rightarrow> sret () | Some a \<Rightarrow> sbind (RefCountedObject_Release a) (\<lambda>_. sret ()))"

section \<open>scoped\_refptr\<close>

definition declare_ptr :: "'v \<Rightarrow> obj option \<Rightarrow> ('v, unit) rcm" where
  "declare_ptr v p = smodify (\<lambda>w. w\<lparr>rc_vars := (v, p) # rc_vars w\<rparr>)"

definition scoped_get :: "'v \<Rightarrow> ('v, obj option) rcm" where
  "scoped_get v w = (case map_of (rc_vars w) v of None \<Rightarrow> Inl (UB BadRead) | Some p \<Rightarrow> Inr p, w)"

definition set_ptr :: "'v \<Rightarrow> obj option \<Rightarrow> ('v, unit) rcm" where
  "set_ptr v p = smodify (\<lambda>w. w\<lparr>rc_vars := AList.update v p (rc_vars w)\<rparr>)"

definition scoped_default :: "'v \<Rightarrow> ('v, unit) rcm" where
  "scoped_default v = declare_ptr v None"

definition scoped_of_ptr :: "'v \<Rightarrow> obj option \<Rightarrow> ('v, unit) rcm" where
  "scoped_of_ptr v p = sbind (declare_ptr v p) (\<lambda>_. add_ref p)"

definition scoped_copy :: "'v \<Rightarrow> 'v \<Rightarrow> ('v, unit) rcm" where
  "scoped_copy v r = sbind (scoped_get r) (\<lambda>p. sbind (declare_ptr v p) (\<lambda>_. add_ref p))"

definition scoped_release :: "'v \<Rightarrow> ('v, obj option) rcm" where
  "scoped_release v = sbind (scoped_get v) (\<lambda>retVal. sbind (set_ptr v None) (\<lambda>_. sret retVal))"

definition scoped_move :: "'v \<Rightarrow> 'v \<Rightarrow> ('v, unit) rcm" where
  "scoped_move v r = sbind (scoped_release r) (declare_ptr v)"

definition scoped_destroy :: "'v \<Rightarrow> ('v, unit) rcm" where
  "scoped_destroy v =
     sbind (scoped_get v) (\<lambda>p. sbind (release_ref p) (\<lambda>_.
     smodify (\<lambda>w. w\<lparr>rc_vars := AList.delete v (rc_vars w)\<rparr>)))"

definition scoped_assign_ptr :: "'v \<Rightarrow> obj option \<Rightarrow> ('v, unit) rcm" where
  "scoped_assign_ptr v p =
     sbind (add_ref p) (\<lambda>_. sbind (scoped_get v) (\<lambda>old. sbind (release_ref old) (\<lambda>_. set_ptr v p)))"

definition scoped_assign :: "'v \<Rightarrow> 'v \<Rightarrow> ('v, unit) rcm" where
  "scoped_assign v r = sbind (scoped_get r) (scoped_assign_ptr v)"

text \<open>\<^verbatim>\<open>swap(T** pp)\<close>: the result is the new value of \<^verbatim>\<open>*pp\<close>.\<close>

definition scoped_swap_ptr :: "'v \<Rightarrow> obj option \<Rightarrow> ('v, obj option) rcm" where
  "scoped_swap_ptr v pp = sbind (scoped_get v) (\<lambda>p. sbind (set_ptr v pp) (\<lambda>_. sret p))"

definition scoped_swap :: "'v \<Rightarrow> 'v \<Rightarrow> ('v, unit) rcm" where
  "scoped_swap v r = sbind (scoped_get r) (\<lambda>q. sbind (scoped_swap_ptr v q) (set_ptr r))"

text \<open>The temporary takes the reference of \<open>r\<close>, is swapped with \<open>v\<close>, and is destroyed.\<close>

definition scoped_move_assign :: "'v \<Rightarrow> 'v \<Rightarrow> ('v, unit) rcm" where
  "scoped_move_assign v r = sbind (scoped_release r) (\<lambda>t. sbind (scoped_swap_ptr v t) release_ref)"

section \<open>Programs\<close>

fun refs :: "obj option \<Rightarrow> obj list" where
  "refs None = []"
| "refs (Some a) = [a]"

text \<open>
  What code that keeps to the rules of \<^verbatim>\<open>rtc_base/ref_count.h\<close> does: a new object goes straight into a
  pointer, a raw pointer is used only while somebody owns a reference to its object, and a
  raw pointer that owns a reference releases it once.
\<close>

datatype 'v rc_op =
    MakeNew 'v              \<comment> \<open>\<^verbatim>\<open>scoped_refptr<T> v(new RefCountedObject<T>(\<dots>))\<close>\<close>
  | Default 'v
  | OfPtr 'v obj
  | Copy 'v 'v
  | Move 'v 'v
  | Destroy 'v
  | AssignNew 'v
  | AssignPtr 'v "obj option"
  | Assign 'v 'v
  | MoveAssign 'v 'v
  | Swap 'v 'v
  | TakeRaw 'v              \<comment> \<open>\<^verbatim>\<open>T* p = v.release()\<close>\<close>
  | ReleaseRaw obj          \<comment> \<open>\<^verbatim>\<open>p->Release()\<close>\<close>

fun rc_exec :: "'v rc_op \<Rightarrow> ('v, unit) rcm" where
  "rc_exec (MakeNew v) = sbind RefCountedObject_new (\<lambda>a. scoped_of_ptr v (Some a))"
| "rc_exec (Default v) = scoped_default v"
| "rc_exec (OfPtr v a) = scoped_of_ptr v (Some a)"
| "rc_exec (Copy v r) = scoped_copy v r"
| "rc_exec (Move v r) = scoped_move v r"
| "rc_exec (Destroy v) = scoped_destroy v"
| "rc_exec (AssignNew v) = sbind RefCountedObject_new (\<lambda>a. scoped_assign_ptr v (Some a))"
| "rc_exec (AssignPtr v p) = scoped_assign_ptr v p"
| "rc_exec (Assign v r) = scoped_assign v r"
| "rc_exec (MoveAssign v r) = scoped_move_assign v r"
| "rc_exec (Swap v r) = scoped_swap v r"
| "rc_exec (TakeRaw v) = sbind (scoped_release v) (\<lambda>p. smodify (\<lambda>w. w\<lparr>rc_raw := rc_raw w @ refs p\<rparr>))"
| "rc_exec (ReleaseRaw a) = sbind (RefCountedObject_Release a) (\<lambda>_. smodify (\<lambda>w. w\<lparr>rc_raw := remove1 a (rc_raw w)\<rparr>))"

definition rc_owners :: "'v rc_world \<Rightarrow> obj list" where
  "rc_owners w = concat (map (refs \<circ> snd) (rc_vars w)) @ rc_raw w"

definition alive_var :: "'v rc_world \<Rightarrow> 'v \<Rightarrow> bool" where
  "alive_var w v \<longleftrightarrow> v \<in> fst ` set (rc_vars w)"

fun rc_ok :: "'v rc_op \<Rightarrow> 'v rc_world \<Rightarrow> bool" where
  "rc_ok (MakeNew v) w \<longleftrightarrow> \<not> alive_var w v"
| "rc_ok (Default v) w \<longleftrightarrow> \<not> alive_var w v"
| "rc_ok (OfPtr v a) w \<longleftrightarrow> \<not> alive_var w v \<and> a \<in> set (rc_owners w)"
| "rc_ok (Copy v r) w \<longleftrightarrow> \<not> alive_var w v \<and> alive_var w r"
| "rc_ok (Move v r) w \<longleftrightarrow> \<not> alive_var w v \<and> alive_var w r"
| "rc_ok (Destroy v) w \<longleftrightarrow> alive_var w v"
| "rc_ok (AssignNew v) w \<longleftrightarrow> alive_var w v"
| "rc_ok (AssignPtr v p) w \<longleftrightarrow> alive_var w v \<and> set (refs p) \<subseteq> set (rc_owners w)"
| "rc_ok (Assign v r) w \<longleftrightarrow> alive_var w v \<and> alive_var w r"
| "rc_ok (MoveAssign v r) w \<longleftrightarrow> alive_var w v \<and> alive_var w r"
| "rc_ok (Swap v r) w \<longleftrightarrow> alive_var w v \<and> alive_var w r"
| "rc_ok (TakeRaw v) w \<longleftrightarrow> alive_var w v"
| "rc_ok (ReleaseRaw a) w \<longleftrightarrow> a \<in> set (rc_raw w)"

text \<open>A program's run, with the number of operations so far.\<close>

definition rc_start :: "'v rc_world" where
  "rc_start = \<lparr>rc_heap = [], rc_vars = [], rc_raw = []\<rparr>"

inductive rc_step :: "nat \<times> 'v rc_world \<Rightarrow> nat \<times> 'v rc_world \<Rightarrow> bool" where
  exec: "rc_ok op w \<Longrightarrow> rc_exec op w = (Inr (), w') \<Longrightarrow> rc_step (n, w) (Suc n, w')"

inductive_cases rc_stepE: "rc_step (n, w) s"

section \<open>The counters count the owners\<close>

text \<open>The store \<open>h\<close> when \<open>H\<close> is the multiset of the references that are owned.\<close>

definition counted :: "refcount option list \<Rightarrow> obj multiset \<Rightarrow> bool" where
  "counted h H \<longleftrightarrow>
     set_mset H \<subseteq> {..<length h} \<and>
     (\<forall>a<length h. h ! a = (if a \<in># H then Some (of_nat (count H a)) else None))"

lemma count_small:
  assumes "size H < 2 ^ 32" and "a \<in># H"
  shows "(of_nat (count H a) :: refcount) \<noteq> 0" and "(of_nat (count H a) :: refcount) = 1 \<longleftrightarrow> count H a = 1"
proof -
  have lt: "count H a < 2 ^ 32" using assms(1) by (meson count_le_size le_less_trans)
  have pos: "0 < count H a" using assms(2) by simp
  have u: "unat (of_nat (count H a) :: refcount) = count H a"
    using lt by (simp add: unat_of_nat)
  show "(of_nat (count H a) :: refcount) \<noteq> 0" using u pos by (metis less_irrefl unat_0)
  show "(of_nat (count H a) :: refcount) = 1 \<longleftrightarrow> count H a = 1"
    by (metis u unat_1 of_nat_1)
qed

lemma counted_new:
  assumes "counted h H"
  shows "counted (h @ [Some 1]) (add_mset (length h) H)"
proof -
  have "length h \<notin># H" using assms by (auto simp: counted_def)
  then have "count H (length h) = 0" by (simp add: not_in_iff)
  then show ?thesis using assms by (auto simp: counted_def nth_append less_Suc_eq)
qed

lemma counted_AddRef:
  assumes "counted (rc_heap w) H" and "a \<in># H"
  obtains h where "RefCountedObject_AddRef a w = (Inr (), w\<lparr>rc_heap := h\<rparr>)" "counted h (add_mset a H)"
proof
  have a: "a < length (rc_heap w)" and c: "rc_heap w ! a = Some (of_nat (count H a))"
    using assms by (auto simp: counted_def)
  let ?h = "(rc_heap w)[a := Some (of_nat (count H a) + 1)]"
  show "RefCountedObject_AddRef a w = (Inr (), w\<lparr>rc_heap := ?h\<rparr>)"
    using a c by (simp add: RefCountedObject_AddRef_def on_object_def IncRef_def)
  show "counted ?h (add_mset a H)" using assms a by (auto simp: counted_def nth_list_update add.commute)
qed

lemma counted_Release:
  assumes "counted (rc_heap w) (add_mset a H)" and "size H < 2 ^ 31 - 1"
  obtains h where
    "RefCountedObject_Release a w = (Inr (if a \<in># H then KOtherRefsRemained else KDroppedLastRef), w\<lparr>rc_heap := h\<rparr>)" "counted h H"
proof
  have a: "a < length (rc_heap w)" and c: "rc_heap w ! a = Some (of_nat (count H a) + 1)"
    using assms(1) by (auto simp: counted_def add.commute)
  have z: "(of_nat (count H a) :: refcount) = 0 \<longleftrightarrow> a \<notin># H"
    using count_small(1) [of H a] assms(2) by (cases "a \<in># H") (simp_all add: not_in_iff)
  have "count H a + 1 < 2 ^ 31" using assms(2) count_le_size [of H a] by linarith
  then have "unat (of_nat (count H a + 1) :: refcount) \<noteq> unat (2 ^ 31 :: refcount)" by (simp only: unat_of_nat) simp
  then have ub: "(of_nat (count H a) + 1 :: refcount) \<noteq> 2 ^ 31" by (metis of_nat_1 of_nat_add)
  let ?h = "(rc_heap w)[a := (if a \<in># H then Some (of_nat (count H a)) else None)]"
  show "RefCountedObject_Release a w = (Inr (if a \<in># H then KOtherRefsRemained else KDroppedLastRef), w\<lparr>rc_heap := ?h\<rparr>)"
    using a c z ub by (auto simp: RefCountedObject_Release_def on_object_def DecRef_def Let_def)
  show "counted ?h H" using assms(1) a by (auto simp: counted_def nth_list_update)
qed

text \<open>The same for pointers that may be null.\<close>

lemma counted_add_ref:
  assumes "counted (rc_heap w) H" and "set (refs p) \<subseteq> set_mset H"
  obtains h where "add_ref p w = (Inr (), w\<lparr>rc_heap := h\<rparr>)" "counted h (mset (refs p) + H)"
proof (cases p)
  case None
  then show ?thesis using that [of "rc_heap w"] assms(1) by (simp add: add_ref_def sret_def)
next
  case (Some a)
  with assms obtain h where "RefCountedObject_AddRef a w = (Inr (), w\<lparr>rc_heap := h\<rparr>)" "counted h (add_mset a H)"
    by (auto elim: counted_AddRef [of w H a])
  with Some show ?thesis using that [of h] by (simp add: add_ref_def)
qed

lemma counted_release_ref:
  assumes "counted (rc_heap w) (mset (refs p) + H)" and "size H < 2 ^ 31 - 1"
  obtains h where "release_ref p w = (Inr (), w\<lparr>rc_heap := h\<rparr>)" "counted h H"
proof (cases p)
  case None
  then show ?thesis using that [of "rc_heap w"] assms(1) by (simp add: release_ref_def sret_def)
next
  case (Some a)
  with assms obtain h status where "RefCountedObject_Release a w = (Inr status, w\<lparr>rc_heap := h\<rparr>)" "counted h H"
    by (auto elim: counted_Release [of w a H])
  with Some show ?thesis using that [of h] by (simp add: release_ref_def sbind_def sret_def)
qed

lemma counted_make:
  assumes "counted (rc_heap w) H"
  obtains h where "sbind RefCountedObject_new (\<lambda>a. sbind (add_ref (Some a)) (\<lambda>_. f a)) w
      = f (length (rc_heap w)) (w\<lparr>rc_heap := h\<rparr>)"
    and "counted h (add_mset (length (rc_heap w)) H)"
proof
  let ?h = "rc_heap w @ [Some 1]"
  show "sbind RefCountedObject_new (\<lambda>a. sbind (add_ref (Some a)) (\<lambda>_. f a)) w = f (length (rc_heap w)) (w\<lparr>rc_heap := ?h\<rparr>)"
    by (simp add: sbind_def RefCountedObject_new_def add_ref_def RefCountedObject_AddRef_def on_object_def
        RefCounter_new_def IncRef_def)
  show "counted ?h (add_mset (length (rc_heap w)) H)" using assms by (rule counted_new)
qed

text \<open>What the variables own.\<close>

abbreviation owned :: "('v \<times> obj option) list \<Rightarrow> obj multiset" where
  "owned vs \<equiv> mset (concat (map (refs \<circ> snd) vs))"

lemma owned_update:
  assumes "map_of vs v = Some p"
  shows "owned (AList.update v q vs) + mset (refs p) = mset (refs q) + owned vs"
  using assms by (induction vs) (auto split: if_splits)

lemma owned_delete:
  assumes "distinct (map fst vs)" and "map_of vs v = Some p"
  shows "mset (refs p) + owned (AList.delete v vs) = owned vs"
  using assms
proof (induction vs)
  case (Cons x vs)
  then show ?case
    by (cases x) (auto simp: map_of_eq_None_iff split: if_splits)
qed simp

lemma owned_get:
  assumes "map_of vs v = Some p"
  shows "mset (refs p) \<subseteq># owned vs"
  using assms by (induction vs) (auto split: if_splits intro: subset_mset.add_increasing)

definition sound :: "'v rc_world \<Rightarrow> bool" where
  "sound w \<longleftrightarrow> distinct (map fst (rc_vars w)) \<and> counted (rc_heap w) (mset (rc_owners w))"

definition rc_good :: "('v, unit) rcm \<Rightarrow> 'v rc_world \<Rightarrow> bool" where
  "rc_good m w \<longleftrightarrow> (\<exists>w'. m w = (Inr (), w') \<and> sound w' \<and> length (rc_owners w') \<le> Suc (length (rc_owners w)))"

lemma alive_get:
  assumes "alive_var w v"
  obtains p where "map_of (rc_vars w) v = Some p" "scoped_get v w = (Inr p, w)"
  using assms by (cases "map_of (rc_vars w) v") (auto simp: alive_var_def map_of_eq_None_iff scoped_get_def)

lemmas rc_simps = sbind_def sret_def smodify_def declare_ptr_def set_ptr_def

lemma owned_update_eq:
  assumes "map_of vs v = Some p" and "owned vs = mset (refs p) + H"
  shows "owned (AList.update v q vs) = mset (refs q) + H"
  using owned_update [OF assms(1), of q] assms(2) by simp

lemma rc_owners_mset: "mset (rc_owners w) = owned (rc_vars w) + mset (rc_raw w)"
  by (simp add: rc_owners_def)

lemma sound_get:
  assumes "map_of (rc_vars w) v = Some p"
  obtains K where "owned (rc_vars w) = mset (refs p) + K" "mset (rc_owners w) = mset (refs p) + (K + mset (rc_raw w))"
  using owned_get [OF assms] by (auto simp: rc_owners_mset subset_mset.le_iff_add add.assoc intro: that)

text \<open>To assign: the new reference is there already, the old one is given back.\<close>

lemma assign_good:
  assumes d: "distinct (map fst (rc_vars w))" and c: "counted (rc_heap w) (mset (refs q) + mset (rc_owners w))"
    and n: "length (rc_owners w) < 2 ^ 31 - 2" and v: "map_of (rc_vars w) v = Some p"
  shows "rc_good (sbind (release_ref p) (\<lambda>_. set_ptr v q)) w"
proof -
  obtain K where K: "owned (rc_vars w) = mset (refs p) + K"
    and H: "mset (rc_owners w) = mset (refs p) + (K + mset (rc_raw w))" by (rule sound_get [OF v])
  let ?G = "mset (refs q) + (K + mset (rc_raw w))"
  have l: "length (rc_owners w) = length (refs p) + (size K + length (rc_raw w))" using arg_cong [OF H, of size] by simp
  moreover have "length (refs q) \<le> 1" by (cases q) auto
  ultimately have G: "size ?G < 2 ^ 31 - 1" "size ?G \<le> Suc (length (rc_owners w))" using n by auto
  have "counted (rc_heap w) (mset (refs p) + ?G)" using c by (simp add: H ac_simps)
  then obtain h where h: "release_ref p w = (Inr (), w\<lparr>rc_heap := h\<rparr>)" "counted h ?G"
    using counted_release_ref G(1) by metis
  let ?w = "w\<lparr>rc_heap := h, rc_vars := AList.update v q (rc_vars w)\<rparr>"
  have m: "mset (rc_owners ?w) = ?G" using owned_update_eq [OF v K, of q] by (simp add: rc_owners_mset add.assoc)
  then have "length (rc_owners ?w) = size ?G" by (metis size_mset)
  with m h d G(2) show ?thesis
    by (auto simp: rc_good_def rc_simps sound_def distinct_update intro!: exI [of _ ?w])
qed

lemma assign_ptr_good:
  assumes "sound w" and "length (rc_owners w) < 2 ^ 31 - 2" and "alive_var w v" and "set (refs q) \<subseteq> set (rc_owners w)"
  shows "rc_good (scoped_assign_ptr v q) w"
proof -
  obtain p where p: "map_of (rc_vars w) v = Some p" using alive_get [OF assms(3)] by metis
  have c: "counted (rc_heap w) (mset (rc_owners w))" "distinct (map fst (rc_vars w))" using assms(1) by (auto simp: sound_def)
  obtain h where h: "add_ref q w = (Inr (), w\<lparr>rc_heap := h\<rparr>)" "counted h (mset (refs q) + mset (rc_owners w))"
    using counted_add_ref [OF c(1)] assms(4) by (metis set_mset_mset)
  let ?w = "w\<lparr>rc_heap := h\<rparr>"
  have "rc_owners ?w = rc_owners w" by (simp add: rc_owners_def)
  then have "rc_good (sbind (release_ref p) (\<lambda>_. set_ptr v q)) ?w"
    using h(2) c(2) assms(2) p by (intro assign_good) simp_all
  moreover have "scoped_assign_ptr v q w = sbind (release_ref p) (\<lambda>_. set_ptr v q) ?w"
    using h(1) p by (simp add: scoped_assign_ptr_def scoped_get_def sbind_def [of "scoped_get v"])
  ultimately show ?thesis by (simp add: rc_good_def rc_owners_def)
qed

lemma assign_new_good:
  assumes "sound w" and "length (rc_owners w) < 2 ^ 31 - 2" and "alive_var w v"
  shows "rc_good (rc_exec (AssignNew v)) w"
proof -
  let ?a = "length (rc_heap w)"
  obtain p where p: "map_of (rc_vars w) v = Some p" using alive_get [OF assms(3)] by metis
  have c: "counted (rc_heap w) (mset (rc_owners w))" "distinct (map fst (rc_vars w))" using assms(1) by (auto simp: sound_def)
  let ?f = "\<lambda>a. sbind (scoped_get v) (\<lambda>old. sbind (release_ref old) (\<lambda>_. set_ptr v (Some a)))"
  obtain h where h: "rc_exec (AssignNew v) w = ?f ?a (w\<lparr>rc_heap := h\<rparr>)"
      "counted h (add_mset ?a (mset (rc_owners w)))"
    using counted_make [OF c(1), of ?f] by (auto simp: scoped_assign_ptr_def)
  let ?w = "w\<lparr>rc_heap := h\<rparr>"
  have "rc_owners ?w = rc_owners w" by (simp add: rc_owners_def)
  then have "rc_good (sbind (release_ref p) (\<lambda>_. set_ptr v (Some ?a))) ?w"
    using h(2) c(2) assms(2) p by (intro assign_good) simp_all
  moreover have "?f ?a ?w = sbind (release_ref p) (\<lambda>_. set_ptr v (Some ?a)) ?w"
    using p by (simp add: scoped_get_def sbind_def [of "scoped_get v"])
  ultimately show ?thesis using h(1) by (simp add: rc_good_def rc_owners_def)
qed

text \<open>To declare a variable: its reference is counted afterwards.\<close>

lemma of_ptr_good:
  assumes "sound w" and "\<not> alive_var w v" and "set (refs q) \<subseteq> set (rc_owners w)"
  shows "rc_good (scoped_of_ptr v q) w"
proof -
  have c: "counted (rc_heap w) (mset (rc_owners w))" "distinct (map fst (rc_vars w))" using assms(1) by (auto simp: sound_def)
  let ?w = "w\<lparr>rc_vars := (v, q) # rc_vars w\<rparr>"
  obtain h where h: "add_ref q ?w = (Inr (), ?w\<lparr>rc_heap := h\<rparr>)" "counted h (mset (refs q) + mset (rc_owners w))"
    using counted_add_ref [of ?w "mset (rc_owners w)" q] c(1) assms(3) by auto
  have "length (refs q) \<le> 1" by (cases q) auto
  moreover have "counted h (mset (refs q) + owned (rc_vars w) + mset (rc_raw w))" using h(2) by (simp add: rc_owners_mset add.assoc)
  ultimately show ?thesis using h(1) c(2) assms(2)
    by (auto simp: rc_good_def scoped_of_ptr_def rc_simps sound_def rc_owners_def alive_var_def
        intro!: exI [of _ "?w\<lparr>rc_heap := h\<rparr>"])
qed

lemma make_new_good:
  assumes "sound w" and "\<not> alive_var w v"
  shows "rc_good (rc_exec (MakeNew v)) w"
proof -
  have c: "counted (rc_heap w) (mset (rc_owners w))" "distinct (map fst (rc_vars w))" using assms(1) by (auto simp: sound_def)
  show ?thesis
    using counted_new [OF c(1)] c(2) assms(2)
    by (auto simp: rc_good_def scoped_of_ptr_def rc_simps sound_def rc_owners_def alive_var_def RefCountedObject_new_def
        add_ref_def RefCountedObject_AddRef_def on_object_def RefCounter_new_def IncRef_def)
qed

lemma destroy_good:
  assumes "sound w" and "length (rc_owners w) < 2 ^ 31 - 1" and "alive_var w v"
  shows "rc_good (scoped_destroy v) w"
proof -
  obtain p where p: "map_of (rc_vars w) v = Some p" "scoped_get v w = (Inr p, w)" by (rule alive_get [OF assms(3)])
  have c: "counted (rc_heap w) (mset (rc_owners w))" "distinct (map fst (rc_vars w))" using assms(1) by (auto simp: sound_def)
  let ?H = "owned (AList.delete v (rc_vars w)) + mset (rc_raw w)"
  have H: "mset (rc_owners w) = mset (refs p) + ?H" using owned_delete [OF c(2) p(1)] by (simp add: rc_owners_mset ac_simps)
  then have l: "length (rc_owners w) = length (refs p) + size ?H" by (metis size_mset size_union)
  then obtain h where h: "release_ref p w = (Inr (), w\<lparr>rc_heap := h\<rparr>)" "counted h ?H"
    using counted_release_ref [of w p ?H thesis] c(1) assms(2) by (simp add: H)
  let ?w = "w\<lparr>rc_heap := h, rc_vars := AList.delete v (rc_vars w)\<rparr>"
  have "mset (rc_owners ?w) = ?H" by (simp add: rc_owners_mset)
  moreover from this have "length (rc_owners ?w) = size ?H" by (metis size_mset)
  ultimately show ?thesis using h c(2) l p(2)
    by (auto simp: rc_good_def scoped_destroy_def sound_def distinct_delete intro!: exI [of _ ?w])
qed

lemma release_after_set:
  assumes "sbind (release_ref p) (\<lambda>_. set_ptr v q) w = (Inr (), w')"
  shows "release_ref p (w\<lparr>rc_vars := AList.update v q (rc_vars w)\<rparr>) = (Inr (), w')"
  using assms
  by (cases p)
    (auto simp: release_ref_def RefCountedObject_Release_def on_object_def rc_simps split: option.splits if_splits sum.splits)

text \<open>To move or swap: no counter changes, the references only change hands.\<close>

lemma same_refs_good:
  assumes "sound w" and "m w = (Inr (), w\<lparr>rc_vars := vs, rc_raw := r\<rparr>)" and "distinct (map fst vs)"
    and "owned vs + mset r = owned (rc_vars w) + mset (rc_raw w)"
  shows "rc_good m w"
proof -
  let ?w = "w\<lparr>rc_vars := vs, rc_raw := r\<rparr>"
  have m: "mset (rc_owners ?w) = mset (rc_owners w)" using assms(4) by (simp add: rc_owners_mset)
  then have "length (rc_owners ?w) = length (rc_owners w)" by (metis size_mset)
  with m assms(1-3) show ?thesis by (auto simp: rc_good_def sound_def)
qed

lemma take_updated:
  assumes "map_of vs v = Some p"
  shows "mset (refs p) + owned (AList.update v None vs) = owned vs"
  using owned_update [OF assms, of None] by (simp add: ac_simps)

lemma move_good:
  assumes "sound w" and "\<not> alive_var w v" and "alive_var w r"
  shows "rc_good (scoped_move v r) w"
proof -
  obtain p where p: "map_of (rc_vars w) r = Some p" "scoped_get r w = (Inr p, w)" by (rule alive_get [OF assms(3)])
  let ?vs = "(v, p) # AList.update r None (rc_vars w)"
  have "v \<notin> fst ` set (AList.update r None (rc_vars w))"
    using assms(2,3) by (auto simp: alive_var_def update_keys simp flip: set_map)
  then show ?thesis
    using assms(1) p take_updated [OF p(1)]
    by (intro same_refs_good [where vs = ?vs and r = "rc_raw w"])
      (auto simp: sound_def distinct_update scoped_move_def scoped_release_def rc_simps)
qed

lemma swap_good:
  assumes "sound w" and "alive_var w v" and "alive_var w r"
  shows "rc_good (scoped_swap v r) w"
proof -
  obtain p where p: "map_of (rc_vars w) v = Some p" "scoped_get v w = (Inr p, w)" by (rule alive_get [OF assms(2)])
  obtain q where q: "map_of (rc_vars w) r = Some q" "scoped_get r w = (Inr q, w)" by (rule alive_get [OF assms(3)])
  let ?u = "AList.update v q (rc_vars w)"
  have r: "map_of ?u r = Some q" using q(1) by (simp add: update_conv')
  have "owned (AList.update r p ?u) + mset (refs q) = owned (rc_vars w) + mset (refs q)"
    using owned_update [OF r, of p] owned_update [OF p(1), of q] by (simp add: ac_simps)
  then show ?thesis
    using assms(1) p q
    by (intro same_refs_good [where vs = "AList.update r p ?u" and r = "rc_raw w"])
      (auto simp: sound_def distinct_update scoped_swap_def scoped_swap_ptr_def rc_simps)
qed

lemma take_raw_good:
  assumes "sound w" and "alive_var w v"
  shows "rc_good (rc_exec (TakeRaw v)) w"
proof -
  obtain p where p: "map_of (rc_vars w) v = Some p" "scoped_get v w = (Inr p, w)" by (rule alive_get [OF assms(2)])
  show ?thesis
    using assms(1) p take_updated [OF p(1)]
    by (intro same_refs_good [where vs = "AList.update v None (rc_vars w)" and r = "rc_raw w @ refs p"])
      (auto simp: sound_def distinct_update scoped_release_def rc_simps ac_simps)
qed

lemma release_raw_good:
  assumes "sound w" and "length (rc_owners w) < 2 ^ 31 - 1" and "a \<in> set (rc_raw w)"
  shows "rc_good (rc_exec (ReleaseRaw a)) w"
proof -
  let ?H = "owned (rc_vars w) + mset (remove1 a (rc_raw w))"
  have H: "mset (rc_owners w) = add_mset a ?H" using assms(3) by (simp add: rc_owners_mset)
  then have l: "length (rc_owners w) = Suc (size ?H)" by (metis size_mset size_add_mset)
  obtain h status where h: "RefCountedObject_Release a w = (Inr status, w\<lparr>rc_heap := h\<rparr>)" "counted h ?H"
    using counted_Release [of w a ?H thesis] assms(1,2) l by (simp add: H sound_def)
  let ?w = "w\<lparr>rc_heap := h, rc_raw := remove1 a (rc_raw w)\<rparr>"
  have m: "mset (rc_owners ?w) = ?H" by (simp add: rc_owners_mset)
  then have "length (rc_owners ?w) = size ?H" by (metis size_mset)
  with m h assms(1) l show ?thesis by (auto simp: rc_good_def sound_def intro!: exI [of _ ?w])
qed

lemma move_assign_good:
  assumes "sound w" and "length (rc_owners w) < 2 ^ 31 - 2" and "alive_var w v" and "alive_var w r"
  shows "rc_good (scoped_move_assign v r) w"
proof -
  obtain q where q: "map_of (rc_vars w) r = Some q" "scoped_get r w = (Inr q, w)" by (rule alive_get [OF assms(4)])
  let ?u = "w\<lparr>rc_vars := AList.update r None (rc_vars w)\<rparr>"
  have "alive_var ?u v" using assms(3,4) by (auto simp: alive_var_def update_keys simp flip: set_map)
  then obtain p where p: "map_of (rc_vars ?u) v = Some p" "scoped_get v ?u = (Inr p, ?u)" by (rule alive_get)
  have H: "mset (refs q) + mset (rc_owners ?u) = mset (rc_owners w)"
    using take_updated [OF q(1)] by (simp add: rc_owners_mset add.assoc [symmetric])
  then have l: "length (refs q) + length (rc_owners ?u) = length (rc_owners w)" by (metis size_mset size_union)
  have "rc_good (sbind (release_ref p) (\<lambda>_. set_ptr v q)) ?u"
    using assms(1,2) l p(1) H by (intro assign_good) (simp_all add: sound_def distinct_update)
  moreover have "scoped_move_assign v r w = release_ref p (?u\<lparr>rc_vars := AList.update v q (rc_vars ?u)\<rparr>)"
    using p q by (simp add: scoped_move_assign_def scoped_release_def scoped_swap_ptr_def rc_simps)
  ultimately show ?thesis using l by (auto simp: rc_good_def dest!: release_after_set)
qed

lemma rc_owners_get: "map_of (rc_vars w) v = Some p \<Longrightarrow> set (refs p) \<subseteq> set (rc_owners w)"
  by (drule map_of_SomeD) (force simp: rc_owners_def)

lemma exec_good:
  assumes "sound w" and "length (rc_owners w) < 2 ^ 31 - 2" and "rc_ok op w"
  shows "rc_good (rc_exec op) w"
proof (cases op)
  case (Default v)
  then show ?thesis using assms
    by (auto simp: rc_good_def sound_def rc_owners_def alive_var_def scoped_default_def declare_ptr_def)
next
  case (Copy v r)
  with assms(3) obtain p where p: "map_of (rc_vars w) r = Some p" "scoped_get r w = (Inr p, w)"
    by (auto elim: alive_get)
  then have "rc_exec op w = scoped_of_ptr v p w" by (simp add: Copy scoped_copy_def scoped_of_ptr_def)
  moreover have "rc_good (scoped_of_ptr v p) w" using assms Copy rc_owners_get [OF p(1)] by (intro of_ptr_good) auto
  ultimately show ?thesis by (simp add: rc_good_def)
next
  case (Assign v r)
  with assms(3) obtain p where p: "map_of (rc_vars w) r = Some p" "scoped_get r w = (Inr p, w)"
    by (auto elim: alive_get)
  then have "rc_exec op w = scoped_assign_ptr v p w" by (simp add: Assign scoped_assign_def)
  moreover have "rc_good (scoped_assign_ptr v p) w" using assms Assign rc_owners_get [OF p(1)] by (intro assign_ptr_good) auto
  ultimately show ?thesis by (simp add: rc_good_def)
next
  case (MakeNew v)
  with assms show ?thesis using make_new_good [of w v] by simp
next
  case (AssignNew v)
  with assms show ?thesis using assign_new_good [of w v] by simp
next
  case (TakeRaw v)
  with assms show ?thesis using take_raw_good [of w v] by simp
next
  case (ReleaseRaw a)
  with assms show ?thesis using release_raw_good [of w a] by simp
qed (use assms in \<open>simp_all add: of_ptr_good move_good destroy_good assign_ptr_good move_assign_good swap_good\<close>)

fun rc_inv :: "nat \<times> 'v rc_world \<Rightarrow> bool" where
  "rc_inv (n, w) \<longleftrightarrow> (n < 2 ^ 31 - 1 \<longrightarrow> sound w \<and> length (rc_owners w) \<le> n)"

interpretation rc_runs: transition_system rc_step rc_inv
proof
  fix s t :: "nat \<times> 'v rc_world"
  assume "rc_step s t" and "rc_inv s"
  then show "rc_inv t"
  proof cases
    case (exec op w w' n)
    with \<open>rc_inv s\<close> show ?thesis using exec_good [of w op] by (auto simp: rc_good_def)
  qed
qed

lemma rc_run_sound:
  assumes "rc_step\<^sup>*\<^sup>* (0, rc_start) (n, w)" and "n < 2 ^ 31 - 1"
  shows "sound w" and "length (rc_owners w) \<le> n"
proof -
  have "rc_inv (n, w)"
    by (rule rc_runs.invar_reach [OF assms(1)]) (simp add: rc_start_def sound_def rc_owners_def counted_def)
  with assms(2) show "sound w" "length (rc_owners w) \<le> n" by auto
qed

lemma sound_owner_count:
  assumes "sound w" and "length (rc_owners w) < 2 ^ 32" and "a < length (rc_heap w)"
  shows "rc_heap w ! a \<noteq> None \<longleftrightarrow> a \<in> set (rc_owners w)"
    and "a \<in> set (rc_owners w) \<Longrightarrow> RefCountedObject_HasOneRef a w = Inr (count_list (rc_owners w) a = 1)"
  using assms count_small(2) [of "mset (rc_owners w)" a]
  by (auto simp: sound_def counted_def RefCountedObject_HasOneRef_def HasOneRef_def count_mset)

text \<open>
  C6: In a program that keeps to the ownership rules, in any order and fewer than \<open>2\<^sup>31 - 2\<close>
  operations long, no operation of \<^verbatim>\<open>scoped_refptr\<close> or on an owned raw pointer touches a destroyed
  object, an object is destroyed exactly when nobody owns a reference to it any more, and
  \<^verbatim>\<open>HasOneRef\<close> of an owned object tells whether it has exactly one owner.
\<close>

theorem refcount_safe:
  assumes "rc_step\<^sup>*\<^sup>* (0, rc_start) (n, w)" and "n < 2 ^ 31 - 2"
  shows "(rc_ok op w \<longrightarrow> (\<exists>w'. rc_exec op w = (Inr (), w'))) \<and>
    (a < length (rc_heap w) \<longrightarrow> (rc_heap w ! a \<noteq> None \<longleftrightarrow> a \<in> set (rc_owners w))) \<and>
    (a \<in> set (rc_owners w) \<longrightarrow> RefCountedObject_HasOneRef a w = Inr (count_list (rc_owners w) a = 1))"
proof -
  have s: "sound w" "length (rc_owners w) \<le> n" using rc_run_sound [OF assms(1)] assms(2) by auto
  moreover have "a < length (rc_heap w)" if "a \<in> set (rc_owners w)"
    using s(1) that by (auto simp: sound_def counted_def)
  ultimately show ?thesis
    using exec_good [of w op] sound_owner_count [of w a] assms(2) by (auto simp: rc_good_def)
qed

definition rc_shared :: "nat rc_world" where
  "rc_shared = \<lparr>rc_heap = [Some 2], rc_vars = [(1, Some 0), (0, Some 0)], rc_raw = []\<rparr>"

lemma rc_shared_run: "rc_step\<^sup>*\<^sup>* (0, rc_start) (Suc (Suc 0), rc_shared)"
proof -
  let ?w = "\<lparr>rc_heap = [Some 1], rc_vars = [(0 :: nat, Some 0)], rc_raw = []\<rparr>"
  note defs = rc_simps RefCountedObject_new_def scoped_of_ptr_def scoped_copy_def scoped_get_def add_ref_def
    RefCountedObject_AddRef_def on_object_def RefCounter_new_def IncRef_def
  have "rc_step (0, rc_start) (Suc 0, ?w)"
    by (rule rc_step.exec [of "MakeNew 0"]) (simp_all add: rc_start_def alive_var_def defs)
  moreover have "rc_step (Suc 0, ?w) (Suc (Suc 0), rc_shared)"
    by (rule rc_step.exec [of "Copy 1 0"]) (simp_all add: rc_shared_def alive_var_def defs)
  ultimately show ?thesis by simp
qed

theorem refcount_safe_witness:
  "RefCountedObject_HasOneRef 0 rc_shared = Inr False \<and> rc_ok (Destroy 1) rc_shared \<and>
   (\<exists>w'. rc_exec (Destroy 1) rc_shared = (Inr (), w'))"
  using refcount_safe [OF rc_shared_run, of "Destroy 1" 0] by (simp add: rc_shared_def rc_owners_def alive_var_def)

section \<open>Move assignment\<close>

lemma counted_unique:
  assumes "counted h H" and "counted h' H" and "length h = length h'"
  shows "h = h'"
  using assms by (intro nth_equalityI) (auto simp: counted_def)

lemma owned_sum: "owned vs = (\<Sum>x\<in>#mset vs. mset (refs (snd x)))"
  by (induction vs) auto

lemma sound_unique:
  assumes "sound x" and "sound y" and "map_of (rc_vars x) = map_of (rc_vars y)" and "rc_raw x = rc_raw y"
    and "length (rc_heap x) = length (rc_heap y)"
  shows "rc_heap x = rc_heap y"
proof -
  have "set (rc_vars x) = set (rc_vars y)" using assms(1-3) by (simp add: sound_def map_of_inject_set)
  then have "mset (rc_vars x) = mset (rc_vars y)"
    using assms(1,2) by (simp add: sound_def distinct_map set_eq_iff_mset_eq_distinct)
  then have "mset (rc_owners x) = mset (rc_owners y)"
    using assms(4) by (simp only: rc_owners_mset owned_sum)
  with assms show ?thesis by (metis counted_unique sound_def)
qed

lemma add_ref_effect: "add_ref p w = (Inr (), w') \<Longrightarrow> \<exists>h. w' = w\<lparr>rc_heap := h\<rparr> \<and> length h = length (rc_heap w)"
  by (auto simp: add_ref_def RefCountedObject_AddRef_def on_object_def split: option.splits if_splits)
    (metis rc_world.surjective rc_world.update_convs(1))

lemma release_ref_effect:
  "release_ref p w = (Inr (), w') \<Longrightarrow> \<exists>h. w' = w\<lparr>rc_heap := h\<rparr> \<and> length h = length (rc_heap w)"
  by (auto simp: release_ref_def RefCountedObject_Release_def on_object_def rc_simps split: option.splits if_splits sum.splits)
    (metis rc_world.surjective rc_world.update_convs(1))

lemma assign_ptr_effect:
  assumes "scoped_assign_ptr v p w = (Inr (), w')"
  shows "rc_vars w' = AList.update v p (rc_vars w)" "rc_raw w' = rc_raw w" "length (rc_heap w') = length (rc_heap w)"
  using assms
  by (auto simp: scoped_assign_ptr_def scoped_get_def set_ptr_def elim!: sbind_cases dest!: add_ref_effect release_ref_effect
      split: option.splits)

lemma move_assign_effect:
  assumes "scoped_move_assign v r w = (Inr (), w')" and "map_of (rc_vars w) r = Some p"
  shows "rc_vars w' = AList.update v p (AList.update r None (rc_vars w))" "rc_raw w' = rc_raw w"
    "length (rc_heap w') = length (rc_heap w)"
  using assms
  by (auto simp: scoped_move_assign_def scoped_release_def scoped_swap_ptr_def scoped_get_def set_ptr_def
      elim!: sbind_cases dest!: release_ref_effect split: option.splits)

lemma self_move:
  assumes "map_of (rc_vars w) v = Some p"
  shows "\<exists>x. scoped_move_assign v v w = (Inr (), x) \<and> map_of (rc_vars x) = map_of (rc_vars w) \<and> rc_heap x = rc_heap w"
  using assms by (auto simp: scoped_move_assign_def scoped_release_def scoped_swap_ptr_def scoped_get_def set_ptr_def release_ref_def
      sbind_def smodify_def sret_def update_conv')

text \<open>
  C22: \<^verbatim>\<open>v = std::move(r)\<close>, a release into a temporary, a swap and the end of the temporary, leaves the variables and
  every counter as \<^verbatim>\<open>v = r; r = nullptr;\<close> does when \<open>v\<close> and \<open>r\<close> are two variables, whether or not they point to the same
  object; when they are the same variable, it changes neither the pointer nor a counter.
\<close>

theorem move_assign_is_copy_and_clear:
  assumes "rc_step\<^sup>*\<^sup>* (0, rc_start) (n, w)" and "n < 2 ^ 31 - 3"
    and "alive_var w v" and "alive_var w r"
  shows "\<exists>x. scoped_move_assign v r w = (Inr (), x) \<and>
    (if v = r then map_of (rc_vars x) = map_of (rc_vars w) \<and> rc_heap x = rc_heap w
     else \<exists>y. sbind (scoped_assign v r) (\<lambda>_. scoped_assign_ptr r None) w = (Inr (), y) \<and>
       map_of (rc_vars x) = map_of (rc_vars y) \<and> rc_heap x = rc_heap y)"
proof -
  have s: "sound w" "length (rc_owners w) \<le> n" using rc_run_sound [OF assms(1)] assms(2) by auto
  obtain p where p: "map_of (rc_vars w) r = Some p" "scoped_get r w = (Inr p, w)" by (rule alive_get [OF assms(4)])
  show ?thesis
  proof (cases "v = r")
    case True
    then show ?thesis using self_move [OF p(1)] by simp
  next
    case False
    obtain x where x: "scoped_move_assign v r w = (Inr (), x)" "sound x"
      using exec_good [of w "MoveAssign v r"] s assms by (auto simp: rc_good_def)
    obtain u where u: "scoped_assign_ptr v p w = (Inr (), u)" "sound u" "length (rc_owners u) \<le> Suc (length (rc_owners w))"
      using assign_ptr_good [of w v p] rc_owners_get [OF p(1)] s assms by (auto simp: rc_good_def)
    note eu = assign_ptr_effect [OF u(1)]
    have "alive_var u r" using assms(4) by (auto simp: alive_var_def eu update_keys simp flip: set_map)
    then obtain y where y: "scoped_assign_ptr r None u = (Inr (), y)" "sound y"
      using assign_ptr_good [of u r None] u s(2) assms(2) by (auto simp: rc_good_def)
    note ey = assign_ptr_effect [OF y(1)] and ex = move_assign_effect [OF x(1) p(1)]
    have m: "map_of (rc_vars x) = map_of (rc_vars y)" using False by (simp add: ex ey eu update_conv' fun_upd_twist)
    moreover have "rc_heap x = rc_heap y" by (rule sound_unique [OF x(2) y(2) m]) (simp_all add: ex ey eu)
    moreover have "sbind (scoped_assign v r) (\<lambda>_. scoped_assign_ptr r None) w = (Inr (), y)"
      using p(2) u(1) y(1) by (simp add: scoped_assign_def)
    ultimately show ?thesis using x(1) False by auto
  qed
qed

theorem move_assign_is_copy_and_clear_witness:
  "\<exists>x y. scoped_move_assign 0 1 rc_shared = (Inr (), x) \<and>
    sbind (scoped_assign 0 1) (\<lambda>_. scoped_assign_ptr 1 None) rc_shared = (Inr (), y) \<and>
    map_of (rc_vars x) = map_of (rc_vars y) \<and> rc_heap x = rc_heap y"
  using move_assign_is_copy_and_clear [OF rc_shared_run, of 0 1] by (simp add: rc_shared_def alive_var_def)

end
