(* ===== verification/Spec2Isabelle.thy ===== *)
theory Spec2Isabelle
  imports Byte_Writer Sigslot Safe_Numerics Seq_Nums Swap_Queue Moving_Stats Unique_Id
    Http_Request Client_System Nuve_Session Ref_Count
begin

text \<open>
  A verification development for LicodeCppClient, a C++ client for the Licode conference
  server. The client asks the REST interface of the server for a room and a token
  (\<^verbatim>\<open>core/licode_nuve_api.cc\<close>), opens a websocket (\<^verbatim>\<open>messenger/websocket_session.cc\<close>) over which
  it speaks the server's socket.io dialect (\<^verbatim>\<open>core/licode_signaling.cc\<close>), keeps the state of
  a room and of its streams (\<^verbatim>\<open>core/licode_room.cc\<close>), and negotiates one WebRTC connection per
  stream (\<^verbatim>\<open>core/webrtc_connection.cc\<close>, \<^verbatim>\<open>main.cpp\<close>). Work is posted to worker threads
  (\<^verbatim>\<open>thread/worker.cc\<close>) that share one timer (\<^verbatim>\<open>thread/scheduler.cc\<close>). The repository also holds the headers of
  WebRTC (\<^verbatim>\<open>third/webrtc/include\<close>), of which those with code of their own are modelled too.

  \<^bold>\<open>How the code is modelled.\<close> A value computation that can throw or run into undefined
  behaviour is of type \<open>'a res\<close>: \<open>Inl (Exn e)\<close> is a C++ exception, \<open>Inl (UB u)\<close> undefined
  behaviour (a null dereference, the front of an empty queue), which no \<^verbatim>\<open>catch\<close> stops, \<open>Inl Fatal\<close> a failed
  \<^verbatim>\<open>RTC_CHECK\<close>, which ends the process, and \<open>Inl Ill_formed\<close> an instance of a template that a \<^verbatim>\<open>static_assert\<close> rejects. Member
  functions are state-and-error functions (\<open>stm\<close>) on a record with the members of the class; what
  was assigned before a throw stays assigned. A call on a library object (Asio, Beast, WebRTC)
  is a value that the function emits. A lambda that is posted or installed is a value of a datatype
  with its captures as arguments, and a function says what it does when it is called. Machine integers are
  reduced where the code stores them (\<open>to_int16\<close>, \<open>size_add\<close>) or are words (\<open>uint64\<close>). Log
  lines are left out unless they are all that a function does.

  \<^bold>\<open>Theories.\<close>

  \<^item> \<open>Prelude\<close>: results, the state-and-error monad, \<open>scatch\<close> for \<^verbatim>\<open>try\<close> blocks, and Hoare triples
    \<open>valid\<close> with which the room's invariant is proved; the locale \<open>transition_system\<close>, a step relation with
    an invariant, which every event loop, thread and room below provides. \<open>Cpp_String\<close>: \<^verbatim>\<open>std::string\<close> with its
    64-bit positions, \<^verbatim>\<open>npos\<close> and its wrap-around, \<^verbatim>\<open>atoi\<close>, \<^verbatim>\<open>to_string\<close>. \<open>Ordered\<close>: \<^verbatim>\<open>std::map\<close> and \<^verbatim>\<open>std::set\<close>; the
    locale \<open>ordered_map\<close> is the contract that the query parameters rely on.
  \<^item> \<open>Http_Url\<close>, \<open>Http_Url_Parse\<close> (\<^verbatim>\<open>messenger/http_url.cc\<close>): \<^verbatim>\<open>HttpUrl\<close> and its \<^verbatim>\<open>Builder\<close>, one
    definition per member function and per stage of \<^verbatim>\<open>Parse\<close>. Parse inverts print on canonical
    builders; every sequence of calls keeps a builder well-formed; exactly which texts make the
    parser throw; the query map refines a set of pairs. \<open>Http_Request\<close>
    (\<^verbatim>\<open>messenger/http_request.h\<close>): the calls a request makes on its Beast message.
  \<^item> \<open>Websocket_Session\<close>: every handler, and the event loop that runs them in any order as an inductive
    relation. Messages are written once, in order, one at a time, and the queue can always be
    drained until a write fails; after a failed write it never moves again.
  \<^item> \<open>Scheduler\<close>: the queue, the member functions with their calls on the condition variable, and threads that each run one locked section
    per step, interleaved with clients, clock, notifications and spurious wake-ups. The locale \<open>timed_queue\<close> is what the threads
    need of the multimap. Every function is started once; one thread is never early, two can be; after a stop
    every thread runs at most once more, its notification reaches all that wait, and then all have ended. \<open>Worker\<close>, \<open>Thread_Pool\<close>: starting and stopping, delayed and periodic
    tasks with their cancellation, the choice of the worker with the fewest owners.
  \<^item> \<open>Json_Api\<close>, \<open>Json_Ref\<close>: the operations of \<^verbatim>\<open>nlohmann::json\<close> that the client uses, as a record that
    the code takes as a parameter, with their documented behaviour as the locale \<open>nlohmann\<close>; and a
    printer and parser of JSON that satisfy it. \<open>Pkt_Builder\<close>: the seven packet builders and the
    parser of the open message; what a receiver reads is what the builder was given.
  \<^item> \<open>Licode_Types\<close>: tokens, stream, room, ICE server and event values.
  \<^item> \<open>Signaling\<close>: \<^verbatim>\<open>LicodeSignaling\<close> over the session: dispatch of server messages by code, the
    handshake that sends the token, and that \<^verbatim>\<open>SendMsg\<close> and the ping never meet a null session.
  \<^item> \<open>Room\<close>, \<open>Room_Props\<close>: \<^verbatim>\<open>LicodeRoom\<close> with its stream objects in a store, since the tables, the
    queues and the posted lambdas share them; the locale \<open>stream_table\<close> is what the invariant needs of
    either table. Invariant of all runs in which the client publishes no object that the room holds, matching of answers to
    requests, outcome of a join, and a null entry that the code creates itself.
  \<^item> \<open>Nuve_Api\<close>: the HTTP session, whose handlers are lists of actions so that the waiting caller can
    wake between any two of them, and the REST calls with their signature. \<open>Nuve_Session\<close>: the owners of a session,
    among them the pointers that are bound to its handlers, and its destructor, which may run on either of two threads; every run ends with it.
  \<^item> \<open>Webrtc\<close>, \<open>Main_App\<close>: the wrapper, the connection and its callbacks; the example client
    as observer of the room and of the connections, and \<^verbatim>\<open>main\<close>.
  \<^item> \<open>Client_Frames\<close>: the type of the texts that the client sends, \<open>client_frame\<close>, and for each operation of signaling,
    room and client that what it does to its session are sends of such texts and a disconnect. \<open>Client_System\<close>:
    the running client. The session's event loop, signaling, room, worker, ping timer and WebRTC's threads
    take steps in any order (\<open>sys_step\<close>, from \<open>sys_start\<close>, the state in which \<^verbatim>\<open>main\<close> waits). Every run
    is a run of the session's event loop alone, so that its invariant carries over; \<open>lists_room\<close> and \<open>grants_token\<close>, the answers of the server
    with which \<^verbatim>\<open>main\<close> comes to that state; frames have the
    protocol's type, none is lost, and they are written in the order of the calls.
  \<^item> \<open>Ref_Count\<close> (\<^verbatim>\<open>api/scoped_refptr.h\<close>, \<^verbatim>\<open>rtc_base/ref_counter.h\<close> and \<^verbatim>\<open>rtc_base/ref_counted_object.h\<close> under
    \<^verbatim>\<open>third/webrtc/include\<close>): the reference counting by which the client owns its peer connections
    and observers. Programs that keep to its ownership rules never touch a destroyed object, and move
    assignment is equivalent to its plain reading.
  \<^item> \<open>Rtc_Buffer\<close> (\<^verbatim>\<open>rtc_base/buffer.h\<close>): the growable buffer over a heap of cells that may be uninitialised and an
    allocator that may fail. Programs on several buffers, moves and swaps included, refine programs on lists, whatever throws; they are undefined only
    where zero elements are copied into a buffer without a block; growing copies a linear number of elements in all; the variant that
    zeroes its memory gives back nothing but zeros. \<open>Byte_Io\<close> (\<^verbatim>\<open>modules/rtp_rtcp/source/byte_io.h\<close>): integers of any width that the
    \<^verbatim>\<open>static_assert\<close>s accept in both byte orders; the locale \<open>byte_layout\<close> is proved once and interpreted for each order. \<open>Byte_Writer\<close>
    (\<^verbatim>\<open>rtc_base/byte_order.h\<close>, \<^verbatim>\<open>rtc_base/byte_buffer.h\<close>): what the writer appends to its buffer, which it knows only through the
    locale \<open>append_buffer\<close>, is read back on a host of either byte order.
  \<^item> \<open>Sigslot\<close> (\<^verbatim>\<open>rtc_base/third_party/sigslot/sigslot.h\<close>): signals and slot objects that know each other, with the list iterators of
    running emissions. No run uses a destroyed object, and an emission reaches every connection that stays; two uses that break this
    are shown.
  \<^item> \<open>Units\<close> (\<^verbatim>\<open>rtc_base/units/unit_base.h\<close>, \<^verbatim>\<open>api/units\<close>), \<open>Safe_Numerics\<close> (\<^verbatim>\<open>rtc_base/numerics/safe_compare.h\<close>,
    \<^verbatim>\<open>safe_conversions.h\<close>) and \<open>Seq_Nums\<close> (\<^verbatim>\<open>mod_ops.h\<close>, \<^verbatim>\<open>sequence_number_util.h\<close>, \<^verbatim>\<open>modules/include/module_common_types_public.h\<close>): time, data and
    rates as extended integers with their rounding and their overflow; comparisons and casts between any two integer types; the order of
    numbers that wrap and the classes that unwrap them, both instances of the locale \<open>unwrapper\<close>.
  \<^item> \<open>Swap_Queue\<close> (\<^verbatim>\<open>rtc_base/swap_queue.h\<close>): one producer and one consumer whose calls are cut at their atomic accesses; every
    interleaving is a run of a bounded queue, and no slot is accessed by both at once. \<open>Moving_Stats\<close>
    (\<^verbatim>\<open>moving_max_counter.h\<close>, \<^verbatim>\<open>percentile_filter.h\<close>, \<^verbatim>\<open>moving_median_filter.h\<close>): maximum, percentile and median are those of the samples
    they should be of. \<open>Unique_Id\<close> (\<^verbatim>\<open>rtc_base/unique_id_generator.h\<close>): numbers are never generated twice, nor after they were
    made known.
  \<^item> This theory: the properties that span all components: from \<^verbatim>\<open>main\<close>'s start to the subscriptions on the
    wire, and from the frame with an offer to the frame with its answer.

  \<^bold>\<open>Bounds.\<close> No loop needs fuel: loops over lists are structural, the loops of the scheduler, of the variable-length integers and
  of the number generator have termination proofs, and threads, event loops, rooms, signals and the two ends of the swap queue are step
  relations whose reachable states are unbounded. Numeric bounds come from the types: the 32 bits of a reference counter overflow after
  \<open>2\<^sup>31\<close> owners, and programs of fewer than \<open>2\<^sup>31 - 2\<close> operations cannot have that many; a \<^verbatim>\<open>float\<close> counts exactly up to
  \<open>2\<^sup>24\<close>, which bounds the collections of the percentile filter; unwrapped numbers stay below \<open>2\<^sup>62\<close>, far from the end of an
  \<^verbatim>\<open>int64_t\<close>. Iteration over a \<^verbatim>\<open>std::unordered_map\<close> has no specified order; the code that
  iterates takes the order as a parameter and the properties hold for all orders.

  \<^bold>\<open>Parameters.\<close> JSON, the hash and the base64 iterators, clock and random engine, the Beast tables
  of header and method names, the server's answers, the WebRTC factory and the parser of
  session descriptions are arguments, with what the code relies on as named hypotheses. The allocator of the buffers, the byte
  order of the host and the size of its pointers are arguments too, over which the properties quantify.

  \<^bold>\<open>Not modelled.\<close> The bytes on the wire below Beast, Asio's execution of an operation, logging, media and
  codecs; the stream options (time-outs, user agent) of the websocket; \<^verbatim>\<open>core/licode_user.h\<close>, an
  empty class; members of \<^verbatim>\<open>LicodeRoom\<close> that are declared and have no body; \<^verbatim>\<open>HttpRequest::Header\<close>,
  which cannot be instantiated; of the headers of WebRTC, the many that only declare what the binary library defines, and those
  whose code is media processing or calls on the operating system. The memory orders of the swap queue's atomics are those under which
  interleaving is exact, given that its accesses do not overlap; sigslot's locking policies are left out, as the signals run in one
  thread; floating-point overloads of units and casts are not modelled. The example client joins
  once, so the running client has one session, and an error that leaves a handler ends it; that posted functions
  run in order is the parameter \<open>fifo\<close>, which Asio promises for a single thread. Data races between the room's getters and its worker
  are outside the model: a message and a posted lambda are atomic steps.
\<close>

section \<open>A client in a room\<close>

text \<open>A client whose room has a connected session, before the server's answer to the token.\<close>

definition example_client :: "(json, string) app" where
  "example_client = \<lparr>ap_wrapper = fst (WebrtcWrapper_Init WebrtcWrapper_Instance),
     ap_room = (LicodeRoom_new no_token)\<lparr>rm_sig := (rm_sig (LicodeRoom_new no_token :: json room))
       \<lparr>sg_state := SConnected, sg_websocket := Some connected_session\<rparr>\<rparr>,
     ap_peers = [], ap_sinks = []\<rparr>"

text \<open>The same client once the stream 7 of another client has a connection and a peer connection.\<close>

definition example_stream :: stream_info where
  "example_stream = si_SetConnectionId ''c'' (LicodeStreamInfo_new 7 True True False ''l'' False ''null'')"

definition example_peer :: "string connection" where
  "example_peer = \<lparr>wc_id = 7, wc_observer = True,
     wc_config = \<lparr>rc_sdp_semantics = KPlanB, rc_enable_dtls_srtp = True, rc_type = TrNoHost, rc_servers = []\<rparr>,
     wc_pc = True, wc_calls = []\<rparr>"

definition example_subscribed :: "(json, string) app" where
  "example_subscribed = example_client\<lparr>ap_room := (ap_room example_client)\<lparr>rm_heap := [example_stream],
     rm_remote := [(7, Some 0)], rm_erizo_id := ''e''\<rparr>, ap_peers := [(7, Some example_peer)]\<rparr>"

lemma example_client_online: "online (rm_sig (ap_room example_client))"
  by (simp add: online_def example_client_def connected_session_def)

lemma example_client_fields:
  "sg_init_token_cb (rm_sig (ap_room example_client)) = Some InitTokenCb" "rm_posted (ap_room example_client) = []"
  "ww_init (ap_wrapper example_client)" "re_factory example_rtc (ww_thread (ap_wrapper example_client))"
  by (simp_all add: example_client_def example_rtc_def WebrtcWrapper_Init_def WebrtcWrapper_Instance_def
      LicodeRoom_new_def LicodeSignaling_new_def sg_SetOnPublishCallback_def sg_SetOnSubscribeCallback_def
      sg_SetOnEventCallback_def sg_SetOnSignalingDisconnectCallback_def sg_SetOnInitTokenCallback_def)

lemma join_answer_text: "no_digit join_answer" "str_ok (''43333'' @ join_answer)"
  by (simp_all add: join_answer_def join_json_def no_digit_def npos_def size_max_def show_int_def show_nat.simps is_digit_def
      dump_str_def escape_def escapes_def)

text \<open>
  C13: From the frame with the server's answer to the token, whose streams have distinct ids, to the frames that ask for the room's
  streams. The answer puts the room into the connected state; then the worker runs what was posted
  for it: every stream of the answer gets a peer connection, its id is queued for the
  subscription's answer in the order of the answer, and one subscription per stream, with that
  stream's id, is handed to the session in the same order.
\<close>

theorem joining_subscribes:
  assumes J: "nlohmann J obj arr plain"
    and client: "online (rm_sig (ap_room ap))" "sg_init_token_cb (rm_sig (ap_room ap)) = Some InitTokenCb"
      "rm_posted (ap_room ap) = []" "ww_init (ap_wrapper ap)" "re_factory R (ww_thread (ap_wrapper ap))"
    and answer: "no_digit body" "str_ok (''43333'' @ body)" "j_parse J body = Inr json"
      "arr json = Some [j_string J ''success'', b]" "join_body J obj arr v b" "distinct (map si_id (jm_streams v))"
  shows "\<exists>ap1 ap2 pkts. on_room (room_message J (''43111'' @ body)) ap = (Inr (), ap1) \<and>
    app_worker J R order ap1 = (Inr (), ap2) \<and> rm_state (ap_room ap2) = RConnected \<and> rm_posted (ap_room ap2) = [] \<and>
    rm_pending_subscribe (ap_room ap2) = rm_pending_subscribe (ap_room ap) @ map si_id (jm_streams v) \<and>
    (\<forall>s \<in> set (jm_streams v). \<exists>c. map_of (ap_peers ap2) (si_id s) = Some (Some c)) \<and>
    list_all2 (\<lambda>s pkt. \<exists>j. arrives J (Inr pkt) j \<and> str_at J [Idx 0] j = Inr ''subscribe'' \<and>
      uint_at J [Idx 1, Key ''streamId''] j = Inr (si_id s)) (jm_streams v) pkts \<and>
    sg_calls (rm_sig (ap_room ap2)) = sg_calls (rm_sig (ap_room ap)) @ Call_init_token InitTokenCb body #
      map (\<lambda>pkt. Ws (Post_OnSend (SubscribeStreamMsgHeader @ pkt))) pkts"
proof -
  define r where "r = (ap_room ap)\<lparr>rm_sig := (rm_sig (ap_room ap))
    \<lparr>sg_calls := sg_calls (rm_sig (ap_room ap)) @ [Call_init_token InitTokenCb body]\<rparr>\<rparr>"
  have msg: "on_room (room_message J (''43111'' @ body)) ap = (Inr (), ap\<lparr>ap_room := joined v r\<rparr>)"
    using join_message [OF J client(2) answer(1-5)] by (simp add: on_room_def r_def)
  have "rm_posted r = []" "online (rm_sig r)" using client(1,3) by (simp_all add: r_def online_def)
  then obtain ap1 ap2 where ap2: "app_worker J R order (ap\<lparr>ap_room := joined v r\<rparr>) = (Inr (), ap2)"
    "subscribed J ap1 (jm_streams v) ap2" and ap1: "ap1 = ap\<lparr>ap_room := (joined v r)
      \<lparr>rm_posted := [], rm_observed := rm_observed r @ [Obs_OnJoinRoom (jm_id v)]\<rparr>\<rparr>"
    using joined_worker [OF J, of "ap\<lparr>ap_room := joined v r\<rparr>" v r R order] client(4,5) answer(6) by auto
  obtain pkts where pkts: "list_all2 (\<lambda>s pkt. subscribe_packet J (si_id s) = Inr pkt) (jm_streams v) pkts"
    "sg_calls (rm_sig (ap_room ap2)) = sg_calls (rm_sig (ap_room ap1)) @
       map (\<lambda>pkt. Ws (Post_OnSend (SubscribeStreamMsgHeader @ pkt))) pkts"
    using ap2(2) unfolding subscribed_def by blast
  have "list_all2 (\<lambda>s pkt. \<exists>j. arrives J (Inr pkt) j \<and> str_at J [Idx 0] j = Inr ''subscribe'' \<and>
      uint_at J [Idx 1, Key ''streamId''] j = Inr (si_id s)) (jm_streams v) pkts"
    using pkts(1) by (rule list_all2_mono) (metis subscribe_packet_arrives [OF J] sum.inject(2))
  moreover have "rm_state (ap_room ap2) = RConnected" "rm_posted (ap_room ap2) = []"
    "rm_pending_subscribe (ap_room ap2) = rm_pending_subscribe (ap_room ap) @ map si_id (jm_streams v)"
    "\<forall>s \<in> set (jm_streams v). \<exists>c. map_of (ap_peers ap2) (si_id s) = Some (Some c)"
    using ap2(2) unfolding subscribed_def has_peer_def by (simp_all add: ap1 r_def joined_def)
  moreover have "sg_calls (rm_sig (ap_room ap2)) = sg_calls (rm_sig (ap_room ap)) @ Call_init_token InitTokenCb body #
      map (\<lambda>pkt. Ws (Post_OnSend (SubscribeStreamMsgHeader @ pkt))) pkts"
    using pkts(2) by (simp add: ap1 r_def joined_def)
  ultimately show ?thesis using msg ap2(1) by blast
qed

theorem joining_subscribes_witness:
  "\<exists>ap1 ap2. on_room (room_message json_ref (''43111'' @ join_answer)) example_client = (Inr (), ap1) \<and>
    app_worker json_ref example_rtc id ap1 = (Inr (), ap2) \<and> rm_pending_subscribe (ap_room ap2) = [7]"
proof -
  have "arr_of (JArr [JStr ''success'', join_json]) = Some [j_string json_ref ''success'', join_json]"
    by (simp add: arr_of_def json_ref_def)
  moreover have "distinct (map si_id (jm_streams join_values))" by (simp add: join_values_def)
  ultimately show ?thesis
    using joining_subscribes [OF ref.nlohmann_axioms example_client_online example_client_fields join_answer_text
        join_answer_arrives _ join_values_body, of id]
    by (fastforce simp: join_values_def example_client_def LicodeRoom_new_def LicodeStreamInfo_new_def)
qed

text \<open>
  The round of an offer. The server's offer for the connection of a stream is set as the remote
  description of that stream's peer connection, which is then asked for an answer; the answer that
  the connection makes is set as its local description and posted to the worker, and the packet
  that the worker hands to the session answers that same connection, with the server node's id and
  the text of the answer.
\<close>

theorem offer_answered:
  assumes J: "nlohmann J obj arr plain"
    and order: "\<forall>m. set (order m) = set m"
    and stream: "map_of (rm_remote (ap_room ap)) k = Some (Some a)" "a < length (rm_heap (ap_room ap))"
      "rm_heap (ap_room ap) ! a = s" "si_id s = k"
    and others: "\<forall>(k', p) \<in> set (rm_remote (ap_room ap)).
      \<exists>i. deref (rm_heap (ap_room ap)) p = Inr i \<and> (si_connection_id i = si_connection_id s \<longrightarrow> p = Some a)"
    and peer: "map_of (ap_peers ap) k = Some (Some conn)" "wc_pc conn"
    and sdp: "re_parse R Offer offer = Some d" "re_parse R Answer answer = Some d'"
    and asc: "ascii (rm_erizo_id (ap_room ap))" "ascii (si_connection_id s)" "ascii answer"
    and on: "online (rm_sig (ap_room ap))"
  shows "\<exists>ap1 ap2 ap3 pkt j conn'. app_task J R order (TOffer (si_connection_id s) offer) ap = (Inr (), ap1) \<and>
    app_peer_event R (OnSdpCreateSuccess k Answer answer) ap1 = (Inr (), ap2) \<and>
    rm_posted (ap_room ap2) = rm_posted (ap_room ap) @ [TSendAnswer k answer] \<and>
    app_task J R order (TSendAnswer k answer) ap2 = (Inr (), ap3) \<and>
    map_of (ap_peers ap3) k = Some (Some conn') \<and>
    wc_calls conn' = wc_calls conn @ [Pc_SetRemoteDescription True d, Pc_CreateAnswer plan_b_options, Pc_SetLocalDescription False d'] \<and>
    sg_calls (rm_sig (ap_room ap3)) = sg_calls (rm_sig (ap_room ap)) @ [Ws (Post_OnSend (EventHeader @ pkt))] \<and>
    arrives J (Inr pkt) j \<and> str_at J [Idx 1, Key ''connectionId''] j = Inr (si_connection_id s) \<and>
    str_at J [Idx 1, Key ''erizoId''] j = Inr (rm_erizo_id (ap_room ap)) \<and>
    str_at J [Idx 1, Key ''msg'', Key ''type''] j = Inr ''answer'' \<and>
    str_at J [Idx 1, Key ''msg'', Key ''sdp''] j = Inr answer"
proof -
  let ?r = "(ap_room ap)\<lparr>rm_observed := rm_observed (ap_room ap) @ [Obs_OnReceiveOffer (Some a) offer]\<rparr>"
  let ?c1 = "conn\<lparr>wc_calls := wc_calls conn @ [Pc_SetRemoteDescription True d, Pc_CreateAnswer plan_b_options]\<rparr>"
  have "(k, Some a) \<in> set (order (rm_remote (ap_room ap)))" using order map_of_SomeD [OF stream(1)] by simp
  then have found: "find_connection (rm_heap (ap_room ap)) (si_connection_id s) (order (rm_remote (ap_room ap))) = Inr (Some a)"
    using order others stream by (intro find_connection_unique) auto
  obtain ps where ps: "app_task J R order (TOffer (si_connection_id s) offer) ap = (Inr (), ap\<lparr>ap_room := ?r, ap_peers := ps\<rparr>)"
    "map_of ps k = Some (Some ?c1)"
    using offer_step [where J = J and order = order, OF found stream(2) _ peer sdp(1)] stream(3,4) by blast
  obtain qs where qs: "app_peer_event R (OnSdpCreateSuccess k Answer answer) (ap\<lparr>ap_room := ?r, ap_peers := ps\<rparr>) =
      (Inr (), ap\<lparr>ap_peers := qs, ap_room := ?r\<lparr>rm_posted := rm_posted ?r @ [TSendAnswer k answer]\<rparr>\<rparr>)"
    "map_of qs k = Some (Some (?c1\<lparr>wc_calls := wc_calls ?c1 @ [Pc_SetLocalDescription False d']\<rparr>))"
    using answer_step [of "ap\<lparr>ap_room := ?r, ap_peers := ps\<rparr>" k ?c1 R answer d'] ps(2) peer(2) sdp(2) by auto
  let ?r2 = "?r\<lparr>rm_posted := rm_posted ?r @ [TSendAnswer k answer]\<rparr>"
  obtain pkt j where sent: "run_task J order (TSendAnswer k answer) ?r2 = (Inr (), ?r2\<lparr>rm_sig := (rm_sig ?r2)
      \<lparr>sg_calls := sg_calls (rm_sig ?r2) @ [Ws (Post_OnSend (EventHeader @ pkt))]\<rparr>\<rparr>)"
    and j: "arrives J (Inr pkt) j" "str_at J [Idx 1, Key ''connectionId''] j = Inr (si_connection_id s)"
    "str_at J [Idx 1, Key ''erizoId''] j = Inr (rm_erizo_id (ap_room ap))"
    "str_at J [Idx 1, Key ''msg'', Key ''type''] j = Inr ''answer''" "str_at J [Idx 1, Key ''msg'', Key ''sdp''] j = Inr answer"
    using send_answer_step [OF J, of ?r2 k a answer order] stream asc on by auto
  let ?ap2 = "ap\<lparr>ap_peers := qs, ap_room := ?r2\<rparr>"
  have "app_task J R order (TSendAnswer k answer) ?ap2 = (Inr (), ?ap2\<lparr>ap_room := ?r2\<lparr>rm_sig := (rm_sig ?r2)
      \<lparr>sg_calls := sg_calls (rm_sig ?r2) @ [Ws (Post_OnSend (EventHeader @ pkt))]\<rparr>\<rparr>\<rparr>)"
    unfolding app_task_def using sent by (simp add: sbind_def on_room_def del: run_task.simps)
  with ps(1) qs j show ?thesis by fastforce
qed

theorem offer_answered_witness:
  "\<exists>ap1 ap2. app_task json_ref example_rtc id (TOffer ''c'' ''o'') example_subscribed = (Inr (), ap1) \<and>
    app_peer_event example_rtc (OnSdpCreateSuccess 7 Answer ''a'') ap1 = (Inr (), ap2) \<and>
    rm_posted (ap_room ap2) = [TSendAnswer 7 ''a'']"
proof -
  have "online (rm_sig (ap_room example_subscribed))" using example_client_online by (simp add: example_subscribed_def)
  then show ?thesis
    using offer_answered [OF ref.nlohmann_axioms, of id example_subscribed 7 0 example_stream example_peer
        example_rtc "''o''" "''o''" "''a''" "''a''"]
    by (fastforce simp: example_subscribed_def example_stream_def si_SetConnectionId_def LicodeStreamInfo_new_def
        example_peer_def example_rtc_def ascii_def deref_def example_client_fields)
qed










text \<open>
  C2: The round of an offer, end to end, in a state of the running client (one with its
  invariant) in which the client is connected, a read is pending, no write has failed and the worker has nothing left
  to do; in which no entry of the remote streams is null, one stream has the offer's connection id, that stream has a peer
  connection, and the texts that are sent are ASCII. The server's frame with an offer for the connection of that stream arrives; there is a run in
  which the worker sets it on that stream's peer connection and asks for an answer, WebRTC makes the answer,
  it is set as the local description, and the one frame written behind all frames before it
  answers that same connection, with the server node's id and the text of the answer.
\<close>

theorem offer_answered_on_wire:
  assumes J: "nlohmann J obj arr plain" and inv: "sys_inv J True w0 S" "ws_inv w0"
    and S: "online (sy_sig S)" "Async_read \<in> set (sy_ops S)" "\<not> sy_failed S" "sy_posted S = []"
    and stream: "map_of (rm_remote (ap_room (sy_app S))) k = Some (Some a)" "a < length (rm_heap (ap_room (sy_app S)))"
      "rm_heap (ap_room (sy_app S)) ! a = s" "si_id s = k"
    and others: "\<forall>(k', p) \<in> set (rm_remote (ap_room (sy_app S))).
      \<exists>i. deref (rm_heap (ap_room (sy_app S))) p = Inr i \<and> (si_connection_id i = si_connection_id s \<longrightarrow> p = Some a)"
    and peer: "map_of (ap_peers (sy_app S)) k = Some (Some conn)" "wc_pc conn"
    and sdp: "re_parse R Offer offer = Some d" "re_parse R Answer answer = Some d'"
    and asc: "ascii (rm_erizo_id (ap_room (sy_app S)))" "ascii (si_connection_id s)" "ascii answer"
    and msg: "no_digit txt" "str_ok (''43333'' @ txt)" "j_parse J txt = Inr ev" "offer_event J obj arr plain ev (si_connection_id s) offer"
  shows "\<exists>S' pkt j conn'. (sys_step J R True)\<^sup>*\<^sup>* S S' \<and> sy_written S' = handed S @ [''42'' @ pkt] \<and>
    map_of (ap_peers (sy_app S')) k = Some (Some conn') \<and>
    wc_calls conn' = wc_calls conn @ [Pc_SetRemoteDescription True d, Pc_CreateAnswer plan_b_options, Pc_SetLocalDescription False d'] \<and>
    arrives J (Inr pkt) j \<and> str_at J [Idx 0] j = Inr ''connectionMessage'' \<and>
    str_at J [Idx 1, Key ''connectionId''] j = Inr (si_connection_id s) \<and>
    str_at J [Idx 1, Key ''erizoId''] j = Inr (rm_erizo_id (ap_room (sy_app S))) \<and>
    str_at J [Idx 1, Key ''msg'', Key ''type''] j = Inr ''answer'' \<and>
    str_at J [Idx 1, Key ''msg'', Key ''sdp''] j = Inr answer"
  by (rule answering [OF assms])

text \<open>The client with stream 7, its session waiting for the next frame.\<close>

definition example_system :: "(json, string) sys" where
  "example_system = set_session (connected_session\<lparr>ws_receive := Some OnMsgCb\<rparr>)
     \<lparr>sy_app = example_subscribed, sy_ops = [Async_read], sy_sent = [], sy_written = [], sy_failed = False\<rparr>"

definition example_offer :: json where
  "example_offer = JArr [JStr ''connection_message_erizo'', JObj [(''connectionId'', JStr ''c''),
     (''evt'', JObj [(''sdp'', JStr ''o''), (''type'', JStr ''offer'')]), (''info'', JNum 202)]]"

lemma example_system_inv: "\<exists>w0. sys_inv json_ref True w0 example_system \<and> ws_inv w0"
proof -
  let ?w = "(ws_start (connected_session\<lparr>ws_receive := Some OnMsgCb\<rparr>))\<lparr>w_ops := [Async_read]\<rparr>"
  have "accounts json_ref True example_system" "matches [] example_system ?w"
    by (simp_all add: accounts_def matches_def example_system_def set_session_def example_subscribed_def example_client_def ok_tasks_def
        handed_def sg_callbacks_def LicodeRoom_new_def LicodeSignaling_new_def ws_start_def sg_SetOnPublishCallback_def
        sg_SetOnSubscribeCallback_def sg_SetOnEventCallback_def sg_SetOnSignalingDisconnectCallback_def sg_SetOnInitTokenCallback_def)
  moreover have "ws_inv ?w" by (simp add: ws_inv_def ws_start_def w_writes_def connected_session_def)
  ultimately show ?thesis unfolding sys_inv_def by blast
qed

lemma example_offer_parses: "j_parse json_ref (dump example_offer) = Inr example_offer"
proof -
  have "parse (dump example_offer) = Some example_offer" unfolding example_offer_def by (rule parse_dump) code_simp
  then show ?thesis by (simp add: json_ref_def ref_parse_def)
qed

lemma example_offer_event: "offer_event json_ref obj_of arr_of json_plain example_offer ''c'' ''o''"
proof -
  let ?evt = "JObj [(''sdp'', JStr ''o''), (''type'', JStr ''offer'')]"
  let ?body = "JObj [(''connectionId'', JStr ''c''), (''evt'', ?evt), (''info'', JNum 202)]"
  have "json_plain ?body" by code_simp
  moreover have "arr_of example_offer = Some [JStr ''connection_message_erizo'', ?body]" by (simp add: example_offer_def arr_of_def)
  moreover have "obj_of ?body = Some (map_of [(''connectionId'', JStr ''c''), (''evt'', ?evt), (''info'', JNum 202)])"
    "obj_of ?evt = Some (map_of [(''sdp'', JStr ''o''), (''type'', JStr ''offer'')])" by (simp_all add: obj_of_def)
  ultimately show ?thesis unfolding offer_event_def by (fastforce simp: json_ref_def)
qed

theorem offer_answered_on_wire_witness:
  "\<exists>S' pkt. (sys_step json_ref example_rtc True)\<^sup>*\<^sup>* example_system S' \<and> sy_written S' = [''42'' @ pkt]"
proof -
  obtain w0 where w0: "sys_inv json_ref True w0 example_system" "ws_inv w0" using example_system_inv by blast
  note defs = example_system_def set_session_def example_subscribed_def example_client_def
  have "handed example_system = []"
    by (simp add: handed_def defs LicodeRoom_new_def LicodeSignaling_new_def sg_SetOnPublishCallback_def
        sg_SetOnSubscribeCallback_def sg_SetOnEventCallback_def sg_SetOnSignalingDisconnectCallback_def sg_SetOnInitTokenCallback_def)
  moreover have "online (sy_sig example_system)" by (simp add: defs online_def connected_session_def)
  moreover have "no_digit (dump example_offer)" "str_ok (''43333'' @ dump example_offer)"
    by (simp_all add: example_offer_def no_digit_def npos_def size_max_def show_int_def show_nat.simps is_digit_def
        dump_str_def escape_def escapes_def)
  ultimately show ?thesis
    using offer_answered_on_wire [OF ref.nlohmann_axioms w0, of 7 0 example_stream example_peer example_rtc "''o''" "''o''" "''a''" "''a''"
        "dump example_offer" example_offer] example_offer_parses example_offer_event
    by (fastforce simp: defs LicodeRoom_new_def example_stream_def si_SetConnectionId_def LicodeStreamInfo_new_def
        example_peer_def example_rtc_def ascii_def deref_def)
qed

end
